(* ===== verification/Cpp_Prelude.thy ===== *)
theory Cpp_Prelude
  imports Main "HOL-Library.Word"
begin

text \<open>
  What every component of the development shares: the results of a C++ call (a value or
  a thrown exception), the loops of the code as monadic folds over an index range, and the
  generic list and word lemmas the component theories use.

  Conventions of the whole development.  A call that can throw returns \<open>'a res\<close>, the sum of
  \<open>exn\<close> and the value.  Undefined behaviour that the code itself does not test for (a null
  dereference, a slot that holds no object, an index out of an array) is the value
  \<open>Inl Undefined_Behaviour\<close>, so that a theorem that a call returns \<open>Inr\<close> also says that it
  stays within the language.  \<open>std::size_t\<close> values that are bounded by the memory of the
  process are \<open>nat\<close>; the narrower fields of the code (\<open>uint32_t\<close>, \<open>uint16_t\<close>,
  \<open>int64_t\<close>) are kept at their width.
\<close>

section \<open>Results and exceptions\<close>

datatype exn =
    Invalid_Argument string
  | Length_Error string
  | Logic_Error string
  | Out_Of_Range string
  | Runtime_Error string
  | Undefined_Behaviour

type_synonym 'a res = "exn + 'a"

definition bindE :: "'a res \<Rightarrow> ('a \<Rightarrow> 'b res) \<Rightarrow> 'b res" where
  "bindE m f = (case m of Inl e \<Rightarrow> Inl e | Inr x \<Rightarrow> f x)"

lemma bindE_simps [simp]:
  "bindE (Inl e) f = Inl e"
  "bindE (Inr x) f = f x"
  by (simp_all add: bindE_def)

lemma bindE_eq_Inr [simp]:
  "bindE m f = Inr y \<longleftrightarrow> (\<exists>x. m = Inr x \<and> f x = Inr y)"
  by (cases m) auto

lemma bindE_eq_Inl:
  "bindE m f = Inl e \<longleftrightarrow> m = Inl e \<or> (\<exists>x. m = Inr x \<and> f x = Inl e)"
  by (cases m) auto

lemma bindE_assoc: "bindE (bindE m f) g = bindE m (\<lambda>x. bindE (f x) g)"
  by (cases m) auto

lemma bindE_cong [fundef_cong]:
  assumes "m = m'" and "\<And>x. m' = Inr x \<Longrightarrow> f x = g x"
  shows "bindE m f = bindE m' g"
  using assms by (cases m') auto

section \<open>Loops over an index range\<close>

fun foldE :: "('s \<Rightarrow> 'a \<Rightarrow> 's res) \<Rightarrow> 's \<Rightarrow> 'a list \<Rightarrow> 's res" where
  "foldE f s [] = Inr s"
| "foldE f s (x # xs) = bindE (f s x) (\<lambda>s'. foldE f s' xs)"

lemma foldE_append: "foldE f s (xs @ ys) = bindE (foldE f s xs) (\<lambda>s'. foldE f s' ys)"
  by (induction xs arbitrary: s) (simp_all add: bindE_assoc)

lemma foldE_cong [fundef_cong]:
  assumes "s = s'" "xs = ys" "\<And>s x. x \<in> set ys \<Longrightarrow> f s x = g s x"
  shows "foldE f s xs = foldE g s' ys"
  using assms(3) unfolding assms(1,2) by (induction ys arbitrary: s') (auto intro: bindE_cong)

text \<open>
  The rule for a loop that cannot fail: an invariant indexed by the part already visited
  holds at the start and every step returns and re-establishes it.
\<close>

lemma foldE_invariant:
  assumes "P [] s"
    and "\<And>ys x zs s. xs = ys @ x # zs \<Longrightarrow> P ys s \<Longrightarrow> \<exists>s'. f s x = Inr s' \<and> P (ys @ [x]) s'"
  shows "\<exists>s'. foldE f s xs = Inr s' \<and> P xs s'"
proof -
  have "\<exists>s'. foldE f s zs = Inr s' \<and> P xs s'" if "xs = ys @ zs" "P ys s" for ys zs s
    using that
  proof (induction zs arbitrary: ys s)
    case Nil
    then show ?case by simp
  next
    case (Cons z zs)
    from assms(2)[OF Cons.prems] obtain s' where s': "f s z = Inr s'" "P (ys @ [z]) s'" by blast
    from Cons.IH[of "ys @ [z]" s'] s' Cons.prems show ?case by simp
  qed
  from this[of "[]" xs s] assms(1) show ?thesis by simp
qed

text \<open>A loop of \<open>push_back\<close> calls.\<close>

lemma collect_loop:
  "(\<And>i. i \<in> set is \<Longrightarrow> get i = Inr (f i)) \<Longrightarrow>
    foldE (\<lambda>out i. bindE (get i) (\<lambda>e. Inr (out @ [e]))) ys is = Inr (ys @ map f is)"
  by (induction "is" arbitrary: ys) simp_all

text \<open>A loop that only tests its elements: it passes exactly when every test passes.\<close>

lemma foldE_unit_Inr:
  "foldE (\<lambda>_ x. if p x then Inl e else Inr ()) () xs = Inr () \<longleftrightarrow> (\<forall>x \<in> set xs. \<not> p x)"
  by (induction xs) auto

lemma foldE_unit_Inl:
  "foldE (\<lambda>_ x. if p x then Inl e else Inr ()) () xs = Inl e' \<longleftrightarrow> (\<exists>x \<in> set xs. p x) \<and> e' = e"
  by (induction xs) auto

section \<open>Lists and words\<close>

lemma option_eqI: "(\<And>v. x = Some v \<longleftrightarrow> y = Some v) \<Longrightarrow> x = y"
  by (metis option.exhaust)

lemma list_split_at:
  "i < length xs \<Longrightarrow> xs = take i xs @ xs ! i # drop (Suc i) xs"
  by (rule id_take_nth_drop)

lemma take_map_the_update:
  assumes "n < length xs"
  shows "take (Suc n) (xs[n := x]) = take n xs @ [x]"
  using assms by (simp add: take_Suc_conv_app_nth)

lemma set_take_nth: "n \<le> length xs \<Longrightarrow> set (take n xs) = {xs ! i |i. i < n}"
  by (force simp: set_conv_nth)

lemma map_nth_range:
  assumes "j \<le> length xs"
  shows "map ((!) xs) [i..<j] = drop i (take j xs)"
  using assms by (intro nth_equalityI) auto

lemma skip_range:
  assumes "i < n"
  shows "filter (\<lambda>j. j \<noteq> i) [0..<n] = [0..<i] @ [Suc i..<n]"
  using assms upt_add_eq_append[of 0 i "n - i"] by (simp add: upt_conv_Cons filter_id_conv)

lemma map_nth_skip:
  assumes "i < length xs"
  shows "map ((!) xs) (filter (\<lambda>j. j \<noteq> i) [0..<length xs]) = take i xs @ drop (Suc i) xs"
  unfolding skip_range[OF assms] using assms by (simp add: map_nth_range)

lemma concat_slice_le: "length (concat (map f (take n (drop m xs)))) \<le> length (concat (map f xs))"
proof -
  have "concat (map f xs) = concat (map f (take m xs)) @ concat (map f (take n (drop m xs))) @
      concat (map f (drop n (drop m xs)))"
    unfolding concat_append[symmetric] map_append[symmetric] append_take_drop_id ..
  then show ?thesis by simp
qed

lemma unat_of_nat_small: "n < 2 ^ LENGTH('w) \<Longrightarrow> unat (of_nat n :: 'w::len word) = n"
  by (simp add: unsigned_of_nat take_bit_nat_eq_self)

lemma unat_of_nat32 [simp]: "n \<le> 4294967295 \<Longrightarrow> unat (of_nat n :: 32 word) = n"
  by (rule unat_of_nat_small) simp

lemma unat_32_le: "unat (w :: 32 word) \<le> 4294967295"
proof -
  have "unat w < 2 ^ LENGTH(32)" by (rule unsigned_less)
  then show ?thesis by simp
qed

lemma uint_of_int16 [simp]: "0 \<le> i \<Longrightarrow> i \<le> 65535 \<Longrightarrow> uint (word_of_int i :: 16 word) = i"
  by (simp add: unsigned_of_int take_bit_int_eq_self)

lemma half_mod:
  fixes h u :: int
  assumes "0 \<le> u" "u < 2 * h"
  shows "(u + h) mod (2 * h) - h = (if u < h then u else u - 2 * h)"
proof (cases "u < h")
  case False
  have "(u + h) mod (2 * h) = ((u - h) + 2 * h) mod (2 * h)"
    by (rule arg_cong[of _ _ "\<lambda>x. x mod (2 * h)"]) simp
  also have "\<dots> = u - h" using False assms by (simp only: mod_add_self2 mod_pos_pos_trivial)
  finally show ?thesis using False by simp
qed (use assms in simp)

lemma uint64_lt: "uint (v :: 64 word) < 2 ^ 64"
proof -
  have "uint v < 2 ^ LENGTH(64)" by (rule uint_lt2p)
  then show ?thesis by simp
qed

lemma sint64: "sint v = (if uint v < 2 ^ 63 then uint v else uint v - 2 ^ 64)" for v :: "64 word"
proof -
  have two: "2 * (2 :: int) ^ 63 = 2 ^ 64" by simp
  have "sint v = (uint v + 2 ^ 63) mod 2 ^ 64 - 2 ^ 63"
    by (simp add: sint_uint signed_take_bit_eq_take_bit_shift take_bit_eq_mod)
  also have "\<dots> = (if uint v < 2 ^ 63 then uint v else uint v - 2 ^ 64)"
    by (rule half_mod[of "uint v" "2 ^ 63", unfolded two, OF uint_ge_0 uint64_lt])
  finally show ?thesis .
qed

lemma sint_small:
  assumes "unat (w :: 64 word) < 2 ^ 63"
  shows "sint w = int (unat w)"
proof -
  have "int (unat w) < int (2 ^ 63)" using assms by (simp only: of_nat_less_iff)
  then have "uint w < 2 ^ 63" by (simp only: uint_nat of_nat_power of_nat_numeral)
  then show ?thesis unfolding sint64 by (simp only: if_True uint_nat)
qed

section \<open>Trees split in the middle\<close>

text \<open>
  The two sides of the middle of \<open>d\<close> elements, and the height of a tree built from them: the least
  height for its size.
\<close>

lemma halves:
  assumes "0 < (d :: nat)"
  shows "d - Suc (d div 2) = (d - 1) div 2" "Suc (d div 2 + (d - 1) div 2) = d"
  using assms by presburger+

definition least_height :: "nat \<Rightarrow> nat \<Rightarrow> bool" where
  "least_height n h \<longleftrightarrow> n < 2 ^ h \<and> 2 ^ h \<le> 2 * n + (if n = 0 then 1 else 0)"

lemma least_height_empty [simp]: "least_height 0 0"
  by (simp add: least_height_def)

lemma least_height_node:
  assumes d: "0 < d" and l: "least_height (d div 2) l" and r: "least_height ((d - 1) div 2) r"
  shows "least_height d (Suc (max l r))"
proof -
  have le: "2 * (d div 2) \<le> d" "2 * ((d - 1) div 2) \<le> d" by simp_all
  have "2 ^ l \<le> d" using l le(1) d unfolding least_height_def by (auto split: if_splits)
  moreover have "2 ^ r \<le> d" using r le(2) d unfolding least_height_def by (auto split: if_splits)
  ultimately have "2 ^ max l r \<le> d" by (cases "l \<le> r") (simp_all only: max_def if_True if_False)
  moreover have "d div 2 < 2 ^ l" using l by (simp add: least_height_def)
  moreover have "(2::nat) ^ l \<le> 2 ^ max l r" by simp
  ultimately have "d < 2 * 2 ^ max l r" "2 * 2 ^ max l r \<le> 2 * d" by linarith+
  then show ?thesis using d by (simp add: least_height_def)
qed

end
