(* ===== verification/Ordered_Map.thy ===== *)
theory Ordered_Map
  imports Cpp_Prelude
begin

text \<open>
  The abstract specification of the ordered containers.  A container is seen as the list of
  its entries in iteration order, strictly increasing for the comparison object \<open>Comp\<close> of
  the code.  The comparison is an arbitrary strict weak order, as the C++ library requires
  it of \<open>Comp\<close>: two keys are the same key of the map when neither is less than the other, and
  they need not be equal values.
\<close>

section \<open>Comparison objects\<close>

locale strict_weak_order =
  fixes lt :: "'k \<Rightarrow> 'k \<Rightarrow> bool"
  assumes irrefl: "\<not> lt x x"
    and trans: "lt x y \<Longrightarrow> lt y z \<Longrightarrow> lt x z"
    and cotrans: "lt x z \<Longrightarrow> lt x y \<or> lt y z"
begin

lemma asym: "lt x y \<Longrightarrow> \<not> lt y x"
  using irrefl trans by blast

lemma lt_not_lt_trans: "lt x y \<Longrightarrow> \<not> lt z y \<Longrightarrow> lt x z"
  using cotrans by blast

lemma not_lt_lt_trans: "\<not> lt y x \<Longrightarrow> lt y z \<Longrightarrow> lt x z"
  using cotrans by blast

end

definition equivalent :: "('k \<Rightarrow> 'k \<Rightarrow> bool) \<Rightarrow> 'k \<Rightarrow> 'k \<Rightarrow> bool" where
  "equivalent lt x y \<longleftrightarrow> \<not> lt x y \<and> \<not> lt y x"

interpretation linorder_less: strict_weak_order "(<) :: 'a::linorder \<Rightarrow> 'a \<Rightarrow> bool"
  by unfold_locales auto

section \<open>The specification\<close>

definition sorted_entries :: "('k \<Rightarrow> 'k \<Rightarrow> bool) \<Rightarrow> ('k \<times> 'v) list \<Rightarrow> bool" where
  "sorted_entries lt xs = sorted_wrt (\<lambda>a b. lt (fst a) (fst b)) xs"

definition lowers :: "('k \<Rightarrow> 'k \<Rightarrow> bool) \<Rightarrow> 'k \<Rightarrow> ('k \<times> 'v) list \<Rightarrow> ('k \<times> 'v) list" where
  "lowers lt k xs = filter (\<lambda>e. lt (fst e) k) xs"

definition uppers :: "('k \<Rightarrow> 'k \<Rightarrow> bool) \<Rightarrow> 'k \<Rightarrow> ('k \<times> 'v) list \<Rightarrow> ('k \<times> 'v) list" where
  "uppers lt k xs = filter (\<lambda>e. lt k (fst e)) xs"

definition same :: "('k \<Rightarrow> 'k \<Rightarrow> bool) \<Rightarrow> 'k \<Rightarrow> ('k \<times> 'v) list \<Rightarrow> ('k \<times> 'v) list" where
  "same lt k xs = filter (\<lambda>e. \<not> lt (fst e) k \<and> \<not> lt k (fst e)) xs"

text \<open>Lookup, and what each update makes of the entry list.\<close>

definition om_find :: "('k \<Rightarrow> 'k \<Rightarrow> bool) \<Rightarrow> ('k \<times> 'v) list \<Rightarrow> 'k \<Rightarrow> 'v option" where
  "om_find lt xs k = (case same lt k xs of [] \<Rightarrow> None | e # _ \<Rightarrow> Some (snd e))"

definition om_insert :: "('k \<Rightarrow> 'k \<Rightarrow> bool) \<Rightarrow> ('k \<times> 'v) list \<Rightarrow> 'k \<Rightarrow> 'v \<Rightarrow> ('k \<times> 'v) list option" where
  "om_insert lt xs k v =
     (case same lt k xs of [] \<Rightarrow> Some (lowers lt k xs @ (k, v) # uppers lt k xs) | _ # _ \<Rightarrow> None)"

definition om_update :: "('k \<Rightarrow> 'k \<Rightarrow> bool) \<Rightarrow> ('k \<times> 'v) list \<Rightarrow> 'k \<Rightarrow> 'v \<Rightarrow> ('k \<times> 'v) list option" where
  "om_update lt xs k v =
     (case same lt k xs of [] \<Rightarrow> None
      | e # _ \<Rightarrow> Some (lowers lt k xs @ (fst e, v) # uppers lt k xs))"

definition om_erase :: "('k \<Rightarrow> 'k \<Rightarrow> bool) \<Rightarrow> ('k \<times> 'v) list \<Rightarrow> 'k \<Rightarrow> ('k \<times> 'v) list option" where
  "om_erase lt xs k =
     (case same lt k xs of [] \<Rightarrow> None | _ # _ \<Rightarrow> Some (lowers lt k xs @ uppers lt k xs))"

definition om_set :: "('k \<Rightarrow> 'k \<Rightarrow> bool) \<Rightarrow> ('k \<times> 'v) list \<Rightarrow> 'k \<Rightarrow> 'v \<Rightarrow> ('k \<times> 'v) list" where
  "om_set lt xs k v =
     (case om_update lt xs k v of Some ys \<Rightarrow> ys
      | None \<Rightarrow> lowers lt k xs @ (k, v) # uppers lt k xs)"

lemmas om_defs = om_find_def om_insert_def om_update_def om_erase_def om_set_def
lemmas part_defs = lowers_def uppers_def same_def

lemma sorted_entries_simps [simp]:
  "sorted_entries lt []"
  "sorted_entries lt [e]"
  "sorted_entries lt (e # xs) \<longleftrightarrow> (\<forall>x \<in> set xs. lt (fst e) (fst x)) \<and> sorted_entries lt xs"
  by (auto simp: sorted_entries_def)

lemma sorted_entries_append [simp]:
  "sorted_entries lt (xs @ ys) \<longleftrightarrow>
     sorted_entries lt xs \<and> sorted_entries lt ys \<and>
     (\<forall>x \<in> set xs. \<forall>y \<in> set ys. lt (fst x) (fst y))"
  by (auto simp: sorted_entries_def sorted_wrt_append)

lemma part_append:
  "lowers lt k (xs @ ys) = lowers lt k xs @ lowers lt k ys"
  "uppers lt k (xs @ ys) = uppers lt k xs @ uppers lt k ys"
  "same lt k (xs @ ys) = same lt k xs @ same lt k ys"
  by (simp_all add: part_defs)

lemma part_Nil [simp]:
  "lowers lt k [] = []" "uppers lt k [] = []" "same lt k [] = []"
  by (simp_all add: part_defs)

lemma part_all_below:
  assumes "\<And>e. e \<in> set xs \<Longrightarrow> lt (fst e) k \<and> \<not> lt k (fst e)"
  shows "lowers lt k xs = xs" "uppers lt k xs = []" "same lt k xs = []"
  using assms by (auto simp: part_defs filter_empty_conv)

lemma part_all_above:
  assumes "\<And>e. e \<in> set xs \<Longrightarrow> lt k (fst e) \<and> \<not> lt (fst e) k"
  shows "lowers lt k xs = []" "uppers lt k xs = xs" "same lt k xs = []"
  using assms by (auto simp: part_defs filter_empty_conv)

lemma om_find_Nil [simp]: "om_find lt [] k = None"
  by (simp add: om_defs)

lemma om_insert_Nil [simp]: "om_insert lt [] k v = Some [(k, v)]"
  by (simp add: om_defs)

lemma om_update_Nil [simp]: "om_update lt [] k v = None"
  by (simp add: om_defs)

lemma om_erase_Nil [simp]: "om_erase lt [] k = None"
  by (simp add: om_defs)

lemma om_set_Nil [simp]: "om_set lt [] k v = [(k, v)]"
  by (simp add: om_defs)

section \<open>Locality\<close>

text \<open>
  An operation on a sorted list only touches the side of a cut its key belongs to: below a
  non-empty middle part \<open>bs\<close> (the entries of one tree node), or above it.  These are the
  steps of every recursive descent.
\<close>

context strict_weak_order
begin

lemma part_left:
  assumes "sorted_entries lt (bs @ ys)" and "bs \<noteq> []" and "lt k (fst (hd bs))"
  shows "lowers lt k (xs @ bs @ ys) = lowers lt k xs"
    and "uppers lt k (xs @ bs @ ys) = uppers lt k xs @ bs @ ys"
    and "same lt k (xs @ bs @ ys) = same lt k xs"
proof -
  have gt: "lt k (fst e) \<and> \<not> lt (fst e) k" if "e \<in> set (bs @ ys)" for e
  proof -
    from assms(1,2) that have "e = hd bs \<or> lt (fst (hd bs)) (fst e)"
      by (cases bs) auto
    with assms(3) have "lt k (fst e)" using trans by blast
    then show ?thesis using asym by blast
  qed
  show "lowers lt k (xs @ bs @ ys) = lowers lt k xs"
    and "uppers lt k (xs @ bs @ ys) = uppers lt k xs @ bs @ ys"
    and "same lt k (xs @ bs @ ys) = same lt k xs"
    using part_all_above[where xs = "bs @ ys" and lt = lt and k = k] gt
    by (simp_all add: part_append)
qed

lemma part_right:
  assumes "sorted_entries lt (xs @ bs)" and "bs \<noteq> []" and "lt (fst (last bs)) k"
  shows "lowers lt k (xs @ bs @ ys) = xs @ bs @ lowers lt k ys"
    and "uppers lt k (xs @ bs @ ys) = uppers lt k ys"
    and "same lt k (xs @ bs @ ys) = same lt k ys"
proof -
  have gt: "lt (fst e) k \<and> \<not> lt k (fst e)" if "e \<in> set (xs @ bs)" for e
  proof -
    from assms(1,2) that have "e = last bs \<or> lt (fst e) (fst (last bs))"
      by (cases bs rule: rev_cases) auto
    with assms(3) have "lt (fst e) k" using trans by blast
    then show ?thesis using asym by blast
  qed
  show "lowers lt k (xs @ bs @ ys) = xs @ bs @ lowers lt k ys"
    and "uppers lt k (xs @ bs @ ys) = uppers lt k ys"
    and "same lt k (xs @ bs @ ys) = same lt k ys"
    using part_all_below[where xs = "xs @ bs" and lt = lt and k = k] gt
    by (simp_all add: part_append)
qed

text \<open>The key is neither below the first nor above the last entry of the middle part.\<close>

lemma part_middle:
  assumes "sorted_entries lt (xs @ bs @ ys)" and "bs \<noteq> []"
    and "\<not> lt k (fst (hd bs))" and "\<not> lt (fst (last bs)) k"
  shows "lowers lt k (xs @ bs @ ys) = xs @ lowers lt k bs"
    and "uppers lt k (xs @ bs @ ys) = uppers lt k bs @ ys"
    and "same lt k (xs @ bs @ ys) = same lt k bs"
proof -
  have l: "lt (fst e) k \<and> \<not> lt k (fst e)" if "e \<in> set xs" for e
  proof -
    from assms(1,2) that have "lt (fst e) (fst (hd bs))" by (cases bs) auto
    with assms(3) have "lt (fst e) k" by (rule lt_not_lt_trans[rotated -1])
    then show ?thesis using asym by blast
  qed
  have r: "lt k (fst e) \<and> \<not> lt (fst e) k" if "e \<in> set ys" for e
  proof -
    from assms(1,2) that have "lt (fst (last bs)) (fst e)" by (cases bs rule: rev_cases) auto
    with assms(4) have "lt k (fst e)" by (blast intro: not_lt_lt_trans)
    then show ?thesis using asym by blast
  qed
  show "lowers lt k (xs @ bs @ ys) = xs @ lowers lt k bs"
    and "uppers lt k (xs @ bs @ ys) = uppers lt k bs @ ys"
    and "same lt k (xs @ bs @ ys) = same lt k bs"
    using part_all_below[where xs = xs and lt = lt and k = k] l
      part_all_above[where xs = ys and lt = lt and k = k] r
    by (simp_all add: part_append)
qed

lemma om_left:
  assumes "sorted_entries lt (bs @ ys)" and "bs \<noteq> []" and "lt k (fst (hd bs))"
  shows "om_find lt (xs @ bs @ ys) k = om_find lt xs k"
    and "om_insert lt (xs @ bs @ ys) k v = map_option (\<lambda>zs. zs @ bs @ ys) (om_insert lt xs k v)"
    and "om_update lt (xs @ bs @ ys) k v = map_option (\<lambda>zs. zs @ bs @ ys) (om_update lt xs k v)"
    and "om_erase lt (xs @ bs @ ys) k = map_option (\<lambda>zs. zs @ bs @ ys) (om_erase lt xs k)"
    and "om_set lt (xs @ bs @ ys) k v = om_set lt xs k v @ bs @ ys"
  using assms by (simp_all add: om_defs part_left split: list.split)

lemma om_right:
  assumes "sorted_entries lt (xs @ bs)" and "bs \<noteq> []" and "lt (fst (last bs)) k"
  shows "om_find lt (xs @ bs @ ys) k = om_find lt ys k"
    and "om_insert lt (xs @ bs @ ys) k v = map_option (\<lambda>zs. xs @ bs @ zs) (om_insert lt ys k v)"
    and "om_update lt (xs @ bs @ ys) k v = map_option (\<lambda>zs. xs @ bs @ zs) (om_update lt ys k v)"
    and "om_erase lt (xs @ bs @ ys) k = map_option (\<lambda>zs. xs @ bs @ zs) (om_erase lt ys k)"
    and "om_set lt (xs @ bs @ ys) k v = xs @ bs @ om_set lt ys k v"
  using assms by (simp_all add: om_defs part_right split: list.split)

lemma om_middle:
  assumes "sorted_entries lt (xs @ bs @ ys)" and "bs \<noteq> []"
    and "\<not> lt k (fst (hd bs))" and "\<not> lt (fst (last bs)) k"
  shows "om_find lt (xs @ bs @ ys) k = om_find lt bs k"
    and "om_insert lt (xs @ bs @ ys) k v = map_option (\<lambda>zs. xs @ zs @ ys) (om_insert lt bs k v)"
    and "om_update lt (xs @ bs @ ys) k v = map_option (\<lambda>zs. xs @ zs @ ys) (om_update lt bs k v)"
    and "om_erase lt (xs @ bs @ ys) k = map_option (\<lambda>zs. xs @ zs @ ys) (om_erase lt bs k)"
    and "om_set lt (xs @ bs @ ys) k v = xs @ om_set lt bs k v @ ys"
  using assms by (simp_all add: om_defs part_middle split: list.split)

text \<open>The same laws for a single middle entry, the node of a binary tree.\<close>

lemmas om_left1 = om_left[where bs = "[e]" for e, simplified]
lemmas om_right1 = om_right[where bs = "[e]" for e, simplified]
lemmas om_middle1 = om_middle[where bs = "[e]" for e, simplified]

lemma om_here:
  assumes "sorted_entries lt (xs @ e # ys)" and "\<not> lt k (fst e)" and "\<not> lt (fst e) k"
  shows "om_find lt (xs @ e # ys) k = Some (snd e)"
    and "om_insert lt (xs @ e # ys) k v = None"
    and "om_update lt (xs @ e # ys) k v = Some (xs @ (fst e, v) # ys)"
    and "om_erase lt (xs @ e # ys) k = Some (xs @ ys)"
    and "om_set lt (xs @ e # ys) k v = xs @ (fst e, v) # ys"
  using assms by (simp_all add: om_middle1) (simp_all add: om_defs part_defs)

text \<open>Every update keeps the entries sorted, and does to the lookup what it promises.\<close>

lemma sorted_parts:
  assumes "sorted_entries lt xs" and "equivalent lt a k"
  shows "sorted_entries lt (lowers lt k xs @ (a, v) # uppers lt k xs)"
    and "sorted_entries lt (lowers lt k xs @ uppers lt k xs)"
proof -
  have s: "sorted_entries lt (filter P xs)" for P
    using assms(1) by (simp add: sorted_entries_def sorted_wrt_filter)
  have 1: "lt x a" if "lt x k" for x
    using that assms(2) lt_not_lt_trans unfolding equivalent_def by blast
  have 2: "lt a x" if "lt k x" for x
    using that assms(2) not_lt_lt_trans unfolding equivalent_def by blast
  show "sorted_entries lt (lowers lt k xs @ (a, v) # uppers lt k xs)"
    using s trans by (auto simp: lowers_def uppers_def 1 2)
  show "sorted_entries lt (lowers lt k xs @ uppers lt k xs)"
    using s trans by (auto simp: lowers_def uppers_def)
qed

lemma equivalent_refl: "equivalent lt k k"
  by (simp add: equivalent_def irrefl)

lemma same_memD: "same lt k xs = e # es \<Longrightarrow> e \<in> set xs \<and> equivalent lt (fst e) k"
  by (auto simp: same_def equivalent_def filter_eq_Cons_iff)

lemma sorted_om_insert: "sorted_entries lt xs \<Longrightarrow> om_insert lt xs k v = Some ys \<Longrightarrow> sorted_entries lt ys"
  by (auto simp: om_insert_def simp del: sorted_entries_append split: list.splits
      intro: sorted_parts(1) equivalent_refl)

lemma sorted_om_update: "sorted_entries lt xs \<Longrightarrow> om_update lt xs k v = Some ys \<Longrightarrow> sorted_entries lt ys"
  by (auto simp: om_update_def simp del: sorted_entries_append split: list.splits
      intro!: sorted_parts(1) dest: same_memD)

lemma sorted_om_erase: "sorted_entries lt xs \<Longrightarrow> om_erase lt xs k = Some ys \<Longrightarrow> sorted_entries lt ys"
  by (auto simp: om_erase_def simp del: sorted_entries_append split: list.splits
      intro: sorted_parts(2) equivalent_refl)

lemma sorted_om_set: "sorted_entries lt xs \<Longrightarrow> sorted_entries lt (om_set lt xs k v)"
  by (auto simp: om_set_def simp del: sorted_entries_append split: option.splits
      intro: sorted_parts(1) equivalent_refl dest: sorted_om_update)

lemma part_lengths: "length (lowers lt k xs) + length (same lt k xs) + length (uppers lt k xs) = length xs"
  by (induction xs) (use asym in \<open>auto simp: part_defs\<close>)

lemma same_at_most_one: "sorted_entries lt xs \<Longrightarrow> same lt k xs = e # es \<Longrightarrow> es = []"
proof -
  assume s: "sorted_entries lt xs" and e: "same lt k xs = e # es"
  have "sorted_entries lt (e # es)"
    using s unfolding e[symmetric] by (simp add: same_def sorted_entries_def sorted_wrt_filter)
  moreover have "\<not> lt (fst e) (fst x)" if "x \<in> set es" for x
  proof -
    have "x \<in> set (same lt k xs)" "e \<in> set (same lt k xs)" using that e by simp_all
    then have "\<not> lt (fst e) k" "\<not> lt k (fst x)" by (simp_all add: same_def)
    then show ?thesis using cotrans by blast
  qed
  ultimately show "es = []" by (cases es) auto
qed

lemma om_insert_length: "om_insert lt xs k v = Some ys \<Longrightarrow> length ys = Suc (length xs)"
  using part_lengths[of k xs] by (auto simp: om_insert_def split: list.splits)

lemma om_update_length:
  "sorted_entries lt xs \<Longrightarrow> om_update lt xs k v = Some ys \<Longrightarrow> length ys = length xs"
  using part_lengths[of k xs] same_at_most_one[of xs k] by (auto simp: om_update_def split: list.splits)

lemma om_erase_length:
  "sorted_entries lt xs \<Longrightarrow> om_erase lt xs k = Some ys \<Longrightarrow> Suc (length ys) = length xs"
  using part_lengths[of k xs] same_at_most_one[of xs k] by (auto simp: om_erase_def split: list.splits)

lemma om_set_length: "sorted_entries lt xs \<Longrightarrow> length (om_set lt xs k v) \<le> Suc (length xs)"
  using part_lengths[of k xs] om_update_length[of xs k v]
  by (auto simp: om_set_def split: option.splits)

text \<open>Lookup after an update: the laws of a map whose keys are compared by equivalence.\<close>

lemma equivalent_sym: "equivalent lt a b \<Longrightarrow> equivalent lt b a"
  by (simp add: equivalent_def)

lemma equivalent_trans: "equivalent lt a b \<Longrightarrow> equivalent lt b c \<Longrightarrow> equivalent lt a c"
  unfolding equivalent_def using cotrans by blast

lemma om_find_iff:
  assumes "sorted_entries lt xs"
  shows "om_find lt xs k = Some v \<longleftrightarrow> (\<exists>a. (a, v) \<in> set xs \<and> equivalent lt a k)"
proof
  assume "om_find lt xs k = Some v"
  then obtain e es where e: "same lt k xs = e # es" "snd e = v"
    by (auto simp: om_find_def split: list.splits)
  from same_memD[OF e(1)] e(2) show "\<exists>a. (a, v) \<in> set xs \<and> equivalent lt a k" by (cases e) auto
next
  assume "\<exists>a. (a, v) \<in> set xs \<and> equivalent lt a k"
  then obtain a where a: "(a, v) \<in> set (same lt k xs)"
    by (auto simp: same_def equivalent_def)
  then obtain e es where e: "same lt k xs = e # es" by (cases "same lt k xs") auto
  from same_at_most_one[OF assms e] a e show "om_find lt xs k = Some v"
    by (auto simp: om_find_def)
qed

lemma om_find_None: "om_find lt xs k = None \<longleftrightarrow> (\<forall>e \<in> set xs. \<not> equivalent lt (fst e) k)"
  by (auto simp: om_find_def same_def equivalent_def filter_empty_conv filter_eq_Cons_iff split: list.splits)

text \<open>
  One argument for all updates: the new list has the same entries as the old one under every
  key that is not equivalent to \<open>k\<close>, and what is wanted under \<open>k\<close>.
\<close>

lemma om_find_parts:
  assumes "sorted_entries lt xs" and "equivalent lt a k"
  shows "om_find lt (lowers lt k xs @ (a, v) # uppers lt k xs) k' =
      (if equivalent lt k k' then Some v else om_find lt xs k')"
    and "om_find lt (lowers lt k xs @ uppers lt k xs) k' =
      (if equivalent lt k k' then None else om_find lt xs k')"
proof -
  have out: "\<not> equivalent lt (fst e) k'"
    if "e \<in> set (lowers lt k xs) \<union> set (uppers lt k xs)" "equivalent lt k k'" for e
  proof
    assume "equivalent lt (fst e) k'"
    with that(2) have "equivalent lt (fst e) k" by (metis equivalent_trans equivalent_sym)
    with that(1) show False by (auto simp: part_defs equivalent_def)
  qed
  have inn: "e \<in> set (lowers lt k xs) \<union> set (uppers lt k xs) \<longleftrightarrow> e \<in> set xs"
    if "equivalent lt (fst e) k'" "\<not> equivalent lt k k'" for e
  proof -
    have "\<not> equivalent lt (fst e) k" using that by (metis equivalent_trans equivalent_sym)
    then show ?thesis by (auto simp: part_defs equivalent_def)
  qed
  have a: "equivalent lt a k' \<longleftrightarrow> equivalent lt k k'"
    using assms(2) by (metis equivalent_trans equivalent_sym)
  note fnd = om_find_iff[OF sorted_parts(1)[OF assms]] om_find_iff[OF sorted_parts(2)[OF assms]]
    om_find_iff[OF assms(1)]
  show "om_find lt (lowers lt k xs @ (a, v) # uppers lt k xs) k' =
      (if equivalent lt k k' then Some v else om_find lt xs k')"
  proof (rule option_eqI)
    fix w
    show "om_find lt (lowers lt k xs @ (a, v) # uppers lt k xs) k' = Some w \<longleftrightarrow>
        (if equivalent lt k k' then Some v else om_find lt xs k') = Some w"
      unfolding fnd using out inn a by (cases "equivalent lt k k'") (fastforce simp: fnd)+
  qed
  show "om_find lt (lowers lt k xs @ uppers lt k xs) k' =
      (if equivalent lt k k' then None else om_find lt xs k')"
  proof (rule option_eqI)
    fix w
    show "om_find lt (lowers lt k xs @ uppers lt k xs) k' = Some w \<longleftrightarrow>
        (if equivalent lt k k' then None else om_find lt xs k') = Some w"
      unfolding fnd using out inn by (cases "equivalent lt k k'") (fastforce simp: fnd)+
  qed
qed

lemma om_find_insert:
  "sorted_entries lt xs \<Longrightarrow> om_insert lt xs k v = Some ys \<Longrightarrow>
     om_find lt ys k' = (if equivalent lt k k' then Some v else om_find lt xs k')"
  by (auto simp: om_insert_def om_find_parts(1)[OF _ equivalent_refl] split: list.splits)

lemma om_find_update:
  "sorted_entries lt xs \<Longrightarrow> om_update lt xs k v = Some ys \<Longrightarrow>
     om_find lt ys k' = (if equivalent lt k k' then Some v else om_find lt xs k')"
  by (auto simp: om_update_def om_find_parts(1) split: list.splits dest: same_memD)

lemma om_find_erase:
  "sorted_entries lt xs \<Longrightarrow> om_erase lt xs k = Some ys \<Longrightarrow>
     om_find lt ys k' = (if equivalent lt k k' then None else om_find lt xs k')"
  by (auto simp: om_erase_def om_find_parts(2)[OF _ equivalent_refl] split: list.splits)

lemma om_find_set:
  "sorted_entries lt xs \<Longrightarrow>
     om_find lt (om_set lt xs k v) k' = (if equivalent lt k k' then Some v else om_find lt xs k')"
  by (auto simp: om_set_def om_find_parts(1)[OF _ equivalent_refl] om_find_update split: option.splits)

text \<open>When each operation has an effect: exactly when the key is (or is not) there.\<close>

lemma om_defined:
  "om_insert lt xs k v = None \<longleftrightarrow> om_find lt xs k \<noteq> None"
  "om_update lt xs k v = None \<longleftrightarrow> om_find lt xs k = None"
  "om_erase lt xs k = None \<longleftrightarrow> om_find lt xs k = None"
  by (auto simp: om_defs split: list.splits)

end

section \<open>Sortedness by neighbours\<close>

text \<open>The validation loop of both trees compares each entry with the one before it.\<close>

context strict_weak_order
begin

lemma adjacent_sorted:
  "(\<forall>i \<in> {1..<length xs}. lt (fst (xs ! (i - 1))) (fst (xs ! i))) \<longleftrightarrow> sorted_entries lt xs"
proof -
  have "(\<forall>i \<in> {1..<length xs}. lt (fst (xs ! (i - 1))) (fst (xs ! i))) \<longleftrightarrow>
      (\<forall>i. Suc i < length xs \<longrightarrow> lt (fst (xs ! i)) (fst (xs ! Suc i)))"
  proof (intro iffI allI impI ballI)
    fix i assume "\<forall>i \<in> {1..<length xs}. lt (fst (xs ! (i - 1))) (fst (xs ! i))" "Suc i < length xs"
    then show "lt (fst (xs ! i)) (fst (xs ! Suc i))" by (auto dest!: bspec[of _ _ "Suc i"])
  next
    fix i assume "\<forall>i. Suc i < length xs \<longrightarrow> lt (fst (xs ! i)) (fst (xs ! Suc i))" "i \<in> {1..<length xs}"
    then show "lt (fst (xs ! (i - 1))) (fst (xs ! i))" by (cases i) auto
  qed
  also have "\<dots> \<longleftrightarrow> sorted_entries lt xs"
    unfolding sorted_entries_def
    by (rule sorted_wrt_iff_nth_Suc_transp[symmetric]) (auto intro!: transpI dest: trans)
  finally show ?thesis .
qed

end

section \<open>Walks that stop early\<close>

text \<open>What a walk that stops at the first \<open>false\<close> does to the state of the visitor.\<close>

fun walk_until :: "('k \<Rightarrow> 'v \<Rightarrow> 's \<Rightarrow> bool \<times> 's) \<Rightarrow> ('k \<times> 'v) list \<Rightarrow> 's \<Rightarrow> bool \<times> 's" where
  "walk_until fn [] st = (True, st)"
| "walk_until fn ((k, v) # xs) st =
     (case fn k v st of (ok, st') \<Rightarrow> if ok then walk_until fn xs st' else (False, st'))"

lemma walk_until_append:
  "walk_until fn (xs @ ys) st =
     (case walk_until fn xs st of (ok, st') \<Rightarrow> if ok then walk_until fn ys st' else (False, st'))"
  by (induction fn xs st rule: walk_until.induct) (auto split: prod.split)

end
