(* ===== verification/Ordered_Tree.thy ===== *)
theory Ordered_Tree
  imports Ordered_Map
begin

text \<open>
  The interface between the two public containers and the trees below them.  \<open>ImtMap\<close> and
  \<open>ImtSet\<close> take the tree as a template parameter \<open>Tree\<close>: the record \<open>tree_ops\<close> has one field
  for each member of \<open>Tree\<close> they use, and the locale \<open>ordered_tree\<close> has the laws a tree
  promises, against the ordered-map specification.  Both \<open>ImmutableTree\<close> and
  \<open>ImmutableBlockTree\<close> provide it.
\<close>

section \<open>The template parameter Tree\<close>

(* imt_map.h:17-19 Tree *)
record ('k, 'v, 't, 's) tree_ops =
  op_new :: "('k \<Rightarrow> 'k \<Rightarrow> bool) \<Rightarrow> 't"
  op_from_sorted :: "('k \<times> 'v) list \<Rightarrow> ('k \<Rightarrow> 'k \<Rightarrow> bool) \<Rightarrow> 't res"
  op_empty :: "'t \<Rightarrow> bool"
  op_size :: "'t \<Rightarrow> nat"
  op_height :: "'t \<Rightarrow> int"
  op_find :: "'t \<Rightarrow> 'k \<Rightarrow> 'v option res"
  op_contains :: "'t \<Rightarrow> 'k \<Rightarrow> bool res"
  op_insert :: "'t \<Rightarrow> 'k \<Rightarrow> 'v \<Rightarrow> 't option res"
  op_update :: "'t \<Rightarrow> 'k \<Rightarrow> 'v \<Rightarrow> 't option res"
  op_erase :: "'t \<Rightarrow> 'k \<Rightarrow> 't option res"
  op_set :: "'t \<Rightarrow> 'k \<Rightarrow> 'v \<Rightarrow> 't res"
  op_to_vector :: "'t \<Rightarrow> ('k \<times> 'v) list res"
  op_for_each :: "'t \<Rightarrow> ('k \<Rightarrow> 'v \<Rightarrow> 's \<Rightarrow> 's) \<Rightarrow> 's \<Rightarrow> 's res"
  op_for_each_until :: "'t \<Rightarrow> ('k \<Rightarrow> 'v \<Rightarrow> 's \<Rightarrow> bool \<times> 's) \<Rightarrow> 's \<Rightarrow> (bool \<times> 's) res"

text \<open>The size limit of both trees: a node counts its entries in a \<open>uint32_t\<close>.\<close>

definition max_entries :: nat where
  "max_entries = 4294967295"

section \<open>The contract\<close>

text \<open>
  \<open>yields ok es m ys\<close>: the call \<open>m\<close> returns without an exception, it returns a new version
  exactly when the specification has one, and that version is well formed with the entries
  the specification gives.
\<close>

definition yields :: "('t \<Rightarrow> bool) \<Rightarrow> ('t \<Rightarrow> 'e list) \<Rightarrow> 't option res \<Rightarrow> 'e list option \<Rightarrow> bool" where
  "yields ok es m ys \<longleftrightarrow>
     (\<exists>r. m = Inr r \<and> map_option es r = ys \<and> (\<forall>t. r = Some t \<longrightarrow> ok t))"

lemma yields_cases:
  assumes "yields ok es m ys"
  obtains (missing) "m = Inr None" "ys = None"
  | (found) t where "m = Inr (Some t)" "ys = Some (es t)" "ok t"
  using assms unfolding yields_def by (metis not_None_eq option.map(1,2))

lemma yields_simps [simp]:
  "yields ok es (Inr None) ys \<longleftrightarrow> ys = None"
  "yields ok es (Inr (Some t)) ys \<longleftrightarrow> ys = Some (es t) \<and> ok t"
  by (auto simp: yields_def)

lemma yieldsD: "yields ok es (Inr (Some t)) ys \<Longrightarrow> ys = Some (es t) \<and> ok t"
  by simp

locale ordered_tree = strict_weak_order lt
  for lt :: "'k \<Rightarrow> 'k \<Rightarrow> bool" +
  fixes ops :: "('k, 'v, 't, 's) tree_ops"
    and ok :: "'t \<Rightarrow> bool"
    and entries :: "'t \<Rightarrow> ('k \<times> 'v) list"
  assumes new: "ok (op_new ops lt) \<and> entries (op_new ops lt) = []"
    and sorted: "ok t \<Longrightarrow> sorted_entries lt (entries t)"
    and from_sorted: "sorted_entries lt es \<Longrightarrow> length es \<le> max_entries \<Longrightarrow>
      \<exists>t. op_from_sorted ops es lt = Inr t \<and> ok t \<and> entries t = es"
    and from_unsorted: "\<not> sorted_entries lt es \<Longrightarrow>
      \<exists>m. op_from_sorted ops es lt = Inl (Invalid_Argument m)"
    and empty: "ok t \<Longrightarrow> op_empty ops t \<longleftrightarrow> entries t = []"
    and size: "ok t \<Longrightarrow> op_size ops t = length (entries t)"
    and height: "ok t \<Longrightarrow> 2 ^ (nat (op_height ops t) div 2) \<le> length (entries t) + 1"
    and find: "ok t \<Longrightarrow> op_find ops t k = Inr (om_find lt (entries t) k)"
    and contains: "ok t \<Longrightarrow> op_contains ops t k = Inr (om_find lt (entries t) k \<noteq> None)"
    and insert: "ok t \<Longrightarrow> length (entries t) < max_entries \<Longrightarrow>
      yields ok entries (op_insert ops t k v) (om_insert lt (entries t) k v)"
    and update: "ok t \<Longrightarrow> yields ok entries (op_update ops t k v) (om_update lt (entries t) k v)"
    and erase: "ok t \<Longrightarrow> yields ok entries (op_erase ops t k) (om_erase lt (entries t) k)"
    and set: "ok t \<Longrightarrow> length (entries t) < max_entries \<Longrightarrow>
      \<exists>t'. op_set ops t k v = Inr t' \<and> ok t' \<and> entries t' = om_set lt (entries t) k v"
    and to_vector: "ok t \<Longrightarrow> op_to_vector ops t = Inr (entries t)"
    and for_each: "ok t \<Longrightarrow> op_for_each ops t fn st = Inr (fold (\<lambda>(k, v). fn k v) (entries t) st)"
    and for_each_until: "ok t \<Longrightarrow> op_for_each_until ops t gn st = Inr (walk_until gn (entries t) st)"
begin

text \<open>The laws of a map, for any tree that meets the contract.\<close>

lemma lookup_insert:
  assumes "ok t" "length (entries t) < max_entries" "op_insert ops t k v = Inr (Some t')"
  shows "op_find ops t' k' = (if equivalent lt k k' then Inr (Some v) else op_find ops t k')"
  using insert[OF assms(1,2), of k v] om_find_insert[OF sorted[OF assms(1)]] find assms by auto

lemma insert_refused:
  assumes "ok t" "length (entries t) < max_entries"
  shows "op_insert ops t k v = Inr None \<longleftrightarrow> op_find ops t k \<noteq> Inr None"
  using insert[OF assms, of k v] find[OF assms(1)] om_defined(1)[of "entries t" k v]
  by (auto elim: yields_cases)

lemma lookup_update:
  assumes "ok t" "op_update ops t k v = Inr (Some t')"
  shows "op_find ops t' k' = (if equivalent lt k k' then Inr (Some v) else op_find ops t k')"
  using update[OF assms(1), of k v] om_find_update[OF sorted[OF assms(1)]] find assms by auto

lemma update_refused:
  assumes "ok t"
  shows "op_update ops t k v = Inr None \<longleftrightarrow> op_find ops t k = Inr None"
  using update[OF assms, of k v] find[OF assms(1)] om_defined(2)[of "entries t" k v]
  by (auto elim: yields_cases)

lemma lookup_erase:
  assumes "ok t" "op_erase ops t k = Inr (Some t')"
  shows "op_find ops t' k' = (if equivalent lt k k' then Inr None else op_find ops t k')"
  using erase[OF assms(1), of k] om_find_erase[OF sorted[OF assms(1)]] find assms by auto

lemma erase_refused:
  assumes "ok t"
  shows "op_erase ops t k = Inr None \<longleftrightarrow> op_find ops t k = Inr None"
  using erase[OF assms, of k] find[OF assms(1)] om_defined(3)[of "entries t" k]
  by (auto elim: yields_cases)

lemma lookup_set:
  assumes "ok t" "length (entries t) < max_entries" "op_set ops t k v = Inr t'"
  shows "op_find ops t' k' = (if equivalent lt k k' then Inr (Some v) else op_find ops t k')"
  using set[OF assms(1,2), of k v] om_find_set[OF sorted[OF assms(1)]] find assms by auto

end

section \<open>The height of a tree built in bulk\<close>

text \<open>Both trees split a range of \<open>n\<close> nodes in the middle; this is the height they reach.\<close>

fun bulk_height :: "nat \<Rightarrow> nat" where
  "bulk_height n = (if n = 0 then 0 else Suc (bulk_height (n div 2)))"

declare bulk_height.simps [simp del]

lemma bulk_height_mono: "m \<le> n \<Longrightarrow> bulk_height m \<le> bulk_height n"
proof (induction n arbitrary: m rule: less_induct)
  case (less n)
  show ?case
  proof (cases "m = 0")
    case True
    then show ?thesis by (simp add: bulk_height.simps[of 0])
  next
    case False
    with less.prems less.IH[of "n div 2" "m div 2"] show ?thesis
      by (simp add: bulk_height.simps[of m] bulk_height.simps[of n] div_le_mono)
  qed
qed

lemma bulk_height_halves:
  assumes "0 < n"
  shows "bulk_height (n - n div 2 - 1) \<le> bulk_height (n div 2)"
    and "bulk_height (n div 2) \<le> Suc (bulk_height (n - n div 2 - 1))"
proof -
  show "bulk_height (n - n div 2 - 1) \<le> bulk_height (n div 2)"
    by (rule bulk_height_mono) (use assms in arith)
  have "bulk_height m \<le> Suc (bulk_height (m - 1))" for m
  proof (cases "m \<le> 1")
    case True
    then have "m = 0 \<or> m = 1" by linarith
    then show ?thesis by (auto simp: bulk_height.simps[of 0] bulk_height.simps[of "Suc 0"])
  next
    case False
    then have "m div 2 \<le> m - 1" by arith
    with False show ?thesis by (simp add: bulk_height.simps[of m] bulk_height_mono)
  qed
  moreover have "bulk_height (n div 2 - 1) \<le> bulk_height (n - n div 2 - 1)"
    by (rule bulk_height_mono) (use assms in arith)
  ultimately show "bulk_height (n div 2) \<le> Suc (bulk_height (n - n div 2 - 1))"
    by (meson Suc_le_mono order_trans)
qed

lemma bulk_height_bounds:
  "n < 2 ^ bulk_height n" "n \<noteq> 0 \<Longrightarrow> 2 ^ (bulk_height n - 1) \<le> n"
proof -
  show "n < 2 ^ bulk_height n"
  proof (induction n rule: bulk_height.induct)
    case (1 n)
    then show ?case by (cases "n = 0") (auto simp: bulk_height.simps[of n])
  qed
  show "2 ^ (bulk_height n - 1) \<le> n" if "n \<noteq> 0"
    using that
  proof (induction n rule: bulk_height.induct)
    case (1 n)
    show ?case
    proof (cases "n div 2 = 0")
      case True
      then show ?thesis using 1(2) by (simp add: bulk_height.simps[of n] bulk_height.simps[of 0])
    next
      case False
      with 1 have IH: "2 ^ (bulk_height (n div 2) - 1) \<le> n div 2" by simp
      have "bulk_height (n div 2) = Suc (bulk_height (n div 2) - 1)"
        using False by (simp add: bulk_height.simps[of "n div 2"])
      then have "(2::nat) ^ bulk_height (n div 2) = 2 * 2 ^ (bulk_height (n div 2) - 1)"
        by (metis power_Suc)
      with IH 1(2) show ?thesis by (simp add: bulk_height.simps[of n])
    qed
  qed
qed

end
