(* ===== verification/Imt_Map_Set.thy ===== *)
theory Imt_Map_Set
  imports Ordered_Tree "HOL-Library.Multiset"
begin

text \<open>
  \<open>ImtMap\<close> and \<open>ImtSet\<close> (imt_map.h, imt_set.h): the public containers.  Each holds one tree
  and forwards to it; their own work is in the bulk constructors, which sort their input
  and reject or drop equivalent keys, and in \<open>ImtSet::Add\<close>.  The tree is the argument \<open>T\<close> of
  type \<open>tree_ops\<close>, as in the code's template parameter.

  \<open>std::sort\<close> is not stable and its order of equivalent elements is unspecified, so it is an
  argument \<open>srt\<close> of the two constructors; \<open>std_sort_ok\<close> says what the standard guarantees of it.
\<close>

section \<open>The standard algorithms used\<close>

definition std_sort_ok :: "('e \<Rightarrow> 'e \<Rightarrow> bool) \<Rightarrow> ('e list \<Rightarrow> 'e list) \<Rightarrow> bool" where
  "std_sort_ok cmp srt \<longleftrightarrow> (\<forall>xs. mset (srt xs) = mset xs \<and> sorted_wrt (\<lambda>a b. \<not> cmp b a) (srt xs))"

text \<open>A sorting function that meets it, for the concrete runs.\<close>

fun insert_sorted :: "('e \<Rightarrow> 'e \<Rightarrow> bool) \<Rightarrow> 'e \<Rightarrow> 'e list \<Rightarrow> 'e list" where
  "insert_sorted cmp x [] = [x]"
| "insert_sorted cmp x (y # ys) = (if cmp y x then y # insert_sorted cmp x ys else x # y # ys)"

fun insertion_sort :: "('e \<Rightarrow> 'e \<Rightarrow> bool) \<Rightarrow> 'e list \<Rightarrow> 'e list" where
  "insertion_sort cmp [] = []"
| "insertion_sort cmp (x # xs) = insert_sorted cmp x (insertion_sort cmp xs)"

text \<open>\<open>std::unique\<close>: of every run of elements equal to the one last kept, keep the first.\<close>

fun std_unique :: "('e \<Rightarrow> 'e \<Rightarrow> bool) \<Rightarrow> 'e list \<Rightarrow> 'e list" where
  "std_unique p [] = []"
| "std_unique p [x] = [x]"
| "std_unique p (x # y # ys) = (if p x y then std_unique p (x # ys) else x # std_unique p (y # ys))"

section \<open>ImtMap\<close>

(* imt_map.h:100-102 tree_ *)
datatype 't imt_map = ImtMap (map_tree: 't)

(* imt_map.h:24-24 ImtMap *)
definition ImtMap_new :: "('k, 'v, 't, 's) tree_ops \<Rightarrow> ('k \<Rightarrow> 'k \<Rightarrow> bool) \<Rightarrow> 't imt_map" where
  "ImtMap_new T lt = ImtMap (op_new T lt)"

(* imt_map.h:26-42 FromEntries *)
definition ImtMap_FromEntries :: "('k, 'v, 't, 's) tree_ops \<Rightarrow> (('k \<times> 'v) list \<Rightarrow> ('k \<times> 'v) list) \<Rightarrow>
    ('k \<Rightarrow> 'k \<Rightarrow> bool) \<Rightarrow> ('k \<times> 'v) list \<Rightarrow> 't imt_map option res" where
  "ImtMap_FromEntries T srt lt entries =
     (let entries = srt entries in
      if \<exists>index \<in> set [1..<length entries].
           \<not> lt (fst (entries ! (index - 1))) (fst (entries ! index)) \<and>
           \<not> lt (fst (entries ! index)) (fst (entries ! (index - 1)))
      then Inr None
      else bindE (op_from_sorted T entries lt) (\<lambda>t. Inr (Some (ImtMap t))))"

(* imt_map.h:44-44 Empty *)
definition ImtMap_Empty :: "('k, 'v, 't, 's) tree_ops \<Rightarrow> 't imt_map \<Rightarrow> bool" where
  "ImtMap_Empty T m = op_empty T (map_tree m)"

(* imt_map.h:46-46 Size *)
definition ImtMap_Size :: "('k, 'v, 't, 's) tree_ops \<Rightarrow> 't imt_map \<Rightarrow> nat" where
  "ImtMap_Size T m = op_size T (map_tree m)"

(* imt_map.h:48-48 Height *)
definition ImtMap_Height :: "('k, 'v, 't, 's) tree_ops \<Rightarrow> 't imt_map \<Rightarrow> int" where
  "ImtMap_Height T m = op_height T (map_tree m)"

(* imt_map.h:50-50 Find *)
definition ImtMap_Find :: "('k, 'v, 't, 's) tree_ops \<Rightarrow> 't imt_map \<Rightarrow> 'k \<Rightarrow> 'v option res" where
  "ImtMap_Find T m key = op_find T (map_tree m) key"

(* imt_map.h:52-52 Contains *)
definition ImtMap_Contains :: "('k, 'v, 't, 's) tree_ops \<Rightarrow> 't imt_map \<Rightarrow> 'k \<Rightarrow> bool res" where
  "ImtMap_Contains T m key = op_contains T (map_tree m) key"

(* imt_map.h:54-60 Insert *)
definition ImtMap_Insert :: "('k, 'v, 't, 's) tree_ops \<Rightarrow> 't imt_map \<Rightarrow> 'k \<Rightarrow> 'v \<Rightarrow> 't imt_map option res" where
  "ImtMap_Insert T m key value =
     bindE (op_insert T (map_tree m) key value) (\<lambda>next.
     case next of None \<Rightarrow> Inr None | Some t \<Rightarrow> Inr (Some (ImtMap t)))"

(* imt_map.h:62-68 Update *)
definition ImtMap_Update :: "('k, 'v, 't, 's) tree_ops \<Rightarrow> 't imt_map \<Rightarrow> 'k \<Rightarrow> 'v \<Rightarrow> 't imt_map option res" where
  "ImtMap_Update T m key value =
     bindE (op_update T (map_tree m) key value) (\<lambda>next.
     case next of None \<Rightarrow> Inr None | Some t \<Rightarrow> Inr (Some (ImtMap t)))"

(* imt_map.h:70-76 Erase *)
definition ImtMap_Erase :: "('k, 'v, 't, 's) tree_ops \<Rightarrow> 't imt_map \<Rightarrow> 'k \<Rightarrow> 't imt_map option res" where
  "ImtMap_Erase T m key =
     bindE (op_erase T (map_tree m) key) (\<lambda>next.
     case next of None \<Rightarrow> Inr None | Some t \<Rightarrow> Inr (Some (ImtMap t)))"

(* imt_map.h:78-80 Set *)
definition ImtMap_Set :: "('k, 'v, 't, 's) tree_ops \<Rightarrow> 't imt_map \<Rightarrow> 'k \<Rightarrow> 'v \<Rightarrow> 't imt_map res" where
  "ImtMap_Set T m key value = bindE (op_set T (map_tree m) key value) (\<lambda>t. Inr (ImtMap t))"

(* imt_map.h:82-82 ToVector *)
definition ImtMap_ToVector :: "('k, 'v, 't, 's) tree_ops \<Rightarrow> 't imt_map \<Rightarrow> ('k \<times> 'v) list res" where
  "ImtMap_ToVector T m = op_to_vector T (map_tree m)"

(* imt_map.h:84-87 ForEach *)
definition ImtMap_ForEach :: "('k, 'v, 't, 's) tree_ops \<Rightarrow> 't imt_map \<Rightarrow> ('k \<Rightarrow> 'v \<Rightarrow> 's \<Rightarrow> 's) \<Rightarrow> 's \<Rightarrow> 's res" where
  "ImtMap_ForEach T m fn st = op_for_each T (map_tree m) fn st"

(* imt_map.h:89-92 ForEachUntil *)
definition ImtMap_ForEachUntil ::
    "('k, 'v, 't, 's) tree_ops \<Rightarrow> 't imt_map \<Rightarrow> ('k \<Rightarrow> 'v \<Rightarrow> 's \<Rightarrow> bool \<times> 's) \<Rightarrow> 's \<Rightarrow> (bool \<times> 's) res" where
  "ImtMap_ForEachUntil T m fn st = op_for_each_until T (map_tree m) fn st"

section \<open>ImtSet\<close>

text \<open>The value type of the tree is \<open>UnitValue\<close> (unit_value.h), a type with one value.\<close>

(* imt_set.h:104-106 tree_ *)
datatype 't imt_set = ImtSet (set_tree: 't)

(* imt_set.h:23-23 ImtSet *)
definition ImtSet_new :: "('k, unit, 't, 's) tree_ops \<Rightarrow> ('k \<Rightarrow> 'k \<Rightarrow> bool) \<Rightarrow> 't imt_set" where
  "ImtSet_new T lt = ImtSet (op_new T lt)"

(* imt_set.h:25-42 FromKeys *)
definition ImtSet_FromKeys :: "('k, unit, 't, 's) tree_ops \<Rightarrow> ('k list \<Rightarrow> 'k list) \<Rightarrow>
    ('k \<Rightarrow> 'k \<Rightarrow> bool) \<Rightarrow> 'k list \<Rightarrow> 't imt_set res" where
  "ImtSet_FromKeys T srt lt keys =
     (let keys = srt keys;
          keys = std_unique (\<lambda>left right. \<not> lt left right \<and> \<not> lt right left) keys;
          entries = map (\<lambda>key. (key, ())) keys
      in bindE (op_from_sorted T entries lt) (\<lambda>t. Inr (ImtSet t)))"

(* imt_set.h:44-44 Empty *)
definition ImtSet_Empty :: "('k, unit, 't, 's) tree_ops \<Rightarrow> 't imt_set \<Rightarrow> bool" where
  "ImtSet_Empty T m = op_empty T (set_tree m)"

(* imt_set.h:46-46 Size *)
definition ImtSet_Size :: "('k, unit, 't, 's) tree_ops \<Rightarrow> 't imt_set \<Rightarrow> nat" where
  "ImtSet_Size T m = op_size T (set_tree m)"

(* imt_set.h:48-48 Height *)
definition ImtSet_Height :: "('k, unit, 't, 's) tree_ops \<Rightarrow> 't imt_set \<Rightarrow> int" where
  "ImtSet_Height T m = op_height T (set_tree m)"

(* imt_set.h:50-50 Contains *)
definition ImtSet_Contains :: "('k, unit, 't, 's) tree_ops \<Rightarrow> 't imt_set \<Rightarrow> 'k \<Rightarrow> bool res" where
  "ImtSet_Contains T m key = op_contains T (set_tree m) key"

(* imt_set.h:52-58 Insert *)
definition ImtSet_Insert :: "('k, unit, 't, 's) tree_ops \<Rightarrow> 't imt_set \<Rightarrow> 'k \<Rightarrow> 't imt_set option res" where
  "ImtSet_Insert T m key =
     bindE (op_insert T (set_tree m) key ()) (\<lambda>next.
     case next of None \<Rightarrow> Inr None | Some t \<Rightarrow> Inr (Some (ImtSet t)))"

(* imt_set.h:60-66 Erase *)
definition ImtSet_Erase :: "('k, unit, 't, 's) tree_ops \<Rightarrow> 't imt_set \<Rightarrow> 'k \<Rightarrow> 't imt_set option res" where
  "ImtSet_Erase T m key =
     bindE (op_erase T (set_tree m) key) (\<lambda>next.
     case next of None \<Rightarrow> Inr None | Some t \<Rightarrow> Inr (Some (ImtSet t)))"

(* imt_set.h:68-74 Add *)
definition ImtSet_Add :: "('k, unit, 't, 's) tree_ops \<Rightarrow> 't imt_set \<Rightarrow> 'k \<Rightarrow> 't imt_set res" where
  "ImtSet_Add T m key =
     bindE (ImtSet_Insert T m key) (\<lambda>inserted.
     case inserted of Some m' \<Rightarrow> Inr m' | None \<Rightarrow> Inr m)"

(* imt_set.h:76-84 ToVector *)
definition ImtSet_ToVector :: "('k, unit, 't, 's) tree_ops \<Rightarrow> 't imt_set \<Rightarrow> 'k list res" where
  "ImtSet_ToVector T m = bindE (op_to_vector T (set_tree m)) (\<lambda>pairs. Inr (map fst pairs))"

(* imt_set.h:86-90 ForEach *)
definition ImtSet_ForEach :: "('k, unit, 't, 's) tree_ops \<Rightarrow> 't imt_set \<Rightarrow> ('k \<Rightarrow> 's \<Rightarrow> 's) \<Rightarrow> 's \<Rightarrow> 's res" where
  "ImtSet_ForEach T m fn st = op_for_each T (set_tree m) (\<lambda>key _. fn key) st"

(* imt_set.h:92-96 ForEachUntil *)
definition ImtSet_ForEachUntil ::
    "('k, unit, 't, 's) tree_ops \<Rightarrow> 't imt_set \<Rightarrow> ('k \<Rightarrow> 's \<Rightarrow> bool \<times> 's) \<Rightarrow> 's \<Rightarrow> (bool \<times> 's) res" where
  "ImtSet_ForEachUntil T m fn st = op_for_each_until T (set_tree m) (\<lambda>key _. fn key) st"

section \<open>The sorting instance\<close>

lemma mset_insertion_sort: "mset (insertion_sort cmp xs) = mset xs"
proof -
  have "mset (insert_sorted cmp x ys) = add_mset x (mset ys)" for x ys
    by (induction ys) auto
  then show ?thesis by (induction xs) auto
qed

section \<open>Bulk input\<close>

text \<open>No two entries of the input have equivalent keys.\<close>

definition distinct_keys :: "('k \<Rightarrow> 'k \<Rightarrow> bool) \<Rightarrow> ('k \<times> 'v) list \<Rightarrow> bool" where
  "distinct_keys lt es \<longleftrightarrow> (\<forall>k. length (same lt k es) \<le> 1)"

lemma distinct_keys_mset:
  assumes "mset xs = mset ys"
  shows "distinct_keys lt xs \<longleftrightarrow> distinct_keys lt ys"
proof -
  have "length (same lt k xs) = length (same lt k ys)" for k
    unfolding same_def using assms by (intro mset_eq_length) simp
  then show ?thesis by (simp add: distinct_keys_def)
qed

lemma set_insert_sorted: "set (insert_sorted cmp x ys) = insert x (set ys)"
  by (induction ys) auto

context strict_weak_order
begin

lemma sorted_insert_sorted:
  "sorted_wrt (\<lambda>a b. \<not> lt b a) ys \<Longrightarrow> sorted_wrt (\<lambda>a b. \<not> lt b a) (insert_sorted lt x ys)"
proof (induction ys)
  case (Cons y ys)
  have "\<not> lt z x" if "\<not> lt z y" "\<not> lt y x" for z using that cotrans by blast
  then show ?case using Cons asym by (auto simp: set_insert_sorted)
qed simp

lemma insertion_sort_ok: "std_sort_ok lt (insertion_sort lt)"
proof -
  have "sorted_wrt (\<lambda>a b. \<not> lt b a) (insertion_sort lt xs)" for xs
    by (induction xs) (simp_all add: sorted_insert_sorted)
  then show ?thesis by (simp add: std_sort_ok_def mset_insertion_sort)
qed

text \<open>The order on entries that the code hands to \<open>std::sort\<close>.\<close>

lemma fst_order: "strict_weak_order (\<lambda>a b. lt (fst a) (fst b))"
  by unfold_locales (use irrefl trans cotrans in blast)+

lemma sorted_distinct_keys: "sorted_entries lt xs \<Longrightarrow> distinct_keys lt xs"
  unfolding distinct_keys_def
proof
  fix k
  assume "sorted_entries lt xs"
  then show "length (same lt k xs) \<le> 1"
    using same_at_most_one[of xs k] by (cases "same lt k xs") auto
qed

text \<open>In a list sorted by \<open>std::sort\<close>, equivalent keys are neighbours.\<close>

lemma adjacent_test:
  assumes s: "sorted_wrt (\<lambda>a b. \<not> lt (fst b) (fst a)) xs"
    and d: "dup \<longleftrightarrow> (\<exists>i \<in> set [1..<length xs]. \<not> lt (fst (xs ! (i - 1))) (fst (xs ! i)) \<and>
      \<not> lt (fst (xs ! i)) (fst (xs ! (i - 1))))"
  shows "dup \<longleftrightarrow> \<not> distinct_keys lt xs"
    and "\<not> dup \<Longrightarrow> sorted_entries lt xs"
proof -
  show sorted: "sorted_entries lt xs" if "\<not> dup"
  proof -
    have "lt (fst (xs ! i)) (fst (xs ! Suc i))" if "Suc i < length xs" for i
      using \<open>\<not> dup\<close>[unfolded d] that sorted_wrt_nth_less[OF s, of i "Suc i"] by (auto dest!: bspec[of _ _ "Suc i"])
    then show ?thesis unfolding sorted_entries_def
      by (subst sorted_wrt_iff_nth_Suc_transp) (auto intro!: transpI dest: trans)
  qed
  show "dup \<longleftrightarrow> \<not> distinct_keys lt xs"
  proof
    assume dup
    then obtain i where i: "Suc i < length xs" "\<not> lt (fst (xs ! i)) (fst (xs ! Suc i))"
        "\<not> lt (fst (xs ! Suc i)) (fst (xs ! i))" unfolding d by (auto simp: Suc_le_eq gr0_conv_Suc)
    have "xs = take i xs @ xs ! i # xs ! Suc i # drop (Suc (Suc i)) xs"
      using i(1) by (metis Cons_nth_drop_Suc Suc_lessD append_take_drop_id)
    then have "same lt (fst (xs ! i)) xs = same lt (fst (xs ! i)) (take i xs) @
        xs ! i # xs ! Suc i # same lt (fst (xs ! i)) (drop (Suc (Suc i)) xs)"
      using i irrefl unfolding same_def by (metis (no_types, lifting) filter.simps(2) filter_append)
    then have "\<not> length (same lt (fst (xs ! i)) xs) \<le> 1" by simp
    then show "\<not> distinct_keys lt xs" unfolding distinct_keys_def by blast
  qed (use sorted sorted_distinct_keys in blast)
qed

lemma std_unique_sorted:
  assumes "sorted_wrt (\<lambda>a b. \<not> lt b a) xs"
  shows "sorted_wrt lt (std_unique (\<lambda>a b. \<not> lt a b \<and> \<not> lt b a) xs) \<and>
    set (std_unique (\<lambda>a b. \<not> lt a b \<and> \<not> lt b a) xs) \<subseteq> set xs \<and>
    length (std_unique (\<lambda>a b. \<not> lt a b \<and> \<not> lt b a) xs) \<le> length xs \<and>
    (\<forall>x \<in> set xs. \<exists>y \<in> set (std_unique (\<lambda>a b. \<not> lt a b \<and> \<not> lt b a) xs). equivalent lt x y)"
  using assms
proof (induction "\<lambda>a b. \<not> lt a b \<and> \<not> lt b a" xs rule: std_unique.induct)
  case (3 x y ys)
  show ?case
  proof (cases "\<not> lt x y \<and> \<not> lt y x")
    case True
    with 3(1) 3(3) have IH: "sorted_wrt lt (std_unique (\<lambda>a b. \<not> lt a b \<and> \<not> lt b a) (x # ys)) \<and>
      set (std_unique (\<lambda>a b. \<not> lt a b \<and> \<not> lt b a) (x # ys)) \<subseteq> set (x # ys) \<and>
      length (std_unique (\<lambda>a b. \<not> lt a b \<and> \<not> lt b a) (x # ys)) \<le> length (x # ys) \<and>
      (\<forall>z \<in> set (x # ys). \<exists>y \<in> set (std_unique (\<lambda>a b. \<not> lt a b \<and> \<not> lt b a) (x # ys)). equivalent lt z y)"
      by simp
    then obtain w where w: "w \<in> set (std_unique (\<lambda>a b. \<not> lt a b \<and> \<not> lt b a) (x # ys))" "equivalent lt x w"
      by auto
    have "equivalent lt y x" using True by (simp add: equivalent_def)
    then have "equivalent lt y w" using w(2) by (rule equivalent_trans)
    with IH w True show ?thesis by auto
  next
    case False
    with 3(3) have xy: "lt x y" by simp
    from 3(2)[OF False] 3(3) have IH: "sorted_wrt lt (std_unique (\<lambda>a b. \<not> lt a b \<and> \<not> lt b a) (y # ys)) \<and>
      set (std_unique (\<lambda>a b. \<not> lt a b \<and> \<not> lt b a) (y # ys)) \<subseteq> set (y # ys) \<and>
      length (std_unique (\<lambda>a b. \<not> lt a b \<and> \<not> lt b a) (y # ys)) \<le> length (y # ys) \<and>
      (\<forall>z \<in> set (y # ys). \<exists>w \<in> set (std_unique (\<lambda>a b. \<not> lt a b \<and> \<not> lt b a) (y # ys)). equivalent lt z w)"
      by simp
    have "lt x z" if "z \<in> set (y # ys)" for z
      using that xy 3(3) lt_not_lt_trans[OF xy] by auto
    with IH have "\<forall>z \<in> set (std_unique (\<lambda>a b. \<not> lt a b \<and> \<not> lt b a) (y # ys)). lt x z" by blast
    with IH xy equivalent_refl show ?thesis by auto
  qed
qed (simp_all add: equivalent_refl)

end

section \<open>The containers over any tree that meets the contract\<close>

definition map_ok :: "('t \<Rightarrow> bool) \<Rightarrow> 't imt_map \<Rightarrow> bool" where
  "map_ok ok m \<longleftrightarrow> ok (map_tree m)"

definition set_ok :: "('t \<Rightarrow> bool) \<Rightarrow> 't imt_set \<Rightarrow> bool" where
  "set_ok ok m \<longleftrightarrow> ok (set_tree m)"

definition set_keys :: "('t \<Rightarrow> ('k \<times> unit) list) \<Rightarrow> 't imt_set \<Rightarrow> 'k list" where
  "set_keys entries m = map fst (entries (set_tree m))"

context ordered_tree
begin

lemma FromEntries_spec:
  assumes "std_sort_ok (\<lambda>a b. lt (fst a) (fst b)) srt" and "length es \<le> max_entries"
  shows "\<not> distinct_keys lt es \<Longrightarrow> ImtMap_FromEntries ops srt lt es = Inr None"
    and "distinct_keys lt es \<Longrightarrow> \<exists>m. ImtMap_FromEntries ops srt lt es = Inr (Some m) \<and> ok (map_tree m) \<and>
      mset (entries (map_tree m)) = mset es"
proof -
  have srt: "mset (srt es) = mset es" "sorted_wrt (\<lambda>a b. \<not> lt (fst b) (fst a)) (srt es)"
    using assms(1) by (simp_all add: std_sort_ok_def)
  have len: "length (srt es) \<le> max_entries" using assms(2) srt(1) by (metis size_mset)
  note adj = adjacent_test[OF srt(2) refl] distinct_keys_mset[OF srt(1), of lt]
  show "ImtMap_FromEntries ops srt lt es = Inr None" if "\<not> distinct_keys lt es"
    using that adj(1,3) unfolding ImtMap_FromEntries_def Let_def by simp
  show "\<exists>m. ImtMap_FromEntries ops srt lt es = Inr (Some m) \<and> ok (map_tree m) \<and>
      mset (entries (map_tree m)) = mset es" if "distinct_keys lt es"
  proof -
    have "sorted_entries lt (srt es)" using that adj by blast
    from from_sorted[OF this len] obtain t where
      "op_from_sorted ops (srt es) lt = Inr t" "ok t" "entries t = srt es" by blast
    with that adj(1,3) srt(1) show ?thesis
      unfolding ImtMap_FromEntries_def Let_def by (intro exI[of _ "ImtMap t"]) simp
  qed
qed

text \<open>The wrappers return what the tree returns, wrapped.\<close>

lemma Map_update_yields:
  assumes "ok (map_tree m)"
  shows "length (entries (map_tree m)) < max_entries \<Longrightarrow>
      yields (map_ok ok) (\<lambda>m. entries (map_tree m)) (ImtMap_Insert ops m k v) (om_insert lt (entries (map_tree m)) k v)"
    and "yields (map_ok ok) (\<lambda>m. entries (map_tree m)) (ImtMap_Update ops m k v) (om_update lt (entries (map_tree m)) k v)"
    and "yields (map_ok ok) (\<lambda>m. entries (map_tree m)) (ImtMap_Erase ops m k) (om_erase lt (entries (map_tree m)) k)"
  using insert[OF assms, of k v] update[OF assms, of k v] erase[OF assms, of k]
  by (auto simp: ImtMap_Insert_def ImtMap_Update_def ImtMap_Erase_def map_ok_def elim!: yields_cases)

lemma Map_lookup_Set:
  assumes "ok (map_tree m)" "length (entries (map_tree m)) < max_entries"
  shows "\<exists>m'. ImtMap_Set ops m k v = Inr m' \<and> ok (map_tree m') \<and>
    (\<forall>k'. ImtMap_Find ops m' k' = (if equivalent lt k k' then Inr (Some v) else ImtMap_Find ops m k'))"
  using set[OF assms, of k v] lookup_set[OF assms] by (auto simp: ImtMap_Set_def ImtMap_Find_def)

lemma Map_lookup_Insert:
  assumes "ok (map_tree m)" "length (entries (map_tree m)) < max_entries"
  shows "ImtMap_Find ops m k \<noteq> Inr None \<and> ImtMap_Insert ops m k v = Inr None \<or>
    ImtMap_Find ops m k = Inr None \<and>
    (\<exists>m'. ImtMap_Insert ops m k v = Inr (Some m') \<and> ok (map_tree m') \<and> ImtMap_Size ops m' = ImtMap_Size ops m + 1 \<and>
      (\<forall>k'. ImtMap_Find ops m' k' = (if equivalent lt k k' then Inr (Some v) else ImtMap_Find ops m k')))"
  using insert[OF assms, of k v]
proof (cases rule: yields_cases)
  case missing
  then show ?thesis using insert_refused[OF assms, of k v] by (simp add: ImtMap_Insert_def ImtMap_Find_def)
next
  case (found t)
  have "op_find ops (map_tree m) k = Inr None"
    using insert_refused[OF assms, of k v] found(1) by auto
  moreover have "op_size ops t = op_size ops (map_tree m) + 1"
    using size[OF assms(1)] size[OF found(3)] om_insert_length[OF found(2)] by simp
  ultimately show ?thesis
    using found lookup_insert[OF assms found(1)]
    by (intro disjI2) (simp add: ImtMap_Insert_def ImtMap_Find_def ImtMap_Size_def)
qed

lemma Map_lookup_Erase:
  assumes "ok (map_tree m)"
  shows "ImtMap_Find ops m k = Inr None \<and> ImtMap_Erase ops m k = Inr None \<or>
    ImtMap_Find ops m k \<noteq> Inr None \<and>
    (\<exists>m'. ImtMap_Erase ops m k = Inr (Some m') \<and> ok (map_tree m') \<and> ImtMap_Size ops m' + 1 = ImtMap_Size ops m \<and>
      (\<forall>k'. ImtMap_Find ops m' k' = (if equivalent lt k k' then Inr None else ImtMap_Find ops m k')))"
  using erase[OF assms, of k]
proof (cases rule: yields_cases)
  case missing
  then show ?thesis using erase_refused[OF assms, of k] by (simp add: ImtMap_Erase_def ImtMap_Find_def)
next
  case (found t)
  have "op_find ops (map_tree m) k \<noteq> Inr None"
    using erase_refused[OF assms, of k] found(1) by auto
  moreover have "op_size ops t + 1 = op_size ops (map_tree m)"
    using size[OF assms] size[OF found(3)] om_erase_length[OF sorted[OF assms] found(2)] by simp
  ultimately show ?thesis
    using found lookup_erase[OF assms found(1)]
    by (intro disjI2) (simp add: ImtMap_Erase_def ImtMap_Find_def ImtMap_Size_def)
qed

end

text \<open>The tree of a set: the same contract, at the value type \<open>UnitValue\<close>.\<close>

locale ordered_set_tree = ordered_tree lt ops ok entries
  for lt :: "'k \<Rightarrow> 'k \<Rightarrow> bool" and ops :: "('k, unit, 't, 's) tree_ops"
    and ok :: "'t \<Rightarrow> bool" and entries :: "'t \<Rightarrow> ('k \<times> unit) list"
begin

lemma Set_Contains:
  "ok (set_tree s) \<Longrightarrow> ImtSet_Contains ops s k = Inr (\<exists>x \<in> set (set_keys entries s). equivalent lt x k)"
  using contains[of "set_tree s" k] om_find_None[of "entries (set_tree s)" k]
  by (auto simp: ImtSet_Contains_def set_keys_def)

lemma FromKeys_spec:
  assumes "std_sort_ok lt srt" and "length ks \<le> max_entries"
  shows "\<exists>s. ImtSet_FromKeys ops srt lt ks = Inr s \<and> ok (set_tree s) \<and> sorted_wrt lt (set_keys entries s) \<and>
    set (set_keys entries s) \<subseteq> set ks \<and> (\<forall>k. ImtSet_Contains ops s k = Inr (\<exists>x \<in> set ks. equivalent lt x k))"
proof -
  define us where "us = std_unique (\<lambda>l r. \<not> lt l r \<and> \<not> lt r l) (srt ks)"
  have srt: "set (srt ks) = set ks" "length (srt ks) = length ks" "sorted_wrt (\<lambda>a b. \<not> lt b a) (srt ks)"
    using assms(1) unfolding std_sort_ok_def by (metis mset_eq_setD, metis mset_eq_length, metis)
  have us: "sorted_wrt lt us" "set us \<subseteq> set ks" "length us \<le> length ks"
      "\<forall>x \<in> set ks. \<exists>y \<in> set us. equivalent lt x y"
    using std_unique_sorted[OF srt(3)] unfolding us_def srt(1,2) by blast+
  have "sorted_entries lt (map (\<lambda>key. (key, ())) us)"
    using us(1) by (simp add: sorted_entries_def sorted_wrt_map)
  from from_sorted[OF this] us(3) assms(2) obtain t where
    t: "op_from_sorted ops (map (\<lambda>key. (key, ())) us) lt = Inr t" "ok t" "entries t = map (\<lambda>key. (key, ())) us"
    by auto
  have keys: "set_keys entries (ImtSet t) = us" by (simp add: set_keys_def t(3) comp_def)
  have "(\<exists>x \<in> set us. equivalent lt x k) \<longleftrightarrow> (\<exists>x \<in> set ks. equivalent lt x k)" for k
    using us(2,4) equivalent_sym equivalent_trans by blast
  then have "ImtSet_Contains ops (ImtSet t) k = Inr (\<exists>x \<in> set ks. equivalent lt x k)" for k
    using Set_Contains[of "ImtSet t" k] t(2) keys by simp
  then show ?thesis
    using t us keys by (intro exI[of _ "ImtSet t"]) (simp add: ImtSet_FromKeys_def us_def Let_def)
qed

lemma Set_Add:
  assumes "ok (set_tree s)" "length (entries (set_tree s)) < max_entries"
  shows "\<exists>s'. ImtSet_Add ops s k = Inr s' \<and> ok (set_tree s') \<and>
    (\<forall>k'. ImtSet_Contains ops s' k' = (if equivalent lt k k' then Inr True else ImtSet_Contains ops s k'))"
  using insert[OF assms, of k "()"]
proof (cases rule: yields_cases)
  case missing
  have "ImtSet_Contains ops s k' = Inr True" if "equivalent lt k k'" for k'
  proof -
    have "\<exists>x \<in> set (set_keys entries s). equivalent lt x k"
      using missing(2) om_defined(1)[of "entries (set_tree s)" k "()"] om_find_None[of "entries (set_tree s)" k]
      by (auto simp: set_keys_def)
    then show ?thesis using Set_Contains[OF assms(1), of k'] that equivalent_trans by auto
  qed
  then show ?thesis using missing assms(1) by (auto simp: ImtSet_Add_def ImtSet_Insert_def)
next
  case (found t)
  have "ImtSet_Contains ops (ImtSet t) k' = (if equivalent lt k k' then Inr True else ImtSet_Contains ops s k')" for k'
    using contains[OF found(3), of k'] contains[OF assms(1), of k'] om_find_insert[OF sorted[OF assms(1)] found(2), of k']
    by (auto simp: ImtSet_Contains_def)
  then show ?thesis using found by (auto simp: ImtSet_Add_def ImtSet_Insert_def)
qed

lemma Set_Erase:
  assumes "ok (set_tree s)"
  shows "ImtSet_Contains ops s k = Inr False \<and> ImtSet_Erase ops s k = Inr None \<or>
    ImtSet_Contains ops s k = Inr True \<and>
    (\<exists>s'. ImtSet_Erase ops s k = Inr (Some s') \<and> ok (set_tree s') \<and>
      (\<forall>k'. ImtSet_Contains ops s' k' = (if equivalent lt k k' then Inr False else ImtSet_Contains ops s k')))"
  using erase[OF assms, of k]
proof (cases rule: yields_cases)
  case missing
  then show ?thesis
    using contains[OF assms, of k] om_defined(3)[of "entries (set_tree s)" k]
    by (simp add: ImtSet_Contains_def ImtSet_Erase_def)
next
  case (found t)
  have "ImtSet_Contains ops s k = Inr True"
    using contains[OF assms, of k] om_defined(3)[of "entries (set_tree s)" k] found(2)
    by (auto simp: ImtSet_Contains_def)
  moreover have "ImtSet_Contains ops (ImtSet t) k' = (if equivalent lt k k' then Inr False else ImtSet_Contains ops s k')" for k'
    using contains[OF found(3), of k'] contains[OF assms(1), of k'] om_find_erase[OF sorted[OF assms(1)] found(2), of k']
    by (auto simp: ImtSet_Contains_def)
  ultimately show ?thesis using found by (auto simp: ImtSet_Erase_def)
qed

lemma Set_walks:
  assumes "ok (set_tree s)"
  shows "ImtSet_ToVector ops s = Inr (set_keys entries s)"
    and "ImtSet_ForEach ops s fn st = Inr (fold fn (set_keys entries s) st)"
proof -
  show "ImtSet_ToVector ops s = Inr (set_keys entries s)"
    using to_vector[OF assms] by (simp add: ImtSet_ToVector_def set_keys_def)
  have "fold (\<lambda>(k, v). fn k) es st = fold fn (map fst es) st" for es :: "('k \<times> unit) list"
    by (induction es arbitrary: st) auto
  then show "ImtSet_ForEach ops s fn st = Inr (fold fn (set_keys entries s) st)"
    using for_each[OF assms, of "\<lambda>key _. fn key" st] by (simp add: ImtSet_ForEach_def set_keys_def)
qed

end

end
