(* ===== verification/Immutable_Tree.thy ===== *)
theory Immutable_Tree
  imports Ordered_Tree
begin

text \<open>
  \<open>ImmutableTree\<close> of immutable_container/include/immutable_container/immutable_tree.h: the
  persistent AVL tree with one entry per node.  A \<open>NodePtr\<close> is a value of the datatype
  \<open>node_ptr\<close>: nodes are immutable once published, so sharing is not observable and a version of
  the tree is its root.  Every node caches its size in a \<open>uint32_t\<close> and its height in a
  \<open>uint16_t\<close>; both are kept at their width and the checks of \<open>MakeNode\<close> that guard the
  conversions are part of the model.  The comparison object \<open>comp_\<close> is the argument \<open>lt\<close>.
\<close>

section \<open>Nodes\<close>

(* immutable_tree.h:29-62 Node *)
datatype ('k, 'v) node_ptr =
    NullPtr
  | Node 'k 'v "('k, 'v) node_ptr" "('k, 'v) node_ptr" "32 word" "16 word"

(* immutable_tree.h:175-175 Height *)
fun Tree_Height :: "('k, 'v) node_ptr \<Rightarrow> int" where
  "Tree_Height NullPtr = 0"
| "Tree_Height (Node k v l r s h) = uint h"

(* immutable_tree.h:177-177 Size *)
fun Tree_Size :: "('k, 'v) node_ptr \<Rightarrow> nat" where
  "Tree_Size NullPtr = 0"
| "Tree_Size (Node k v l r s h) = unat s"

(* immutable_tree.h:193-213 MakeNode *)
definition Tree_MakeNode :: "'k \<Rightarrow> 'v \<Rightarrow> ('k, 'v) node_ptr \<Rightarrow> ('k, 'v) node_ptr \<Rightarrow> ('k, 'v) node_ptr res" where
  "Tree_MakeNode k v l r =
     (let height = 1 + max (Tree_Height l) (Tree_Height r) in
      if height > 65535 then Inl (Length_Error ''ImmutableTree node height exceeds uint16_t max'')
      else let left_size = Tree_Size l; right_size = Tree_Size r; max_size = 4294967295 in
      if left_size > max_size - 1 \<or> right_size > max_size - 1 - left_size
      then Inl (Length_Error ''ImmutableTree node size exceeds uint32_t max'')
      else let size = 1 + left_size + right_size in
      Inr (Node k v l r (of_nat size) (word_of_int height)))"

section \<open>Rebalancing\<close>

(* immutable_tree.h:215-217 BalanceFactor *)
fun Tree_BalanceFactor :: "('k, 'v) node_ptr \<Rightarrow> int" where
  "Tree_BalanceFactor NullPtr = 0"
| "Tree_BalanceFactor (Node k v l r s h) = Tree_Height l - Tree_Height r"

(* immutable_tree.h:219-224 RotateLeft *)
fun Tree_RotateLeft :: "('k, 'v) node_ptr \<Rightarrow> ('k, 'v) node_ptr res" where
  "Tree_RotateLeft (Node k v l (Node pk pv pl pr ps ph) s h) =
     bindE (Tree_MakeNode k v l pl) (\<lambda>new_left. Tree_MakeNode pk pv new_left pr)"
| "Tree_RotateLeft _ = Inl Undefined_Behaviour"

(* immutable_tree.h:226-231 RotateRight *)
fun Tree_RotateRight :: "('k, 'v) node_ptr \<Rightarrow> ('k, 'v) node_ptr res" where
  "Tree_RotateRight (Node k v (Node pk pv pl pr ps ph) r s h) =
     bindE (Tree_MakeNode k v pr r) (\<lambda>new_right. Tree_MakeNode pk pv pl new_right)"
| "Tree_RotateRight _ = Inl Undefined_Behaviour"

(* immutable_tree.h:233-256 Balance *)
fun Tree_Balance :: "('k, 'v) node_ptr \<Rightarrow> ('k, 'v) node_ptr res" where
  "Tree_Balance NullPtr = Inr NullPtr"
| "Tree_Balance (Node k v l r s h) =
     (let node = Node k v l r s h; factor = Tree_BalanceFactor node in
      if factor > 1 then
        (if Tree_BalanceFactor l < 0 then
           bindE (Tree_RotateLeft l) (\<lambda>new_left.
           bindE (Tree_MakeNode k v new_left r) Tree_RotateRight)
         else Tree_RotateRight node)
      else if factor < -1 then
        (if Tree_BalanceFactor r > 0 then
           bindE (Tree_RotateRight r) (\<lambda>new_right.
           bindE (Tree_MakeNode k v l new_right) Tree_RotateLeft)
         else Tree_RotateLeft node)
      else Inr node)"

section \<open>Lookup and updates\<close>

(* immutable_tree.h:82-94 Find *)
fun Tree_Find :: "('k \<Rightarrow> 'k \<Rightarrow> bool) \<Rightarrow> ('k, 'v) node_ptr \<Rightarrow> 'k \<Rightarrow> 'v option" where
  "Tree_Find lt NullPtr key = None"
| "Tree_Find lt (Node k v l r s h) key =
     (if lt key k then Tree_Find lt l key
      else if lt k key then Tree_Find lt r key
      else Some v)"

(* immutable_tree.h:96-96 Contains *)
definition Tree_Contains :: "('k \<Rightarrow> 'k \<Rightarrow> bool) \<Rightarrow> ('k, 'v) node_ptr \<Rightarrow> 'k \<Rightarrow> bool" where
  "Tree_Contains lt root key \<longleftrightarrow> Tree_Find lt root key \<noteq> None"

(* immutable_tree.h:76-76 Empty *)
definition Tree_Empty :: "('k, 'v) node_ptr \<Rightarrow> bool" where
  "Tree_Empty root \<longleftrightarrow> (case root of NullPtr \<Rightarrow> True | Node _ _ _ _ _ _ \<Rightarrow> False)"

(* immutable_tree.h:258-281 InsertNode *)
fun Tree_InsertNode :: "('k \<Rightarrow> 'k \<Rightarrow> bool) \<Rightarrow> ('k, 'v) node_ptr \<Rightarrow> 'k \<Rightarrow> 'v \<Rightarrow> ('k, 'v) node_ptr option res" where
  "Tree_InsertNode lt NullPtr key value =
     bindE (Tree_MakeNode key value NullPtr NullPtr) (\<lambda>n. Inr (Some n))"
| "Tree_InsertNode lt (Node k v l r s h) key value =
     (if lt key k then
        bindE (Tree_InsertNode lt l key value) (\<lambda>new_left.
        case new_left of None \<Rightarrow> Inr None
        | Some nl \<Rightarrow> bindE (bindE (Tree_MakeNode k v nl r) Tree_Balance) (\<lambda>n. Inr (Some n)))
      else if lt k key then
        bindE (Tree_InsertNode lt r key value) (\<lambda>new_right.
        case new_right of None \<Rightarrow> Inr None
        | Some nr \<Rightarrow> bindE (bindE (Tree_MakeNode k v l nr) Tree_Balance) (\<lambda>n. Inr (Some n)))
      else Inr None)"

(* immutable_tree.h:283-306 UpdateNode *)
fun Tree_UpdateNode :: "('k \<Rightarrow> 'k \<Rightarrow> bool) \<Rightarrow> ('k, 'v) node_ptr \<Rightarrow> 'k \<Rightarrow> 'v \<Rightarrow> ('k, 'v) node_ptr option res" where
  "Tree_UpdateNode lt NullPtr key value = Inr None"
| "Tree_UpdateNode lt (Node k v l r s h) key value =
     (if lt key k then
        bindE (Tree_UpdateNode lt l key value) (\<lambda>new_left.
        case new_left of None \<Rightarrow> Inr None
        | Some nl \<Rightarrow> bindE (bindE (Tree_MakeNode k v nl r) Tree_Balance) (\<lambda>n. Inr (Some n)))
      else if lt k key then
        bindE (Tree_UpdateNode lt r key value) (\<lambda>new_right.
        case new_right of None \<Rightarrow> Inr None
        | Some nr \<Rightarrow> bindE (bindE (Tree_MakeNode k v l nr) Tree_Balance) (\<lambda>n. Inr (Some n)))
      else bindE (bindE (Tree_MakeNode k value l r) Tree_Balance) (\<lambda>n. Inr (Some n)))"

(* immutable_tree.h:308-324 SetNode *)
fun Tree_SetNode :: "('k \<Rightarrow> 'k \<Rightarrow> bool) \<Rightarrow> ('k, 'v) node_ptr \<Rightarrow> 'k \<Rightarrow> 'v \<Rightarrow> ('k, 'v) node_ptr res" where
  "Tree_SetNode lt NullPtr key value = Tree_MakeNode key value NullPtr NullPtr"
| "Tree_SetNode lt (Node k v l r s h) key value =
     (if lt key k then
        bindE (Tree_SetNode lt l key value) (\<lambda>nl. bindE (Tree_MakeNode k v nl r) Tree_Balance)
      else if lt k key then
        bindE (Tree_SetNode lt r key value) (\<lambda>nr. bindE (Tree_MakeNode k v l nr) Tree_Balance)
      else bindE (Tree_MakeNode k value l r) Tree_Balance)"

(* immutable_tree.h:326-332 FindMin *)
fun Tree_FindMin :: "('k, 'v) node_ptr \<Rightarrow> ('k, 'v) node_ptr" where
  "Tree_FindMin NullPtr = NullPtr"
| "Tree_FindMin (Node k v NullPtr r s h) = Node k v NullPtr r s h"
| "Tree_FindMin (Node k v (Node lk lv ll lr ls lh) r s h) = Tree_FindMin (Node lk lv ll lr ls lh)"

(* immutable_tree.h:334-339 EraseMin *)
fun Tree_EraseMin :: "('k, 'v) node_ptr \<Rightarrow> ('k, 'v) node_ptr res" where
  "Tree_EraseMin NullPtr = Inl Undefined_Behaviour"
| "Tree_EraseMin (Node k v l r s h) =
     (if Tree_Empty l then Inr r
      else bindE (Tree_EraseMin l) (\<lambda>nl. bindE (Tree_MakeNode k v nl r) Tree_Balance))"

(* immutable_tree.h:341-372 EraseNode *)
fun Tree_EraseNode :: "('k \<Rightarrow> 'k \<Rightarrow> bool) \<Rightarrow> ('k, 'v) node_ptr \<Rightarrow> 'k \<Rightarrow> ('k, 'v) node_ptr option res" where
  "Tree_EraseNode lt NullPtr key = Inr None"
| "Tree_EraseNode lt (Node k v l r s h) key =
     (if lt key k then
        bindE (Tree_EraseNode lt l key) (\<lambda>new_left.
        case new_left of None \<Rightarrow> Inr None
        | Some nl \<Rightarrow> bindE (bindE (Tree_MakeNode k v nl r) Tree_Balance) (\<lambda>n. Inr (Some n)))
      else if lt k key then
        bindE (Tree_EraseNode lt r key) (\<lambda>new_right.
        case new_right of None \<Rightarrow> Inr None
        | Some nr \<Rightarrow> bindE (bindE (Tree_MakeNode k v l nr) Tree_Balance) (\<lambda>n. Inr (Some n)))
      else if Tree_Empty l then Inr (Some r)
      else if Tree_Empty r then Inr (Some l)
      else
        (case Tree_FindMin r of
           NullPtr \<Rightarrow> Inl Undefined_Behaviour
         | Node sk sv _ _ _ _ \<Rightarrow>
             bindE (Tree_EraseMin r) (\<lambda>new_right.
             bindE (bindE (Tree_MakeNode sk sv l new_right) Tree_Balance) (\<lambda>n. Inr (Some n)))))"

section \<open>Public operations\<close>

text \<open>
  A tree object holds its root and its comparison object; every public update builds a new
  object from the new root and leaves the receiver as it was.
\<close>

(* immutable_tree.h:443-444 root_ *)
record ('k, 'v) immutable_tree =
  tree_root :: "('k, 'v) node_ptr"
  tree_comp :: "'k \<Rightarrow> 'k \<Rightarrow> bool"

(* immutable_tree.h:67-67 ImmutableTree *)
definition ImmutableTree_empty :: "('k \<Rightarrow> 'k \<Rightarrow> bool) \<Rightarrow> ('k, 'v) immutable_tree" where
  "ImmutableTree_empty cmp = \<lparr>tree_root = NullPtr, tree_comp = cmp\<rparr>"

(* immutable_tree.h:98-104 Insert *)
definition ImmutableTree_Insert :: "('k, 'v) immutable_tree \<Rightarrow> 'k \<Rightarrow> 'v \<Rightarrow> ('k, 'v) immutable_tree option res" where
  "ImmutableTree_Insert t key value =
     bindE (Tree_InsertNode (tree_comp t) (tree_root t) key value) (\<lambda>new_root.
     case new_root of None \<Rightarrow> Inr None
     | Some n \<Rightarrow> Inr (Some \<lparr>tree_root = n, tree_comp = tree_comp t\<rparr>))"

(* immutable_tree.h:106-112 Update *)
definition ImmutableTree_Update :: "('k, 'v) immutable_tree \<Rightarrow> 'k \<Rightarrow> 'v \<Rightarrow> ('k, 'v) immutable_tree option res" where
  "ImmutableTree_Update t key value =
     bindE (Tree_UpdateNode (tree_comp t) (tree_root t) key value) (\<lambda>new_root.
     case new_root of None \<Rightarrow> Inr None
     | Some n \<Rightarrow> Inr (Some \<lparr>tree_root = n, tree_comp = tree_comp t\<rparr>))"

(* immutable_tree.h:114-120 Erase *)
definition ImmutableTree_Erase :: "('k, 'v) immutable_tree \<Rightarrow> 'k \<Rightarrow> ('k, 'v) immutable_tree option res" where
  "ImmutableTree_Erase t key =
     bindE (Tree_EraseNode (tree_comp t) (tree_root t) key) (\<lambda>new_root.
     case new_root of None \<Rightarrow> Inr None
     | Some n \<Rightarrow> Inr (Some \<lparr>tree_root = n, tree_comp = tree_comp t\<rparr>))"

(* immutable_tree.h:122-124 Set *)
definition ImmutableTree_Set :: "('k, 'v) immutable_tree \<Rightarrow> 'k \<Rightarrow> 'v \<Rightarrow> ('k, 'v) immutable_tree res" where
  "ImmutableTree_Set t key value =
     bindE (Tree_SetNode (tree_comp t) (tree_root t) key value) (\<lambda>n. Inr \<lparr>tree_root = n, tree_comp = tree_comp t\<rparr>)"

section \<open>Iteration\<close>

(* immutable_tree.h:374-381 AppendInOrder *)
fun Tree_AppendInOrder :: "('k, 'v) node_ptr \<Rightarrow> ('k \<times> 'v) list \<Rightarrow> ('k \<times> 'v) list" where
  "Tree_AppendInOrder NullPtr result = result"
| "Tree_AppendInOrder (Node k v l r s h) result =
     (let result = Tree_AppendInOrder l result;
          result = result @ [(k, v)]
      in Tree_AppendInOrder r result)"

(* immutable_tree.h:126-131 ToVector *)
definition Tree_ToVector :: "('k, 'v) node_ptr \<Rightarrow> ('k \<times> 'v) list" where
  "Tree_ToVector root = Tree_AppendInOrder root []"

text \<open>The visitor \<open>fn\<close> of the code may have effects: it transforms a state of the caller.\<close>

(* immutable_tree.h:383-391 ForEachInOrder *)
fun Tree_ForEachInOrder :: "('k, 'v) node_ptr \<Rightarrow> ('k \<Rightarrow> 'v \<Rightarrow> 's \<Rightarrow> 's) \<Rightarrow> 's \<Rightarrow> 's" where
  "Tree_ForEachInOrder NullPtr fn st = st"
| "Tree_ForEachInOrder (Node k v l r s h) fn st =
     (let st = Tree_ForEachInOrder l fn st; st = fn k v st in Tree_ForEachInOrder r fn st)"

(* immutable_tree.h:393-405 ForEachInOrderUntil *)
fun Tree_ForEachInOrderUntil :: "('k, 'v) node_ptr \<Rightarrow> ('k \<Rightarrow> 'v \<Rightarrow> 's \<Rightarrow> bool \<times> 's) \<Rightarrow> 's \<Rightarrow> bool \<times> 's" where
  "Tree_ForEachInOrderUntil NullPtr fn st = (True, st)"
| "Tree_ForEachInOrderUntil (Node k v l r s h) fn st =
     (let (ok, st) = Tree_ForEachInOrderUntil l fn st in
      if \<not> ok then (False, st)
      else let (ok, st) = fn k v st in
      if \<not> ok then (False, st)
      else Tree_ForEachInOrderUntil r fn st)"

section \<open>Bulk construction\<close>

(* immutable_tree.h:181-191 ValidateSortedUniqueEntries *)
definition Tree_ValidateSortedUniqueEntries :: "('k \<times> 'v) list \<Rightarrow> ('k \<Rightarrow> 'k \<Rightarrow> bool) \<Rightarrow> unit res" where
  "Tree_ValidateSortedUniqueEntries entries cmp =
     foldE (\<lambda>_ index. if \<not> cmp (fst (entries ! (index - 1))) (fst (entries ! index))
                      then Inl (Invalid_Argument ''ImmutableTree entries must be sorted and unique'')
                      else Inr ())
       () [1..<length entries]"

text \<open>
  The code stops at \<open>begin == end\<close>; it only ever reaches ranges with \<open>begin \<le> end\<close>, for
  which the test below is the same.
\<close>

(* immutable_tree.h:407-419 BuildBalancedFromSorted *)
function Tree_BuildBalancedFromSorted :: "('k \<times> 'v) list \<Rightarrow> nat \<Rightarrow> nat \<Rightarrow> ('k, 'v) node_ptr res" where
  "Tree_BuildBalancedFromSorted entries begn en =
     (if begn \<ge> en then Inr NullPtr
      else let middle = begn + (en - begn) div 2 in
        bindE (Tree_BuildBalancedFromSorted entries begn middle) (\<lambda>left.
        bindE (Tree_BuildBalancedFromSorted entries (middle + 1) en) (\<lambda>right.
        if middle < length entries
        then Tree_MakeNode (fst (entries ! middle)) (snd (entries ! middle)) left right
        else Inl Undefined_Behaviour)))"
  by pat_completeness auto
termination
  by (relation "measure (\<lambda>(entries, begn, en). en - begn)") auto

declare Tree_BuildBalancedFromSorted.simps [simp del]

(* immutable_tree.h:69-74 FromSortedUniqueEntries *)
definition ImmutableTree_FromSortedUniqueEntries ::
    "('k \<times> 'v) list \<Rightarrow> ('k \<Rightarrow> 'k \<Rightarrow> bool) \<Rightarrow> ('k, 'v) immutable_tree res" where
  "ImmutableTree_FromSortedUniqueEntries entries cmp =
     bindE (Tree_ValidateSortedUniqueEntries entries cmp) (\<lambda>_.
     bindE (Tree_BuildBalancedFromSorted entries 0 (length entries)) (\<lambda>root.
     Inr \<lparr>tree_root = root, tree_comp = cmp\<rparr>))"

section \<open>Invariant\<close>

text \<open>The entries in iteration order, and the AVL invariant with correct cached fields.\<close>

fun inorder :: "('k, 'v) node_ptr \<Rightarrow> ('k \<times> 'v) list" where
  "inorder NullPtr = []"
| "inorder (Node k v l r s h) = inorder l @ (k, v) # inorder r"

fun avl :: "('k, 'v) node_ptr \<Rightarrow> bool" where
  "avl NullPtr \<longleftrightarrow> True"
| "avl (Node k v l r s h) \<longleftrightarrow>
     avl l \<and> avl r \<and> \<bar>Tree_Height l - Tree_Height r\<bar> \<le> 1 \<and>
     uint h = 1 + max (Tree_Height l) (Tree_Height r) \<and>
     unat s = 1 + Tree_Size l + Tree_Size r"

lemma Tree_Height_nonneg [simp]: "0 \<le> Tree_Height t"
  by (cases t) auto

lemma Tree_Size_le: "Tree_Size t \<le> 4294967295"
  by (cases t) (auto simp: unat_32_le)

lemma Tree_Size_inorder: "avl t \<Longrightarrow> Tree_Size t = length (inorder t)"
  by (induction t) auto

text \<open>An AVL tree of height \<open>h\<close> has at least \<open>2 ^ (h div 2) - 1\<close> entries, so no height check fails.\<close>

lemma avl_height_size: "avl t \<Longrightarrow> 2 ^ (nat (Tree_Height t) div 2) \<le> Tree_Size t + 1"
proof (induction t)
  case (Node k v l r s h)
  let ?hl = "nat (Tree_Height l)" and ?hr = "nat (Tree_Height r)"
  let ?m = "(Suc (max ?hl ?hr)) div 2"
  have h: "nat (Tree_Height (Node k v l r s h)) = Suc (max ?hl ?hr)"
    using Node.prems by (cases "Tree_Height l \<le> Tree_Height r") (auto simp: nat_add_distrib max_def)
  have close: "?hl \<le> Suc ?hr" "?hr \<le> Suc ?hl"
    using Node.prems by auto
  have IH: "2 ^ (?hl div 2) \<le> Tree_Size l + 1" "2 ^ (?hr div 2) \<le> Tree_Size r + 1"
    using Node by auto
  have "?m \<le> Suc (?hl div 2)" using close by arith
  moreover have "?m \<le> Suc (?hr div 2)" using close by arith
  ultimately have "(2::nat) ^ ?m \<le> 2 * 2 ^ (?hl div 2)" "(2::nat) ^ ?m \<le> 2 * 2 ^ (?hr div 2)"
    by (metis power_Suc power_increasing one_le_numeral)+
  with IH have "2 ^ ?m \<le> Tree_Size l + Tree_Size r + 2" by linarith
  then show ?case using Node.prems h by simp
qed simp

lemma avl_height_le: "avl t \<Longrightarrow> Tree_Height t \<le> 65"
proof (rule ccontr)
  assume "avl t" and "\<not> Tree_Height t \<le> 65"
  then have "33 \<le> nat (Tree_Height t) div 2" by simp
  then have "(2::nat) ^ 33 \<le> 2 ^ (nat (Tree_Height t) div 2)"
    by (intro power_increasing) auto
  with avl_height_size[OF \<open>avl t\<close>] Tree_Size_le[of t] show False by simp
qed

section \<open>Rebalancing is correct\<close>

text \<open>\<open>mk\<close> is the node \<open>MakeNode\<close> builds when its checks pass.\<close>

definition mk :: "'k \<Rightarrow> 'v \<Rightarrow> ('k, 'v) node_ptr \<Rightarrow> ('k, 'v) node_ptr \<Rightarrow> ('k, 'v) node_ptr" where
  "mk k v l r = Node k v l r (of_nat (1 + Tree_Size l + Tree_Size r))
                  (word_of_int (1 + max (Tree_Height l) (Tree_Height r)))"

definition fits :: "('k, 'v) node_ptr \<Rightarrow> ('k, 'v) node_ptr \<Rightarrow> bool" where
  "fits l r \<longleftrightarrow> Tree_Height l < 65535 \<and> Tree_Height r < 65535 \<and> Tree_Size l + Tree_Size r < 4294967295"

lemma Tree_MakeNode_fits: "fits l r \<Longrightarrow> Tree_MakeNode k v l r = Inr (mk k v l r)"
  by (auto simp: Tree_MakeNode_def fits_def mk_def Let_def)

lemma mk_words:
  assumes "fits l r"
  shows "unat (of_nat (1 + Tree_Size l + Tree_Size r) :: 32 word) = 1 + Tree_Size l + Tree_Size r"
    and "uint (word_of_int (1 + max (Tree_Height l) (Tree_Height r)) :: 16 word)
      = 1 + max (Tree_Height l) (Tree_Height r)"
  using assms Tree_Height_nonneg[of l] Tree_Height_nonneg[of r]
  by (intro unat_of_nat32 uint_of_int16; simp add: fits_def max_def)+

lemma mk_fields:
  assumes "fits l r"
  shows "Tree_Height (mk k v l r) = 1 + max (Tree_Height l) (Tree_Height r)"
    and "Tree_Size (mk k v l r) = 1 + Tree_Size l + Tree_Size r"
    and "Tree_BalanceFactor (mk k v l r) = Tree_Height l - Tree_Height r"
    and "inorder (mk k v l r) = inorder l @ (k, v) # inorder r"
  unfolding mk_def by (simp_all only: Tree_Height.simps Tree_Size.simps Tree_BalanceFactor.simps
      inorder.simps mk_words[OF assms])

lemma avl_mk: "fits l r \<Longrightarrow> avl l \<Longrightarrow> avl r \<Longrightarrow> \<bar>Tree_Height l - Tree_Height r\<bar> \<le> 1 \<Longrightarrow> avl (mk k v l r)"
  unfolding mk_def by (simp only: avl.simps mk_words)

lemma fits_avl: "avl l \<Longrightarrow> avl r \<Longrightarrow> Tree_Size l + Tree_Size r < 4294967295 \<Longrightarrow> fits l r"
  using avl_height_le[of l] avl_height_le[of r] by (auto simp: fits_def)

lemma avl_Node_mk:
  assumes "avl (Node k v l r s h)"
  shows "Node k v l r s h = mk k v l r" and "fits l r"
proof -
  have "of_nat (unat s) = s" "word_of_int (uint h) = h"
    by simp_all
  with assms have "s = of_nat (1 + Tree_Size l + Tree_Size r)"
      "h = word_of_int (1 + max (Tree_Height l) (Tree_Height r))"
    by (metis avl.simps(2))+
  then show "Node k v l r s h = mk k v l r" by (simp add: mk_def)
  have "Tree_Size l + Tree_Size r < 4294967295"
    using assms unat_32_le[of s] by auto
  with assms show "fits l r" by (auto intro: fits_avl)
qed

lemma mk_cases:
  assumes "avl t" and "0 < Tree_Height t"
  obtains k v l r where "t = mk k v l r" "fits l r" "avl l" "avl r"
    "\<bar>Tree_Height l - Tree_Height r\<bar> \<le> 1"
proof (cases t)
  case (Node k v l r s h)
  with assms(1) have a: "avl (Node k v l r s h)" by simp
  have "avl l" "avl r" "\<bar>Tree_Height l - Tree_Height r\<bar> \<le> 1" using a by simp_all
  with avl_Node_mk[OF a] Node that show thesis by metis
qed (use assms in simp)

lemma Tree_RotateRight_mk:
  assumes "fits pr r" and "fits pl (mk k v pr r)"
  shows "Tree_RotateRight (mk k v (mk pk pv pl pr) r) = Inr (mk pk pv pl (mk k v pr r))"
proof -
  have "Tree_RotateRight (mk k v (mk pk pv pl pr) r) =
      bindE (Tree_MakeNode k v pr r) (\<lambda>new_right. Tree_MakeNode pk pv pl new_right)"
    unfolding mk_def by (rule Tree_RotateRight.simps)
  with assms show ?thesis by (simp add: Tree_MakeNode_fits)
qed

lemma Tree_RotateLeft_mk:
  assumes "fits l pl" and "fits (mk k v l pl) pr"
  shows "Tree_RotateLeft (mk k v l (mk pk pv pl pr)) = Inr (mk pk pv (mk k v l pl) pr)"
proof -
  have "Tree_RotateLeft (mk k v l (mk pk pv pl pr)) =
      bindE (Tree_MakeNode k v l pl) (\<lambda>new_left. Tree_MakeNode pk pv new_left pr)"
    unfolding mk_def by (rule Tree_RotateLeft.simps)
  with assms show ?thesis by (simp add: Tree_MakeNode_fits)
qed

lemma Tree_Balance_mk_eq:
  assumes "fits l r"
  shows "Tree_Balance (mk k v l r) =
    (if Tree_Height l > Tree_Height r + 1 then
       (if Tree_BalanceFactor l < 0 then
          bindE (Tree_RotateLeft l) (\<lambda>new_left. bindE (Tree_MakeNode k v new_left r) Tree_RotateRight)
        else Tree_RotateRight (mk k v l r))
     else if Tree_Height r > Tree_Height l + 1 then
       (if Tree_BalanceFactor r > 0 then
          bindE (Tree_RotateRight r) (\<lambda>new_right. bindE (Tree_MakeNode k v l new_right) Tree_RotateLeft)
        else Tree_RotateLeft (mk k v l r))
     else Inr (mk k v l r))"
  unfolding mk_def by (simp add: Let_def del: of_nat_Suc of_nat_add of_int_add)

text \<open>
  \<open>balanced l e r t\<close>: the tree \<open>t\<close> is what rebalancing makes of the node with the subtrees
  \<open>l\<close> and \<open>r\<close>: the same entries, the AVL invariant, and a height that is that of the node, or
  one less when a rotation was needed.
\<close>

definition balanced :: "('k, 'v) node_ptr \<Rightarrow> 'k \<Rightarrow> 'v \<Rightarrow> ('k, 'v) node_ptr \<Rightarrow> ('k, 'v) node_ptr \<Rightarrow> bool" where
  "balanced l k v r t \<longleftrightarrow> avl t \<and> inorder t = inorder l @ (k, v) # inorder r \<and>
     (Tree_Height t = 1 + max (Tree_Height l) (Tree_Height r) \<or>
      Tree_Height t = max (Tree_Height l) (Tree_Height r) \<and> 1 < \<bar>Tree_Height l - Tree_Height r\<bar>)"

lemma balanced_node:
  "fits l r \<Longrightarrow> avl l \<Longrightarrow> avl r \<Longrightarrow> \<bar>Tree_Height l - Tree_Height r\<bar> \<le> 1 \<Longrightarrow> balanced l k v r (mk k v l r)"
  by (simp add: balanced_def avl_mk mk_fields)

lemmas mk_tree = mk_fields fits_def avl_mk Tree_MakeNode_fits Tree_RotateLeft_mk Tree_RotateRight_mk balanced_def

lemma Tree_Balance_left_heavy:
  assumes "fits l r" "avl l" "avl r" "Tree_Height l = Tree_Height r + 2"
  shows "\<exists>t. Tree_Balance (mk k v l r) = Inr t \<and> balanced l k v r t"
proof -
  obtain lk lv ll lr where l: "l = mk lk lv ll lr" "fits ll lr" "avl ll" "avl lr"
      "\<bar>Tree_Height ll - Tree_Height lr\<bar> \<le> 1"
    by (rule mk_cases[OF assms(2)]) (use assms(4) Tree_Height_nonneg[of r] in linarith)
  show ?thesis
  proof (cases "Tree_Height ll < Tree_Height lr")
    case True
    obtain pk pv pl pr where p: "lr = mk pk pv pl pr" "fits pl pr" "avl pl" "avl pr"
        "\<bar>Tree_Height pl - Tree_Height pr\<bar> \<le> 1"
      by (rule mk_cases[OF l(4)]) (use True Tree_Height_nonneg[of ll] in linarith)
    have "Tree_Balance (mk k v l r) = Inr (mk pk pv (mk lk lv ll pl) (mk k v pr r))"
      using True assms(1,4) l(2,5) p(2,5) by (simp add: Tree_Balance_mk_eq l(1) p(1) mk_tree)
    moreover have "balanced l k v r (mk pk pv (mk lk lv ll pl) (mk k v pr r))"
      using True assms l p by (simp add: mk_tree) (auto simp: mk_tree max_def split: if_splits)
    ultimately show ?thesis by blast
  next
    case False
    have "Tree_Balance (mk k v l r) = Inr (mk lk lv ll (mk k v lr r))"
      using False assms(1,4) l(2,5) by (simp add: Tree_Balance_mk_eq l(1) mk_tree)
    moreover have "balanced l k v r (mk lk lv ll (mk k v lr r))"
      using False assms l by (simp add: mk_tree) auto
    ultimately show ?thesis by blast
  qed
qed

lemma Tree_Balance_right_heavy:
  assumes "fits l r" "avl l" "avl r" "Tree_Height r = Tree_Height l + 2"
  shows "\<exists>t. Tree_Balance (mk k v l r) = Inr t \<and> balanced l k v r t"
proof -
  obtain rk rv rl rr where r: "r = mk rk rv rl rr" "fits rl rr" "avl rl" "avl rr"
      "\<bar>Tree_Height rl - Tree_Height rr\<bar> \<le> 1"
    by (rule mk_cases[OF assms(3)]) (use assms(4) Tree_Height_nonneg[of l] in linarith)
  show ?thesis
  proof (cases "Tree_Height rr < Tree_Height rl")
    case True
    obtain pk pv pl pr where p: "rl = mk pk pv pl pr" "fits pl pr" "avl pl" "avl pr"
        "\<bar>Tree_Height pl - Tree_Height pr\<bar> \<le> 1"
      by (rule mk_cases[OF r(3)]) (use True Tree_Height_nonneg[of rr] in linarith)
    have "Tree_Balance (mk k v l r) = Inr (mk pk pv (mk k v l pl) (mk rk rv pr rr))"
      using True assms(1,4) r(2,5) p(2,5) by (simp add: Tree_Balance_mk_eq r(1) p(1) mk_tree)
    moreover have "balanced l k v r (mk pk pv (mk k v l pl) (mk rk rv pr rr))"
      using True assms r p by (simp add: mk_tree) (auto simp: mk_tree max_def split: if_splits)
    ultimately show ?thesis by blast
  next
    case False
    have "Tree_Balance (mk k v l r) = Inr (mk rk rv (mk k v l rl) rr)"
      using False assms(1,4) r(2,5) by (simp add: Tree_Balance_mk_eq r(1) mk_tree)
    moreover have "balanced l k v r (mk rk rv (mk k v l rl) rr)"
      using False assms r by (simp add: mk_tree) auto
    ultimately show ?thesis by blast
  qed
qed

text \<open>The one fact every update uses: make a node over two AVL trees and rebalance it.\<close>

lemma make_balanced:
  assumes "avl l" "avl r" "\<bar>Tree_Height l - Tree_Height r\<bar> \<le> 2"
    and "length (inorder l) + length (inorder r) < 4294967295"
  obtains t where "bindE (Tree_MakeNode k v l r) Tree_Balance = Inr t" "balanced l k v r t"
proof -
  have f: "fits l r" using assms by (simp add: fits_avl Tree_Size_inorder)
  consider "\<bar>Tree_Height l - Tree_Height r\<bar> \<le> 1" | "Tree_Height l = Tree_Height r + 2"
    | "Tree_Height r = Tree_Height l + 2" using assms(3) by linarith
  then have "\<exists>t. Tree_Balance (mk k v l r) = Inr t \<and> balanced l k v r t"
  proof cases
    case 1
    then have "\<not> Tree_Height l > Tree_Height r + 1" "\<not> Tree_Height r > Tree_Height l + 1" by linarith+
    then have "Tree_Balance (mk k v l r) = Inr (mk k v l r)" using f by (simp add: Tree_Balance_mk_eq)
    with f assms 1 show ?thesis by (auto intro: balanced_node)
  next
    case 2
    with f assms(1,2) show ?thesis by (rule Tree_Balance_left_heavy)
  next
    case 3
    with f assms(1,2) show ?thesis by (rule Tree_Balance_right_heavy)
  qed
  with f that show thesis by (auto simp: Tree_MakeNode_fits)
qed

section \<open>The updates meet the ordered-map specification\<close>

text \<open>
  \<open>updated D t m ys\<close>: the call \<open>m\<close> on the tree \<open>t\<close> returns, the entries of the new version (if
  there is one) are \<open>ys\<close>, and it is an AVL tree whose height differs from that of \<open>t\<close> by a
  member of \<open>D\<close>.
\<close>

definition updated :: "int set \<Rightarrow> ('k, 'v) node_ptr \<Rightarrow> ('k, 'v) node_ptr option res \<Rightarrow> ('k \<times> 'v) list option \<Rightarrow> bool" where
  "updated D t m ys \<longleftrightarrow>
     (\<exists>res. m = Inr res \<and> map_option inorder res = ys \<and>
        (\<forall>t'. res = Some t' \<longrightarrow> avl t' \<and> Tree_Height t' - Tree_Height t \<in> D))"

lemma updated_None [simp]: "updated D t (Inr None) ys \<longleftrightarrow> ys = None"
  by (auto simp: updated_def)

lemma updatedI: "m = Inr (Some t') \<Longrightarrow> ys = Some (inorder t') \<Longrightarrow> avl t' \<Longrightarrow>
    Tree_Height t' - Tree_Height t \<in> D \<Longrightarrow> updated D t m ys"
  by (simp add: updated_def)

lemma updated_cases:
  assumes "updated D t m ys"
  obtains (missing) "m = Inr None" "ys = None"
  | (found) t' where "m = Inr (Some t')" "ys = Some (inorder t')" "avl t'" "Tree_Height t' - Tree_Height t \<in> D"
  using assms unfolding updated_def by (metis not_None_eq option.map(1,2))

text \<open>Rebuilding the path to the root over a changed left or right child.\<close>

lemma updated_left:
  assumes t: "avl (Node k v l r s h)" and m: "updated D l m ys" and D: "D \<subseteq> {-1..1}" "0 \<in> D"
    and len: "\<And>zs. ys = Some zs \<Longrightarrow> length zs + length (inorder r) < 4294967295"
  shows "updated D (Node k v l r s h)
     (bindE m (\<lambda>new_left. case new_left of None \<Rightarrow> Inr None
        | Some nl \<Rightarrow> bindE (bindE (Tree_MakeNode k v nl r) Tree_Balance) (\<lambda>n. Inr (Some n))))
     (map_option (\<lambda>zs. zs @ (k, v) # inorder r) ys)"
  using m
proof (cases rule: updated_cases)
  case (found nl)
  have d: "Tree_Height nl - Tree_Height l \<in> {-1..1}" using found(4) D(1) by blast
  then have "\<bar>Tree_Height nl - Tree_Height r\<bar> \<le> 2" "avl r"
    using t by auto
  with found len obtain n where n: "bindE (Tree_MakeNode k v nl r) Tree_Balance = Inr n" "balanced nl k v r n"
    by (metis make_balanced)
  from n(2) have "Tree_Height n - Tree_Height (Node k v l r s h) \<in> {0, Tree_Height nl - Tree_Height l}"
    using t d by (auto simp: balanced_def)
  with found(4) D(2) have "Tree_Height n - Tree_Height (Node k v l r s h) \<in> D" by auto
  with n found(1,2) show ?thesis by (intro updatedI[of _ n]) (auto simp: balanced_def)
qed simp

lemma updated_right:
  assumes t: "avl (Node k v l r s h)" and m: "updated D r m ys" and D: "D \<subseteq> {-1..1}" "0 \<in> D"
    and len: "\<And>zs. ys = Some zs \<Longrightarrow> length (inorder l) + length zs < 4294967295"
  shows "updated D (Node k v l r s h)
     (bindE m (\<lambda>new_right. case new_right of None \<Rightarrow> Inr None
        | Some nr \<Rightarrow> bindE (bindE (Tree_MakeNode k v l nr) Tree_Balance) (\<lambda>n. Inr (Some n))))
     (map_option (\<lambda>zs. inorder l @ (k, v) # zs) ys)"
  using m
proof (cases rule: updated_cases)
  case (found nr)
  have d: "Tree_Height nr - Tree_Height r \<in> {-1..1}" using found(4) D(1) by blast
  then have "\<bar>Tree_Height l - Tree_Height nr\<bar> \<le> 2" "avl l"
    using t by auto
  with found len obtain n where n: "bindE (Tree_MakeNode k v l nr) Tree_Balance = Inr n" "balanced l k v nr n"
    by (metis make_balanced)
  from n(2) have "Tree_Height n - Tree_Height (Node k v l r s h) \<in> {0, Tree_Height nr - Tree_Height r}"
    using t d by (auto simp: balanced_def)
  with found(4) D(2) have "Tree_Height n - Tree_Height (Node k v l r s h) \<in> D" by auto
  with n found(1,2) show ?thesis by (intro updatedI[of _ n]) (auto simp: balanced_def)
qed simp

text \<open>A node remade with another entry over the same or a lower right child.\<close>

lemma updated_here:
  assumes t: "avl (Node k v l r s h)" and r': "avl r'" "Tree_Height r' - Tree_Height r \<in> {-1, 0}"
    and len: "length (inorder l) + length (inorder r') < 4294967295"
  shows "updated {-1, 0} (Node k v l r s h)
     (bindE (bindE (Tree_MakeNode k' v' l r') Tree_Balance) (\<lambda>n. Inr (Some n)))
     (Some (inorder l @ (k', v') # inorder r'))"
    and "r' = r \<Longrightarrow> updated {0} (Node k v l r s h)
     (bindE (bindE (Tree_MakeNode k' v' l r') Tree_Balance) (\<lambda>n. Inr (Some n)))
     (Some (inorder l @ (k', v') # inorder r'))"
proof -
  have "avl l" "\<bar>Tree_Height l - Tree_Height r'\<bar> \<le> 2" using t r' by auto
  with r' len obtain n where n: "bindE (Tree_MakeNode k' v' l r') Tree_Balance = Inr n" "balanced l k' v' r' n"
    by (metis make_balanced)
  show "updated {-1, 0} (Node k v l r s h)
     (bindE (bindE (Tree_MakeNode k' v' l r') Tree_Balance) (\<lambda>n. Inr (Some n)))
     (Some (inorder l @ (k', v') # inorder r'))"
    by (rule updatedI[of _ n]) (use n t r' in \<open>auto simp: balanced_def\<close>)
  show "updated {0} (Node k v l r s h)
     (bindE (bindE (Tree_MakeNode k' v' l r') Tree_Balance) (\<lambda>n. Inr (Some n)))
     (Some (inorder l @ (k', v') # inorder r'))" if "r' = r"
    by (rule updatedI[of _ n]) (use n t that in \<open>auto simp: balanced_def\<close>)
qed

lemma FindMin_EraseMin:
  assumes "avl t" "t \<noteq> NullPtr"
  shows "\<exists>k v l r s h t'. Tree_FindMin t = Node k v l r s h \<and> Tree_EraseMin t = Inr t' \<and>
     inorder t = (k, v) # inorder t' \<and> avl t' \<and> Tree_Height t' - Tree_Height t \<in> {-1, 0}"
  using assms
proof (induction t rule: Tree_FindMin.induct)
  case (2 k v r s h)
  then show ?case by (auto simp: Tree_Empty_def)
next
  case (3 k v lk lv ll lr ls lh r s h)
  let ?l = "Node lk lv ll lr ls lh" and ?t = "Node k v (Node lk lv ll lr ls lh) r s h"
  from 3 obtain a b ml mr ms mi t' where IH: "Tree_FindMin ?l = Node a b ml mr ms mi"
      "Tree_EraseMin ?l = Inr t'" "inorder ?l = (a, b) # inorder t'" "avl t'"
      "Tree_Height t' - Tree_Height ?l \<in> {-1, 0}" by auto
  have "length (inorder ?t) \<le> 4294967295"
    using 3(2) Tree_Size_le[of ?t] by (metis Tree_Size_inorder)
  then have "length (inorder t') + length (inorder r) < 4294967295"
    using arg_cong[OF IH(3), of length] by simp
  moreover have "\<bar>Tree_Height t' - Tree_Height r\<bar> \<le> 2" "avl r" using 3(2) IH(5) by auto
  ultimately obtain n where n: "bindE (Tree_MakeNode k v t' r) Tree_Balance = Inr n" "balanced t' k v r n"
    using IH(4) by (metis make_balanced)
  have "Tree_Height n = 1 + max (Tree_Height t') (Tree_Height r) \<or>
      Tree_Height n = max (Tree_Height t') (Tree_Height r) \<and> 1 < \<bar>Tree_Height t' - Tree_Height r\<bar>"
    using n(2) unfolding balanced_def by blast
  moreover have "Tree_Height ?t = 1 + max (Tree_Height ?l) (Tree_Height r)" 
      "\<bar>Tree_Height ?l - Tree_Height r\<bar> \<le> 1" using 3(2) unfolding avl.simps(2)[of k v ?l r s h] Tree_Height.simps(2)[of k v ?l r s h] by blast+
  ultimately have "Tree_Height n - Tree_Height ?t \<in> {-1, 0}"
    using IH(5) unfolding insert_iff empty_iff by linarith
  moreover have "Tree_FindMin ?t = Node a b ml mr ms mi" using IH(1) by simp
  moreover have "Tree_EraseMin ?t = Inr n" using n(1) IH(2) by (simp add: Tree_Empty_def)
  moreover have "inorder ?t = (a, b) # inorder n"
    using IH(3) n(2) unfolding inorder.simps(2)[of k v] by (simp add: balanced_def del: inorder.simps)
  moreover have "avl n" using n(2) by (simp add: balanced_def)
  ultimately show ?case by blast
qed simp

lemma inorder_le: "avl t \<Longrightarrow> length (inorder t) \<le> 4294967295"
  using Tree_Size_le[of t] by (simp add: Tree_Size_inorder)

context strict_weak_order
begin

lemma InsertNode_updated:
  fixes t :: "('k, 'v) node_ptr"
  assumes "avl t" "sorted_entries lt (inorder t)" "length (inorder t) < 4294967295"
  shows "updated {0, 1} t (Tree_InsertNode lt t k v) (om_insert lt (inorder t) k v)"
  using assms
proof (induction t)
  case NullPtr
  have "fits (NullPtr :: ('k, 'v) node_ptr) NullPtr" by (simp add: fits_def)
  then show ?case
    by (intro updatedI[of _ "mk k v NullPtr NullPtr"]) (simp_all add: mk_tree)
next
  case (Node k' v' l r s h)
  note [simp] = om_left1 om_right1
  consider "lt k k'" | "\<not> lt k k'" "lt k' k" | "\<not> lt k k'" "\<not> lt k' k" by blast
  then show ?case
  proof cases
    case 1
    have "updated {0, 1} l (Tree_InsertNode lt l k v) (om_insert lt (inorder l) k v)"
      using Node by simp
    moreover have "length zs + length (inorder r) < 4294967295" if "om_insert lt (inorder l) k v = Some zs" for zs
      using Node.prems(3) om_insert_length[OF that] by simp
    ultimately show ?thesis
      using updated_left[OF Node.prems(1), of "{0, 1}"] Node.prems(2) 1 by simp
  next
    case 2
    have "updated {0, 1} r (Tree_InsertNode lt r k v) (om_insert lt (inorder r) k v)"
      using Node by simp
    moreover have "length (inorder l) + length zs < 4294967295" if "om_insert lt (inorder r) k v = Some zs" for zs
      using Node.prems(3) om_insert_length[OF that] by simp
    ultimately show ?thesis
      using updated_right[OF Node.prems(1), of "{0, 1}"] Node.prems(2) 2 by simp
  next
    case 3
    then show ?thesis using Node.prems om_here(2)[of "inorder l" "(k', v')"] by simp
  qed
qed

lemma UpdateNode_updated:
  assumes "avl t" "sorted_entries lt (inorder t)"
  shows "updated {0} t (Tree_UpdateNode lt t k v) (om_update lt (inorder t) k v)"
  using assms
proof (induction t)
  case (Node k' v' l r s h)
  note [simp] = om_left1 om_right1
  have len: "length (inorder l) + length (inorder r) < 4294967295"
    using inorder_le[OF Node.prems(1)] by simp
  consider "lt k k'" | "\<not> lt k k'" "lt k' k" | "\<not> lt k k'" "\<not> lt k' k" by blast
  then show ?case
  proof cases
    case 1
    have "updated {0} l (Tree_UpdateNode lt l k v) (om_update lt (inorder l) k v)"
      using Node by simp
    moreover have "length zs + length (inorder r) < 4294967295" if "om_update lt (inorder l) k v = Some zs" for zs
      using len om_update_length[OF _ that] Node.prems(2) by simp
    ultimately show ?thesis
      using updated_left[OF Node.prems(1), of "{0}"] Node.prems(2) 1 by simp
  next
    case 2
    have "updated {0} r (Tree_UpdateNode lt r k v) (om_update lt (inorder r) k v)"
      using Node by simp
    moreover have "length (inorder l) + length zs < 4294967295" if "om_update lt (inorder r) k v = Some zs" for zs
      using len om_update_length[OF _ that] Node.prems(2) by simp
    ultimately show ?thesis
      using updated_right[OF Node.prems(1), of "{0}"] Node.prems(2) 2 by simp
  next
    case 3
    have "avl r" using Node.prems(1) by simp
    from updated_here(2)[OF Node.prems(1) this _ len refl] show ?thesis
      using 3 Node.prems om_here(3)[of "inorder l" "(k', v')"] by simp
  qed
qed simp

lemma EraseNode_updated:
  assumes "avl t" "sorted_entries lt (inorder t)"
  shows "updated {-1, 0} t (Tree_EraseNode lt t k) (om_erase lt (inorder t) k)"
  using assms
proof (induction t)
  case (Node k' v' l r s h)
  note [simp] = om_left1 om_right1
  have len: "length (inorder l) + length (inorder r) < 4294967295"
    using inorder_le[OF Node.prems(1)] by simp
  consider "lt k k'" | "\<not> lt k k'" "lt k' k" | "\<not> lt k k'" "\<not> lt k' k" by blast
  then show ?case
  proof cases
    case 1
    have "updated {-1, 0} l (Tree_EraseNode lt l k) (om_erase lt (inorder l) k)"
      using Node by simp
    moreover have "length zs + length (inorder r) < 4294967295" if "om_erase lt (inorder l) k = Some zs" for zs
      using len om_erase_length[OF _ that] Node.prems(2) by simp
    ultimately show ?thesis
      using updated_left[OF Node.prems(1), of "{-1, 0}"] Node.prems(2) 1 by simp
  next
    case 2
    have "updated {-1, 0} r (Tree_EraseNode lt r k) (om_erase lt (inorder r) k)"
      using Node by simp
    moreover have "length (inorder l) + length zs < 4294967295" if "om_erase lt (inorder r) k = Some zs" for zs
      using len om_erase_length[OF _ that] Node.prems(2) by simp
    ultimately show ?thesis
      using updated_right[OF Node.prems(1), of "{-1, 0}"] Node.prems(2) 2 by simp
  next
    case 3
    have spec: "om_erase lt (inorder (Node k' v' l r s h)) k = Some (inorder l @ inorder r)"
      using 3 Node.prems om_here(4)[of "inorder l" "(k', v')"] by simp
    consider "l = NullPtr" | "l \<noteq> NullPtr" "r = NullPtr" | "l \<noteq> NullPtr" "r \<noteq> NullPtr" by blast
    then show ?thesis
    proof cases
      case 1
      then show ?thesis using 3 spec Node.prems(1)
        by (intro updatedI[of _ r]) (auto simp: Tree_Empty_def)
    next
      case 2
      then show ?thesis using 3 spec Node.prems(1)
        by (intro updatedI[of _ l]) (auto simp: Tree_Empty_def split: node_ptr.split)
    next
      case both: 3
      have "avl r" using Node.prems(1) by simp
      from FindMin_EraseMin[OF this both(2)] obtain sk sv sl sr ss sh r' where
        r': "Tree_FindMin r = Node sk sv sl sr ss sh" "Tree_EraseMin r = Inr r'"
          "inorder r = (sk, sv) # inorder r'" "avl r'" "Tree_Height r' - Tree_Height r \<in> {-1, 0}"
        by blast
      have "length (inorder l) + length (inorder r') < 4294967295"
        using len arg_cong[OF r'(3), of length] by simp
      from updated_here(1)[OF Node.prems(1) r'(4,5) this, of sk sv] show ?thesis
        using 3 both r'(1-3) spec by (simp add: Tree_Empty_def split: node_ptr.split)
    qed
  qed
qed simp

lemma SetNode_updated:
  fixes t :: "('k, 'v) node_ptr"
  assumes "avl t" "sorted_entries lt (inorder t)"
    and "om_update lt (inorder t) k v \<noteq> None \<or> length (inorder t) < 4294967295"
  shows "updated {0, 1} t (bindE (Tree_SetNode lt t k v) (\<lambda>n. Inr (Some n))) (Some (om_set lt (inorder t) k v))"
  using assms
proof (induction t)
  case NullPtr
  have "fits (NullPtr :: ('k, 'v) node_ptr) NullPtr" by (simp add: fits_def)
  then show ?case
    by (intro updatedI[of _ "mk k v NullPtr NullPtr"]) (simp_all add: mk_tree)
next
  case (Node k' v' l r s h)
  note [simp] = om_left1 om_right1
  let ?set = "\<lambda>t. bindE (Tree_SetNode lt t k v) (\<lambda>n. Inr (Some n))"
  have len: "length (inorder l) + length (inorder r) < 4294967295"
    using inorder_le[OF Node.prems(1)] by simp
  have grown: "length (om_set lt xs k v) + length ys < 4294967295"
    if "length xs + length ys < 4294967295" "sorted_entries lt xs"
      "om_update lt xs k v \<noteq> None \<or> Suc (length xs + length ys) < 4294967295" for xs ys :: "('k \<times> 'v) list"
    using that om_set_length[OF that(2), of k v] om_update_length[OF that(2), of k v]
    by (auto simp: om_set_def split: option.splits)
  consider "lt k k'" | "\<not> lt k k'" "lt k' k" | "\<not> lt k k'" "\<not> lt k' k" by blast
  then show ?case
  proof cases
    case 1
    have "updated {0, 1} l (?set l) (Some (om_set lt (inorder l) k v))"
      using Node 1 by auto
    moreover have "length (om_set lt (inorder l) k v) + length (inorder r) < 4294967295"
      using Node.prems 1 len by (intro grown) auto
    ultimately show ?thesis
      using updated_left[OF Node.prems(1), of "{0, 1}" "?set l" "Some (om_set lt (inorder l) k v)"] Node.prems(2) 1
      by (simp add: bindE_assoc)
  next
    case 2
    have "updated {0, 1} r (?set r) (Some (om_set lt (inorder r) k v))"
      using Node 2 by auto
    moreover have "length (inorder l) + length (om_set lt (inorder r) k v) < 4294967295"
      using Node.prems 2 len grown[of "inorder r" "inorder l"] by (auto simp: add.commute)
    ultimately show ?thesis
      using updated_right[OF Node.prems(1), of "{0, 1}" "?set r" "Some (om_set lt (inorder r) k v)"] Node.prems(2) 2
      by (simp add: bindE_assoc)
  next
    case 3
    have "avl r" using Node.prems(1) by simp
    from updated_here(2)[OF Node.prems(1) this _ len refl, of k' v] show ?thesis
      using 3 Node.prems(2) om_here(5)[of "inorder l" "(k', v')"]
      by (auto simp: updated_def)
  qed
qed

lemma Find_correct:
  assumes "sorted_entries lt (inorder t)"
  shows "Tree_Find lt t k = om_find lt (inorder t) k"
  using assms
proof (induction t)
  case (Node k' v' l r s h)
  then show ?case
    using om_left1(1)[where e = "(k', v')"] om_right1(1)[where e = "(k', v')"]
      om_here(1)[of "inorder l" "(k', v')" "inorder r"] by simp
qed simp

text \<open>
  The error branch: a full tree refuses a new key with an exception, and only then.
\<close>

lemma MakeNode_full:
  assumes "avl l" "avl r" "length (inorder l) + length (inorder r) \<ge> 4294967295"
  shows "Tree_MakeNode k v l r = Inl (Length_Error ''ImmutableTree node size exceeds uint32_t max'')"
  using assms avl_height_le[OF assms(1)] avl_height_le[OF assms(2)] inorder_le[OF assms(1)]
  by (auto simp: Tree_MakeNode_def Let_def Tree_Size_inorder)

lemma InsertNode_full:
  assumes "avl t" "sorted_entries lt (inorder t)" "length (inorder t) = 4294967295"
    and new: "om_insert lt (inorder t) k v \<noteq> None"
  shows "Tree_InsertNode lt t k v = Inl (Length_Error ''ImmutableTree node size exceeds uint32_t max'')"
proof (cases t)
  case (Node k' v' l r s h)
  note [simp] = om_left1 om_right1
  have sub: "avl l" "avl r" "sorted_entries lt (inorder l)" "sorted_entries lt (inorder r)"
      "length (inorder l) + length (inorder r) = 4294967294"
    using assms Node by auto
  consider "lt k k'" | "\<not> lt k k'" "lt k' k" | "\<not> lt k k'" "\<not> lt k' k" by blast
  then show ?thesis
  proof cases
    case 1
    then obtain zs where zs: "om_insert lt (inorder l) k v = Some zs" using new assms(2) Node by auto
    have "length (inorder l) < 4294967295" using sub(5) by linarith
    from InsertNode_updated[OF sub(1,3) this, of k v] zs obtain nl where
      "Tree_InsertNode lt l k v = Inr (Some nl)" "inorder nl = zs" "avl nl"
      by (auto elim!: updated_cases)
    with 1 Node sub om_insert_length[OF zs] MakeNode_full[of nl r k' v'] show ?thesis by simp
  next
    case 2
    then obtain zs where zs: "om_insert lt (inorder r) k v = Some zs" using new assms(2) Node by auto
    have "length (inorder r) < 4294967295" using sub(5) by linarith
    from InsertNode_updated[OF sub(2,4) this, of k v] zs obtain nr where
      "Tree_InsertNode lt r k v = Inr (Some nr)" "inorder nr = zs" "avl nr"
      by (auto elim!: updated_cases)
    with 2 Node sub om_insert_length[OF zs] MakeNode_full[of l nr k' v'] show ?thesis by simp
  next
    case 3
    then show ?thesis using new assms(2) Node om_here(2)[of "inorder l" "(k', v')" "inorder r"] by simp
  qed
qed (use assms(3) in simp)

lemma ValidateSorted_iff:
  "Tree_ValidateSortedUniqueEntries es lt = Inr () \<longleftrightarrow> sorted_entries lt es"
proof -
  have "Tree_ValidateSortedUniqueEntries es lt = Inr () \<longleftrightarrow>
      (\<forall>i \<in> {1..<length es}. lt (fst (es ! (i - 1))) (fst (es ! i)))"
    unfolding Tree_ValidateSortedUniqueEntries_def foldE_unit_Inr by auto
  also have "\<dots> \<longleftrightarrow> sorted_entries lt es" by (rule adjacent_sorted)
  finally show ?thesis .
qed

end

section \<open>Iteration visits the entries in order\<close>

lemma AppendInOrder_inorder: "Tree_AppendInOrder t result = result @ inorder t"
  by (induction t arbitrary: result) simp_all

lemma ToVector_inorder: "Tree_ToVector t = inorder t"
  by (simp add: Tree_ToVector_def AppendInOrder_inorder)

lemma ForEach_fold: "Tree_ForEachInOrder t fn st = fold (\<lambda>(k, v). fn k v) (inorder t) st"
  by (induction t arbitrary: st) simp_all

lemma ForEachUntil_walk: "Tree_ForEachInOrderUntil t fn st = walk_until fn (inorder t) st"
  by (induction t arbitrary: st) (auto simp: walk_until_append split: prod.split)

section \<open>Bulk construction is balanced\<close>

lemma Tree_BuildBalanced_correct:
  assumes "begn \<le> en" "en \<le> length entries" "en - begn \<le> 4294967295"
  shows "\<exists>t. Tree_BuildBalancedFromSorted entries begn en = Inr t \<and> avl t \<and>
     inorder t = take (en - begn) (drop begn entries) \<and> Tree_Height t = int (bulk_height (en - begn))"
  using assms
proof (induction entries begn en rule: Tree_BuildBalancedFromSorted.induct)
  case (1 entries begn en)
  show ?case
  proof (cases "begn = en")
    case True
    then show ?thesis by (simp add: Tree_BuildBalancedFromSorted.simps[of entries en en] bulk_height.simps[of 0])
  next
    case False
    define n where "n = en - begn"
    define middle where "middle = begn + n div 2"
    have n: "0 < n" "middle - begn = n div 2" "en - (middle + 1) = n - n div 2 - 1"
        "middle < en" "begn \<le> middle"
      using False 1(3) by (auto simp: n_def middle_def)
    have nb: "\<not> begn \<ge> en" using False 1(3) by simp
    have meq: "middle = begn + (en - begn) div 2" by (simp add: middle_def n_def)
    have le: "middle \<le> length entries" "middle - begn \<le> 4294967295" "middle + 1 \<le> en"
        "en - (middle + 1) \<le> 4294967295"
      using n(4,5) 1(4,5) by auto
    obtain l where l: "Tree_BuildBalancedFromSorted entries begn middle = Inr l" "avl l"
        "inorder l = take (n div 2) (drop begn entries)" "Tree_Height l = int (bulk_height (n div 2))"
      using 1(1)[OF nb meq n(5)] le n(2) by auto
    obtain r where r: "Tree_BuildBalancedFromSorted entries (middle + 1) en = Inr r" "avl r"
        "inorder r = take (n - n div 2 - 1) (drop (middle + 1) entries)"
        "Tree_Height r = int (bulk_height (n - n div 2 - 1))"
      using 1(2)[OF nb meq l(1) _ 1(4)] le n(3) by auto
    let ?k = "fst (entries ! middle)" and ?v = "snd (entries ! middle)"
    have "length (inorder l) \<le> n div 2" "length (inorder r) \<le> n - n div 2 - 1" "n \<le> 4294967295"
      unfolding l(3) r(3) using 1(5) by (simp_all add: n_def)
    then have "length (inorder l) + length (inorder r) < 4294967295" using n(1) by linarith
    then have f: "fits l r" using l(2) r(2) by (simp add: fits_avl Tree_Size_inorder)
    have build: "Tree_BuildBalancedFromSorted entries begn en = Inr (mk ?k ?v l r)"
      using nb l(1) r(1) n(4) 1(4) Tree_MakeNode_fits[OF f]
      by (simp add: Tree_BuildBalancedFromSorted.simps[of entries begn en] middle_def n_def Let_def)
    have ord: "inorder (mk ?k ?v l r) = take n (drop begn entries)"
    proof -
      have "drop begn entries ! (n div 2) = entries ! middle" using 1(3,4) n by (simp add: middle_def)
      moreover have "n div 2 < length (take n (drop begn entries))" using n(1) 1(3,4) by (auto simp: n_def)
      ultimately show ?thesis
        using id_take_nth_drop[of "n div 2" "take n (drop begn entries)"] n(1)
        by (simp add: mk_fields[OF f] l(3) r(3) drop_take middle_def add.commute min_def)
    qed
    have "Tree_Height (mk ?k ?v l r) = int (bulk_height n)" "avl (mk ?k ?v l r)"
      using n(1) bulk_height_halves[OF n(1)] l r f
      by (simp_all add: mk_fields avl_mk bulk_height.simps[of n])
    with build ord show ?thesis by (simp add: n_def)
  qed
qed

section \<open>ImmutableTree meets the contract of the containers\<close>

definition ImmutableTree_ops :: "('k, 'v, ('k, 'v) immutable_tree, 's) tree_ops" where
  "ImmutableTree_ops = \<lparr>
     op_new = ImmutableTree_empty,
     op_from_sorted = ImmutableTree_FromSortedUniqueEntries,
     op_empty = (\<lambda>t. Tree_Empty (tree_root t)),
     op_size = (\<lambda>t. Tree_Size (tree_root t)),
     op_height = (\<lambda>t. Tree_Height (tree_root t)),
     op_find = (\<lambda>t key. Inr (Tree_Find (tree_comp t) (tree_root t) key)),
     op_contains = (\<lambda>t key. Inr (Tree_Contains (tree_comp t) (tree_root t) key)),
     op_insert = ImmutableTree_Insert,
     op_update = ImmutableTree_Update,
     op_erase = ImmutableTree_Erase,
     op_set = ImmutableTree_Set,
     op_to_vector = (\<lambda>t. Inr (Tree_ToVector (tree_root t))),
     op_for_each = (\<lambda>t fn st. Inr (Tree_ForEachInOrder (tree_root t) fn st)),
     op_for_each_until = (\<lambda>t fn st. Inr (Tree_ForEachInOrderUntil (tree_root t) fn st))\<rparr>"

definition ImmutableTree_ok :: "('k \<Rightarrow> 'k \<Rightarrow> bool) \<Rightarrow> ('k, 'v) immutable_tree \<Rightarrow> bool" where
  "ImmutableTree_ok lt t \<longleftrightarrow> tree_comp t = lt \<and> avl (tree_root t) \<and> sorted_entries lt (inorder (tree_root t))"

definition ImmutableTree_entries :: "('k, 'v) immutable_tree \<Rightarrow> ('k \<times> 'v) list" where
  "ImmutableTree_entries t = inorder (tree_root t)"

lemmas tree_obj_defs = ImmutableTree_ok_def ImmutableTree_entries_def

text \<open>A root update, wrapped into a new tree object.\<close>

lemma updated_yields:
  assumes "updated D r m ys" and "\<And>zs. ys = Some zs \<Longrightarrow> sorted_entries lt zs"
  shows "yields (ImmutableTree_ok lt) ImmutableTree_entries
     (bindE m (\<lambda>new_root. case new_root of None \<Rightarrow> Inr None | Some n \<Rightarrow> Inr (Some \<lparr>tree_root = n, tree_comp = lt\<rparr>))) ys"
  using assms(1) by (cases rule: updated_cases) (use assms(2) in \<open>auto simp: tree_obj_defs\<close>)

context strict_weak_order
begin

lemma Insert_yields:
  assumes "ImmutableTree_ok lt t" "length (ImmutableTree_entries t) < max_entries"
  shows "yields (ImmutableTree_ok lt) ImmutableTree_entries (ImmutableTree_Insert t k v)
    (om_insert lt (ImmutableTree_entries t) k v)"
proof -
  have "updated {0, 1} (tree_root t) (Tree_InsertNode lt (tree_root t) k v) (om_insert lt (inorder (tree_root t)) k v)"
    by (rule InsertNode_updated) (use assms in \<open>auto simp: tree_obj_defs max_entries_def\<close>)
  from updated_yields[OF this, of lt] show ?thesis
    using assms sorted_om_insert[of "inorder (tree_root t)" k v]
    by (simp add: ImmutableTree_Insert_def tree_obj_defs cong: option.case_cong)
qed

lemma Update_yields:
  assumes "ImmutableTree_ok lt t"
  shows "yields (ImmutableTree_ok lt) ImmutableTree_entries (ImmutableTree_Update t k v)
    (om_update lt (ImmutableTree_entries t) k v)"
proof -
  have "updated {0} (tree_root t) (Tree_UpdateNode lt (tree_root t) k v) (om_update lt (inorder (tree_root t)) k v)"
    by (rule UpdateNode_updated) (use assms in \<open>auto simp: tree_obj_defs\<close>)
  from updated_yields[OF this, of lt] show ?thesis
    using assms sorted_om_update[of "inorder (tree_root t)" k v]
    by (simp add: ImmutableTree_Update_def tree_obj_defs cong: option.case_cong)
qed

lemma Erase_yields:
  assumes "ImmutableTree_ok lt t"
  shows "yields (ImmutableTree_ok lt) ImmutableTree_entries (ImmutableTree_Erase t k)
    (om_erase lt (ImmutableTree_entries t) k)"
proof -
  have "updated {-1, 0} (tree_root t) (Tree_EraseNode lt (tree_root t) k) (om_erase lt (inorder (tree_root t)) k)"
    by (rule EraseNode_updated) (use assms in \<open>auto simp: tree_obj_defs\<close>)
  from updated_yields[OF this, of lt] show ?thesis
    using assms sorted_om_erase[of "inorder (tree_root t)" k]
    by (simp add: ImmutableTree_Erase_def tree_obj_defs cong: option.case_cong)
qed

lemma Set_returns:
  assumes "ImmutableTree_ok lt t"
    and "om_update lt (ImmutableTree_entries t) k v \<noteq> None \<or> length (ImmutableTree_entries t) < max_entries"
  shows "\<exists>t'. ImmutableTree_Set t k v = Inr t' \<and> ImmutableTree_ok lt t' \<and>
    ImmutableTree_entries t' = om_set lt (ImmutableTree_entries t) k v"
proof -
  have "updated {0, 1} (tree_root t) (bindE (Tree_SetNode lt (tree_root t) k v) (\<lambda>n. Inr (Some n)))
      (Some (om_set lt (ImmutableTree_entries t) k v))"
    using assms SetNode_updated[of "tree_root t" k v] by (simp add: tree_obj_defs max_entries_def)
  then show ?thesis
    using assms(1) sorted_om_set[of "ImmutableTree_entries t" k v]
    by (cases rule: updated_cases) (auto simp: ImmutableTree_Set_def tree_obj_defs)
qed

lemma FromSorted_returns:
  assumes "sorted_entries lt es" "length es \<le> max_entries"
  shows "\<exists>t. ImmutableTree_FromSortedUniqueEntries es lt = Inr t \<and> ImmutableTree_ok lt t \<and>
    ImmutableTree_entries t = es"
  using Tree_BuildBalanced_correct[of 0 "length es" es] assms ValidateSorted_iff[of es]
  by (auto simp: ImmutableTree_FromSortedUniqueEntries_def tree_obj_defs max_entries_def)

lemma FromUnsorted_throws:
  assumes "\<not> sorted_entries lt es"
  shows "ImmutableTree_FromSortedUniqueEntries es lt =
    Inl (Invalid_Argument ''ImmutableTree entries must be sorted and unique'')"
proof (cases "Tree_ValidateSortedUniqueEntries es lt")
  case (Inl e)
  then have "e = Invalid_Argument ''ImmutableTree entries must be sorted and unique''"
    by (simp add: Tree_ValidateSortedUniqueEntries_def foldE_unit_Inl)
  with Inl show ?thesis by (simp add: ImmutableTree_FromSortedUniqueEntries_def)
next
  case (Inr u)
  then show ?thesis using assms ValidateSorted_iff[of es] by simp
qed

end

lemma ordered_tree_ImmutableTree:
  assumes "strict_weak_order lt"
  shows "ordered_tree lt ImmutableTree_ops (ImmutableTree_ok lt) ImmutableTree_entries"
proof -
  note swo = strict_weak_order.Insert_yields[OF assms] strict_weak_order.Update_yields[OF assms]
    strict_weak_order.Erase_yields[OF assms] strict_weak_order.Set_returns[OF assms]
    strict_weak_order.FromSorted_returns[OF assms] strict_weak_order.FromUnsorted_throws[OF assms]
    strict_weak_order.Find_correct[OF assms]
  show ?thesis
  proof (intro ordered_tree.intro ordered_tree_axioms.intro assms, goal_cases)
    case (7 t)
    then show ?case
      using avl_height_size[of "tree_root t"] by (simp add: ImmutableTree_ops_def tree_obj_defs Tree_Size_inorder)
  next
    case (5 t)
    then show ?case
      by (cases "tree_root t") (simp_all add: ImmutableTree_ops_def Tree_Empty_def tree_obj_defs)
  next
    case (13 t k v)
    then show ?case using swo(4)[of t k v] by (auto simp: ImmutableTree_ops_def)
  qed (simp_all add: ImmutableTree_ops_def swo(1-3,5,6), simp_all add: tree_obj_defs Tree_Size_inorder
      ImmutableTree_empty_def Tree_Contains_def swo(7) ToVector_inorder ForEach_fold ForEachUntil_walk)
qed

text \<open>The default instance: \<open>Comp\<close> is \<open>std::less\<close> of an ordered key type.\<close>

interpretation imm: ordered_tree "(<) :: 'k::linorder \<Rightarrow> 'k \<Rightarrow> bool" ImmutableTree_ops
    "ImmutableTree_ok (<)" ImmutableTree_entries
  by (rule ordered_tree_ImmutableTree) unfold_locales

section \<open>The versions of a tree\<close>

text \<open>
  \<open>imm_version lt t\<close>: some sequence of public calls that returned built \<open>t\<close>.  Every version
  stays a value of its own, so a call may start from any earlier version.
\<close>

inductive imm_version :: "('k \<Rightarrow> 'k \<Rightarrow> bool) \<Rightarrow> ('k, 'v) immutable_tree \<Rightarrow> bool" for lt where
  fresh: "imm_version lt (ImmutableTree_empty lt)"
| bulk: "ImmutableTree_FromSortedUniqueEntries es lt = Inr t \<Longrightarrow> imm_version lt t"
| inserted: "imm_version lt t \<Longrightarrow> ImmutableTree_Insert t k v = Inr (Some t') \<Longrightarrow> imm_version lt t'"
| changed: "imm_version lt t \<Longrightarrow> ImmutableTree_Update t k v = Inr (Some t') \<Longrightarrow> imm_version lt t'"
| put: "imm_version lt t \<Longrightarrow> ImmutableTree_Set t k v = Inr t' \<Longrightarrow> imm_version lt t'"
| erased: "imm_version lt t \<Longrightarrow> ImmutableTree_Erase t k = Inr (Some t') \<Longrightarrow> imm_version lt t'"

lemma MakeNode_size: "Tree_MakeNode k v l r = Inr t \<Longrightarrow> Tree_Size t = 1 + Tree_Size l + Tree_Size r"
proof -
  assume t: "Tree_MakeNode k v l r = Inr t"
  then have "Tree_Size l + Tree_Size r + 1 \<le> 4294967295"
    by (auto simp: Tree_MakeNode_def Let_def split: if_splits)
  then have "unat (of_nat (1 + Tree_Size l + Tree_Size r) :: 32 word) = 1 + Tree_Size l + Tree_Size r"
    by (intro unat_of_nat32) simp
  with t show ?thesis
    by (auto simp del: unat_of_nat32 of_nat_add of_nat_Suc simp: Tree_MakeNode_def Let_def split: if_splits)
qed

lemma BuildBalanced_size:
  "Tree_BuildBalancedFromSorted es begn en = Inr t \<Longrightarrow> Tree_Size t = en - begn"
proof (induction es begn en arbitrary: t rule: Tree_BuildBalancedFromSorted.induct)
  case (1 es begn en)
  show ?case
  proof (cases "begn \<ge> en")
    case False
    let ?m = "begn + (en - begn) div 2"
    obtain l r where lr: "Tree_BuildBalancedFromSorted es begn ?m = Inr l"
        "Tree_BuildBalancedFromSorted es (?m + 1) en = Inr r"
        "Tree_MakeNode (fst (es ! ?m)) (snd (es ! ?m)) l r = Inr t"
      using 1(3) False by (auto simp: Tree_BuildBalancedFromSorted.simps[of es begn en] Let_def split: if_splits)
    from 1(1)[OF False refl lr(1)] 1(2)[OF False refl lr(1,2)] MakeNode_size[OF lr(3)] False
    show ?thesis by simp
  qed (use 1(3) in \<open>simp add: Tree_BuildBalancedFromSorted.simps[of es begn en]\<close>)
qed

context strict_weak_order
begin

lemma FromSorted_ok: "ImmutableTree_FromSortedUniqueEntries es lt = Inr t \<Longrightarrow> ImmutableTree_ok lt t"
proof -
  assume t: "ImmutableTree_FromSortedUniqueEntries es lt = Inr t"
  then have v: "Tree_ValidateSortedUniqueEntries es lt = Inr ()"
      and b: "Tree_BuildBalancedFromSorted es 0 (length es) = Inr (tree_root t)"
    by (auto simp: ImmutableTree_FromSortedUniqueEntries_def)
  from v ValidateSorted_iff have "sorted_entries lt es" by blast
  moreover have "length es \<le> max_entries"
    using BuildBalanced_size[OF b] Tree_Size_le[of "tree_root t"] by (simp add: max_entries_def)
  ultimately show ?thesis using FromSorted_returns t by fastforce
qed

lemma SetNode_absent:
  assumes "sorted_entries lt (inorder t)" "om_insert lt (inorder t) k v \<noteq> None"
  shows "Tree_SetNode lt t k v =
    bindE (Tree_InsertNode lt t k v) (\<lambda>r. case r of Some n \<Rightarrow> Inr n | None \<Rightarrow> Inl Undefined_Behaviour)"
  using assms
proof (induction t)
  case (Node k' v' l r s h)
  note [simp] = om_left1 om_right1
  have here: "om_insert lt (inorder (Node k' v' l r s h)) k v = None" if "\<not> lt k k'" "\<not> lt k' k"
    using that Node.prems(1) om_here(2)[of "inorder l" "(k', v')" "inorder r"] by simp
  have lift: "bindE (bindE m (\<lambda>x. case x of None \<Rightarrow> Inl Undefined_Behaviour | Some n \<Rightarrow> Inr n)) f =
      bindE (bindE m (\<lambda>x. case x of None \<Rightarrow> Inr None | Some n \<Rightarrow> bindE (f n) (\<lambda>n. Inr (Some n))))
        (\<lambda>x. case x of None \<Rightarrow> Inl Undefined_Behaviour | Some n \<Rightarrow> Inr n)"
    for m :: "('k, 'v) node_ptr option res" and f :: "('k, 'v) node_ptr \<Rightarrow> ('k, 'v) node_ptr res"
    by (cases m) (auto split: option.splits simp: bindE_assoc bindE_def split: sum.splits)
  show ?case using Node here by (auto simp: lift)
qed (simp add: bindE_assoc bindE_def split: sum.splits)

lemma SetNode_full:
  assumes "avl t" "sorted_entries lt (inorder t)" "length (inorder t) = 4294967295"
    and "om_update lt (inorder t) k v = None"
  shows "Tree_SetNode lt t k v = Inl (Length_Error ''ImmutableTree node size exceeds uint32_t max'')"
proof -
  have new: "om_insert lt (inorder t) k v \<noteq> None"
    using assms(4) om_defined by metis
  show ?thesis using SetNode_absent[OF assms(2) new] InsertNode_full[OF assms(1-3) new] by simp
qed

end

context strict_weak_order
begin

text \<open>On a key that is there, \<open>SetNode\<close> and \<open>UpdateNode\<close> build the same path.\<close>

lemma SetNode_UpdateNode:
  "sorted_entries lt (inorder t) \<Longrightarrow> Tree_UpdateNode lt t k v = Inr (Some n) \<Longrightarrow> Tree_SetNode lt t k v = Inr n"
  by (induction t arbitrary: n) (auto split: if_splits option.splits)

lemma InsertNode_present:
  "sorted_entries lt (inorder t) \<Longrightarrow> om_insert lt (inorder t) k v = None \<Longrightarrow> Tree_InsertNode lt t k v = Inr None"
  by (induction t) (auto simp: om_left1 om_right1)

lemma entries_le: "ImmutableTree_ok lt t \<Longrightarrow> length (ImmutableTree_entries t) \<le> max_entries"
  using inorder_le[of "tree_root t"] by (auto simp: tree_obj_defs max_entries_def)

lemma Insert_exact:
  assumes "ImmutableTree_ok lt t"
  shows "case om_insert lt (ImmutableTree_entries t) k v of
      None \<Rightarrow> ImmutableTree_Insert t k v = Inr None
    | Some ys \<Rightarrow> if length (ImmutableTree_entries t) = max_entries
        then ImmutableTree_Insert t k v = Inl (Length_Error ''ImmutableTree node size exceeds uint32_t max'')
        else \<exists>t'. ImmutableTree_Insert t k v = Inr (Some t') \<and> ImmutableTree_ok lt t' \<and> ImmutableTree_entries t' = ys"
proof (cases "length (ImmutableTree_entries t) = max_entries")
  case True
  then show ?thesis
    using assms InsertNode_full[of "tree_root t" k v] InsertNode_present[of "tree_root t" k v]
    by (auto simp: ImmutableTree_Insert_def tree_obj_defs max_entries_def split: option.splits)
next
  case False
  then have "length (ImmutableTree_entries t) < max_entries" using entries_le[OF assms] by simp
  from Insert_yields[OF assms this, of k v] False show ?thesis
    by (cases rule: yields_cases) auto
qed

lemma Set_exact:
  assumes "ImmutableTree_ok lt t"
  shows "if om_update lt (ImmutableTree_entries t) k v = None \<and> length (ImmutableTree_entries t) = max_entries
    then ImmutableTree_Set t k v = Inl (Length_Error ''ImmutableTree node size exceeds uint32_t max'')
    else \<exists>t'. ImmutableTree_Set t k v = Inr t' \<and> ImmutableTree_ok lt t' \<and>
      ImmutableTree_entries t' = om_set lt (ImmutableTree_entries t) k v"
  using assms entries_le[OF assms] Set_returns[OF assms, of k v] SetNode_full[of "tree_root t" k v]
  by (auto simp: ImmutableTree_Set_def tree_obj_defs max_entries_def)

lemma version_ok: "imm_version lt t \<Longrightarrow> ImmutableTree_ok lt t"
proof (induction rule: imm_version.induct)
  case fresh
  then show ?case by (simp add: tree_obj_defs ImmutableTree_empty_def)
next
  case (bulk es t)
  then show ?case by (rule FromSorted_ok)
next
  case (inserted t k v t')
  then show ?case using Insert_exact[of t k v] by (auto split: option.splits if_splits)
next
  case (changed t k v t')
  then show ?case using Update_yields[of t k v] by auto
next
  case (put t k v t')
  then show ?case using Set_exact[of t k v] by (auto split: if_splits)
next
  case (erased t k t')
  then show ?case using Erase_yields[of t k] by auto
qed

lemma ok_height: "ImmutableTree_ok lt t \<Longrightarrow> Tree_Height (tree_root t) \<le> 65"
  by (simp add: tree_obj_defs avl_height_le)

end

section \<open>Properties\<close>

text \<open>A version used by the concrete runs below: the keys 5, 2 and 8, inserted in this order.\<close>

definition imm_sample :: "(nat, nat) immutable_tree" where
  "imm_sample = \<lparr>tree_root = Node 5 50 (Node 2 20 NullPtr NullPtr 1 1) (Node 8 80 NullPtr NullPtr 1 1) 3 2,
     tree_comp = (<)\<rparr>"

lemma imm_sample_version: "imm_version (<) imm_sample"
proof -
  let ?t1 = "\<lparr>tree_root = Node 5 50 NullPtr NullPtr 1 1, tree_comp = (<)\<rparr> :: (nat, nat) immutable_tree"
  let ?t2 = "\<lparr>tree_root = Node 5 50 (Node 2 20 NullPtr NullPtr 1 1) NullPtr 2 2, tree_comp = (<)\<rparr>
    :: (nat, nat) immutable_tree"
  note defs = ImmutableTree_Insert_def ImmutableTree_empty_def Tree_MakeNode_def imm_sample_def
  have "imm_version (<) ?t1"
    by (rule imm_version.inserted[OF imm_version.fresh, of _ 5 50]) (simp add: defs)
  then have "imm_version (<) ?t2"
    by (rule imm_version.inserted[of _ _ 2 20]) (simp add: defs)
  then show ?thesis
    by (rule imm_version.inserted[of _ _ 8 80]) (simp add: defs)
qed

lemma less_nat_order: "strict_weak_order ((<) :: nat \<Rightarrow> nat \<Rightarrow> bool)"
  by unfold_locales

text \<open>C1: every version that public calls can build is an AVL tree whose cached sizes and heights
  are exact and whose entries are strictly sorted by the comparison object it carries; its
  height stays logarithmic in its size, and never above 65, so the 16-bit height of a node
  never overflows.\<close>

theorem imm_version_invariant:
  assumes "strict_weak_order lt" and "imm_version lt t"
  shows "avl (tree_root t) \<and> sorted_entries lt (inorder (tree_root t)) \<and> tree_comp t = lt \<and>
    2 ^ (nat (Tree_Height (tree_root t)) div 2) \<le> length (inorder (tree_root t)) + 1 \<and>
    Tree_Height (tree_root t) \<le> 65"
  using strict_weak_order.version_ok[OF assms] strict_weak_order.ok_height[OF assms(1), of t]
    avl_height_size[of "tree_root t"]
  by (simp add: tree_obj_defs Tree_Size_inorder)

theorem imm_version_invariant_witness:
  "avl (tree_root imm_sample) \<and> Tree_Height (tree_root imm_sample) \<le> 65"
  using imm_version_invariant[OF less_nat_order imm_sample_version] by simp

text \<open>C2: inserting into any version leaves it as it is and either refuses (the key has an
  equivalent in the tree), or throws \<open>length_error\<close> (the tree already has \<open>2 ^ 32 - 1\<close> entries), or
  returns a new version whose entries are the old ones with the new pair between the smaller
  and the larger keys.\<close>

theorem ImmutableTree_Insert_correct:
  assumes "strict_weak_order lt" and "imm_version lt t"
  shows "if \<exists>e \<in> set (inorder (tree_root t)). equivalent lt (fst e) k then ImmutableTree_Insert t k v = Inr None
    else if length (inorder (tree_root t)) = max_entries
    then ImmutableTree_Insert t k v = Inl (Length_Error ''ImmutableTree node size exceeds uint32_t max'')
    else \<exists>t'. ImmutableTree_Insert t k v = Inr (Some t') \<and> imm_version lt t' \<and>
      inorder (tree_root t') = lowers lt k (inorder (tree_root t)) @ (k, v) # uppers lt k (inorder (tree_root t))"
proof -
  have ok: "ImmutableTree_ok lt t" by (rule strict_weak_order.version_ok[OF assms])
  have new: "(\<exists>e \<in> set (inorder (tree_root t)). equivalent lt (fst e) k) \<longleftrightarrow>
      om_insert lt (inorder (tree_root t)) k v = None"
    using strict_weak_order.om_find_None[OF assms(1)] strict_weak_order.om_defined(1)[OF assms(1)] by metis
  show ?thesis
    unfolding new using strict_weak_order.Insert_exact[OF assms(1) ok, of k v] assms(2)
    by (auto simp: ImmutableTree_entries_def om_insert_def split: list.splits if_splits intro: imm_version.inserted)
qed

theorem ImmutableTree_Insert_correct_witness:
  "\<exists>t'. ImmutableTree_Insert imm_sample 3 30 = Inr (Some t') \<and> imm_version (<) t' \<and>
    inorder (tree_root t') = [(2, 20), (3, 30), (5, 50), (8, 80)]"
  using ImmutableTree_Insert_correct[OF less_nat_order imm_sample_version, of 3 30]
  by (simp add: imm_sample_def equivalent_def part_defs max_entries_def)

text \<open>C3: erasing never throws, whatever the shape of the tree: it refuses exactly the keys with
  no equivalent in the version, and otherwise returns a new version with that one entry
  removed, all other entries in place, at most one level lower and never higher.\<close>

theorem ImmutableTree_Erase_correct:
  assumes "strict_weak_order lt" and "imm_version lt t"
  shows "if \<forall>e \<in> set (inorder (tree_root t)). \<not> equivalent lt (fst e) k then ImmutableTree_Erase t k = Inr None
    else \<exists>t'. ImmutableTree_Erase t k = Inr (Some t') \<and> imm_version lt t' \<and>
      inorder (tree_root t') = lowers lt k (inorder (tree_root t)) @ uppers lt k (inorder (tree_root t)) \<and>
      length (inorder (tree_root t')) + 1 = length (inorder (tree_root t)) \<and>
      Tree_Height (tree_root t') \<in> {Tree_Height (tree_root t) - 1, Tree_Height (tree_root t)}"
proof -
  have ok: "ImmutableTree_ok lt t" by (rule strict_weak_order.version_ok[OF assms])
  then have root: "tree_comp t = lt" "avl (tree_root t)" "sorted_entries lt (inorder (tree_root t))"
    by (simp_all add: tree_obj_defs)
  have new: "(\<forall>e \<in> set (inorder (tree_root t)). \<not> equivalent lt (fst e) k) \<longleftrightarrow>
      om_erase lt (inorder (tree_root t)) k = None"
    using strict_weak_order.om_find_None[OF assms(1)] strict_weak_order.om_defined(3)[OF assms(1)] by metis
  show ?thesis
  proof (cases rule: updated_cases[OF strict_weak_order.EraseNode_updated[OF assms(1) root(2,3), of k], case_names none some])
    case none
    then show ?thesis unfolding new by (simp add: ImmutableTree_Erase_def root(1))
  next
    case (some r)
    have "ImmutableTree_Erase t k = Inr (Some \<lparr>tree_root = r, tree_comp = lt\<rparr>)"
      by (simp add: ImmutableTree_Erase_def root(1) some)
    moreover from imm_version.erased[OF assms(2) this] have "imm_version lt \<lparr>tree_root = r, tree_comp = lt\<rparr>" .
    ultimately show ?thesis
      unfolding new using some strict_weak_order.om_erase_length[OF assms(1) root(3) some(2)]
      by (auto simp: om_erase_def split: list.splits)
  qed
qed

theorem ImmutableTree_Erase_correct_witness:
  "\<exists>t'. ImmutableTree_Erase imm_sample 5 = Inr (Some t') \<and> inorder (tree_root t') = [(2, 20), (8, 80)]"
  using ImmutableTree_Erase_correct[OF less_nat_order imm_sample_version, of 5]
  by (auto simp: imm_sample_def equivalent_def part_defs)

text \<open>C4: \<open>Update\<close> and \<open>Set\<close> of a key the version holds never throw and agree: they replace the
  value, keep the key object that is stored, and leave every other entry as it was.
  \<open>Update\<close> refuses a key that is not there, where \<open>Set\<close> does what \<open>Insert\<close> does, its exception on
  a full tree included.\<close>

theorem ImmutableTree_Update_Set_correct:
  assumes "strict_weak_order lt" and "imm_version lt t"
  shows "case same lt k (inorder (tree_root t)) of
      (stored, old) # _ \<Rightarrow> \<exists>t'. ImmutableTree_Update t k v = Inr (Some t') \<and> ImmutableTree_Set t k v = Inr t' \<and>
        imm_version lt t' \<and> inorder (tree_root t') =
          lowers lt k (inorder (tree_root t)) @ (stored, v) # uppers lt k (inorder (tree_root t))
    | [] \<Rightarrow> ImmutableTree_Update t k v = Inr None \<and> ImmutableTree_Insert t k v =
        bindE (ImmutableTree_Set t k v) (\<lambda>t'. Inr (Some t'))"
proof -
  have ok: "ImmutableTree_ok lt t" by (rule strict_weak_order.version_ok[OF assms])
  then have root: "tree_comp t = lt" "sorted_entries lt (inorder (tree_root t))"
    by (simp_all add: tree_obj_defs)
  show ?thesis
  proof (cases "same lt k (inorder (tree_root t))")
    case Nil
    then have new: "om_insert lt (inorder (tree_root t)) k v \<noteq> None" by (simp add: om_defs)
    have ins: "Tree_InsertNode lt (tree_root t) k v \<noteq> Inr None"
      using strict_weak_order.Insert_exact[OF assms(1) ok, of k v] new root(1)
      by (auto simp: ImmutableTree_Insert_def ImmutableTree_entries_def split: if_splits)
    show ?thesis
      using Nil ins strict_weak_order.SetNode_absent[OF assms(1) root(2) new]
        strict_weak_order.Update_yields[OF assms(1) ok, of k v] root(1)
      by (cases "Tree_InsertNode lt (tree_root t) k v")
        (auto simp: ImmutableTree_Insert_def ImmutableTree_Set_def ImmutableTree_entries_def om_defs
          split: option.splits elim: yields_cases)
  next
    case (Cons e es)
    let ?ys = "lowers lt k (inorder (tree_root t)) @ (fst e, v) # uppers lt k (inorder (tree_root t))"
    have u: "om_update lt (inorder (tree_root t)) k v = Some ?ys" by (simp add: om_update_def Cons)
    obtain n where n: "ImmutableTree_Update t k v = Inr (Some n)" "inorder (tree_root n) = ?ys"
      using strict_weak_order.Update_yields[OF assms(1) ok, of k v] u
      by (auto simp: ImmutableTree_entries_def elim: yields_cases)
    have "ImmutableTree_Set t k v = Inr n"
      using n(1) strict_weak_order.SetNode_UpdateNode[OF assms(1) root(2)] root(1)
      by (auto simp: ImmutableTree_Set_def ImmutableTree_Update_def split: option.splits)
    with n imm_version.changed[OF assms(2) n(1)] Cons show ?thesis by (auto split: prod.splits)
  qed
qed

theorem ImmutableTree_Update_Set_correct_witness:
  "\<exists>t'. ImmutableTree_Set imm_sample 2 99 = Inr t' \<and> inorder (tree_root t') = [(2, 99), (5, 50), (8, 80)]"
  using ImmutableTree_Update_Set_correct[OF less_nat_order imm_sample_version, of 2 99]
  by (auto simp: imm_sample_def part_defs)



end
