(* ===== verification/Zip_Block.thy ===== *)
theory Zip_Block
  imports Ordered_Map
begin

text \<open>
  The interface between \<open>ImmutableBlockTree\<close> and its blocks.  The tree names its block type
  \<open>ZipList<Key, Value, kZipListTargetBytes>\<close>, and zip_list.h has three of them: the generic
  template and the two specialisations for \<open>PackedString\<close> keys.  The record \<open>block_ops\<close> has one
  field for each member of a block the tree calls, and the locale \<open>zip_block\<close> the laws a block
  promises, against the list of its entries.  The binary search, which the code repeats
  word for word in the three classes, is here too.
\<close>

section \<open>Binary search\<close>

text \<open>
  \<open>less_at\<close> is the test \<open>comp(key of entry middle, key)\<close>; reading the key may be undefined.
\<close>

(* zip_list.h:116-131 LowerBound *)
function LowerBound_loop :: "(nat \<Rightarrow> bool res) \<Rightarrow> nat \<Rightarrow> nat \<Rightarrow> nat res" where
  "LowerBound_loop less_at first len =
     (if len > 0 then
        let half = len div 2; middle = first + half in
        bindE (less_at middle) (\<lambda>below.
        if below then LowerBound_loop less_at (middle + 1) (len - (half + 1))
        else LowerBound_loop less_at first half)
      else Inr first)"
  by pat_completeness auto
termination
  by (relation "measure (\<lambda>(less_at, first, len). len)") auto

declare LowerBound_loop.simps [simp del]

lemma LowerBound_loop_correct:
  assumes "\<And>i. first \<le> i \<Longrightarrow> i < first + len \<Longrightarrow> less_at i = Inr (i < bound)"
    and "first \<le> bound" "bound \<le> first + len"
  shows "LowerBound_loop less_at first len = Inr bound"
  using assms
proof (induction less_at first len rule: LowerBound_loop.induct)
  case (1 less_at first len)
  show ?case
  proof (cases "len > 0")
    case True
    let ?m = "first + len div 2"
    have test: "less_at ?m = Inr (?m < bound)" using 1(3) True by simp
    have "LowerBound_loop less_at (?m + 1) (len - (len div 2 + 1)) = Inr bound" if "?m < bound"
      using that True 1(3-5) by (intro 1(1)) auto
    moreover have "LowerBound_loop less_at first (len div 2) = Inr bound" if "\<not> ?m < bound"
      using that True 1(3-5) by (intro 1(2)) auto
    ultimately show ?thesis using True test
      by (simp add: LowerBound_loop.simps[of less_at first len] Let_def)
  qed (use 1(4,5) in \<open>simp add: LowerBound_loop.simps[of less_at first 0]\<close>)
qed

text \<open>On a sorted block the answer is the number of entries below the key.\<close>

context strict_weak_order
begin

lemma sorted_below_prefix:
  fixes xs :: "('k \<times> 'v) list"
  assumes "sorted_entries lt xs" "i < length xs"
  shows "lt (fst (xs ! i)) k \<longleftrightarrow> i < length (lowers lt k xs)"
proof -
  have below: "lowers lt k xs = take (length (lowers lt k xs)) xs"
    if "sorted_entries lt xs" for xs :: "('k \<times> 'v) list" using that
  proof (induction xs)
    case (Cons e es)
    show ?case
    proof (cases "lt (fst e) k")
      case False
      have "\<not> lt (fst x) k" if "x \<in> set es" for x
        using that False Cons.prems trans by (auto simp: sorted_entries_def)
      with False show ?thesis by (simp add: part_defs)
    next
      case True
      with Cons show ?thesis by (simp add: part_defs sorted_entries_def)
    qed
  qed simp
  show ?thesis
  proof
    assume i: "i < length (lowers lt k xs)"
    then have "xs ! i = lowers lt k xs ! i" using below[OF assms(1)] by (metis nth_take)
    with i show "lt (fst (xs ! i)) k" using nth_mem[OF i] by (auto simp: part_defs)
  next
    assume l: "lt (fst (xs ! i)) k"
    show "i < length (lowers lt k xs)"
    proof (rule ccontr)
      assume no: "\<not> ?thesis"
      have low: "lt (fst (xs ! j)) k" if "j \<le> i" for j
      proof (cases "j = i")
        case False
        with that assms have "lt (fst (xs ! j)) (fst (xs ! i))"
          unfolding sorted_entries_def by (intro sorted_wrt_nth_less[of "\<lambda>a b. lt (fst a) (fst b)"]) auto
        with l show ?thesis using trans by blast
      qed (use l in simp)
      have "lt (fst x) k" if "x \<in> set (take (Suc i) xs)" for x
        using that assms(2) low by (auto simp: set_take_nth less_Suc_eq_le)
      then have "lowers lt k (take (Suc i) xs) = take (Suc i) xs"
        by (simp add: lowers_def filter_id_conv)
      moreover have "length (lowers lt k (take (Suc i) xs)) \<le> length (lowers lt k xs)"
        by (metis (no_types, lifting) append_take_drop_id filter_append le_add1 length_append lowers_def)
      ultimately show False using assms(2) no by simp
    qed
  qed
qed

lemma lower_bound_sorted:
  assumes "sorted_entries lt xs" and "\<And>i. i < length xs \<Longrightarrow> less_at i = Inr (lt (fst (xs ! i)) k)"
  shows "LowerBound_loop less_at 0 (length xs) = Inr (length (lowers lt k xs))"
  using assms sorted_below_prefix[OF assms(1)] part_lengths[of k xs]
  by (intro LowerBound_loop_correct) auto

text \<open>What the binary search splits a sorted list into.\<close>

lemma split_at_lower_bound:
  assumes "sorted_entries lt xs"
  shows "take (length (lowers lt k xs)) xs = lowers lt k xs"
    and "drop (length (lowers lt k xs)) xs = same lt k xs @ uppers lt k xs"
proof -
  have "xs = lowers lt k xs @ same lt k xs @ uppers lt k xs"
    using assms
  proof (induction xs)
    case (Cons e es)
    have "lowers lt k es = []" if "\<not> lt (fst e) k"
      using that Cons.prems trans unfolding lowers_def filter_empty_conv
      by (fastforce simp: sorted_entries_def)
    moreover have "same lt k es = []" if "lt k (fst e)"
      using that Cons.prems trans unfolding same_def filter_empty_conv
      by (fastforce simp: sorted_entries_def)
    moreover have "\<not> lt (fst e) k" if "lt k (fst e)" using that asym by blast
    ultimately show ?case using Cons by (auto simp: part_defs sorted_entries_def)
  qed (simp add: part_defs)
  then show "take (length (lowers lt k xs)) xs = lowers lt k xs"
      "drop (length (lowers lt k xs)) xs = same lt k xs @ uppers lt k xs"
    by (metis append_eq_conv_conj)+
qed

text \<open>How every block looks up a key: it compares the entry at the lower bound, if there is one.\<close>

lemma find_at_lower_bound:
  fixes xs :: "('k \<times> 'v) list"
  assumes "sorted_entries lt xs"
  defines "n \<equiv> \<lambda>k. length (lowers lt k xs)"
  shows "n k \<le> length xs"
    and "n k = length xs \<Longrightarrow> om_find lt xs k = None"
    and "n k < length xs \<Longrightarrow> om_find lt xs k =
      (if lt k (fst (xs ! n k)) \<or> lt (fst (xs ! n k)) k then None else Some (snd (xs ! n k)))"
proof -
  show "n k \<le> length xs" using part_lengths[of k xs] by (simp add: n_def)
  show "om_find lt xs k = None" if "n k = length xs"
    using that part_lengths[of k xs] by (auto simp: n_def om_find_def)
  show "om_find lt xs k = (if lt k (fst (xs ! n k)) \<or> lt (fst (xs ! n k)) k then None else Some (snd (xs ! n k)))"
    if "n k < length xs"
  proof -
    have d: "xs ! n k # drop (Suc (n k)) xs = same lt k xs @ uppers lt k xs"
      using that split_at_lower_bound(2)[OF assms(1), of k] by (simp add: n_def Cons_nth_drop_Suc)
    show ?thesis
    proof (cases "same lt k xs")
      case Nil
      then have "xs ! n k \<in> set (uppers lt k xs)" using d by (metis append_Nil list.set_intros(1))
      then have "lt k (fst (xs ! n k))" by (simp add: uppers_def)
      with Nil show ?thesis by (simp add: om_find_def)
    next
      case (Cons e es)
      then have "xs ! n k = e" using d by simp
      moreover have "equivalent lt (fst e) k" using same_memD[OF Cons] by simp
      ultimately show ?thesis using Cons by (simp add: om_find_def equivalent_def)
    qed
  qed
qed

end

section \<open>The block operations the tree calls\<close>

(* immutable_block_tree.h:38-39 Block *)
record ('k, 'v, 'b) block_ops =
  bo_copy :: "'b \<Rightarrow> 'b res"
  bo_from_sorted :: "('k \<times> 'v) list \<Rightarrow> 'b res"
  bo_pack :: "('k \<times> 'v) list \<Rightarrow> 'b list res"
  bo_count :: "'b \<Rightarrow> nat"
  bo_full :: "'b \<Rightarrow> bool"
  bo_can_insert :: "'b \<Rightarrow> 'k \<Rightarrow> 'v \<Rightarrow> bool res"
  bo_can_update :: "'b \<Rightarrow> nat \<Rightarrow> 'v \<Rightarrow> bool"
  bo_key_at :: "'b \<Rightarrow> nat \<Rightarrow> 'k res"
  bo_value_at :: "'b \<Rightarrow> nat \<Rightarrow> 'v res"
  bo_lower_bound :: "('k \<Rightarrow> 'k \<Rightarrow> bool) \<Rightarrow> 'b \<Rightarrow> 'k \<Rightarrow> nat res"
  bo_find_value :: "('k \<Rightarrow> 'k \<Rightarrow> bool) \<Rightarrow> 'b \<Rightarrow> 'k \<Rightarrow> 'v option res"
  bo_with_inserted :: "'b \<Rightarrow> nat \<Rightarrow> 'k \<Rightarrow> 'v \<Rightarrow> 'b res"
  bo_with_updated :: "'b \<Rightarrow> nat \<Rightarrow> 'v \<Rightarrow> 'b res"
  bo_with_erased :: "'b \<Rightarrow> nat \<Rightarrow> 'b res"
  bo_split_inserted :: "'b \<Rightarrow> nat \<Rightarrow> 'k \<Rightarrow> 'v \<Rightarrow> 'b list res"
  bo_split_updated :: "'b \<Rightarrow> nat \<Rightarrow> 'v \<Rightarrow> 'b list res"
  bo_can_merge :: "'b \<Rightarrow> 'b \<Rightarrow> bool res"
  bo_merged :: "'b \<Rightarrow> 'b \<Rightarrow> 'b res"
  bo_append_to :: "'b \<Rightarrow> ('k \<times> 'v) list \<Rightarrow> ('k \<times> 'v) list res"

section \<open>The contract of a block\<close>

text \<open>\<open>holds ok es m xs\<close>: the call returns a well-formed block with the entries \<open>xs\<close>.\<close>

definition holds :: "('b \<Rightarrow> bool) \<Rightarrow> ('b \<Rightarrow> 'e list) \<Rightarrow> 'b res \<Rightarrow> 'e list \<Rightarrow> bool" where
  "holds ok es m xs \<longleftrightarrow> (\<exists>b. m = Inr b \<and> ok b \<and> es b = xs)"

lemma holdsE: "holds ok es m xs \<Longrightarrow> (\<And>b. m = Inr b \<Longrightarrow> ok b \<Longrightarrow> es b = xs \<Longrightarrow> P) \<Longrightarrow> P"
  by (auto simp: holds_def)

lemma holds_Inr [simp]: "holds ok es (Inr b) xs \<longleftrightarrow> ok b \<and> es b = xs"
  by (simp add: holds_def)

text \<open>\<open>holds_all\<close>: it returns non-empty well-formed blocks that together have the entries \<open>xs\<close>.\<close>

definition holds_all :: "('b \<Rightarrow> bool) \<Rightarrow> ('b \<Rightarrow> 'e list) \<Rightarrow> 'b list res \<Rightarrow> 'e list \<Rightarrow> bool" where
  "holds_all ok es m xs \<longleftrightarrow>
     (\<exists>bs. m = Inr bs \<and> (\<forall>b \<in> set bs. ok b \<and> es b \<noteq> []) \<and> concat (map es bs) = xs)"

lemma holds_allE:
  "holds_all ok es m xs \<Longrightarrow>
    (\<And>bs. m = Inr bs \<Longrightarrow> (\<And>b. b \<in> set bs \<Longrightarrow> ok b \<and> es b \<noteq> []) \<Longrightarrow> concat (map es bs) = xs \<Longrightarrow> P) \<Longrightarrow> P"
  by (auto simp: holds_all_def)

locale zip_block =
  fixes B :: "('k, 'v, 'b) block_ops"
    and ok :: "'b \<Rightarrow> bool"
    and es :: "'b \<Rightarrow> ('k \<times> 'v) list"
  assumes copy: "ok b \<Longrightarrow> holds ok es (bo_copy B b) (es b)"
    and from_one: "holds ok es (bo_from_sorted B [(k, v)]) [(k, v)]"
    and pack: "holds_all ok es (bo_pack B xs) xs"
    and count: "ok b \<Longrightarrow> bo_count B b = length (es b)"
    and can_insert: "ok b \<Longrightarrow> \<exists>fits. bo_can_insert B b k v = Inr fits"
    and can_update: "ok b \<Longrightarrow> i < length (es b) \<Longrightarrow> bo_can_update B b i v"
    and key_at: "ok b \<Longrightarrow> i < length (es b) \<Longrightarrow> bo_key_at B b i = Inr (fst (es b ! i))"
    and value_at: "ok b \<Longrightarrow> i < length (es b) \<Longrightarrow> bo_value_at B b i = Inr (snd (es b ! i))"
    and lower_bound: "strict_weak_order lt \<Longrightarrow> ok b \<Longrightarrow> sorted_entries lt (es b) \<Longrightarrow>
      bo_lower_bound B lt b k = Inr (length (lowers lt k (es b)))"
    and find_value: "strict_weak_order lt \<Longrightarrow> ok b \<Longrightarrow> sorted_entries lt (es b) \<Longrightarrow>
      bo_find_value B lt b k = Inr (om_find lt (es b) k)"
    and with_inserted: "ok b \<Longrightarrow> i \<le> length (es b) \<Longrightarrow> \<not> bo_full B b \<Longrightarrow> bo_can_insert B b k v = Inr True \<Longrightarrow>
      holds ok es (bo_with_inserted B b i k v) (take i (es b) @ (k, v) # drop i (es b))"
    and with_updated: "ok b \<Longrightarrow> i < length (es b) \<Longrightarrow>
      holds ok es (bo_with_updated B b i v) ((es b)[i := (fst (es b ! i), v)])"
    and with_erased: "ok b \<Longrightarrow> i < length (es b) \<Longrightarrow>
      holds ok es (bo_with_erased B b i) (take i (es b) @ drop (Suc i) (es b))"
    and split_inserted: "ok b \<Longrightarrow> es b \<noteq> [] \<Longrightarrow> i \<le> length (es b) \<Longrightarrow>
      holds_all ok es (bo_split_inserted B b i k v) (take i (es b) @ (k, v) # drop i (es b))"
    and can_merge: "ok a \<Longrightarrow> ok b \<Longrightarrow> \<exists>fits. bo_can_merge B a b = Inr fits"
    and merged: "ok a \<Longrightarrow> ok b \<Longrightarrow> bo_can_merge B a b = Inr True \<Longrightarrow>
      holds ok es (bo_merged B a b) (es a @ es b)"
    and append_to: "ok b \<Longrightarrow> bo_append_to B b out = Inr (out @ es b)"

end
