(* ===== verification/Immutable_Block_Tree.thy ===== *)
theory Immutable_Block_Tree
  imports Zip_Block Ordered_Tree
begin

text \<open>
  \<open>ImmutableBlockTree\<close> (immutable_block_tree.h): a persistent AVL tree whose nodes each hold a
  sorted block of entries.  The block type is a template argument, so its operations are the
  argument \<open>B\<close> of type \<open>block_ops\<close>; a \<open>std::move\<close> of a block keeps its contents, a copy of
  one (\<open>node->block\<close> passed by value) is the call \<open>bo_copy\<close>.  This theory has the definitions,
  the termination of the three mutually recursive functions around \<open>NormalizeNode\<close>, and the
  number of nodes they produce.
\<close>

section \<open>Nodes\<close>

(* immutable_block_tree.h:41-71 Node *)
datatype 'b block_ptr =
    Block_Null
  | Block_Node 'b "'b block_ptr" "'b block_ptr" "32 word" "16 word"

(* immutable_block_tree.h:216-216 Height *)
fun BlockTree_Height :: "'b block_ptr \<Rightarrow> int" where
  "BlockTree_Height Block_Null = 0"
| "BlockTree_Height (Block_Node b l r s h) = uint h"

(* immutable_block_tree.h:218-218 Size *)
fun BlockTree_Size :: "'b block_ptr \<Rightarrow> nat" where
  "BlockTree_Size Block_Null = 0"
| "BlockTree_Size (Block_Node b l r s h) = unat s"

(* immutable_block_tree.h:222-224 BlockFrontKey *)
definition BlockTree_BlockFrontKey :: "('k, 'v, 'b) block_ops \<Rightarrow> 'b \<Rightarrow> 'k res" where
  "BlockTree_BlockFrontKey B block = bo_key_at B block 0"

(* immutable_block_tree.h:226-228 BlockBackKey *)
definition BlockTree_BlockBackKey :: "('k, 'v, 'b) block_ops \<Rightarrow> 'b \<Rightarrow> 'k res" where
  "BlockTree_BlockBackKey B block =
     (if bo_count B block = 0 then Inl Undefined_Behaviour else bo_key_at B block (bo_count B block - 1))"

(* immutable_block_tree.h:230-232 BlockKeyAt *)
definition BlockTree_BlockKeyAt :: "('k, 'v, 'b) block_ops \<Rightarrow> 'b \<Rightarrow> nat \<Rightarrow> 'k res" where
  "BlockTree_BlockKeyAt B block index = bo_key_at B block index"

(* immutable_block_tree.h:246-248 Equivalent *)
definition BlockTree_Equivalent :: "('k \<Rightarrow> 'k \<Rightarrow> bool) \<Rightarrow> 'k \<Rightarrow> 'k \<Rightarrow> bool" where
  "BlockTree_Equivalent lt lhs rhs \<longleftrightarrow> \<not> lt lhs rhs \<and> \<not> lt rhs lhs"

(* immutable_block_tree.h:250-269 MakeNode *)
definition BlockTree_MakeNode ::
    "('k, 'v, 'b) block_ops \<Rightarrow> 'b \<Rightarrow> 'b block_ptr \<Rightarrow> 'b block_ptr \<Rightarrow> 'b block_ptr res" where
  "BlockTree_MakeNode B block left right =
     (let block_size = bo_count B block; height = 1 + max (BlockTree_Height left) (BlockTree_Height right) in
      if height > 65535 then Inl (Length_Error ''ImmutableBlockTree node height exceeds uint16_t max'')
      else let left_size = BlockTree_Size left; right_size = BlockTree_Size right; max_size = 4294967295 in
      if block_size > max_size \<or> left_size > max_size - block_size \<or> right_size > max_size - block_size - left_size
      then Inl (Length_Error ''ImmutableBlockTree node size exceeds uint32_t max'')
      else let size = block_size + left_size + right_size in
      Inr (Block_Node block left right (of_nat size) (word_of_int height)))"

section \<open>Rebalancing and joining\<close>

(* immutable_block_tree.h:271-273 BalanceFactor *)
fun BlockTree_BalanceFactor :: "'b block_ptr \<Rightarrow> int" where
  "BlockTree_BalanceFactor Block_Null = 0"
| "BlockTree_BalanceFactor (Block_Node b l r s h) = BlockTree_Height l - BlockTree_Height r"

(* immutable_block_tree.h:275-280 RotateLeft *)
fun BlockTree_RotateLeft :: "('k, 'v, 'b) block_ops \<Rightarrow> 'b block_ptr \<Rightarrow> 'b block_ptr res" where
  "BlockTree_RotateLeft B (Block_Node b l (Block_Node pb pl pr ps ph) s h) =
     bindE (bo_copy B b) (\<lambda>block.
     bindE (BlockTree_MakeNode B block l pl) (\<lambda>new_left.
     bindE (bo_copy B pb) (\<lambda>pivot_block. BlockTree_MakeNode B pivot_block new_left pr)))"
| "BlockTree_RotateLeft B _ = Inl Undefined_Behaviour"

(* immutable_block_tree.h:282-287 RotateRight *)
fun BlockTree_RotateRight :: "('k, 'v, 'b) block_ops \<Rightarrow> 'b block_ptr \<Rightarrow> 'b block_ptr res" where
  "BlockTree_RotateRight B (Block_Node b (Block_Node pb pl pr ps ph) r s h) =
     bindE (bo_copy B b) (\<lambda>block.
     bindE (BlockTree_MakeNode B block pr r) (\<lambda>new_right.
     bindE (bo_copy B pb) (\<lambda>pivot_block. BlockTree_MakeNode B pivot_block pl new_right)))"
| "BlockTree_RotateRight B _ = Inl Undefined_Behaviour"

(* immutable_block_tree.h:289-312 Balance *)
fun BlockTree_Balance :: "('k, 'v, 'b) block_ops \<Rightarrow> 'b block_ptr \<Rightarrow> 'b block_ptr res" where
  "BlockTree_Balance B Block_Null = Inr Block_Null"
| "BlockTree_Balance B (Block_Node b l r s h) =
     (let node = Block_Node b l r s h; factor = BlockTree_BalanceFactor node in
      if factor > 1 then
        (if BlockTree_BalanceFactor l < 0 then
           bindE (BlockTree_RotateLeft B l) (\<lambda>new_left.
           bindE (bo_copy B b) (\<lambda>block.
           bindE (BlockTree_MakeNode B block new_left r) (BlockTree_RotateRight B)))
         else BlockTree_RotateRight B node)
      else if factor < -1 then
        (if BlockTree_BalanceFactor r > 0 then
           bindE (BlockTree_RotateRight B r) (\<lambda>new_right.
           bindE (bo_copy B b) (\<lambda>block.
           bindE (BlockTree_MakeNode B block l new_right) (BlockTree_RotateLeft B)))
         else BlockTree_RotateLeft B node)
      else Inr node)"

(* immutable_block_tree.h:314-316 MakeBalanced *)
definition BlockTree_MakeBalanced ::
    "('k, 'v, 'b) block_ops \<Rightarrow> 'b \<Rightarrow> 'b block_ptr \<Rightarrow> 'b block_ptr \<Rightarrow> 'b block_ptr res" where
  "BlockTree_MakeBalanced B block left right =
     bindE (BlockTree_MakeNode B block left right) (BlockTree_Balance B)"

(* immutable_block_tree.h:318-330 JoinNode *)
function BlockTree_JoinNode ::
    "('k, 'v, 'b) block_ops \<Rightarrow> 'b \<Rightarrow> 'b block_ptr \<Rightarrow> 'b block_ptr \<Rightarrow> 'b block_ptr res" where
  "BlockTree_JoinNode B block left right =
     (if BlockTree_Height left > BlockTree_Height right + 1 then
        (case left of
           Block_Null \<Rightarrow> Inl Undefined_Behaviour
         | Block_Node lb ll lr _ _ \<Rightarrow>
             bindE (BlockTree_JoinNode B block lr right) (\<lambda>joined_right.
             bindE (bo_copy B lb) (\<lambda>left_block.
             bindE (BlockTree_MakeNode B left_block ll joined_right) (BlockTree_Balance B))))
      else if BlockTree_Height right > BlockTree_Height left + 1 then
        (case right of
           Block_Null \<Rightarrow> Inl Undefined_Behaviour
         | Block_Node rb rl rr _ _ \<Rightarrow>
             bindE (BlockTree_JoinNode B block left rl) (\<lambda>joined_left.
             bindE (bo_copy B rb) (\<lambda>right_block.
             bindE (BlockTree_MakeNode B right_block joined_left rr) (BlockTree_Balance B))))
      else BlockTree_MakeBalanced B block left right)"
  by pat_completeness auto
termination
  by (relation "measure (\<lambda>(B, block, left, right). size left + size right)") auto

declare BlockTree_JoinNode.simps [simp del]

(* immutable_block_tree.h:332-338 FindMin *)
fun BlockTree_FindMin :: "'b block_ptr \<Rightarrow> 'b block_ptr res" where
  "BlockTree_FindMin Block_Null = Inl Undefined_Behaviour"
| "BlockTree_FindMin (Block_Node b Block_Null r s h) = Inr (Block_Node b Block_Null r s h)"
| "BlockTree_FindMin (Block_Node b (Block_Node lb ll lr ls lh) r s h) = BlockTree_FindMin (Block_Node lb ll lr ls lh)"

(* immutable_block_tree.h:340-346 FindMax *)
fun BlockTree_FindMax :: "'b block_ptr \<Rightarrow> 'b block_ptr res" where
  "BlockTree_FindMax Block_Null = Inl Undefined_Behaviour"
| "BlockTree_FindMax (Block_Node b l Block_Null s h) = Inr (Block_Node b l Block_Null s h)"
| "BlockTree_FindMax (Block_Node b l (Block_Node rb rl rr rs rh) s h) = BlockTree_FindMax (Block_Node rb rl rr rs rh)"

text \<open>\<open>node->block\<close>, undefined on a null node.\<close>

(* immutable_block_tree.h:42-42 block *)
fun BlockTree_block :: "'b block_ptr \<Rightarrow> 'b res" where
  "BlockTree_block Block_Null = Inl Undefined_Behaviour"
| "BlockTree_block (Block_Node b l r s h) = Inr b"

text \<open>How many nodes a tree has; every function here returns a tree with a bounded number.\<close>

fun nodes :: "'b block_ptr \<Rightarrow> nat" where
  "nodes Block_Null = 0"
| "nodes (Block_Node b l r s h) = nodes l + nodes r + 1"

lemma nodes_MakeNode: "BlockTree_MakeNode B b l r = Inr t \<Longrightarrow> nodes t = nodes l + nodes r + 1"
  by (auto simp: BlockTree_MakeNode_def Let_def split: if_splits)

lemma nodes_RotateLeft: "BlockTree_RotateLeft B t = Inr t' \<Longrightarrow> nodes t' = nodes t"
  by (cases "(B, t)" rule: BlockTree_RotateLeft.cases) (auto dest!: nodes_MakeNode)

lemma nodes_RotateRight: "BlockTree_RotateRight B t = Inr t' \<Longrightarrow> nodes t' = nodes t"
  by (cases "(B, t)" rule: BlockTree_RotateRight.cases) (auto dest!: nodes_MakeNode)

lemma nodes_Balance: "BlockTree_Balance B t = Inr t' \<Longrightarrow> nodes t' = nodes t"
  by (cases t) (auto simp: Let_def dest!: nodes_MakeNode nodes_RotateLeft nodes_RotateRight split: if_splits)

lemma nodes_JoinNode: "BlockTree_JoinNode B b l r = Inr t \<Longrightarrow> nodes t = nodes l + nodes r + 1"
proof (induction B b l r arbitrary: t rule: BlockTree_JoinNode.induct)
  case (1 B b l r)
  note J = BlockTree_JoinNode.simps[of B b l r]
  consider "BlockTree_Height l > BlockTree_Height r + 1" | "\<not> BlockTree_Height l > BlockTree_Height r + 1"
      "BlockTree_Height r > BlockTree_Height l + 1"
    | "\<not> BlockTree_Height l > BlockTree_Height r + 1" "\<not> BlockTree_Height r > BlockTree_Height l + 1" by blast
  then show ?case
  proof cases
    case 1
    with "1.prems"[unfolded J] "1.IH"(1)[OF 1] show ?thesis
      by (cases l) (auto dest!: nodes_MakeNode nodes_Balance)
  next
    case 2
    with "1.prems"[unfolded J] "1.IH"(2)[OF 2] show ?thesis
      by (cases r) (auto dest!: nodes_MakeNode nodes_Balance)
  next
    case 3
    with "1.prems" show ?thesis
      by (auto simp: J BlockTree_MakeBalanced_def dest!: nodes_MakeNode nodes_Balance)
  qed
qed

section \<open>Merging a block with its neighbours\<close>

text \<open>
  \<open>NormalizeNode\<close> has two loops, one for each side; they are the functions \<open>NormalizeLeft\<close> and
  \<open>NormalizeRight\<close>, which return the block they have grown and what is left of the side.
\<close>

(* immutable_block_tree.h:348-353 EraseMinNode = BlockTree_EraseMinNode *)
(* immutable_block_tree.h:355-360 EraseMaxNode = BlockTree_EraseMaxNode *)
(* immutable_block_tree.h:363-370 NormalizeNode = BlockTree_NormalizeLeft *)
(* immutable_block_tree.h:372-379 NormalizeNode = BlockTree_NormalizeRight *)
(* immutable_block_tree.h:362-382 NormalizeNode = BlockTree_NormalizeNode *)
function (sequential)
    BlockTree_EraseMinNode :: "('k, 'v, 'b) block_ops \<Rightarrow> 'b block_ptr \<Rightarrow> 'b block_ptr res"
and BlockTree_EraseMaxNode :: "('k, 'v, 'b) block_ops \<Rightarrow> 'b block_ptr \<Rightarrow> 'b block_ptr res"
and BlockTree_NormalizeLeft :: "('k, 'v, 'b) block_ops \<Rightarrow> 'b \<Rightarrow> 'b block_ptr \<Rightarrow> ('b \<times> 'b block_ptr) res"
and BlockTree_NormalizeRight :: "('k, 'v, 'b) block_ops \<Rightarrow> 'b \<Rightarrow> 'b block_ptr \<Rightarrow> ('b \<times> 'b block_ptr) res"
and BlockTree_NormalizeNode :: "('k, 'v, 'b) block_ops \<Rightarrow> 'b \<Rightarrow> 'b block_ptr \<Rightarrow> 'b block_ptr \<Rightarrow> 'b block_ptr res"
where
  "BlockTree_EraseMinNode B Block_Null = Inl Undefined_Behaviour"
| "BlockTree_EraseMinNode B (Block_Node b l r s h) =
     (if l = Block_Null then Inr r
      else bindE (bo_copy B b) (\<lambda>block.
        bindE (BlockTree_EraseMinNode B l) (\<lambda>new_left. BlockTree_NormalizeNode B block new_left r)))"
| "BlockTree_EraseMaxNode B Block_Null = Inl Undefined_Behaviour"
| "BlockTree_EraseMaxNode B (Block_Node b l r s h) =
     (if r = Block_Null then Inr l
      else bindE (bo_copy B b) (\<lambda>block.
        bindE (BlockTree_EraseMaxNode B r) (\<lambda>new_right. BlockTree_NormalizeNode B block l new_right)))"
| "BlockTree_NormalizeLeft B block left =
     (if left = Block_Null then Inr (block, left)
      else bindE (bindE (BlockTree_FindMax left) BlockTree_block) (\<lambda>pred_block.
        bindE (bo_can_merge B pred_block block) (\<lambda>can.
        if \<not> can then Inr (block, left)
        else bindE (bo_merged B pred_block block) (\<lambda>block.
          bindE (BlockTree_EraseMaxNode B left) (\<lambda>left. BlockTree_NormalizeLeft B block left)))))"
| "BlockTree_NormalizeRight B block right =
     (if right = Block_Null then Inr (block, right)
      else bindE (bindE (BlockTree_FindMin right) BlockTree_block) (\<lambda>succ_block.
        bindE (bo_can_merge B block succ_block) (\<lambda>can.
        if \<not> can then Inr (block, right)
        else bindE (bo_merged B block succ_block) (\<lambda>block.
          bindE (BlockTree_EraseMinNode B right) (\<lambda>right. BlockTree_NormalizeRight B block right)))))"
| "BlockTree_NormalizeNode B block left right =
     bindE (BlockTree_NormalizeLeft B block left) (\<lambda>bl.
     bindE (BlockTree_NormalizeRight B (fst bl) right) (\<lambda>br.
     BlockTree_JoinNode B (fst br) (snd bl) (snd br)))"
  by pat_completeness auto


lemma nodes_bounds:
  shows "BlockTree_EraseMinNode_BlockTree_EraseMaxNode_BlockTree_NormalizeLeft_BlockTree_NormalizeRight_BlockTree_NormalizeNode_dom (Inl (Inl (B, t))) \<Longrightarrow> BlockTree_EraseMinNode B t = Inr t' \<Longrightarrow> nodes t' < nodes t"
    and "BlockTree_EraseMinNode_BlockTree_EraseMaxNode_BlockTree_NormalizeLeft_BlockTree_NormalizeRight_BlockTree_NormalizeNode_dom (Inl (Inr (B, t))) \<Longrightarrow> BlockTree_EraseMaxNode B t = Inr t' \<Longrightarrow> nodes t' < nodes t"
    and "BlockTree_EraseMinNode_BlockTree_EraseMaxNode_BlockTree_NormalizeLeft_BlockTree_NormalizeRight_BlockTree_NormalizeNode_dom (Inr (Inl (B, b, t))) \<Longrightarrow> BlockTree_NormalizeLeft B b t = Inr bt \<Longrightarrow> nodes (snd bt) \<le> nodes t"
    and "BlockTree_EraseMinNode_BlockTree_EraseMaxNode_BlockTree_NormalizeLeft_BlockTree_NormalizeRight_BlockTree_NormalizeNode_dom (Inr (Inr (Inl (B, b, t)))) \<Longrightarrow> BlockTree_NormalizeRight B b t = Inr bt \<Longrightarrow> nodes (snd bt) \<le> nodes t"
    and "BlockTree_EraseMinNode_BlockTree_EraseMaxNode_BlockTree_NormalizeLeft_BlockTree_NormalizeRight_BlockTree_NormalizeNode_dom (Inr (Inr (Inr (B, b, l, r)))) \<Longrightarrow> BlockTree_NormalizeNode B b l r = Inr t' \<Longrightarrow>
      nodes t' \<le> nodes l + nodes r + 1"
proof (induction B t and B t and B b t and B b t and B b l r arbitrary: t' and t' and bt and bt and t'
    rule: BlockTree_EraseMinNode_BlockTree_EraseMaxNode_BlockTree_NormalizeLeft_BlockTree_NormalizeRight_BlockTree_NormalizeNode.pinduct)
  case (1 B)
  then show ?case by (simp add: BlockTree_EraseMinNode.psimps)
next
  case (2 B b l r s h)
  show ?case
  proof (cases "l = Block_Null")
    case False
    with 2(4) obtain c x where c: "bo_copy B b = Inr c" and x: "BlockTree_EraseMinNode B l = Inr x"
        and t: "BlockTree_NormalizeNode B c x r = Inr t'"
      by (auto simp: BlockTree_EraseMinNode.psimps(2)[OF 2(1)])
    from 2(2)[OF False c x] 2(3)[OF False c x t] show ?thesis by simp
  qed (use 2(4)[unfolded BlockTree_EraseMinNode.psimps(2)[OF 2(1)]] in simp)
next
  case (3 B)
  then show ?case by (simp add: BlockTree_EraseMaxNode.psimps)
next
  case (4 B b l r s h)
  show ?case
  proof (cases "r = Block_Null")
    case False
    with 4(4) obtain c x where c: "bo_copy B b = Inr c" and x: "BlockTree_EraseMaxNode B r = Inr x"
        and t: "BlockTree_NormalizeNode B c l x = Inr t'"
      by (auto simp: BlockTree_EraseMaxNode.psimps(2)[OF 4(1)])
    from 4(2)[OF False c x] 4(3)[OF False c x t] show ?thesis by simp
  qed (use 4(4)[unfolded BlockTree_EraseMaxNode.psimps(2)[OF 4(1)]] in simp)
next
  case (5 B b l)
  note N = BlockTree_NormalizeLeft.psimps[OF 5(1)]
  consider "snd bt = l" | p m x where "l \<noteq> Block_Null" "bindE (BlockTree_FindMax l) BlockTree_block = Inr p"
      "bo_can_merge B p b = Inr True" "bo_merged B p b = Inr m" "BlockTree_EraseMaxNode B l = Inr x"
      "BlockTree_NormalizeLeft B m x = Inr bt"
    using 5(4) unfolding N by (fastforce split: if_splits)
  then show ?case
  proof cases
    case 2
    from 5(2)[OF 2(1,2,3) _ 2(4,5)] 5(3)[OF 2(1,2,3) _ 2(4,5,6)] show ?thesis by simp
  qed simp
next
  case (6 B b r)
  note N = BlockTree_NormalizeRight.psimps[OF 6(1)]
  consider "snd bt = r" | p m x where "r \<noteq> Block_Null" "bindE (BlockTree_FindMin r) BlockTree_block = Inr p"
      "bo_can_merge B b p = Inr True" "bo_merged B b p = Inr m" "BlockTree_EraseMinNode B r = Inr x"
      "BlockTree_NormalizeRight B m x = Inr bt"
    using 6(4) unfolding N by (fastforce split: if_splits)
  then show ?case
  proof cases
    case 2
    from 6(2)[OF 2(1,2,3) _ 2(4,5)] 6(3)[OF 2(1,2,3) _ 2(4,5,6)] show ?thesis by simp
  qed simp
next
  case (7 B b l r)
  from 7(4) obtain bl br where bl: "BlockTree_NormalizeLeft B b l = Inr bl"
      and br: "BlockTree_NormalizeRight B (fst bl) r = Inr br"
      and t: "BlockTree_JoinNode B (fst br) (snd bl) (snd br) = Inr t'"
    unfolding BlockTree_NormalizeNode.psimps[OF 7(1)] bindE_eq_Inr by blast
  from 7(2)[OF bl] 7(3)[OF bl br] nodes_JoinNode[OF t] show ?case by simp
qed

termination BlockTree_EraseMinNode
  by (relation "measure (\<lambda>x. case x of
      Inl (Inl (B, t)) \<Rightarrow> 2 * nodes t
    | Inl (Inr (B, t)) \<Rightarrow> 2 * nodes t
    | Inr (Inl (B, b, t)) \<Rightarrow> 2 * nodes t + 1
    | Inr (Inr (Inl (B, b, t))) \<Rightarrow> 2 * nodes t + 1
    | Inr (Inr (Inr (B, b, l, r))) \<Rightarrow> 2 * (nodes l + nodes r) + 2)")
   (auto dest: nodes_bounds)

declare BlockTree_EraseMinNode.simps [simp del] BlockTree_EraseMaxNode.simps [simp del]
  BlockTree_NormalizeLeft.simps [simp del] BlockTree_NormalizeRight.simps [simp del]
  BlockTree_NormalizeNode.simps [simp del]

section \<open>Updates of one block\<close>

(* immutable_block_tree.h:384-392 BuildSplitNodes *)
definition BlockTree_BuildSplitNodes ::
    "('k, 'v, 'b) block_ops \<Rightarrow> 'b list \<Rightarrow> 'b block_ptr \<Rightarrow> 'b block_ptr \<Rightarrow> 'b block_ptr res" where
  "BlockTree_BuildSplitNodes B blocks left right =
     foldE (\<lambda>result remaining.
         let block_left = if remaining = 1 then left else Block_Null in
         BlockTree_NormalizeNode B (blocks ! (remaining - 1)) block_left result)
       right (rev [1..<length blocks + 1])"

(* immutable_block_tree.h:394-403 InsertInNodeBlock *)
fun BlockTree_InsertInNodeBlock ::
    "('k, 'v, 'b) block_ops \<Rightarrow> 'b block_ptr \<Rightarrow> nat \<Rightarrow> 'k \<Rightarrow> 'v \<Rightarrow> 'b block_ptr res" where
  "BlockTree_InsertInNodeBlock B Block_Null index key value = Inl Undefined_Behaviour"
| "BlockTree_InsertInNodeBlock B (Block_Node b l r s h) index key value =
     bindE (if bo_full B b then Inr False else bo_can_insert B b key value) (\<lambda>fits.
     if fits
     then bindE (bo_with_inserted B b index key value) (\<lambda>block. BlockTree_MakeBalanced B block l r)
     else bindE (bo_split_inserted B b index key value) (\<lambda>blocks. BlockTree_BuildSplitNodes B blocks l r))"

(* immutable_block_tree.h:405-414 UpdateInNodeBlock *)
fun BlockTree_UpdateInNodeBlock ::
    "('k, 'v, 'b) block_ops \<Rightarrow> 'b block_ptr \<Rightarrow> nat \<Rightarrow> 'v \<Rightarrow> 'b block_ptr res" where
  "BlockTree_UpdateInNodeBlock B Block_Null index value = Inl Undefined_Behaviour"
| "BlockTree_UpdateInNodeBlock B (Block_Node b l r s h) index value =
     (if bo_can_update B b index value
      then bindE (bo_with_updated B b index value) (\<lambda>block. BlockTree_MakeBalanced B block l r)
      else bindE (bo_split_updated B b index value) (\<lambda>blocks. BlockTree_BuildSplitNodes B blocks l r))"

section \<open>Lookup and updates of the tree\<close>

(* immutable_block_tree.h:107-119 Find *)
fun BlockTree_Find :: "('k, 'v, 'b) block_ops \<Rightarrow> ('k \<Rightarrow> 'k \<Rightarrow> bool) \<Rightarrow> 'b block_ptr \<Rightarrow> 'k \<Rightarrow> 'v option res" where
  "BlockTree_Find B lt Block_Null key = Inr None"
| "BlockTree_Find B lt (Block_Node b l r s h) key =
     bindE (BlockTree_BlockFrontKey B b) (\<lambda>front.
     if lt key front then BlockTree_Find B lt l key
     else bindE (BlockTree_BlockBackKey B b) (\<lambda>back.
     if lt back key then BlockTree_Find B lt r key
     else bo_find_value B lt b key))"

text \<open>The test \<open>index < Count() && Equivalent(BlockKeyAt(block, index), key)\<close> of the updates.\<close>

(* immutable_block_tree.h:445-445 InsertNode *)
definition BlockTree_holds_key ::
    "('k, 'v, 'b) block_ops \<Rightarrow> ('k \<Rightarrow> 'k \<Rightarrow> bool) \<Rightarrow> 'b \<Rightarrow> nat \<Rightarrow> 'k \<Rightarrow> bool res" where
  "BlockTree_holds_key B lt b index key =
     (if index < bo_count B b
      then bindE (BlockTree_BlockKeyAt B b index) (\<lambda>k. Inr (BlockTree_Equivalent lt k key))
      else Inr False)"

(* immutable_block_tree.h:416-450 InsertNode *)
fun BlockTree_InsertNode ::
    "('k, 'v, 'b) block_ops \<Rightarrow> ('k \<Rightarrow> 'k \<Rightarrow> bool) \<Rightarrow> 'b block_ptr \<Rightarrow> 'k \<Rightarrow> 'v \<Rightarrow> 'b block_ptr option res" where
  "BlockTree_InsertNode B lt Block_Null key value =
     bindE (bo_from_sorted B [(key, value)]) (\<lambda>block.
     bindE (BlockTree_MakeNode B block Block_Null Block_Null) (\<lambda>n. Inr (Some n)))"
| "BlockTree_InsertNode B lt (Block_Node b l r s h) key value =
     bindE (BlockTree_BlockFrontKey B b) (\<lambda>front.
     if lt key front then
       (if l = Block_Null
        then bindE (BlockTree_InsertInNodeBlock B (Block_Node b l r s h) 0 key value) (\<lambda>n. Inr (Some n))
        else bindE (BlockTree_InsertNode B lt l key value) (\<lambda>new_left.
          case new_left of None \<Rightarrow> Inr None
          | Some nl \<Rightarrow> bindE (bo_copy B b) (\<lambda>block.
              bindE (BlockTree_NormalizeNode B block nl r) (\<lambda>n. Inr (Some n)))))
     else bindE (BlockTree_BlockBackKey B b) (\<lambda>back.
     if lt back key then
       (if r = Block_Null
        then bindE (BlockTree_InsertInNodeBlock B (Block_Node b l r s h) (bo_count B b) key value) (\<lambda>n. Inr (Some n))
        else bindE (BlockTree_InsertNode B lt r key value) (\<lambda>new_right.
          case new_right of None \<Rightarrow> Inr None
          | Some nr \<Rightarrow> bindE (bo_copy B b) (\<lambda>block.
              bindE (BlockTree_NormalizeNode B block l nr) (\<lambda>n. Inr (Some n)))))
     else bindE (bo_lower_bound B lt b key) (\<lambda>index.
       bindE (BlockTree_holds_key B lt b index key) (\<lambda>found.
       if found then Inr None
       else bindE (BlockTree_InsertInNodeBlock B (Block_Node b l r s h) index key value) (\<lambda>n. Inr (Some n))))))"

(* immutable_block_tree.h:452-480 UpdateNode *)
fun BlockTree_UpdateNode ::
    "('k, 'v, 'b) block_ops \<Rightarrow> ('k \<Rightarrow> 'k \<Rightarrow> bool) \<Rightarrow> 'b block_ptr \<Rightarrow> 'k \<Rightarrow> 'v \<Rightarrow> 'b block_ptr option res" where
  "BlockTree_UpdateNode B lt Block_Null key value = Inr None"
| "BlockTree_UpdateNode B lt (Block_Node b l r s h) key value =
     bindE (BlockTree_BlockFrontKey B b) (\<lambda>front.
     if lt key front then
       bindE (BlockTree_UpdateNode B lt l key value) (\<lambda>new_left.
       case new_left of None \<Rightarrow> Inr None
       | Some nl \<Rightarrow> bindE (bo_copy B b) (\<lambda>block.
           bindE (BlockTree_MakeBalanced B block nl r) (\<lambda>n. Inr (Some n))))
     else bindE (BlockTree_BlockBackKey B b) (\<lambda>back.
     if lt back key then
       bindE (BlockTree_UpdateNode B lt r key value) (\<lambda>new_right.
       case new_right of None \<Rightarrow> Inr None
       | Some nr \<Rightarrow> bindE (bo_copy B b) (\<lambda>block.
           bindE (BlockTree_MakeBalanced B block l nr) (\<lambda>n. Inr (Some n))))
     else bindE (bo_lower_bound B lt b key) (\<lambda>index.
       bindE (BlockTree_holds_key B lt b index key) (\<lambda>found.
       if \<not> found then Inr None
       else bindE (BlockTree_UpdateInNodeBlock B (Block_Node b l r s h) index value) (\<lambda>n. Inr (Some n))))))"

(* immutable_block_tree.h:482-522 EraseNode *)
fun BlockTree_EraseNode ::
    "('k, 'v, 'b) block_ops \<Rightarrow> ('k \<Rightarrow> 'k \<Rightarrow> bool) \<Rightarrow> 'b block_ptr \<Rightarrow> 'k \<Rightarrow> 'b block_ptr option res" where
  "BlockTree_EraseNode B lt Block_Null key = Inr None"
| "BlockTree_EraseNode B lt (Block_Node b l r s h) key =
     bindE (BlockTree_BlockFrontKey B b) (\<lambda>front.
     if lt key front then
       bindE (BlockTree_EraseNode B lt l key) (\<lambda>new_left.
       case new_left of None \<Rightarrow> Inr None
       | Some nl \<Rightarrow> bindE (bo_copy B b) (\<lambda>block.
           bindE (BlockTree_NormalizeNode B block nl r) (\<lambda>n. Inr (Some n))))
     else bindE (BlockTree_BlockBackKey B b) (\<lambda>back.
     if lt back key then
       bindE (BlockTree_EraseNode B lt r key) (\<lambda>new_right.
       case new_right of None \<Rightarrow> Inr None
       | Some nr \<Rightarrow> bindE (bo_copy B b) (\<lambda>block.
           bindE (BlockTree_NormalizeNode B block l nr) (\<lambda>n. Inr (Some n))))
     else bindE (bo_lower_bound B lt b key) (\<lambda>index.
       bindE (BlockTree_holds_key B lt b index key) (\<lambda>found.
       if \<not> found then Inr None
       else if bo_count B b > 1 then
         bindE (bo_with_erased B b index) (\<lambda>block.
         bindE (BlockTree_NormalizeNode B block l r) (\<lambda>n. Inr (Some n)))
       else if l = Block_Null then Inr (Some r)
       else if r = Block_Null then Inr (Some l)
       else bindE (bindE (BlockTree_FindMin r) BlockTree_block) (\<lambda>succ_block.
         bindE (BlockTree_EraseMinNode B r) (\<lambda>new_right.
         bindE (bo_copy B succ_block) (\<lambda>block.
         bindE (BlockTree_NormalizeNode B block l new_right) (\<lambda>n. Inr (Some n)))))))))"

(* immutable_block_tree.h:524-549 SetNode *)
fun BlockTree_SetNode ::
    "('k, 'v, 'b) block_ops \<Rightarrow> ('k \<Rightarrow> 'k \<Rightarrow> bool) \<Rightarrow> 'b block_ptr \<Rightarrow> 'k \<Rightarrow> 'v \<Rightarrow> 'b block_ptr res" where
  "BlockTree_SetNode B lt Block_Null key value =
     bindE (bo_from_sorted B [(key, value)]) (\<lambda>block. BlockTree_MakeNode B block Block_Null Block_Null)"
| "BlockTree_SetNode B lt (Block_Node b l r s h) key value =
     bindE (BlockTree_BlockFrontKey B b) (\<lambda>front.
     if lt key front then
       (if l = Block_Null then BlockTree_InsertInNodeBlock B (Block_Node b l r s h) 0 key value
        else bindE (bo_copy B b) (\<lambda>block.
          bindE (BlockTree_SetNode B lt l key value) (\<lambda>nl. BlockTree_NormalizeNode B block nl r)))
     else bindE (BlockTree_BlockBackKey B b) (\<lambda>back.
     if lt back key then
       (if r = Block_Null then BlockTree_InsertInNodeBlock B (Block_Node b l r s h) (bo_count B b) key value
        else bindE (bo_copy B b) (\<lambda>block.
          bindE (BlockTree_SetNode B lt r key value) (\<lambda>nr. BlockTree_NormalizeNode B block l nr)))
     else bindE (bo_lower_bound B lt b key) (\<lambda>index.
       bindE (BlockTree_holds_key B lt b index key) (\<lambda>found.
       if found then BlockTree_UpdateInNodeBlock B (Block_Node b l r s h) index value
       else BlockTree_InsertInNodeBlock B (Block_Node b l r s h) index key value))))"

section \<open>Iteration\<close>

(* immutable_block_tree.h:551-558 AppendInOrder *)
fun BlockTree_AppendInOrder ::
    "('k, 'v, 'b) block_ops \<Rightarrow> 'b block_ptr \<Rightarrow> ('k \<times> 'v) list \<Rightarrow> ('k \<times> 'v) list res" where
  "BlockTree_AppendInOrder B Block_Null result = Inr result"
| "BlockTree_AppendInOrder B (Block_Node b l r s h) result =
     bindE (BlockTree_AppendInOrder B l result) (\<lambda>result.
     bindE (bo_append_to B b result) (\<lambda>result. BlockTree_AppendInOrder B r result))"

(* immutable_block_tree.h:151-156 ToVector *)
definition BlockTree_ToVector :: "('k, 'v, 'b) block_ops \<Rightarrow> 'b block_ptr \<Rightarrow> ('k \<times> 'v) list res" where
  "BlockTree_ToVector B root = BlockTree_AppendInOrder B root []"

(* immutable_block_tree.h:570-580 ForEachInBlock *)
definition BlockTree_ForEachInBlock ::
    "('k, 'v, 'b) block_ops \<Rightarrow> 'b \<Rightarrow> ('k \<Rightarrow> 'v \<Rightarrow> 's \<Rightarrow> 's) \<Rightarrow> 's \<Rightarrow> 's res" where
  "BlockTree_ForEachInBlock B block fn st =
     foldE (\<lambda>st i. bindE (bo_key_at B block i) (\<lambda>key.
        bindE (bo_value_at B block i) (\<lambda>value. Inr (fn key value st)))) st [0..<bo_count B block]"

(* immutable_block_tree.h:560-568 ForEachInOrder *)
fun BlockTree_ForEachInOrder ::
    "('k, 'v, 'b) block_ops \<Rightarrow> 'b block_ptr \<Rightarrow> ('k \<Rightarrow> 'v \<Rightarrow> 's \<Rightarrow> 's) \<Rightarrow> 's \<Rightarrow> 's res" where
  "BlockTree_ForEachInOrder B Block_Null fn st = Inr st"
| "BlockTree_ForEachInOrder B (Block_Node b l r s h) fn st =
     bindE (BlockTree_ForEachInOrder B l fn st) (\<lambda>st.
     bindE (BlockTree_ForEachInBlock B b fn st) (\<lambda>st. BlockTree_ForEachInOrder B r fn st))"

text \<open>The early return of a walk: once the flag is false, nothing more is visited.\<close>

(* immutable_block_tree.h:596-606 ForEachInBlockUntil *)
definition BlockTree_ForEachInBlockUntil ::
    "('k, 'v, 'b) block_ops \<Rightarrow> 'b \<Rightarrow> ('k \<Rightarrow> 'v \<Rightarrow> 's \<Rightarrow> bool \<times> 's) \<Rightarrow> 's \<Rightarrow> (bool \<times> 's) res" where
  "BlockTree_ForEachInBlockUntil B block fn st =
     foldE (\<lambda>(going, st) i.
        if \<not> going then Inr (False, st)
        else bindE (bo_key_at B block i) (\<lambda>key.
          bindE (bo_value_at B block i) (\<lambda>value. Inr (fn key value st)))) (True, st) [0..<bo_count B block]"

(* immutable_block_tree.h:582-594 ForEachInOrderUntil *)
fun BlockTree_ForEachInOrderUntil ::
    "('k, 'v, 'b) block_ops \<Rightarrow> 'b block_ptr \<Rightarrow> ('k \<Rightarrow> 'v \<Rightarrow> 's \<Rightarrow> bool \<times> 's) \<Rightarrow> 's \<Rightarrow> (bool \<times> 's) res" where
  "BlockTree_ForEachInOrderUntil B Block_Null fn st = Inr (True, st)"
| "BlockTree_ForEachInOrderUntil B (Block_Node b l r s h) fn st =
     bindE (BlockTree_ForEachInOrderUntil B l fn st) (\<lambda>(going, st).
     if \<not> going then Inr (False, st)
     else bindE (BlockTree_ForEachInBlockUntil B b fn st) (\<lambda>(going, st).
     if \<not> going then Inr (False, st)
     else BlockTree_ForEachInOrderUntil B r fn st))"

section \<open>Bulk construction\<close>

(* immutable_block_tree.h:234-244 ValidateSortedUniqueEntries *)
definition BlockTree_ValidateSortedUniqueEntries :: "('k \<times> 'v) list \<Rightarrow> ('k \<Rightarrow> 'k \<Rightarrow> bool) \<Rightarrow> unit res" where
  "BlockTree_ValidateSortedUniqueEntries entries cmp =
     foldE (\<lambda>_ index. if \<not> cmp (fst (entries ! (index - 1))) (fst (entries ! index))
                      then Inl (Invalid_Argument ''ImmutableBlockTree entries must be sorted and unique'')
                      else Inr ())
       () [1..<length entries]"

(* immutable_block_tree.h:608-618 BuildBalancedFromBlocks *)
function BlockTree_BuildBalancedFromBlocks ::
    "('k, 'v, 'b) block_ops \<Rightarrow> 'b list \<Rightarrow> nat \<Rightarrow> nat \<Rightarrow> 'b block_ptr res" where
  "BlockTree_BuildBalancedFromBlocks B blocks begn en =
     (if begn \<ge> en then Inr Block_Null
      else let middle = begn + (en - begn) div 2 in
        bindE (BlockTree_BuildBalancedFromBlocks B blocks begn middle) (\<lambda>left.
        bindE (BlockTree_BuildBalancedFromBlocks B blocks (middle + 1) en) (\<lambda>right.
        if middle < length blocks
        then BlockTree_MakeNode B (blocks ! middle) left right
        else Inl Undefined_Behaviour)))"
  by pat_completeness auto
termination
  by (relation "measure (\<lambda>(B, blocks, begn, en). en - begn)") auto

declare BlockTree_BuildBalancedFromBlocks.simps [simp del]

section \<open>The tree object\<close>

(* immutable_block_tree.h:702-703 root_ *)
record ('k, 'b) immutable_block_tree =
  bt_root :: "'b block_ptr"
  bt_comp :: "'k \<Rightarrow> 'k \<Rightarrow> bool"

(* immutable_block_tree.h:91-91 ImmutableBlockTree *)
definition ImmutableBlockTree_empty :: "('k \<Rightarrow> 'k \<Rightarrow> bool) \<Rightarrow> ('k, 'b) immutable_block_tree" where
  "ImmutableBlockTree_empty cmp = \<lparr>bt_root = Block_Null, bt_comp = cmp\<rparr>"

(* immutable_block_tree.h:93-99 FromSortedUniqueEntries *)
definition ImmutableBlockTree_FromSortedUniqueEntries ::
    "('k, 'v, 'b) block_ops \<Rightarrow> ('k \<times> 'v) list \<Rightarrow> ('k \<Rightarrow> 'k \<Rightarrow> bool) \<Rightarrow> ('k, 'b) immutable_block_tree res" where
  "ImmutableBlockTree_FromSortedUniqueEntries B entries cmp =
     bindE (BlockTree_ValidateSortedUniqueEntries entries cmp) (\<lambda>_.
     bindE (bo_pack B entries) (\<lambda>blocks.
     bindE (BlockTree_BuildBalancedFromBlocks B blocks 0 (length blocks)) (\<lambda>root.
     Inr \<lparr>bt_root = root, bt_comp = cmp\<rparr>)))"

(* immutable_block_tree.h:101-101 Empty *)
definition ImmutableBlockTree_Empty :: "('k, 'b) immutable_block_tree \<Rightarrow> bool" where
  "ImmutableBlockTree_Empty t \<longleftrightarrow> (case bt_root t of Block_Null \<Rightarrow> True | Block_Node _ _ _ _ _ \<Rightarrow> False)"

(* immutable_block_tree.h:121-121 Contains *)
definition ImmutableBlockTree_Contains :: "('k, 'v, 'b) block_ops \<Rightarrow> ('k, 'b) immutable_block_tree \<Rightarrow> 'k \<Rightarrow> bool res" where
  "ImmutableBlockTree_Contains B t key =
     bindE (BlockTree_Find B (bt_comp t) (bt_root t) key) (\<lambda>value. Inr (value \<noteq> None))"

(* immutable_block_tree.h:123-129 Insert *)
definition ImmutableBlockTree_Insert ::
    "('k, 'v, 'b) block_ops \<Rightarrow> ('k, 'b) immutable_block_tree \<Rightarrow> 'k \<Rightarrow> 'v \<Rightarrow> ('k, 'b) immutable_block_tree option res" where
  "ImmutableBlockTree_Insert B t key value =
     bindE (BlockTree_InsertNode B (bt_comp t) (bt_root t) key value) (\<lambda>new_root.
     case new_root of None \<Rightarrow> Inr None | Some n \<Rightarrow> Inr (Some \<lparr>bt_root = n, bt_comp = bt_comp t\<rparr>))"

(* immutable_block_tree.h:131-137 Update *)
definition ImmutableBlockTree_Update ::
    "('k, 'v, 'b) block_ops \<Rightarrow> ('k, 'b) immutable_block_tree \<Rightarrow> 'k \<Rightarrow> 'v \<Rightarrow> ('k, 'b) immutable_block_tree option res" where
  "ImmutableBlockTree_Update B t key value =
     bindE (BlockTree_UpdateNode B (bt_comp t) (bt_root t) key value) (\<lambda>new_root.
     case new_root of None \<Rightarrow> Inr None | Some n \<Rightarrow> Inr (Some \<lparr>bt_root = n, bt_comp = bt_comp t\<rparr>))"

(* immutable_block_tree.h:139-145 Erase *)
definition ImmutableBlockTree_Erase ::
    "('k, 'v, 'b) block_ops \<Rightarrow> ('k, 'b) immutable_block_tree \<Rightarrow> 'k \<Rightarrow> ('k, 'b) immutable_block_tree option res" where
  "ImmutableBlockTree_Erase B t key =
     bindE (BlockTree_EraseNode B (bt_comp t) (bt_root t) key) (\<lambda>new_root.
     case new_root of None \<Rightarrow> Inr None | Some n \<Rightarrow> Inr (Some \<lparr>bt_root = n, bt_comp = bt_comp t\<rparr>))"

(* immutable_block_tree.h:147-149 Set *)
definition ImmutableBlockTree_Set ::
    "('k, 'v, 'b) block_ops \<Rightarrow> ('k, 'b) immutable_block_tree \<Rightarrow> 'k \<Rightarrow> 'v \<Rightarrow> ('k, 'b) immutable_block_tree res" where
  "ImmutableBlockTree_Set B t key value =
     bindE (BlockTree_SetNode B (bt_comp t) (bt_root t) key value) (\<lambda>n. Inr \<lparr>bt_root = n, bt_comp = bt_comp t\<rparr>)"

definition ImmutableBlockTree_ops :: "('k, 'v, 'b) block_ops \<Rightarrow> ('k, 'v, ('k, 'b) immutable_block_tree, 's) tree_ops" where
  "ImmutableBlockTree_ops B = \<lparr>
     op_new = ImmutableBlockTree_empty,
     op_from_sorted = ImmutableBlockTree_FromSortedUniqueEntries B,
     op_empty = ImmutableBlockTree_Empty,
     op_size = (\<lambda>t. BlockTree_Size (bt_root t)),
     op_height = (\<lambda>t. BlockTree_Height (bt_root t)),
     op_find = (\<lambda>t key. BlockTree_Find B (bt_comp t) (bt_root t) key),
     op_contains = ImmutableBlockTree_Contains B,
     op_insert = ImmutableBlockTree_Insert B,
     op_update = ImmutableBlockTree_Update B,
     op_erase = ImmutableBlockTree_Erase B,
     op_set = ImmutableBlockTree_Set B,
     op_to_vector = (\<lambda>t. BlockTree_ToVector B (bt_root t)),
     op_for_each = (\<lambda>t fn st. BlockTree_ForEachInOrder B (bt_root t) fn st),
     op_for_each_until = (\<lambda>t fn st. BlockTree_ForEachInOrderUntil B (bt_root t) fn st)\<rparr>"

section \<open>The validation helpers of the tests\<close>

(* immutable_block_tree.h:621-625 DebugValidationResult *)
record debug_validation_result =
  dv_valid :: bool
  dv_height :: int
  dv_size :: nat

text \<open>
  The bounds are pointers in the code, null at the root.  A block that is empty ends the
  validation of its subtree at once.
\<close>

(* immutable_block_tree.h:627-667 ValidateInvariants *)
fun BlockTree_ValidateInvariants :: "('k, 'v, 'b) block_ops \<Rightarrow> ('k \<Rightarrow> 'k \<Rightarrow> bool) \<Rightarrow> 'b block_ptr \<Rightarrow>
    'k option \<Rightarrow> 'k option \<Rightarrow> debug_validation_result res" where
  "BlockTree_ValidateInvariants B lt Block_Null min_key max_key = Inr \<lparr>dv_valid = True, dv_height = 0, dv_size = 0\<rparr>"
| "BlockTree_ValidateInvariants B lt (Block_Node b l r s h) min_key max_key =
     (if bo_count B b = 0 then Inr \<lparr>dv_valid = False, dv_height = 0, dv_size = 0\<rparr>
      else bindE (BlockTree_BlockFrontKey B b) (\<lambda>front_key.
        bindE (BlockTree_BlockBackKey B b) (\<lambda>back_key.
        let valid = (case min_key of None \<Rightarrow> True | Some m \<Rightarrow> lt m front_key) \<and>
                    (case max_key of None \<Rightarrow> True | Some m \<Rightarrow> lt back_key m)
        in bindE (foldE (\<lambda>valid index.
             bindE (BlockTree_BlockKeyAt B b (index - 1)) (\<lambda>previous.
             bindE (BlockTree_BlockKeyAt B b index) (\<lambda>current.
             Inr (if \<not> lt previous current then False else valid)))) valid [1..<bo_count B b]) (\<lambda>valid.
        bindE (BlockTree_ValidateInvariants B lt l min_key (Some front_key)) (\<lambda>left.
        bindE (BlockTree_ValidateInvariants B lt r (Some back_key) max_key) (\<lambda>right.
        let expected_height = 1 + max (dv_height left) (dv_height right);
            expected_size = bo_count B b + dv_size left + dv_size right;
            height_delta = (if dv_height left > dv_height right then dv_height left - dv_height right
                            else dv_height right - dv_height left)
        in Inr \<lparr>dv_valid = valid \<and> dv_valid left \<and> dv_valid right \<and> uint h = expected_height \<and>
                  unat s = expected_size \<and> height_delta \<le> 1,
                dv_height = expected_height, dv_size = expected_size\<rparr>))))))"

(* immutable_block_tree.h:208-210 DebugValidateInvariantsForTest *)
definition BlockTree_DebugValidateInvariantsForTest ::
    "('k, 'v, 'b) block_ops \<Rightarrow> ('k, 'b) immutable_block_tree \<Rightarrow> bool res" where
  "BlockTree_DebugValidateInvariantsForTest B t =
     bindE (BlockTree_ValidateInvariants B (bt_comp t) (bt_root t) None None) (\<lambda>r. Inr (dv_valid r))"

end
