(* ===== verification/Zip_List.thy ===== *)
theory Zip_List
  imports Zip_Block
begin

text \<open>
  The generic \<open>ZipList<Key, Value, TargetBytes>\<close> (zip_list.h, lines 22-392): a fixed array of
  raw slots with a count.  A slot is \<open>None\<close> until \<open>ConstructBack\<close> has placed an object in it,
  so reading a slot that holds no object, or writing past the array, is a value
  \<open>Undefined_Behaviour\<close> of the model, which the lemmas show never occurs on a well-formed list.
  \<open>cap\<close> is \<open>kCapacity\<close>, a compile-time constant of the class.
\<close>

section \<open>The list and its slots\<close>

(* zip_list.h:386-387 entries_ *)
record 'e zip_list =
  zl_entries :: "'e option list"
  zl_count :: nat

(* zip_list.h:310-313 ComputeCapacity *)
definition ZipList_ComputeCapacity :: "nat \<Rightarrow> nat \<Rightarrow> nat" where
  "ZipList_ComputeCapacity target_bytes entry_bytes =
     (let raw = target_bytes div entry_bytes in if raw = 0 then 1 else raw)"

(* zip_list.h:27-27 ZipList *)
definition ZipList_empty :: "nat \<Rightarrow> 'e zip_list" where
  "ZipList_empty cap = \<lparr>zl_entries = replicate cap None, zl_count = 0\<rparr>"

(* zip_list.h:315-321 EntryAt *)
definition ZipList_EntryAt :: "'e zip_list \<Rightarrow> nat \<Rightarrow> 'e res" where
  "ZipList_EntryAt z index =
     (if index < length (zl_entries z)
      then case zl_entries z ! index of Some e \<Rightarrow> Inr e | None \<Rightarrow> Inl Undefined_Behaviour
      else Inl Undefined_Behaviour)"

(* zip_list.h:323-345 ConstructBack *)
definition ZipList_ConstructBack :: "'e zip_list \<Rightarrow> 'e \<Rightarrow> 'e zip_list res" where
  "ZipList_ConstructBack z entry =
     (if zl_count z < length (zl_entries z)
      then Inr \<lparr>zl_entries = (zl_entries z)[zl_count z := Some entry], zl_count = zl_count z + 1\<rparr>
      else Inl Undefined_Behaviour)"

text \<open>Destroying the objects, from the last to the first.\<close>

(* zip_list.h:374-382 Clear *)
function ZipList_Clear :: "'e zip_list \<Rightarrow> 'e zip_list" where
  "ZipList_Clear z =
     (if zl_count z > 0
      then ZipList_Clear \<lparr>zl_entries = (zl_entries z)[zl_count z - 1 := None], zl_count = zl_count z - 1\<rparr>
      else z)"
  by pat_completeness auto
termination
  by (relation "measure zl_count") auto

declare ZipList_Clear.simps [simp del]

(* zip_list.h:347-356 CopyFrom *)
definition ZipList_CopyFrom :: "'e zip_list \<Rightarrow> 'e zip_list \<Rightarrow> 'e zip_list res" where
  "ZipList_CopyFrom this other =
     foldE (\<lambda>r i. bindE (ZipList_EntryAt other i) (ZipList_ConstructBack r)) this [0..<zl_count other]"

text \<open>A moved-from entry stays in its slot until \<open>Clear\<close> destroys it.\<close>

(* zip_list.h:358-372 MoveFrom *)
definition ZipList_MoveFrom :: "'e zip_list \<Rightarrow> 'e zip_list \<Rightarrow> ('e zip_list \<times> 'e zip_list) res" where
  "ZipList_MoveFrom this other =
     bindE (foldE (\<lambda>r i. bindE (ZipList_EntryAt other i) (ZipList_ConstructBack r)) this [0..<zl_count other])
       (\<lambda>moved. Inr (moved, ZipList_Clear other))"

(* zip_list.h:29-29 ZipList *)
definition ZipList_copy :: "nat \<Rightarrow> 'e zip_list \<Rightarrow> 'e zip_list res" where
  "ZipList_copy cap other = ZipList_CopyFrom (ZipList_empty cap) other"

(* zip_list.h:33-40 operator= *)
definition ZipList_copy_assign :: "'e zip_list \<Rightarrow> 'e zip_list \<Rightarrow> 'e zip_list res" where
  "ZipList_copy_assign this other = ZipList_CopyFrom (ZipList_Clear this) other"

(* zip_list.h:42-49 operator= *)
definition ZipList_move_assign :: "'e zip_list \<Rightarrow> 'e zip_list \<Rightarrow> ('e zip_list \<times> 'e zip_list) res" where
  "ZipList_move_assign this other = ZipList_MoveFrom (ZipList_Clear this) other"

section \<open>Observers\<close>

(* zip_list.h:88-88 Count *)
definition ZipList_Count :: "'e zip_list \<Rightarrow> nat" where
  "ZipList_Count z = zl_count z"

(* zip_list.h:92-92 Empty *)
definition ZipList_Empty :: "'e zip_list \<Rightarrow> bool" where
  "ZipList_Empty z \<longleftrightarrow> zl_count z = 0"

(* zip_list.h:94-94 Full *)
definition ZipList_Full :: "nat \<Rightarrow> 'e zip_list \<Rightarrow> bool" where
  "ZipList_Full cap z \<longleftrightarrow> zl_count z = cap"

(* zip_list.h:96-96 CanInsert *)
definition ZipList_CanInsert :: "nat \<Rightarrow> ('k \<times> 'v) zip_list \<Rightarrow> 'k \<Rightarrow> 'v \<Rightarrow> bool res" where
  "ZipList_CanInsert cap z key value = Inr (\<not> ZipList_Full cap z)"

(* zip_list.h:98-98 CanUpdate *)
definition ZipList_CanUpdate :: "('k \<times> 'v) zip_list \<Rightarrow> nat \<Rightarrow> 'v \<Rightarrow> bool" where
  "ZipList_CanUpdate z index value \<longleftrightarrow> index < zl_count z"

(* zip_list.h:100-112 operator[] *)
definition ZipList_KeyAt :: "('k \<times> 'v) zip_list \<Rightarrow> nat \<Rightarrow> 'k res" where
  "ZipList_KeyAt z index = bindE (ZipList_EntryAt z index) (\<lambda>e. Inr (fst e))"

(* zip_list.h:114-114 ValueAt *)
definition ZipList_ValueAt :: "('k \<times> 'v) zip_list \<Rightarrow> nat \<Rightarrow> 'v res" where
  "ZipList_ValueAt z index = bindE (ZipList_EntryAt z index) (\<lambda>e. Inr (snd e))"

(* zip_list.h:116-131 LowerBound *)
definition ZipList_LowerBound :: "('k \<Rightarrow> 'k \<Rightarrow> bool) \<Rightarrow> ('k \<times> 'v) zip_list \<Rightarrow> 'k \<Rightarrow> nat res" where
  "ZipList_LowerBound lt z key =
     LowerBound_loop (\<lambda>middle. bindE (ZipList_EntryAt z middle) (\<lambda>e. Inr (lt (fst e) key))) 0 (zl_count z)"

(* zip_list.h:133-144 FindEntry *)
definition ZipList_FindEntry :: "('k \<Rightarrow> 'k \<Rightarrow> bool) \<Rightarrow> ('k \<times> 'v) zip_list \<Rightarrow> 'k \<Rightarrow> ('k \<times> 'v) option res" where
  "ZipList_FindEntry lt z key =
     bindE (ZipList_LowerBound lt z key) (\<lambda>index.
     if index = zl_count z then Inr None
     else bindE (ZipList_EntryAt z index) (\<lambda>entry.
     if lt key (fst entry) \<or> lt (fst entry) key then Inr None else Inr (Some entry)))"

(* zip_list.h:146-155 Find *)
definition ZipList_Find :: "('k \<Rightarrow> 'k \<Rightarrow> bool) \<Rightarrow> ('k \<times> 'v) zip_list \<Rightarrow> 'k \<Rightarrow> 'v option res" where
  "ZipList_Find lt z key =
     bindE (ZipList_FindEntry lt z key) (\<lambda>entry. case entry of None \<Rightarrow> Inr None | Some e \<Rightarrow> Inr (Some (snd e)))"

(* zip_list.h:297-301 AppendTo *)
definition ZipList_AppendTo :: "'e zip_list \<Rightarrow> 'e list \<Rightarrow> 'e list res" where
  "ZipList_AppendTo z output =
     foldE (\<lambda>out i. bindE (ZipList_EntryAt z i) (\<lambda>e. Inr (out @ [e]))) output [0..<zl_count z]"

(* zip_list.h:290-295 ToVector *)
definition ZipList_ToVector :: "'e zip_list \<Rightarrow> 'e list res" where
  "ZipList_ToVector z = ZipList_AppendTo z []"

section \<open>Building lists\<close>

(* zip_list.h:55-70 FromSortedEntries *)
definition ZipList_FromSortedEntries :: "nat \<Rightarrow> 'e list \<Rightarrow> 'e zip_list res" where
  "ZipList_FromSortedEntries cap entries =
     (if length entries > cap then Inl (Invalid_Argument ''ZipList entries exceed capacity'')
      else foldE ZipList_ConstructBack (ZipList_empty cap) entries)"

text \<open>
  The loop over \<open>begin\<close>.  \<open>kCapacity\<close> is at least 1 by \<open>ComputeCapacity\<close>; the test \<open>cap > 0\<close> only
  makes the recursion total for the other arguments of the definition.
\<close>

(* zip_list.h:72-86 PackSortedEntriesIntoBlocks *)
function ZipList_Pack_from :: "nat \<Rightarrow> 'e list \<Rightarrow> nat \<Rightarrow> 'e zip_list list \<Rightarrow> 'e zip_list list res" where
  "ZipList_Pack_from cap entries begn blocks =
     (if begn < length entries \<and> cap > 0 then
        let en = min (length entries) (begn + cap);
            block_entries = map ((!) entries) [begn..<en]
        in bindE (ZipList_FromSortedEntries cap block_entries) (\<lambda>b.
           ZipList_Pack_from cap entries en (blocks @ [b]))
      else Inr blocks)"
  by pat_completeness auto
termination
  by (relation "measure (\<lambda>(cap, entries, begn, blocks). length entries - begn)") auto

declare ZipList_Pack_from.simps [simp del]

(* zip_list.h:72-86 PackSortedEntriesIntoBlocks *)
definition ZipList_PackSortedEntriesIntoBlocks :: "nat \<Rightarrow> 'e list \<Rightarrow> 'e zip_list list res" where
  "ZipList_PackSortedEntriesIntoBlocks cap entries = ZipList_Pack_from cap entries 0 []"

(* zip_list.h:157-174 WithInserted *)
definition ZipList_WithInserted :: "nat \<Rightarrow> ('k \<times> 'v) zip_list \<Rightarrow> nat \<Rightarrow> 'k \<Rightarrow> 'v \<Rightarrow> ('k \<times> 'v) zip_list res" where
  "ZipList_WithInserted cap z index key value =
     (if ZipList_Full cap z then Inl (Logic_Error ''ZipList is full'')
      else if index > zl_count z then Inl (Out_Of_Range ''ZipList insert index out of range'')
      else bindE (foldE (\<lambda>r i. bindE (ZipList_EntryAt z i) (ZipList_ConstructBack r)) (ZipList_empty cap) [0..<index]) (\<lambda>result.
        bindE (ZipList_ConstructBack result (key, value)) (\<lambda>result.
        foldE (\<lambda>r i. bindE (ZipList_EntryAt z i) (ZipList_ConstructBack r)) result [index..<zl_count z])))"

(* zip_list.h:176-190 WithUpdated *)
definition ZipList_WithUpdated :: "nat \<Rightarrow> ('k \<times> 'v) zip_list \<Rightarrow> nat \<Rightarrow> 'v \<Rightarrow> ('k \<times> 'v) zip_list res" where
  "ZipList_WithUpdated cap z index value =
     (if index \<ge> zl_count z then Inl (Out_Of_Range ''ZipList update index out of range'')
      else foldE (\<lambda>r i. bindE (ZipList_EntryAt z i) (\<lambda>e.
          ZipList_ConstructBack r (if i = index then (fst e, value) else e))) (ZipList_empty cap) [0..<zl_count z])"

(* zip_list.h:192-215 SplitWithUpdated *)
definition ZipList_SplitWithUpdated :: "nat \<Rightarrow> ('k \<times> 'v) zip_list \<Rightarrow> nat \<Rightarrow> 'v \<Rightarrow>
    (('k \<times> 'v) zip_list \<times> ('k \<times> 'v) zip_list) res" where
  "ZipList_SplitWithUpdated cap z index value =
     (if index \<ge> zl_count z then Inl (Out_Of_Range ''ZipList split update index out of range'')
      else if zl_count z < 2 then Inl (Logic_Error ''ZipList update cannot split a single entry'')
      else bindE (foldE (\<lambda>out i. bindE (ZipList_EntryAt z i) (\<lambda>e.
          Inr (out @ [if i = index then (fst e, value) else e]))) [] [0..<zl_count z]) (\<lambda>entries.
        let split = length entries div 2 in
        bindE (ZipList_FromSortedEntries cap (take split entries)) (\<lambda>left.
        bindE (ZipList_FromSortedEntries cap (drop split entries)) (\<lambda>right. Inr (left, right)))))"

(* zip_list.h:217-224 SplitWithUpdatedBlocks *)
definition ZipList_SplitWithUpdatedBlocks :: "nat \<Rightarrow> ('k \<times> 'v) zip_list \<Rightarrow> nat \<Rightarrow> 'v \<Rightarrow>
    ('k \<times> 'v) zip_list list res" where
  "ZipList_SplitWithUpdatedBlocks cap z index value =
     bindE (ZipList_SplitWithUpdated cap z index value) (\<lambda>(left, right). Inr [left, right])"

(* zip_list.h:226-238 WithErased *)
definition ZipList_WithErased :: "nat \<Rightarrow> 'e zip_list \<Rightarrow> nat \<Rightarrow> 'e zip_list res" where
  "ZipList_WithErased cap z index =
     (if index \<ge> zl_count z then Inl (Out_Of_Range ''ZipList erase index out of range'')
      else foldE (\<lambda>r i. if i \<noteq> index then bindE (ZipList_EntryAt z i) (ZipList_ConstructBack r) else Inr r)
        (ZipList_empty cap) [0..<zl_count z])"

(* zip_list.h:240-260 SplitWithInserted *)
definition ZipList_SplitWithInserted :: "nat \<Rightarrow> ('k \<times> 'v) zip_list \<Rightarrow> nat \<Rightarrow> 'k \<Rightarrow> 'v \<Rightarrow>
    (('k \<times> 'v) zip_list \<times> ('k \<times> 'v) zip_list) res" where
  "ZipList_SplitWithInserted cap z index key value =
     (if index > zl_count z then Inl (Out_Of_Range ''ZipList split insert index out of range'')
      else bindE (foldE (\<lambda>out i. bindE (ZipList_EntryAt z i) (\<lambda>e. Inr (out @ [e]))) [] [0..<index]) (\<lambda>entries.
        let entries = entries @ [(key, value)] in
        bindE (foldE (\<lambda>out i. bindE (ZipList_EntryAt z i) (\<lambda>e. Inr (out @ [e]))) entries [index..<zl_count z]) (\<lambda>entries.
        let split = length entries div 2 in
        bindE (ZipList_FromSortedEntries cap (take split entries)) (\<lambda>left.
        bindE (ZipList_FromSortedEntries cap (drop split entries)) (\<lambda>right. Inr (left, right))))))"

(* zip_list.h:262-269 SplitWithInsertedBlocks *)
definition ZipList_SplitWithInsertedBlocks :: "nat \<Rightarrow> ('k \<times> 'v) zip_list \<Rightarrow> nat \<Rightarrow> 'k \<Rightarrow> 'v \<Rightarrow>
    ('k \<times> 'v) zip_list list res" where
  "ZipList_SplitWithInsertedBlocks cap z index key value =
     bindE (ZipList_SplitWithInserted cap z index key value) (\<lambda>(left, right). Inr [left, right])"

(* zip_list.h:271-273 CanMerge *)
definition ZipList_CanMerge :: "nat \<Rightarrow> 'e zip_list \<Rightarrow> 'e zip_list \<Rightarrow> bool" where
  "ZipList_CanMerge cap left right \<longleftrightarrow> zl_count left + zl_count right \<le> cap"

(* zip_list.h:275-288 Merged *)
definition ZipList_Merged :: "nat \<Rightarrow> 'e zip_list \<Rightarrow> 'e zip_list \<Rightarrow> 'e zip_list res" where
  "ZipList_Merged cap left right =
     (if \<not> ZipList_CanMerge cap left right then Inl (Logic_Error ''ZipList merged entries exceed capacity'')
      else bindE (foldE (\<lambda>r i. bindE (ZipList_EntryAt left i) (ZipList_ConstructBack r)) (ZipList_empty cap) [0..<zl_count left]) (\<lambda>result.
        foldE (\<lambda>r i. bindE (ZipList_EntryAt right i) (ZipList_ConstructBack r)) result [0..<zl_count right]))"

section \<open>The entries of a well-formed list\<close>

definition zl_of :: "nat \<Rightarrow> 'e list \<Rightarrow> 'e zip_list" where
  "zl_of cap xs = \<lparr>zl_entries = map Some xs @ replicate (cap - length xs) None, zl_count = length xs\<rparr>"

definition ZipList_list :: "'e zip_list \<Rightarrow> 'e list" where
  "ZipList_list z = map the (take (zl_count z) (zl_entries z))"

definition ZipList_ok :: "nat \<Rightarrow> 'e zip_list \<Rightarrow> bool" where
  "ZipList_ok cap z \<longleftrightarrow> zl_count z \<le> cap \<and> z = zl_of cap (ZipList_list z)"

lemma list_of [simp]: "ZipList_list (zl_of cap xs) = xs"
  by (simp add: ZipList_list_def zl_of_def)

lemma ok_of [simp]: "ZipList_ok cap (zl_of cap xs) \<longleftrightarrow> length xs \<le> cap"
  by (simp add: ZipList_ok_def) (simp add: zl_of_def)

lemma count_of [simp]: "zl_count (zl_of cap xs) = length xs"
  by (simp add: zl_of_def)

lemma ok_cases:
  assumes "ZipList_ok cap z"
  obtains xs where "z = zl_of cap xs" "length xs \<le> cap" "ZipList_list z = xs"
  using assms unfolding ZipList_ok_def by (metis count_of)

lemma empty_of: "ZipList_empty cap = zl_of cap []"
  by (simp add: ZipList_empty_def zl_of_def)

lemma EntryAt_of [simp]: "i < length xs \<Longrightarrow> ZipList_EntryAt (zl_of cap xs) i = Inr (xs ! i)"
  by (simp add: ZipList_EntryAt_def zl_of_def nth_append)

lemma ConstructBack_of: "length xs < cap \<Longrightarrow> ZipList_ConstructBack (zl_of cap xs) e = Inr (zl_of cap (xs @ [e]))"
proof -
  assume "length xs < cap"
  then have "replicate (cap - length xs) (None :: 'a option) = None # replicate (cap - Suc (length xs)) None"
    by (metis Suc_diff_Suc replicate_Suc)
  with \<open>length xs < cap\<close> show ?thesis
    by (simp add: ZipList_ConstructBack_def zl_of_def list_update_append)
qed

lemma Clear_of: "length xs \<le> cap \<Longrightarrow> ZipList_Clear (zl_of cap xs) = ZipList_empty cap"
proof (induction xs rule: rev_induct)
  case Nil
  then show ?case by (simp add: ZipList_Clear.simps empty_of)
next
  case (snoc x xs)
  let ?z = "zl_of cap (xs @ [x])"
  have "None # replicate (cap - Suc (length xs)) (None :: 'a option) = replicate (cap - length xs) None"
    using snoc.prems by (metis Suc_diff_le Suc_le_eq diff_Suc_Suc length_append_singleton replicate_Suc)
  then have "\<lparr>zl_entries = (zl_entries ?z)[zl_count ?z - 1 := None], zl_count = zl_count ?z - 1\<rparr> = zl_of cap xs"
    by (simp add: zl_of_def list_update_append)
  moreover have "0 < zl_count ?z" by simp
  ultimately have "ZipList_Clear ?z = ZipList_Clear (zl_of cap xs)"
    by (simp only: ZipList_Clear.simps[of ?z] if_True)
  with snoc show ?case by simp
qed

text \<open>A loop that appends entries, read from somewhere, to a list under construction.\<close>

lemma construct_loop:
  assumes "\<And>i. i \<in> set is \<Longrightarrow> get i = Inr (f i)" "length ys + length is \<le> cap"
  shows "foldE (\<lambda>r i. bindE (get i) (\<lambda>e. ZipList_ConstructBack r e)) (zl_of cap ys) is = Inr (zl_of cap (ys @ map f is))"
  using assms by (induction "is" arbitrary: ys) (simp_all add: ConstructBack_of)

lemma construct_all:
  "length ys + length xs \<le> cap \<Longrightarrow> foldE ZipList_ConstructBack (zl_of cap ys) xs = Inr (zl_of cap (ys @ xs))"
  by (induction xs arbitrary: ys) (simp_all add: ConstructBack_of)

lemma copy_loop:
  assumes "length ys + (j - i) \<le> cap" "j \<le> length xs"
  shows "foldE (\<lambda>r i. bindE (ZipList_EntryAt (zl_of cap xs) i) (ZipList_ConstructBack r)) (zl_of cap ys) [i..<j] =
    Inr (zl_of cap (ys @ drop i (take j xs)))"
  using construct_loop[of "[i..<j]" "ZipList_EntryAt (zl_of cap xs)" "(!) xs" ys cap] assms
  by (simp add: map_nth_range)

lemma skip_loop:
  assumes "length ys + length is \<le> cap" "\<And>i. i \<in> set is \<Longrightarrow> i < length xs"
  shows "foldE (\<lambda>r i. if i \<noteq> index then bindE (ZipList_EntryAt (zl_of cap xs) i) (ZipList_ConstructBack r) else Inr r)
    (zl_of cap ys) is = Inr (zl_of cap (ys @ map ((!) xs) (filter (\<lambda>i. i \<noteq> index) is)))"
  using assms by (induction "is" arbitrary: ys) (simp_all add: ConstructBack_of)

section \<open>Every operation on a well-formed list\<close>

lemma FromSortedEntries_of:
  "length xs \<le> cap \<Longrightarrow> ZipList_FromSortedEntries cap xs = Inr (zl_of cap xs)"
  using construct_all[of "[]" xs cap] by (simp add: ZipList_FromSortedEntries_def empty_of)

lemma copy_of: "length xs \<le> cap \<Longrightarrow> ZipList_copy cap (zl_of cap xs) = Inr (zl_of cap xs)"
  using copy_loop[of "[]" "length xs" 0 cap xs] by (simp add: ZipList_copy_def ZipList_CopyFrom_def empty_of)

lemma MoveFrom_of:
  "length xs \<le> cap \<Longrightarrow> ZipList_MoveFrom (ZipList_empty cap) (zl_of cap xs) = Inr (zl_of cap xs, ZipList_empty cap)"
  using copy_loop[of "[]" "length xs" 0 cap xs] Clear_of[of xs cap]
  by (simp add: ZipList_MoveFrom_def empty_of)

lemma AppendTo_of: "ZipList_AppendTo (zl_of cap xs) out = Inr (out @ xs)"
  using collect_loop[of "[0..<length xs]" "ZipList_EntryAt (zl_of cap xs)" "(!) xs" out]
  by (simp add: ZipList_AppendTo_def map_nth)

lemma WithInserted_of:
  assumes "length xs < cap" "i \<le> length xs"
  shows "ZipList_WithInserted cap (zl_of cap xs) i k v = Inr (zl_of cap (take i xs @ (k, v) # drop i xs))"
  using assms copy_loop[of "[]" i 0 cap xs] copy_loop[of "take i xs @ [(k, v)]" "length xs" i cap xs]
  by (simp add: ZipList_WithInserted_def ZipList_Full_def empty_of ConstructBack_of)

lemma WithUpdated_of:
  assumes "length xs \<le> cap" "i < length xs"
  shows "ZipList_WithUpdated cap (zl_of cap xs) i v = Inr (zl_of cap (xs[i := (fst (xs ! i), v)]))"
proof -
  let ?f = "\<lambda>j. if j = i then (fst (xs ! j), v) else xs ! j"
  have "foldE (\<lambda>r j. bindE (bindE (ZipList_EntryAt (zl_of cap xs) j) (\<lambda>e. Inr (if j = i then (fst e, v) else e)))
      (ZipList_ConstructBack r)) (zl_of cap []) [0..<length xs] = Inr (zl_of cap ([] @ map ?f [0..<length xs]))"
    using assms by (intro construct_loop) auto
  moreover have "map ?f [0..<length xs] = xs[i := (fst (xs ! i), v)]"
    by (intro nth_equalityI) auto
  ultimately show ?thesis using assms by (simp add: ZipList_WithUpdated_def empty_of bindE_assoc)
qed

lemma WithErased_of:
  assumes "length xs \<le> cap" "i < length xs"
  shows "ZipList_WithErased cap (zl_of cap xs) i = Inr (zl_of cap (take i xs @ drop (Suc i) xs))"
proof -
  have "filter (\<lambda>j. j \<noteq> i) [0..<length xs] = [0..<i] @ [Suc i..<length xs]"
    using assms(2) upt_add_eq_append[of 0 i "length xs - i"] by (simp add: upt_conv_Cons filter_id_conv)
  then have "map ((!) xs) (filter (\<lambda>j. j \<noteq> i) [0..<length xs]) = take i xs @ drop (Suc i) xs"
    using assms(2) by (simp add: map_nth_range)
  with assms skip_loop[of "[]" "[0..<length xs]" cap xs i] show ?thesis
    by (simp add: ZipList_WithErased_def empty_of)
qed

lemma SplitWithInserted_of:
  fixes k :: 'k and v :: 'v
  assumes "length xs \<le> cap" "0 < length xs" "i \<le> length xs"
  defines "ys \<equiv> take i xs @ (k, v) # drop i xs"
  shows "ZipList_SplitWithInserted cap (zl_of cap xs) i k v =
    Inr (zl_of cap (take (length ys div 2) ys), zl_of cap (drop (length ys div 2) ys))"
proof -
  have "length ys = Suc (length xs)" using assms(3) by (simp add: ys_def)
  moreover have "Suc n - Suc n div 2 \<le> n" if "0 < n" for n :: nat using that by arith
  ultimately have "length (take (length ys div 2) ys) \<le> cap" "length (drop (length ys div 2) ys) \<le> cap"
    using assms(1,2) by (auto intro: order_trans)
  moreover have loop: "foldE (\<lambda>out j. bindE (ZipList_EntryAt (zl_of cap xs) j) (\<lambda>e. Inr (out @ [e]))) out [a..<b] =
      Inr (out @ drop a (take b xs))" if "b \<le> length xs" for out a b
    using collect_loop[of "[a..<b]" "ZipList_EntryAt (zl_of cap xs)" "(!) xs" out] that by (simp add: map_nth_range)
  have "(take i xs @ [(k, v)]) @ drop i (take (length xs) xs) = ys" by (simp add: ys_def)
  then have "foldE (\<lambda>out j. bindE (ZipList_EntryAt (zl_of cap xs) j) (\<lambda>e. Inr (out @ [e])))
      (take i xs @ [(k, v)]) [i..<length xs] = Inr ys"
    using loop[OF order_refl, of "take i xs @ [(k, v)]" i] by (simp only:)
  ultimately show ?thesis
    using assms(3) loop[OF assms(3), of "[]" 0]
    by (simp add: ZipList_SplitWithInserted_def Let_def FromSortedEntries_of)
qed

lemma SplitWithUpdated_of:
  fixes v :: 'v
  assumes "length xs \<le> cap" "2 \<le> length xs" "i < length xs"
  defines "ys \<equiv> xs[i := (fst (xs ! i), v)]"
  shows "ZipList_SplitWithUpdated cap (zl_of cap xs) i v =
    Inr (zl_of cap (take (length ys div 2) ys), zl_of cap (drop (length ys div 2) ys))"
proof -
  let ?f = "\<lambda>j. if j = i then (fst (xs ! j), v) else xs ! j"
  have "foldE (\<lambda>out j. bindE (bindE (ZipList_EntryAt (zl_of cap xs) j) (\<lambda>e. Inr (if j = i then (fst e, v) else e)))
      (\<lambda>e. Inr (out @ [e]))) [] [0..<length xs] = Inr ([] @ map ?f [0..<length xs])"
    by (intro collect_loop) auto
  moreover have "map ?f [0..<length xs] = ys"
    by (intro nth_equalityI) (auto simp: ys_def)
  moreover have "length ys = length xs" by (simp add: ys_def)
  ultimately show ?thesis
    using assms(1-3) by (simp add: ZipList_SplitWithUpdated_def bindE_assoc Let_def FromSortedEntries_of)
qed

lemma Merged_of:
  assumes "length xs + length ys \<le> cap"
  shows "ZipList_Merged cap (zl_of cap xs) (zl_of cap ys) = Inr (zl_of cap (xs @ ys))"
  using assms copy_loop[of "[]" "length xs" 0 cap xs] copy_loop[of xs "length ys" 0 cap ys]
  by (simp add: ZipList_Merged_def ZipList_CanMerge_def empty_of)

lemma Pack_from_of:
  assumes "cap > 0" "begn \<le> length xs" "\<And>b. b \<in> set bs \<Longrightarrow> ZipList_ok cap b \<and> ZipList_list b \<noteq> []"
  shows "\<exists>bs'. ZipList_Pack_from cap xs begn bs = Inr bs' \<and>
    (\<forall>b \<in> set bs'. ZipList_ok cap b \<and> ZipList_list b \<noteq> []) \<and>
    concat (map ZipList_list bs') = concat (map ZipList_list bs) @ drop begn xs"
  using assms
proof (induction cap xs begn bs rule: ZipList_Pack_from.induct)
  case (1 cap xs begn bs)
  show ?case
  proof (cases "begn < length xs")
    case True
    define en where "en = min (length xs) (begn + cap)"
    define ys where "ys = map ((!) xs) [begn..<en]"
    have ys: "ys = drop begn (take en xs)" "length ys \<le> cap" "ys \<noteq> []"
      using True 1(2) by (auto simp: ys_def en_def map_nth_range)
    have "drop begn (take en xs) @ drop en xs = drop begn xs"
      using True 1(2) by (metis append_take_drop_id drop_take en_def le_add_diff_inverse2 min.cobounded1
          take_drop drop_drop min_def less_imp_le le_add1)
    moreover have en: "en \<le> length xs" by (simp add: en_def)
    moreover have "\<exists>bs'. ZipList_Pack_from cap xs en (bs @ [zl_of cap ys]) = Inr bs' \<and>
        (\<forall>b \<in> set bs'. ZipList_ok cap b \<and> ZipList_list b \<noteq> []) \<and>
        concat (map ZipList_list bs') = concat (map ZipList_list (bs @ [zl_of cap ys])) @ drop en xs"
      by (rule 1(1)[OF _ en_def ys_def FromSortedEntries_of[OF ys(2)]])
        (use True 1(2,4) ys(2,3) en in auto)
    ultimately show ?thesis
      using True 1(2) FromSortedEntries_of[OF ys(2)]
      by (simp add: ZipList_Pack_from.simps[of cap xs begn bs] Let_def ys(1)[symmetric] en_def[symmetric] ys_def[symmetric])
  next
    case False
    with 1(3,4) show ?thesis by (auto simp: ZipList_Pack_from.simps[of cap xs "length xs" bs])
  qed
qed

lemma KeyAt_of: "i < length xs \<Longrightarrow> ZipList_KeyAt (zl_of cap xs) i = Inr (fst (xs ! i))"
  by (simp add: ZipList_KeyAt_def del: bindE_eq_Inr)

lemma ValueAt_of: "i < length xs \<Longrightarrow> ZipList_ValueAt (zl_of cap xs) i = Inr (snd (xs ! i))"
  by (simp add: ZipList_ValueAt_def del: bindE_eq_Inr)

section \<open>The list meets the contract of a block\<close>

definition ZipList_ops :: "nat \<Rightarrow> ('k, 'v, ('k \<times> 'v) zip_list) block_ops" where
  "ZipList_ops cap = \<lparr>
     bo_copy = ZipList_copy cap,
     bo_from_sorted = ZipList_FromSortedEntries cap,
     bo_pack = ZipList_PackSortedEntriesIntoBlocks cap,
     bo_count = ZipList_Count,
     bo_full = ZipList_Full cap,
     bo_can_insert = ZipList_CanInsert cap,
     bo_can_update = ZipList_CanUpdate,
     bo_key_at = ZipList_KeyAt,
     bo_value_at = ZipList_ValueAt,
     bo_lower_bound = ZipList_LowerBound,
     bo_find_value = ZipList_Find,
     bo_with_inserted = ZipList_WithInserted cap,
     bo_with_updated = ZipList_WithUpdated cap,
     bo_with_erased = ZipList_WithErased cap,
     bo_split_inserted = ZipList_SplitWithInsertedBlocks cap,
     bo_split_updated = ZipList_SplitWithUpdatedBlocks cap,
     bo_can_merge = (\<lambda>l r. Inr (ZipList_CanMerge cap l r)),
     bo_merged = ZipList_Merged cap,
     bo_append_to = ZipList_AppendTo\<rparr>"

context strict_weak_order
begin

lemma ZipList_LowerBound_of:
  "sorted_entries lt xs \<Longrightarrow> ZipList_LowerBound lt (zl_of cap xs) k = Inr (length (lowers lt k xs))"
  unfolding ZipList_LowerBound_def count_of by (rule lower_bound_sorted) simp_all

lemma ZipList_Find_of:
  assumes "sorted_entries lt xs"
  shows "ZipList_Find lt (zl_of cap xs) k = Inr (om_find lt xs k)"
proof (cases "length (lowers lt k xs) = length xs")
  case True
  with find_at_lower_bound(2)[OF assms] show ?thesis
    by (simp add: ZipList_Find_def ZipList_FindEntry_def ZipList_LowerBound_of[OF assms])
next
  case False
  then have "length (lowers lt k xs) < length xs" using find_at_lower_bound(1)[OF assms, of k] by simp
  with False find_at_lower_bound(3)[OF assms, of k] show ?thesis
    by (simp add: ZipList_Find_def ZipList_FindEntry_def ZipList_LowerBound_of[OF assms])
qed

end

lemma halves_hold:
  assumes "2 \<le> length ys" "length ys \<le> Suc cap"
  shows "holds_all (ZipList_ok cap) ZipList_list
    (Inr [zl_of cap (take (length ys div 2) ys), zl_of cap (drop (length ys div 2) ys)]) ys"
proof -
  have "0 < length ys div 2" "length ys div 2 < length ys" "length ys div 2 \<le> cap" "length ys - length ys div 2 \<le> cap"
    using assms by auto
  then show ?thesis by (auto simp: holds_all_def)
qed

lemma zip_block_ZipList:
  assumes "0 < cap"
  shows "zip_block (ZipList_ops cap) (ZipList_ok cap) ZipList_list"
proof (unfold_locales, goal_cases)
  case (3 xs)
  then show ?case using Pack_from_of[OF assms, of 0 xs "[]"]
    by (simp add: holds_all_def ZipList_ops_def ZipList_PackSortedEntriesIntoBlocks_def)
next
  case (14 b i k v)
  obtain xs where xs: "b = zl_of cap xs" "length xs \<le> cap" using 14(1) by (rule ok_cases)
  then show ?case
    using SplitWithInserted_of[of xs cap i k v] halves_hold[of "take i xs @ (k, v) # drop i xs" cap] 14(2,3)
    by (simp only: list_of ZipList_ops_def block_ops.simps ZipList_SplitWithInsertedBlocks_def)
      (simp add: Suc_le_eq)
next
  case (9 lt b k)
  then show ?case
    by (auto elim!: ok_cases simp: ZipList_ops_def strict_weak_order.ZipList_LowerBound_of)
next
  case (10 lt b k)
  then show ?case
    by (auto elim!: ok_cases simp: ZipList_ops_def strict_weak_order.ZipList_Find_of)
qed (use assms in \<open>auto elim!: ok_cases simp: ZipList_ops_def copy_of FromSortedEntries_of ZipList_Count_def
    ZipList_CanInsert_def ZipList_Full_def ZipList_CanUpdate_def KeyAt_of ValueAt_of
    WithInserted_of WithUpdated_of WithErased_of ZipList_CanMerge_def Merged_of AppendTo_of\<close>)

lemma ComputeCapacity_pos: "0 < ZipList_ComputeCapacity target_bytes entry_bytes"
  by (simp add: ZipList_ComputeCapacity_def Let_def)

interpretation zl: zip_block "ZipList_ops (ZipList_ComputeCapacity target_bytes entry_bytes)"
    "ZipList_ok (ZipList_ComputeCapacity target_bytes entry_bytes)" ZipList_list
  by (rule zip_block_ZipList) (rule ComputeCapacity_pos)

end
