(* ===== verification/Block_Tree_Correct.thy ===== *)
theory Block_Tree_Correct
  imports Immutable_Block_Tree Zip_List
begin

text \<open>
  \<open>ImmutableBlockTree\<close> is correct over every block type that meets the contract \<open>zip_block\<close>: the
  AVL invariant of nodes that hold non-empty blocks, joining and merging, each update against
  the ordered-map specification, and the contract \<open>ordered_tree\<close> as the sum of it all.
\<close>

section \<open>Invariant\<close>

fun b_inorder :: "('b \<Rightarrow> 'e list) \<Rightarrow> 'b block_ptr \<Rightarrow> 'e list" where
  "b_inorder es Block_Null = []"
| "b_inorder es (Block_Node b l r s h) = b_inorder es l @ es b @ b_inorder es r"

fun b_avl :: "('b \<Rightarrow> bool) \<Rightarrow> ('b \<Rightarrow> 'e list) \<Rightarrow> 'b block_ptr \<Rightarrow> bool" where
  "b_avl ok es Block_Null \<longleftrightarrow> True"
| "b_avl ok es (Block_Node b l r s h) \<longleftrightarrow>
     b_avl ok es l \<and> b_avl ok es r \<and> ok b \<and> es b \<noteq> [] \<and>
     \<bar>BlockTree_Height l - BlockTree_Height r\<bar> \<le> 1 \<and>
     uint h = 1 + max (BlockTree_Height l) (BlockTree_Height r) \<and>
     unat s = length (es b) + BlockTree_Size l + BlockTree_Size r"

lemma BlockTree_Height_nonneg [simp]: "0 \<le> BlockTree_Height t"
  by (cases t) auto

lemma BlockTree_Size_le: "BlockTree_Size t \<le> 4294967295"
  by (cases t) (auto simp: unat_32_le)

lemma BlockTree_Size_inorder: "b_avl ok es t \<Longrightarrow> BlockTree_Size t = length (b_inorder es t)"
  by (induction t) auto

lemma b_inorder_le: "b_avl ok es t \<Longrightarrow> length (b_inorder es t) \<le> 4294967295"
  using BlockTree_Size_le[of t] by (simp add: BlockTree_Size_inorder)

lemma b_inorder_Nil [simp]: "b_avl ok es t \<Longrightarrow> b_inorder es t = [] \<longleftrightarrow> t = Block_Null"
  by (cases t) auto

text \<open>Every node holds at least one entry, so the height is logarithmic in the number of entries.\<close>

lemma b_avl_height_size: "b_avl ok es t \<Longrightarrow> 2 ^ (nat (BlockTree_Height t) div 2) \<le> BlockTree_Size t + 1"
proof (induction t)
  case (Block_Node b l r s h)
  let ?hl = "nat (BlockTree_Height l)" and ?hr = "nat (BlockTree_Height r)"
  let ?m = "(Suc (max ?hl ?hr)) div 2"
  have h: "nat (BlockTree_Height (Block_Node b l r s h)) = Suc (max ?hl ?hr)"
    using Block_Node.prems
    by (cases "BlockTree_Height l \<le> BlockTree_Height r") (auto simp: nat_add_distrib max_def)
  have "?hl \<le> Suc ?hr" "?hr \<le> Suc ?hl" using Block_Node.prems by auto
  then have "?m \<le> Suc (?hl div 2)" "?m \<le> Suc (?hr div 2)" by arith+
  then have "(2::nat) ^ ?m \<le> 2 * 2 ^ (?hl div 2)" "(2::nat) ^ ?m \<le> 2 * 2 ^ (?hr div 2)"
    by (metis power_Suc power_increasing one_le_numeral)+
  moreover have "2 ^ (?hl div 2) \<le> BlockTree_Size l + 1" "2 ^ (?hr div 2) \<le> BlockTree_Size r + 1"
    using Block_Node by auto
  moreover have "1 \<le> length (es b)" using Block_Node.prems by (simp add: Suc_le_eq)
  ultimately have "2 ^ ?m \<le> length (es b) + BlockTree_Size l + BlockTree_Size r + 1" by linarith
  then show ?case using Block_Node.prems h by simp
qed simp

lemma b_avl_height_le: "b_avl ok es t \<Longrightarrow> BlockTree_Height t \<le> 65"
proof (rule ccontr)
  assume "b_avl ok es t" and "\<not> BlockTree_Height t \<le> 65"
  then have "33 \<le> nat (BlockTree_Height t) div 2" by simp
  then have "(2::nat) ^ 33 \<le> 2 ^ (nat (BlockTree_Height t) div 2)"
    by (intro power_increasing) auto
  with b_avl_height_size[OF \<open>b_avl ok es t\<close>] BlockTree_Size_le[of t] show False by simp
qed

section \<open>Making nodes\<close>

definition b_mk :: "('b \<Rightarrow> 'e list) \<Rightarrow> 'b \<Rightarrow> 'b block_ptr \<Rightarrow> 'b block_ptr \<Rightarrow> 'b block_ptr" where
  "b_mk es b l r = Block_Node b l r (of_nat (length (es b) + BlockTree_Size l + BlockTree_Size r))
     (word_of_int (1 + max (BlockTree_Height l) (BlockTree_Height r)))"

text \<open>\<open>b_fits n l r\<close>: a node with a block of \<open>n\<close> entries over \<open>l\<close> and \<open>r\<close> passes the checks.\<close>

definition b_fits :: "nat \<Rightarrow> 'b block_ptr \<Rightarrow> 'b block_ptr \<Rightarrow> bool" where
  "b_fits n l r \<longleftrightarrow> BlockTree_Height l < 65535 \<and> BlockTree_Height r < 65535 \<and>
     n + BlockTree_Size l + BlockTree_Size r \<le> 4294967295"

lemma b_mk_words:
  assumes "b_fits (length (es b)) l r"
  shows "unat (of_nat (length (es b) + BlockTree_Size l + BlockTree_Size r) :: 32 word) =
      length (es b) + BlockTree_Size l + BlockTree_Size r"
    and "uint (word_of_int (1 + max (BlockTree_Height l) (BlockTree_Height r)) :: 16 word)
      = 1 + max (BlockTree_Height l) (BlockTree_Height r)"
  using assms BlockTree_Height_nonneg[of l] BlockTree_Height_nonneg[of r]
  by (intro unat_of_nat32 uint_of_int16; simp add: b_fits_def max_def)+

lemma b_mk_fields:
  assumes "b_fits (length (es b)) l r"
  shows "BlockTree_Height (b_mk es b l r) = 1 + max (BlockTree_Height l) (BlockTree_Height r)"
    and "BlockTree_Size (b_mk es b l r) = length (es b) + BlockTree_Size l + BlockTree_Size r"
    and "BlockTree_BalanceFactor (b_mk es b l r) = BlockTree_Height l - BlockTree_Height r"
    and "b_inorder es (b_mk es b l r) = b_inorder es l @ es b @ b_inorder es r"
  unfolding b_mk_def by (simp_all only: BlockTree_Height.simps BlockTree_Size.simps BlockTree_BalanceFactor.simps
      b_inorder.simps b_mk_words[where es = es, OF assms])

lemma b_avl_mk:
  "b_fits (length (es b)) l r \<Longrightarrow> b_avl ok es l \<Longrightarrow> b_avl ok es r \<Longrightarrow> ok b \<Longrightarrow> es b \<noteq> [] \<Longrightarrow>
    \<bar>BlockTree_Height l - BlockTree_Height r\<bar> \<le> 1 \<Longrightarrow> b_avl ok es (b_mk es b l r)"
  unfolding b_mk_def by (simp only: b_avl.simps b_mk_words simp_thms)

lemma b_fits_avl:
  "b_avl ok es l \<Longrightarrow> b_avl ok es r \<Longrightarrow> length xs + length (b_inorder es l) + length (b_inorder es r) \<le> 4294967295 \<Longrightarrow>
    b_fits (length xs) l r"
  using b_avl_height_le[of ok es l] b_avl_height_le[of ok es r] by (auto simp: b_fits_def BlockTree_Size_inorder)

lemma b_mk_cases:
  assumes "b_avl ok es t" and "0 < BlockTree_Height t"
  obtains b l r where "t = b_mk es b l r" "b_fits (length (es b)) l r" "b_avl ok es l" "b_avl ok es r"
    "ok b" "es b \<noteq> []" "\<bar>BlockTree_Height l - BlockTree_Height r\<bar> \<le> 1"
proof (cases t)
  case (Block_Node b l r s h)
  have "of_nat (unat s) = s" "word_of_int (uint h) = h" by simp_all
  with assms(1)[unfolded Block_Node] have
      "s = of_nat (length (es b) + BlockTree_Size l + BlockTree_Size r)"
      "h = word_of_int (1 + max (BlockTree_Height l) (BlockTree_Height r))"
    by (metis b_avl.simps(2))+
  then have t: "t = b_mk es b l r" by (simp add: b_mk_def Block_Node)
  have "length (es b) + BlockTree_Size l + BlockTree_Size r \<le> 4294967295"
    using assms(1) unat_32_le[of s] by (simp add: Block_Node)
  then have "b_fits (length (es b)) l r"
    using assms(1) by (intro b_fits_avl[of ok es]) (auto simp: Block_Node BlockTree_Size_inorder)
  with t show thesis using assms(1)[unfolded Block_Node] by (intro that[of b l r]) simp_all
qed (use assms in simp)

context zip_block
begin

lemma MakeNode_fits:
  "ok b \<Longrightarrow> b_fits (length (es b)) l r \<Longrightarrow> BlockTree_MakeNode B b l r = Inr (b_mk es b l r)"
  by (auto simp: BlockTree_MakeNode_def b_fits_def b_mk_def Let_def count)

lemma copy_obtain:
  assumes "ok b"
  obtains c where "bo_copy B b = Inr c" "ok c" "es c = es b"
  using copy[OF assms] by (auto simp: holds_def)

lemma RotateRight_mk:
  assumes "ok b" "ok pb" "b_fits (length (es b)) pr r" "b_fits (length (es pb)) pl (b_mk es b pr r)"
  obtains c pc where "ok c" "es c = es b" "ok pc" "es pc = es pb"
    "BlockTree_RotateRight B (b_mk es b (b_mk es pb pl pr) r) = Inr (b_mk es pc pl (b_mk es c pr r))"
proof -
  obtain c where c: "bo_copy B b = Inr c" "ok c" "es c = es b" by (rule copy_obtain[OF assms(1)])
  obtain pc where pc: "bo_copy B pb = Inr pc" "ok pc" "es pc = es pb" by (rule copy_obtain[OF assms(2)])
  have fits: "b_fits (length (es c)) pr r" "b_fits (length (es pc)) pl (b_mk es c pr r)"
    using assms(3,4) c(3) pc(3) by (simp_all add: b_fits_def b_mk_def)
  have "BlockTree_RotateRight B (b_mk es b (b_mk es pb pl pr) r) =
      bindE (bo_copy B b) (\<lambda>block. bindE (BlockTree_MakeNode B block pr r) (\<lambda>new_right.
      bindE (bo_copy B pb) (\<lambda>pivot_block. BlockTree_MakeNode B pivot_block pl new_right)))"
    unfolding b_mk_def by (rule BlockTree_RotateRight.simps)
  also have "\<dots> = Inr (b_mk es pc pl (b_mk es c pr r))"
    using c(1,2) pc(1,2) fits by (simp add: MakeNode_fits)
  finally show thesis using that c(2,3) pc(2,3) by blast
qed

lemma RotateLeft_mk:
  assumes "ok b" "ok pb" "b_fits (length (es b)) l pl" "b_fits (length (es pb)) (b_mk es b l pl) pr"
  obtains c pc where "ok c" "es c = es b" "ok pc" "es pc = es pb"
    "BlockTree_RotateLeft B (b_mk es b l (b_mk es pb pl pr)) = Inr (b_mk es pc (b_mk es c l pl) pr)"
proof -
  obtain c where c: "bo_copy B b = Inr c" "ok c" "es c = es b" by (rule copy_obtain[OF assms(1)])
  obtain pc where pc: "bo_copy B pb = Inr pc" "ok pc" "es pc = es pb" by (rule copy_obtain[OF assms(2)])
  have fits: "b_fits (length (es c)) l pl" "b_fits (length (es pc)) (b_mk es c l pl) pr"
    using assms(3,4) c(3) pc(3) by (simp_all add: b_fits_def b_mk_def)
  have "BlockTree_RotateLeft B (b_mk es b l (b_mk es pb pl pr)) =
      bindE (bo_copy B b) (\<lambda>block. bindE (BlockTree_MakeNode B block l pl) (\<lambda>new_left.
      bindE (bo_copy B pb) (\<lambda>pivot_block. BlockTree_MakeNode B pivot_block new_left pr)))"
    unfolding b_mk_def by (rule BlockTree_RotateLeft.simps)
  also have "\<dots> = Inr (b_mk es pc (b_mk es c l pl) pr)"
    using c(1,2) pc(1,2) fits by (simp add: MakeNode_fits)
  finally show thesis using that c(2,3) pc(2,3) by blast
qed

lemma Balance_mk_eq:
  assumes "b_fits (length (es b)) l r"
  shows "BlockTree_Balance B (b_mk es b l r) =
    (if BlockTree_Height l > BlockTree_Height r + 1 then
       (if BlockTree_BalanceFactor l < 0 then
          bindE (BlockTree_RotateLeft B l) (\<lambda>new_left. bindE (bo_copy B b) (\<lambda>block.
          bindE (BlockTree_MakeNode B block new_left r) (BlockTree_RotateRight B)))
        else BlockTree_RotateRight B (b_mk es b l r))
     else if BlockTree_Height r > BlockTree_Height l + 1 then
       (if BlockTree_BalanceFactor r > 0 then
          bindE (BlockTree_RotateRight B r) (\<lambda>new_right. bindE (bo_copy B b) (\<lambda>block.
          bindE (BlockTree_MakeNode B block l new_right) (BlockTree_RotateLeft B)))
        else BlockTree_RotateLeft B (b_mk es b l r))
     else Inr (b_mk es b l r))"
  unfolding b_mk_def by (simp add: Let_def del: of_nat_Suc of_nat_add of_int_add)

end

text \<open>
  \<open>b_balanced ok es l xs r t\<close>: \<open>t\<close> is a well-formed tree with the entries of \<open>l\<close>, \<open>xs\<close> and \<open>r\<close>, as
  high as a node over \<open>l\<close> and \<open>r\<close> or, when a rotation was needed, possibly one level lower.
\<close>

definition b_balanced :: "('b \<Rightarrow> bool) \<Rightarrow> ('b \<Rightarrow> 'e list) \<Rightarrow> 'b block_ptr \<Rightarrow> 'e list \<Rightarrow> 'b block_ptr \<Rightarrow> 'b block_ptr \<Rightarrow> bool" where
  "b_balanced ok es l xs r t \<longleftrightarrow> b_avl ok es t \<and> b_inorder es t = b_inorder es l @ xs @ b_inorder es r \<and>
     (BlockTree_Height t = 1 + max (BlockTree_Height l) (BlockTree_Height r) \<or>
      BlockTree_Height t = max (BlockTree_Height l) (BlockTree_Height r) \<and>
        1 < \<bar>BlockTree_Height l - BlockTree_Height r\<bar>)"

text \<open>The shape a double rotation ends in: one node over two others.\<close>

lemma b_balanced_double:
  assumes f: "b_fits (length (es c)) t1 t2" "b_fits (length (es e)) t3 t4"
      "b_fits (length (es m)) (b_mk es c t1 t2) (b_mk es e t3 t4)"
    and a: "b_avl ok es t1" "b_avl ok es t2" "b_avl ok es t3" "b_avl ok es t4"
      "ok c" "es c \<noteq> []" "ok m" "es m \<noteq> []" "ok e" "es e \<noteq> []"
    and h: "\<bar>BlockTree_Height t1 - BlockTree_Height t2\<bar> \<le> 1" "\<bar>BlockTree_Height t3 - BlockTree_Height t4\<bar> \<le> 1"
      "\<bar>max (BlockTree_Height t1) (BlockTree_Height t2) - max (BlockTree_Height t3) (BlockTree_Height t4)\<bar> \<le> 1"
    and hm: "2 + max (max (BlockTree_Height t1) (BlockTree_Height t2)) (max (BlockTree_Height t3) (BlockTree_Height t4))
        = max (BlockTree_Height l) (BlockTree_Height r)" "1 < \<bar>BlockTree_Height l - BlockTree_Height r\<bar>"
    and o: "b_inorder es l @ xs @ b_inorder es r =
      (b_inorder es t1 @ es c @ b_inorder es t2) @ es m @ (b_inorder es t3 @ es e @ b_inorder es t4)"
  shows "b_balanced ok es l xs r (b_mk es m (b_mk es c t1 t2) (b_mk es e t3 t4))"
proof -
  have avl: "b_avl ok es (b_mk es m (b_mk es c t1 t2) (b_mk es e t3 t4))"
    using h by (intro b_avl_mk f a) (simp_all add: b_mk_fields f)
  have "BlockTree_Height (b_mk es m (b_mk es c t1 t2) (b_mk es e t3 t4)) =
      1 + max (1 + max (BlockTree_Height t1) (BlockTree_Height t2)) (1 + max (BlockTree_Height t3) (BlockTree_Height t4))"
    by (simp only: b_mk_fields f)
  also have "\<dots> = max (BlockTree_Height l) (BlockTree_Height r)"
    using hm(1) by linarith
  finally have "BlockTree_Height (b_mk es m (b_mk es c t1 t2) (b_mk es e t3 t4)) =
      max (BlockTree_Height l) (BlockTree_Height r)" .
  moreover have "b_inorder es (b_mk es m (b_mk es c t1 t2) (b_mk es e t3 t4)) = b_inorder es l @ xs @ b_inorder es r"
    unfolding o by (simp only: b_mk_fields f)
  ultimately show ?thesis using avl hm(2) unfolding b_balanced_def by blast
qed

lemmas b_tree = b_mk_fields b_fits_def b_avl_mk b_balanced_def

context zip_block
begin

lemma Balance_left_heavy:
  assumes "b_fits (length (es b)) l r" "b_avl ok es l" "b_avl ok es r" "ok b" "es b \<noteq> []"
    and "BlockTree_Height l = BlockTree_Height r + 2"
  shows "\<exists>t. BlockTree_Balance B (b_mk es b l r) = Inr t \<and> b_balanced ok es l (es b) r t"
proof -
  obtain lb ll lr where l: "l = b_mk es lb ll lr" "b_fits (length (es lb)) ll lr" "b_avl ok es ll" "b_avl ok es lr"
      "ok lb" "es lb \<noteq> []" "\<bar>BlockTree_Height ll - BlockTree_Height lr\<bar> \<le> 1"
    by (rule b_mk_cases[OF assms(2)]) (use assms(6) BlockTree_Height_nonneg[of r] in linarith)
  show ?thesis
  proof (cases "BlockTree_Height ll < BlockTree_Height lr")
    case True
    obtain pb pl pr where p: "lr = b_mk es pb pl pr" "b_fits (length (es pb)) pl pr" "b_avl ok es pl" "b_avl ok es pr"
        "ok pb" "es pb \<noteq> []" "\<bar>BlockTree_Height pl - BlockTree_Height pr\<bar> \<le> 1"
      by (rule b_mk_cases[OF l(4)]) (use True BlockTree_Height_nonneg[of ll] in linarith)
    have 1: "b_fits (length (es lb)) ll pl" "b_fits (length (es pb)) (b_mk es lb ll pl) pr"
      using True l(2,7) p(2,7) by (auto simp: p(1) b_tree)
    obtain c pc where c: "ok c" "es c = es lb" "ok pc" "es pc = es pb"
        and rot: "BlockTree_RotateLeft B (b_mk es lb ll (b_mk es pb pl pr)) = Inr (b_mk es pc (b_mk es c ll pl) pr)"
      by (rule RotateLeft_mk[OF l(5) p(5) 1]) blast
    obtain d where d: "bo_copy B b = Inr d" "ok d" "es d = es b" by (rule copy_obtain[OF assms(4)])
    have 2: "b_fits (length (es d)) pr r" "b_fits (length (es pc)) (b_mk es c ll pl) (b_mk es d pr r)"
        "b_fits (length (es d)) (b_mk es pc (b_mk es c ll pl) pr) r" "b_fits (length (es c)) ll pl"
        "b_fits (length (es pc)) (b_mk es c ll pl) pr"
      using True assms(1,6) l(2,7) p(2,7) by (simp_all add: l(1) p(1) b_tree c d)
    obtain e pe where e: "ok e" "es e = es d" "ok pe" "es pe = es pc"
        and rot2: "BlockTree_RotateRight B (b_mk es d (b_mk es pc (b_mk es c ll pl) pr) r) =
          Inr (b_mk es pe (b_mk es c ll pl) (b_mk es e pr r))"
      by (rule RotateRight_mk[OF d(2) c(3) 2(1,2)]) blast
    have "BlockTree_Balance B (b_mk es b l r) = Inr (b_mk es pe (b_mk es c ll pl) (b_mk es e pr r))"
      using True assms(1,6) rot d(1) rot2 MakeNode_fits[OF d(2) 2(3)]
      by (simp add: Balance_mk_eq l(1) p(1)[symmetric] b_mk_fields l(2))
    moreover have "b_balanced ok es l (es b) r (b_mk es pe (b_mk es c ll pl) (b_mk es e pr r))"
    proof (rule b_balanced_double)
      show "b_fits (length (es c)) ll pl" "b_fits (length (es e)) pr r" "b_fits (length (es pe)) (b_mk es c ll pl) (b_mk es e pr r)"
        using 2 by (simp_all add: e b_fits_def b_mk_def)
      show "b_inorder es l @ es b @ b_inorder es r = (b_inorder es ll @ es c @ b_inorder es pl) @ es pe @ (b_inorder es pr @ es e @ b_inorder es r)"
        unfolding l(1) b_mk_fields(4)[where es = es, OF l(2)] unfolding p(1) b_mk_fields(4)[where es = es, OF p(2)]
        by (simp add: c d e)
      have "BlockTree_Height lr = 1 + max (BlockTree_Height pl) (BlockTree_Height pr)"
        unfolding p(1) by (rule b_mk_fields(1)[where es = es, OF p(2)])
      moreover have "BlockTree_Height l = 1 + max (BlockTree_Height ll) (BlockTree_Height lr)"
        unfolding l(1) by (rule b_mk_fields(1)[where es = es, OF l(2)])
      ultimately show "\<bar>BlockTree_Height ll - BlockTree_Height pl\<bar> \<le> 1" "\<bar>BlockTree_Height pr - BlockTree_Height r\<bar> \<le> 1"
          "\<bar>max (BlockTree_Height ll) (BlockTree_Height pl) - max (BlockTree_Height pr) (BlockTree_Height r)\<bar> \<le> 1"
          "2 + max (max (BlockTree_Height ll) (BlockTree_Height pl)) (max (BlockTree_Height pr) (BlockTree_Height r))
            = max (BlockTree_Height l) (BlockTree_Height r)"
          "1 < \<bar>BlockTree_Height l - BlockTree_Height r\<bar>"
        using True l(7) p(7) assms(6) by (simp_all add: max_def split: if_splits)
    qed (use assms l p c d e in simp_all)
    ultimately show ?thesis by blast
  next
    case False
    have 1: "b_fits (length (es b)) lr r" "b_fits (length (es lb)) ll (b_mk es b lr r)"
      using False assms(1,6) l(2,7) by (auto simp: l(1) b_tree)
    obtain c pc where c: "ok c" "es c = es b" "ok pc" "es pc = es lb"
        and rot: "BlockTree_RotateRight B (b_mk es b (b_mk es lb ll lr) r) = Inr (b_mk es pc ll (b_mk es c lr r))"
      by (rule RotateRight_mk[OF assms(4) l(5) 1]) blast
    have "BlockTree_Balance B (b_mk es b l r) = Inr (b_mk es pc ll (b_mk es c lr r))"
      using False assms(1,6) rot by (simp add: Balance_mk_eq l(1) b_mk_fields l(2))
    moreover have "b_balanced ok es l (es b) r (b_mk es pc ll (b_mk es c lr r))"
      using False assms l c by (simp add: b_tree) auto
    ultimately show ?thesis by blast
  qed
qed

lemma Balance_right_heavy:
  assumes "b_fits (length (es b)) l r" "b_avl ok es l" "b_avl ok es r" "ok b" "es b \<noteq> []"
    and "BlockTree_Height r = BlockTree_Height l + 2"
  shows "\<exists>t. BlockTree_Balance B (b_mk es b l r) = Inr t \<and> b_balanced ok es l (es b) r t"
proof -
  obtain rb rl rr where r: "r = b_mk es rb rl rr" "b_fits (length (es rb)) rl rr" "b_avl ok es rl" "b_avl ok es rr"
      "ok rb" "es rb \<noteq> []" "\<bar>BlockTree_Height rl - BlockTree_Height rr\<bar> \<le> 1"
    by (rule b_mk_cases[OF assms(3)]) (use assms(6) BlockTree_Height_nonneg[of l] in linarith)
  show ?thesis
  proof (cases "BlockTree_Height rr < BlockTree_Height rl")
    case True
    obtain pb pl pr where p: "rl = b_mk es pb pl pr" "b_fits (length (es pb)) pl pr" "b_avl ok es pl" "b_avl ok es pr"
        "ok pb" "es pb \<noteq> []" "\<bar>BlockTree_Height pl - BlockTree_Height pr\<bar> \<le> 1"
      by (rule b_mk_cases[OF r(3)]) (use True BlockTree_Height_nonneg[of rr] in linarith)
    have 1: "b_fits (length (es rb)) pr rr" "b_fits (length (es pb)) pl (b_mk es rb pr rr)"
      using True r(2,7) p(2,7) by (auto simp: p(1) b_tree)
    obtain c pc where c: "ok c" "es c = es rb" "ok pc" "es pc = es pb"
        and rot: "BlockTree_RotateRight B (b_mk es rb (b_mk es pb pl pr) rr) = Inr (b_mk es pc pl (b_mk es c pr rr))"
      by (rule RotateRight_mk[OF r(5) p(5) 1]) blast
    obtain d where d: "bo_copy B b = Inr d" "ok d" "es d = es b" by (rule copy_obtain[OF assms(4)])
    have 2: "b_fits (length (es d)) l pl" "b_fits (length (es pc)) (b_mk es d l pl) (b_mk es c pr rr)"
        "b_fits (length (es d)) l (b_mk es pc pl (b_mk es c pr rr))" "b_fits (length (es c)) pr rr"
        "b_fits (length (es pc)) pl (b_mk es c pr rr)"
      using True assms(1,6) r(2,7) p(2,7) by (simp_all add: r(1) p(1) b_tree c d)
    obtain e pe where e: "ok e" "es e = es d" "ok pe" "es pe = es pc"
        and rot2: "BlockTree_RotateLeft B (b_mk es d l (b_mk es pc pl (b_mk es c pr rr))) =
          Inr (b_mk es pe (b_mk es e l pl) (b_mk es c pr rr))"
      by (rule RotateLeft_mk[OF d(2) c(3) 2(1,2)]) blast
    have "BlockTree_Balance B (b_mk es b l r) = Inr (b_mk es pe (b_mk es e l pl) (b_mk es c pr rr))"
      using True assms(1,6) rot d(1) rot2 MakeNode_fits[OF d(2) 2(3)]
      by (simp add: Balance_mk_eq r(1) p(1)[symmetric] b_mk_fields r(2))
    moreover have "b_balanced ok es l (es b) r (b_mk es pe (b_mk es e l pl) (b_mk es c pr rr))"
    proof (rule b_balanced_double)
      show "b_fits (length (es e)) l pl" "b_fits (length (es c)) pr rr" "b_fits (length (es pe)) (b_mk es e l pl) (b_mk es c pr rr)"
        using 2 by (simp_all add: e b_fits_def b_mk_def)
      show "b_inorder es l @ es b @ b_inorder es r = (b_inorder es l @ es e @ b_inorder es pl) @ es pe @ (b_inorder es pr @ es c @ b_inorder es rr)"
        unfolding r(1) b_mk_fields(4)[where es = es, OF r(2)] unfolding p(1) b_mk_fields(4)[where es = es, OF p(2)]
        by (simp add: c d e)
      have "BlockTree_Height rl = 1 + max (BlockTree_Height pl) (BlockTree_Height pr)"
        unfolding p(1) by (rule b_mk_fields(1)[where es = es, OF p(2)])
      moreover have "BlockTree_Height r = 1 + max (BlockTree_Height rl) (BlockTree_Height rr)"
        unfolding r(1) by (rule b_mk_fields(1)[where es = es, OF r(2)])
      ultimately show "\<bar>BlockTree_Height l - BlockTree_Height pl\<bar> \<le> 1" "\<bar>BlockTree_Height pr - BlockTree_Height rr\<bar> \<le> 1"
          "\<bar>max (BlockTree_Height l) (BlockTree_Height pl) - max (BlockTree_Height pr) (BlockTree_Height rr)\<bar> \<le> 1"
          "2 + max (max (BlockTree_Height l) (BlockTree_Height pl)) (max (BlockTree_Height pr) (BlockTree_Height rr))
            = max (BlockTree_Height l) (BlockTree_Height r)"
          "1 < \<bar>BlockTree_Height l - BlockTree_Height r\<bar>"
        using True r(7) p(7) assms(6) by (simp_all add: max_def split: if_splits)
    qed (use assms r p c d e in simp_all)
    ultimately show ?thesis by blast
  next
    case False
    have 1: "b_fits (length (es b)) l rl" "b_fits (length (es rb)) (b_mk es b l rl) rr"
      using False assms(1,6) r(2,7) by (auto simp: r(1) b_tree)
    obtain c pc where c: "ok c" "es c = es b" "ok pc" "es pc = es rb"
        and rot: "BlockTree_RotateLeft B (b_mk es b l (b_mk es rb rl rr)) = Inr (b_mk es pc (b_mk es c l rl) rr)"
      by (rule RotateLeft_mk[OF assms(4) r(5) 1]) blast
    have "BlockTree_Balance B (b_mk es b l r) = Inr (b_mk es pc (b_mk es c l rl) rr)"
      using False assms(1,6) rot by (simp add: Balance_mk_eq r(1) b_mk_fields r(2))
    moreover have "b_balanced ok es l (es b) r (b_mk es pc (b_mk es c l rl) rr)"
      using False assms r c by (simp add: b_tree) auto
    ultimately show ?thesis by blast
  qed
qed

lemma MakeBalanced_correct:
  assumes "b_avl ok es l" "b_avl ok es r" "ok b" "es b \<noteq> []"
    and "\<bar>BlockTree_Height l - BlockTree_Height r\<bar> \<le> 2"
    and "length (es b) + length (b_inorder es l) + length (b_inorder es r) \<le> 4294967295"
  obtains t where "BlockTree_MakeBalanced B b l r = Inr t" "b_balanced ok es l (es b) r t"
proof -
  have f: "b_fits (length (es b)) l r" using assms(1,2,6) by (rule b_fits_avl)
  consider "\<bar>BlockTree_Height l - BlockTree_Height r\<bar> \<le> 1" | "BlockTree_Height l = BlockTree_Height r + 2"
    | "BlockTree_Height r = BlockTree_Height l + 2" using assms(5) by linarith
  then have "\<exists>t. BlockTree_Balance B (b_mk es b l r) = Inr t \<and> b_balanced ok es l (es b) r t"
  proof cases
    case 1
    then have "\<not> BlockTree_Height l > BlockTree_Height r + 1" "\<not> BlockTree_Height r > BlockTree_Height l + 1"
      by linarith+
    then have "BlockTree_Balance B (b_mk es b l r) = Inr (b_mk es b l r)" using f by (simp add: Balance_mk_eq)
    with f assms 1 show ?thesis by (simp add: b_balanced_def b_avl_mk b_mk_fields)
  next
    case 2
    with f assms(1-4) show ?thesis by (intro Balance_left_heavy)
  next
    case 3
    with f assms(1-4) show ?thesis by (intro Balance_right_heavy)
  qed
  with that MakeNode_fits[OF assms(3) f] show thesis by (auto simp: BlockTree_MakeBalanced_def)
qed

text \<open>\<open>JoinNode\<close> works over any two trees, however different their heights are.\<close>

lemma JoinNode_correct:
  assumes "b_avl ok es l" "b_avl ok es r" "ok b" "es b \<noteq> []"
    and "length (es b) + length (b_inorder es l) + length (b_inorder es r) \<le> 4294967295"
  shows "\<exists>t. BlockTree_JoinNode B b l r = Inr t \<and> b_avl ok es t \<and>
    b_inorder es t = b_inorder es l @ es b @ b_inorder es r \<and>
    (BlockTree_Height t = max (BlockTree_Height l) (BlockTree_Height r) \<or>
     BlockTree_Height t = max (BlockTree_Height l) (BlockTree_Height r) + 1)"
  using assms
proof (induction "size l + size r" arbitrary: l r rule: less_induct)
  case less
  consider (left) "BlockTree_Height l > BlockTree_Height r + 1"
    | (right) "BlockTree_Height r > BlockTree_Height l + 1"
    | (near) "\<bar>BlockTree_Height l - BlockTree_Height r\<bar> \<le> 1" by linarith
  then show ?case
  proof cases
    case left
    obtain lb ll lr s h where l: "l = Block_Node lb ll lr s h"
      using left BlockTree_Height_nonneg[of r] by (cases l) auto
    have sub: "b_avl ok es ll" "b_avl ok es lr" "ok lb" "es lb \<noteq> []"
        "\<bar>BlockTree_Height ll - BlockTree_Height lr\<bar> \<le> 1"
        "BlockTree_Height l = 1 + max (BlockTree_Height ll) (BlockTree_Height lr)"
      using less(2) by (simp_all add: l)
    obtain j where j: "BlockTree_JoinNode B b lr r = Inr j" "b_avl ok es j"
        "b_inorder es j = b_inorder es lr @ es b @ b_inorder es r"
        "BlockTree_Height j = max (BlockTree_Height lr) (BlockTree_Height r) \<or>
         BlockTree_Height j = max (BlockTree_Height lr) (BlockTree_Height r) + 1"
      using less(1)[of lr r] less(3-6) sub(2) by (auto simp: l)
    obtain c where c: "bo_copy B lb = Inr c" "ok c" "es c = es lb" by (rule copy_obtain[OF sub(3)])
    have h: "\<bar>BlockTree_Height ll - BlockTree_Height j\<bar> \<le> 2"
      using j(4) sub(5,6) left by (auto simp: max_def split: if_splits)
    obtain t where t: "BlockTree_MakeBalanced B c ll j = Inr t" "b_balanced ok es ll (es c) j t"
      by (rule MakeBalanced_correct[OF sub(1) j(2) c(2) _ h]) (use sub(4) c(3) less(6) in \<open>auto simp: j(3) l\<close>)
    have "BlockTree_JoinNode B b l r = Inr t"
      by (subst BlockTree_JoinNode.simps) (use left j(1) c(1) t(1) in \<open>simp add: l BlockTree_MakeBalanced_def\<close>)
    with t(2) j c sub left show ?thesis by (auto simp: b_balanced_def l max_def split: if_splits)
  next
    case right
    obtain rb rl rr s h where r: "r = Block_Node rb rl rr s h"
      using right BlockTree_Height_nonneg[of l] by (cases r) auto
    have sub: "b_avl ok es rl" "b_avl ok es rr" "ok rb" "es rb \<noteq> []"
        "\<bar>BlockTree_Height rl - BlockTree_Height rr\<bar> \<le> 1"
        "BlockTree_Height r = 1 + max (BlockTree_Height rl) (BlockTree_Height rr)"
      using less(3) by (simp_all add: r)
    obtain j where j: "BlockTree_JoinNode B b l rl = Inr j" "b_avl ok es j"
        "b_inorder es j = b_inorder es l @ es b @ b_inorder es rl"
        "BlockTree_Height j = max (BlockTree_Height l) (BlockTree_Height rl) \<or>
         BlockTree_Height j = max (BlockTree_Height l) (BlockTree_Height rl) + 1"
      using less(1)[of l rl] less(2,4-6) sub(1) by (auto simp: r)
    obtain c where c: "bo_copy B rb = Inr c" "ok c" "es c = es rb" by (rule copy_obtain[OF sub(3)])
    have h: "\<bar>BlockTree_Height j - BlockTree_Height rr\<bar> \<le> 2"
      using j(4) sub(5,6) right by (auto simp: max_def split: if_splits)
    obtain t where t: "BlockTree_MakeBalanced B c j rr = Inr t" "b_balanced ok es j (es c) rr t"
      by (rule MakeBalanced_correct[OF j(2) sub(2) c(2) _ h]) (use sub(4) c(3) less(6) in \<open>auto simp: j(3) r\<close>)
    have "BlockTree_JoinNode B b l r = Inr t"
      by (subst BlockTree_JoinNode.simps) (use right j(1) c(1) t(1) in \<open>auto simp: r BlockTree_MakeBalanced_def\<close>)
    with t(2) j c sub right show ?thesis by (auto simp: b_balanced_def r max_def split: if_splits)
  next
    case near
    then have n: "\<not> BlockTree_Height l > BlockTree_Height r + 1" "\<not> BlockTree_Height r > BlockTree_Height l + 1"
        "\<bar>BlockTree_Height l - BlockTree_Height r\<bar> \<le> 2"
      by linarith+
    obtain t where "BlockTree_MakeBalanced B b l r = Inr t" "b_balanced ok es l (es b) r t"
      by (rule MakeBalanced_correct[OF less(2-5) n(3) less(6)])
    with n near show ?thesis by (auto simp: BlockTree_JoinNode.simps[of B b l r] b_balanced_def)
  qed
qed

section \<open>Merging with the neighbours\<close>

lemma FindMin_correct:
  assumes "b_avl ok es t" "t \<noteq> Block_Null"
  obtains b where "bindE (BlockTree_FindMin t) BlockTree_block = Inr b" "ok b" "es b \<noteq> []"
    "b_inorder es t = es b @ drop (length (es b)) (b_inorder es t)"
proof -
  have "\<exists>b zs. bindE (BlockTree_FindMin t) BlockTree_block = Inr b \<and> ok b \<and> es b \<noteq> [] \<and> b_inorder es t = es b @ zs"
    using assms by (induction t rule: BlockTree_FindMin.induct) (auto, metis append.assoc)
  with that show thesis by (auto simp del: bindE_eq_Inr)
qed

lemma FindMax_correct:
  assumes "b_avl ok es t" "t \<noteq> Block_Null"
  obtains b zs where "bindE (BlockTree_FindMax t) BlockTree_block = Inr b" "ok b" "es b \<noteq> []"
    "b_inorder es t = zs @ es b"
proof -
  have "\<exists>b zs. bindE (BlockTree_FindMax t) BlockTree_block = Inr b \<and> ok b \<and> es b \<noteq> [] \<and> b_inorder es t = zs @ es b"
    using assms
  proof (induction t rule: BlockTree_FindMax.induct)
    case (3 b l rb rl rr rs rh s h)
    then obtain d zs where d: "bindE (BlockTree_FindMax (Block_Node rb rl rr rs rh)) BlockTree_block = Inr d" "ok d" "es d \<noteq> []"
        "b_inorder es (Block_Node rb rl rr rs rh) = zs @ es d"
      by (auto simp del: bindE_eq_Inr)
    then have "b_inorder es (Block_Node b l (Block_Node rb rl rr rs rh) s h) = (b_inorder es l @ es b @ zs) @ es d" by simp
    with d(1-3) show ?case unfolding BlockTree_FindMax.simps by blast
  qed simp_all
  with that show thesis by blast
qed

lemma normalize_correct:
  shows "B' = B \<Longrightarrow> b_avl ok es t \<Longrightarrow> t \<noteq> Block_Null \<Longrightarrow>
      \<exists>t' b. BlockTree_EraseMinNode B' t = Inr t' \<and> b_avl ok es t' \<and>
        bindE (BlockTree_FindMin t) BlockTree_block = Inr b \<and> b_inorder es t = es b @ b_inorder es t'"
    and "B' = B \<Longrightarrow> b_avl ok es t \<Longrightarrow> t \<noteq> Block_Null \<Longrightarrow>
      \<exists>t' b. BlockTree_EraseMaxNode B' t = Inr t' \<and> b_avl ok es t' \<and>
        bindE (BlockTree_FindMax t) BlockTree_block = Inr b \<and> b_inorder es t = b_inorder es t' @ es b"
    and "B' = B \<Longrightarrow> b_avl ok es t \<Longrightarrow> ok b \<Longrightarrow> es b \<noteq> [] \<Longrightarrow>
      \<exists>b' t'. BlockTree_NormalizeLeft B' b t = Inr (b', t') \<and> b_avl ok es t' \<and> ok b' \<and> es b' \<noteq> [] \<and>
        b_inorder es t' @ es b' = b_inorder es t @ es b"
    and "B' = B \<Longrightarrow> b_avl ok es t \<Longrightarrow> ok b \<Longrightarrow> es b \<noteq> [] \<Longrightarrow>
      \<exists>b' t'. BlockTree_NormalizeRight B' b t = Inr (b', t') \<and> b_avl ok es t' \<and> ok b' \<and> es b' \<noteq> [] \<and>
        es b' @ b_inorder es t' = es b @ b_inorder es t"
    and "B' = B \<Longrightarrow> b_avl ok es l \<Longrightarrow> b_avl ok es r \<Longrightarrow> ok b \<Longrightarrow> es b \<noteq> [] \<Longrightarrow>
      length (b_inorder es l) + length (es b) + length (b_inorder es r) \<le> 4294967295 \<Longrightarrow>
      \<exists>t'. BlockTree_NormalizeNode B' b l r = Inr t' \<and> b_avl ok es t' \<and>
        b_inorder es t' = b_inorder es l @ es b @ b_inorder es r"
proof (induction B' t and B' t and B' b t and B' b t and B' b l r
    rule: BlockTree_EraseMinNode_BlockTree_EraseMaxNode_BlockTree_NormalizeLeft_BlockTree_NormalizeRight_BlockTree_NormalizeNode.induct)
  case (2 B' b l r s h)
  note N = BlockTree_EraseMinNode.simps(2)
  show ?case
  proof (cases "l = Block_Null")
    case True
    with 2 show ?thesis by (simp add: N)
  next
    case False
    have sub: "b_avl ok es l" "b_avl ok es r" "ok b" "es b \<noteq> []" using 2(4) by simp_all
    obtain c where c: "bo_copy B b = Inr c" "ok c" "es c = es b" by (rule copy_obtain[OF sub(3)])
    then have c': "bo_copy B' b = Inr c" using 2(3) by simp
    obtain l' m where l: "BlockTree_EraseMinNode B' l = Inr l'" "b_avl ok es l'"
        "bindE (BlockTree_FindMin l) BlockTree_block = Inr m" "b_inorder es l = es m @ b_inorder es l'"
      using 2(1)[OF False c' 2(3) sub(1) False] by blast
    have "length (b_inorder es l') + length (es c) + length (b_inorder es r) \<le> 4294967295"
      using b_inorder_le[OF 2(4)] by (simp add: l(4) c(3))
    from 2(2)[OF False c' l(1) 2(3) l(2) sub(2) c(2) _ this] sub(4) c(3) obtain t' where
      t: "BlockTree_NormalizeNode B' c l' r = Inr t'" "b_avl ok es t'"
        "b_inorder es t' = b_inorder es l' @ es b @ b_inorder es r" by auto
    have "BlockTree_FindMin (Block_Node b l r s h) = BlockTree_FindMin l" using False by (cases l) simp_all
    with t l c' False show ?thesis by (simp add: N del: bindE_eq_Inr)
  qed
next
  case (4 B' b l r s h)
  note N = BlockTree_EraseMaxNode.simps(2)
  show ?case
  proof (cases "r = Block_Null")
    case True
    with 4 show ?thesis by (simp add: N)
  next
    case False
    have sub: "b_avl ok es l" "b_avl ok es r" "ok b" "es b \<noteq> []" using 4(4) by simp_all
    obtain c where c: "bo_copy B b = Inr c" "ok c" "es c = es b" by (rule copy_obtain[OF sub(3)])
    then have c': "bo_copy B' b = Inr c" using 4(3) by simp
    obtain r' m where r: "BlockTree_EraseMaxNode B' r = Inr r'" "b_avl ok es r'"
        "bindE (BlockTree_FindMax r) BlockTree_block = Inr m" "b_inorder es r = b_inorder es r' @ es m"
      using 4(1)[OF False c' 4(3) sub(2) False] by blast
    have "length (b_inorder es l) + length (es c) + length (b_inorder es r') \<le> 4294967295"
      using b_inorder_le[OF 4(4)] by (simp add: r(4) c(3))
    from 4(2)[OF False c' r(1) 4(3) sub(1) r(2) c(2) _ this] sub(4) c(3) obtain t' where
      t: "BlockTree_NormalizeNode B' c l r' = Inr t'" "b_avl ok es t'"
        "b_inorder es t' = b_inorder es l @ es b @ b_inorder es r'" by auto
    have "BlockTree_FindMax (Block_Node b l r s h) = BlockTree_FindMax r" using False by (cases r) simp_all
    with t r c' False show ?thesis by (simp add: N del: bindE_eq_Inr)
  qed
next
  case (5 B' b l)
  note N = BlockTree_NormalizeLeft.simps[of B' b l]
  show ?case
  proof (cases "l = Block_Null")
    case False
    obtain p zs where p: "bindE (BlockTree_FindMax l) BlockTree_block = Inr p" "ok p" "es p \<noteq> []"
        "b_inorder es l = zs @ es p" by (rule FindMax_correct[OF 5(4) False])
    obtain can where can: "bo_can_merge B p b = Inr can" using can_merge[OF p(2) 5(5)] by blast
    show ?thesis
    proof (cases can)
      case True
      obtain m where m: "bo_merged B p b = Inr m" "ok m" "es m = es p @ es b"
        using merged[OF p(2) 5(5)] can True by (auto simp: holds_def)
      have B': "bo_can_merge B' p b = Inr can" "\<not> \<not> can" "bo_merged B' p b = Inr m"
        using 5(3) can True m(1) by simp_all
      obtain l' q where l': "BlockTree_EraseMaxNode B' l = Inr l'" "b_avl ok es l'"
          "bindE (BlockTree_FindMax l) BlockTree_block = Inr q" "b_inorder es l = b_inorder es l' @ es q"
        using 5(1)[OF False p(1) B' 5(3,4) False] by blast
      have "es m \<noteq> []" "q = p" using m(3) p(1,3) l'(3) by auto
      with 5(2)[OF False p(1) B' l'(1) 5(3) l'(2) m(2)] obtain b'' l'' where
        "BlockTree_NormalizeLeft B' m l' = Inr (b'', l'')" "b_avl ok es l''" "ok b''" "es b'' \<noteq> []"
        "b_inorder es l'' @ es b'' = b_inorder es l' @ es m" by blast
      with False p(1) B' l' \<open>q = p\<close> m(3) show ?thesis by (simp add: N del: bindE_eq_Inr)
    next
      case no: False
      then have "bo_can_merge B' p b = Inr False" using can 5(3) by simp
      with False p(1) have "BlockTree_NormalizeLeft B' b l = Inr (b, l)" by (simp add: N del: bindE_eq_Inr)
      with 5(4-6) show ?thesis by simp
    qed
  qed (use 5(4-6) in \<open>simp add: BlockTree_NormalizeLeft.simps\<close>)
next
  case (6 B' b r)
  note N = BlockTree_NormalizeRight.simps[of B' b r]
  show ?case
  proof (cases "r = Block_Null")
    case False
    obtain p where p: "bindE (BlockTree_FindMin r) BlockTree_block = Inr p" "ok p" "es p \<noteq> []"
      by (rule FindMin_correct[OF 6(4) False])
    obtain can where can: "bo_can_merge B b p = Inr can" using can_merge[OF 6(5) p(2)] by blast
    show ?thesis
    proof (cases can)
      case True
      obtain m where m: "bo_merged B b p = Inr m" "ok m" "es m = es b @ es p"
        using merged[OF 6(5) p(2)] can True by (auto simp: holds_def)
      have B': "bo_can_merge B' b p = Inr can" "\<not> \<not> can" "bo_merged B' b p = Inr m"
        using 6(3) can True m(1) by simp_all
      obtain r' q where r': "BlockTree_EraseMinNode B' r = Inr r'" "b_avl ok es r'"
          "bindE (BlockTree_FindMin r) BlockTree_block = Inr q" "b_inorder es r = es q @ b_inorder es r'"
        using 6(1)[OF False p(1) B' 6(3,4) False] by blast
      have "es m \<noteq> []" "q = p" using m(3) p(1,3) r'(3) by auto
      with 6(2)[OF False p(1) B' r'(1) 6(3) r'(2) m(2)] obtain b'' r'' where
        "BlockTree_NormalizeRight B' m r' = Inr (b'', r'')" "b_avl ok es r''" "ok b''" "es b'' \<noteq> []"
        "es b'' @ b_inorder es r'' = es m @ b_inorder es r'" by blast
      with False p(1) B' r' \<open>q = p\<close> m(3) show ?thesis by (simp add: N del: bindE_eq_Inr)
    next
      case no: False
      then have "bo_can_merge B' b p = Inr False" using can 6(3) by simp
      with False p(1) have "BlockTree_NormalizeRight B' b r = Inr (b, r)" by (simp add: N del: bindE_eq_Inr)
      with 6(4-6) show ?thesis by simp
    qed
  qed (use 6(4-6) in \<open>simp add: BlockTree_NormalizeRight.simps\<close>)
next
  case (7 B' b l r)
  obtain b' l' where l: "BlockTree_NormalizeLeft B' b l = Inr (b', l')" "b_avl ok es l'" "ok b'" "es b' \<noteq> []"
      "b_inorder es l' @ es b' = b_inorder es l @ es b"
    using 7(1)[OF 7(3,4,6,7)] by blast
  obtain b'' r' where r: "BlockTree_NormalizeRight B' b' r = Inr (b'', r')" "b_avl ok es r'" "ok b''" "es b'' \<noteq> []"
      "es b'' @ b_inorder es r' = es b' @ b_inorder es r"
    using 7(2)[OF l(1) 7(3,5)] l(3,4) by auto
  have all: "b_inorder es l' @ es b'' @ b_inorder es r' = b_inorder es l @ es b @ b_inorder es r"
    unfolding r(5) using l(5) by (metis append.assoc)
  from arg_cong[OF this, of length] 7(8)
  have "length (es b'') + length (b_inorder es l') + length (b_inorder es r') \<le> 4294967295" by simp
  from JoinNode_correct[OF l(2) r(2,3,4) this] l(1) r(1) 7(3) all show ?case
    by (auto simp: BlockTree_NormalizeNode.simps)
qed simp_all

lemmas EraseMin_correct = normalize_correct(1)[OF refl]
lemmas NormalizeNode_correct = normalize_correct(5)[OF refl]

section \<open>Updates of one block\<close>

lemma BuildSplitNodes_correct:
  assumes "b_avl ok es l" "b_avl ok es r" "\<And>b. b \<in> set bs \<Longrightarrow> ok b \<and> es b \<noteq> []" "bs \<noteq> []"
    and len: "length (b_inorder es l) + length (concat (map es bs)) + length (b_inorder es r) \<le> 4294967295"
  shows "\<exists>t. BlockTree_BuildSplitNodes B bs l r = Inr t \<and> b_avl ok es t \<and>
    b_inorder es t = b_inorder es l @ concat (map es bs) @ b_inorder es r"
proof -
  define n where "n = length bs"
  define P where "P ys t \<longleftrightarrow> b_avl ok es t \<and> b_inorder es t =
    (if length ys = n then b_inorder es l else []) @ concat (map es (drop (n - length ys) bs)) @ b_inorder es r"
    for ys :: "nat list" and t
  have "\<exists>t. BlockTree_BuildSplitNodes B bs l r = Inr t \<and> P (rev [1..<length bs + 1]) t"
    unfolding BlockTree_BuildSplitNodes_def
  proof (rule foldE_invariant)
    show "P [] r" using assms(2,4) by (simp add: P_def n_def)
  next
    fix ys x zs t
    assume xs: "rev [1..<length bs + 1] = ys @ x # zs" and P: "P ys t"
    from arg_cong[OF xs, of length] have m: "length ys < n" by (simp add: n_def del: upt_Suc)
    have "x = rev [1..<length bs + 1] ! length ys" unfolding xs by simp
    then have x: "x = n - length ys" using m by (simp add: rev_nth n_def del: upt_Suc)
    have i: "x - 1 < length bs" "n - length (ys @ [x]) = x - 1" using m x by (auto simp: n_def)
    let ?bl = "if x = 1 then l else Block_Null"
    have b: "ok (bs ! (x - 1))" "es (bs ! (x - 1)) \<noteq> []" using assms(3) i(1) nth_mem by blast+
    have d: "drop (x - 1) bs = bs ! (x - 1) # drop x bs"
      using i(1) m x by (metis Cons_nth_drop_Suc One_nat_def Suc_pred zero_less_diff)
    have sub: "length (concat (map es (drop (x - 1) bs))) \<le> length (concat (map es bs))"
      by (metis append_take_drop_id concat_append le_add2 length_append map_append)
    have "b_inorder es t = concat (map es (drop x bs)) @ b_inorder es r"
      using P m x by (simp add: P_def)
    moreover have "concat (map es (drop (x - 1) bs)) = es (bs ! (x - 1)) @ concat (map es (drop x bs))"
      unfolding d by simp
    moreover have "length (b_inorder es ?bl) \<le> length (b_inorder es l)" by simp
    ultimately have "length (b_inorder es ?bl) + length (es (bs ! (x - 1))) + length (b_inorder es t) \<le> 4294967295"
      using len sub by (simp only: length_append)
    from NormalizeNode_correct[OF _ _ b this] assms(1) P have
      "\<exists>t'. BlockTree_NormalizeNode B (bs ! (x - 1)) ?bl t = Inr t' \<and> b_avl ok es t' \<and>
        b_inorder es t' = b_inorder es ?bl @ es (bs ! (x - 1)) @ b_inorder es t"
      by (simp add: P_def)
    with P m x show "\<exists>t'. (let block_left = ?bl in BlockTree_NormalizeNode B (bs ! (x - 1)) block_left t) = Inr t' \<and>
        P (ys @ [x]) t'"
      unfolding P_def i(2) d by (auto simp: Let_def)
  qed
  then show ?thesis by (auto simp: P_def n_def simp del: upt_Suc)
qed

lemma InsertInNodeBlock_correct:
  assumes "b_avl ok es (Block_Node b l r s h)" "i \<le> length (es b)"
    and "length (b_inorder es (Block_Node b l r s h)) < 4294967295"
  shows "\<exists>t. BlockTree_InsertInNodeBlock B (Block_Node b l r s h) i k v = Inr t \<and> b_avl ok es t \<and>
    b_inorder es t = b_inorder es l @ (take i (es b) @ (k, v) # drop i (es b)) @ b_inorder es r"
proof -
  let ?ys = "take i (es b) @ (k, v) # drop i (es b)"
  have n: "b_avl ok es l" "b_avl ok es r" "ok b" "es b \<noteq> []" "\<bar>BlockTree_Height l - BlockTree_Height r\<bar> \<le> 2"
    using assms(1) by auto
  have len: "length ?ys + length (b_inorder es l) + length (b_inorder es r) \<le> 4294967295"
    using assms(2,3) by simp
  obtain fits where fits: "bo_can_insert B b k v = Inr fits" using can_insert[OF n(3)] by blast
  show ?thesis
  proof (cases "\<not> bo_full B b \<and> fits")
    case True
    then obtain c where c: "bo_with_inserted B b i k v = Inr c" "ok c" "es c = ?ys"
      using with_inserted[OF n(3) assms(2), of k v] fits by (auto simp: holds_def)
    obtain t where "BlockTree_MakeBalanced B c l r = Inr t" "b_balanced ok es l (es c) r t"
      by (rule MakeBalanced_correct[OF n(1,2) c(2) _ n(5)]) (use len in \<open>simp_all add: c(3)\<close>)
    with True fits c show ?thesis by (auto simp: b_balanced_def)
  next
    case False
    obtain bs where bs: "bo_split_inserted B b i k v = Inr bs" "\<And>b. b \<in> set bs \<Longrightarrow> ok b \<and> es b \<noteq> []"
        "concat (map es bs) = ?ys"
      using split_inserted[OF n(3,4) assms(2), of k v] by (auto elim: holds_allE)
    then have "bs \<noteq> []" by auto
    from BuildSplitNodes_correct[OF n(1,2) bs(2) this] len bs False fits show ?thesis by auto
  qed
qed

lemma UpdateInNodeBlock_correct:
  assumes "b_avl ok es (Block_Node b l r s h)" "i < length (es b)"
  shows "\<exists>t. BlockTree_UpdateInNodeBlock B (Block_Node b l r s h) i v = Inr t \<and> b_avl ok es t \<and>
    b_inorder es t = b_inorder es l @ (es b)[i := (fst (es b ! i), v)] @ b_inorder es r \<and>
    BlockTree_Height t = BlockTree_Height (Block_Node b l r s h)"
proof -
  have n: "b_avl ok es l" "b_avl ok es r" "ok b" "es b \<noteq> []" "\<bar>BlockTree_Height l - BlockTree_Height r\<bar> \<le> 2"
    using assms(1) by auto
  obtain c where c: "bo_with_updated B b i v = Inr c" "ok c" "es c = (es b)[i := (fst (es b ! i), v)]"
    using with_updated[OF n(3) assms(2), of v] by (auto simp: holds_def)
  have len: "length (es c) + length (b_inorder es l) + length (b_inorder es r) \<le> 4294967295"
    using b_inorder_le[OF assms(1)] c(3) by simp
  obtain t where "BlockTree_MakeBalanced B c l r = Inr t" "b_balanced ok es l (es c) r t"
    by (rule MakeBalanced_correct[OF n(1,2) c(2) _ n(5) len]) (use n(4) c(3) in auto)
  moreover have "\<bar>BlockTree_Height l - BlockTree_Height r\<bar> \<le> 1" using assms(1) by simp
  ultimately show ?thesis using c can_update[OF n(3) assms(2)] assms(1) by (auto simp: b_balanced_def)
qed

lemma front_key: "ok b \<Longrightarrow> es b \<noteq> [] \<Longrightarrow> BlockTree_BlockFrontKey B b = Inr (fst (hd (es b)))"
  by (simp add: BlockTree_BlockFrontKey_def key_at hd_conv_nth)

lemma back_key: "ok b \<Longrightarrow> es b \<noteq> [] \<Longrightarrow> BlockTree_BlockBackKey B b = Inr (fst (last (es b)))"
  by (simp add: BlockTree_BlockBackKey_def key_at count last_conv_nth)

end

section \<open>The updates meet the ordered-map specification\<close>

locale block_tree = strict_weak_order lt + zip_block B ok es
  for lt :: "'k \<Rightarrow> 'k \<Rightarrow> bool" and B :: "('k, 'v, 'b) block_ops"
    and ok :: "'b \<Rightarrow> bool" and es :: "'b \<Rightarrow> ('k \<times> 'v) list"
begin

text \<open>The three ways a key compares with a block, and the position of a key in it.\<close>

lemma inside_block:
  fixes k :: 'k
  assumes "ok b" "sorted_entries lt (es b)"
  defines "n \<equiv> length (lowers lt k (es b))"
  shows "bo_lower_bound B lt b k = Inr n" "n \<le> length (es b)"
    and "BlockTree_holds_key B lt b n k = Inr (same lt k (es b) \<noteq> [])"
    and "same lt k (es b) = [] \<Longrightarrow> om_insert lt (es b) k v = Some (take n (es b) @ (k, v) # drop n (es b))"
    and "same lt k (es b) \<noteq> [] \<Longrightarrow> n < length (es b) \<and>
      om_update lt (es b) k v = Some ((es b)[n := (fst (es b ! n), v)]) \<and>
      om_erase lt (es b) k = Some (take n (es b) @ drop (Suc n) (es b))"
proof -
  note parts = split_at_lower_bound[OF assms(2), of k]
  show "bo_lower_bound B lt b k = Inr n"
    unfolding n_def by (rule lower_bound[OF _ assms(1,2)]) unfold_locales
  show n: "n \<le> length (es b)" using part_lengths[of k "es b"] by (simp add: n_def)
  show "om_insert lt (es b) k v = Some (take n (es b) @ (k, v) # drop n (es b))" if "same lt k (es b) = []"
    using that parts by (simp add: om_insert_def n_def)
  have at: "n < length (es b) \<and> es b ! n = e \<and> drop (Suc n) (es b) = uppers lt k (es b) \<and> same lt k (es b) = [e]"
    if "same lt k (es b) = e # rest" for e rest
  proof -
    have d: "drop n (es b) = e # uppers lt k (es b)" "rest = []"
      using that parts(2) same_at_most_one[OF assms(2) that] by (simp_all add: n_def)
    then have "n < length (es b)" by (metis drop_eq_Nil leI list.discI)
    with d that show ?thesis by (metis Cons_nth_drop_Suc list.inject)
  qed
  show "n < length (es b) \<and> om_update lt (es b) k v = Some ((es b)[n := (fst (es b ! n), v)]) \<and>
      om_erase lt (es b) k = Some (take n (es b) @ drop (Suc n) (es b))" if "same lt k (es b) \<noteq> []"
  proof -
    from that obtain e rest where e: "same lt k (es b) = e # rest" by (cases "same lt k (es b)") auto
    with at[OF e] parts(1) show ?thesis
      by (simp add: om_update_def om_erase_def n_def upd_conv_take_nth_drop)
  qed
  show "BlockTree_holds_key B lt b n k = Inr (same lt k (es b) \<noteq> [])"
  proof (cases "same lt k (es b)")
    case (Cons e rest)
    then have "equivalent lt (fst e) k" using same_memD by blast
    with at[OF Cons] Cons show ?thesis
      by (simp add: BlockTree_holds_key_def BlockTree_BlockKeyAt_def count[OF assms(1)] key_at[OF assms(1)]
          BlockTree_Equivalent_def equivalent_def)
  next
    case Nil
    show ?thesis
    proof (cases "n < length (es b)")
      case True
      then have "es b ! n = hd (uppers lt k (es b))" "uppers lt k (es b) \<noteq> []"
        using Nil parts(2) by (auto simp: n_def hd_drop_conv_nth[symmetric])
      then have "lt k (fst (es b ! n))"
        using list.set_sel(1)[of "uppers lt k (es b)"] by (simp add: uppers_def)
      with True Nil show ?thesis
        by (simp add: BlockTree_holds_key_def BlockTree_BlockKeyAt_def count[OF assms(1)] key_at[OF assms(1)]
            BlockTree_Equivalent_def)
    qed (use Nil in \<open>simp add: BlockTree_holds_key_def count[OF assms(1)]\<close>)
  qed
qed

abbreviation "avl \<equiv> b_avl ok es"
abbreviation "inorder \<equiv> b_inorder es"
abbreviation "updates \<equiv> yields avl inorder"

text \<open>What the specification does at a node, by where the key is.\<close>

lemma at_node:
  assumes "avl (Block_Node b l r s h)" "sorted_entries lt (inorder (Block_Node b l r s h))"
  shows "avl l" "avl r" "ok b" "es b \<noteq> []" "sorted_entries lt (inorder l)" "sorted_entries lt (inorder r)"
    "sorted_entries lt (es b)" "sorted_entries lt (es b @ inorder r)" "sorted_entries lt (inorder l @ es b)"
    "sorted_entries lt (inorder l @ es b @ inorder r)"
  using assms by auto

lemma Find_correct:
  assumes "avl t" "sorted_entries lt (inorder t)"
  shows "BlockTree_Find B lt t k = Inr (om_find lt (inorder t) k)"
  using assms
proof (induction t)
  case (Block_Node b l r s h)
  note n = at_node[OF Block_Node.prems]
  have swo: "strict_weak_order lt" by unfold_locales
  show ?case
    using Block_Node.IH n om_left(1)[OF n(8,4)] om_right(1)[OF n(9,4)] om_middle(1)[OF n(10,4)]
      find_value[OF swo n(3,7)]
    by (simp add: front_key back_key)
qed simp

lemma InsertNode_correct:
  assumes "avl t" "sorted_entries lt (inorder t)" "length (inorder t) < 4294967295"
  shows "updates (BlockTree_InsertNode B lt t k v) (om_insert lt (inorder t) k v)"
  using assms
proof (induction t)
  case Block_Null
  obtain b where b: "bo_from_sorted B [(k, v)] = Inr b" "ok b" "es b = [(k, v)]"
    using from_one by (auto simp: holds_def)
  have f: "b_fits (length (es b)) Block_Null (Block_Null :: 'b block_ptr)" by (simp add: b_fits_def b)
  then show ?case
    using b MakeNode_fits[OF b(2) f] b_avl_mk[where es = es and ok = ok, OF f] b_mk_fields(4)[where es = es, OF f]
    by simp
next
  case (Block_Node b l r s h)
  note n = at_node[OF Block_Node.prems(1,2)]
  obtain c where c: "bo_copy B b = Inr c" "ok c" "es c = es b" by (rule copy_obtain[OF n(3)])
  note here = InsertInNodeBlock_correct[OF Block_Node.prems(1) _ Block_Node.prems(3), of _ k v]
  have len: "length (inorder l) < 4294967295" "length (inorder r) < 4294967295"
    using Block_Node.prems(3) by simp_all
  have norm: "\<exists>t'. BlockTree_NormalizeNode B c l' r' = Inr t' \<and> avl t' \<and> inorder t' = inorder l' @ es b @ inorder r'"
    if "avl l'" "avl r'" "length (inorder l') + length (es b) + length (inorder r') \<le> 4294967295" for l' r'
    using NormalizeNode_correct[OF that(1,2) c(2)] n(4) c(3) that(3) by auto
  consider (below) "lt k (fst (hd (es b)))" | (above) "\<not> lt k (fst (hd (es b)))" "lt (fst (last (es b))) k"
    | (inside) "\<not> lt k (fst (hd (es b)))" "\<not> lt (fst (last (es b))) k" by blast
  then show ?case
  proof cases
    case below
    note om = om_left(2)[OF n(8,4) below, of "inorder l" v]
    show ?thesis
    proof (cases "l = Block_Null")
      case True
      with here[of 0] below n(3,4) om show ?thesis by (auto simp: front_key)
    next
      case False
      from Block_Node.IH(1)[OF n(1,5) len(1)] show ?thesis
      proof (cases rule: yields_cases)
        case missing
        with False below n(3,4) om show ?thesis by (simp add: front_key)
      next
        case (found nl)
        have "length (inorder nl) + length (es b) + length (inorder r) \<le> 4294967295"
          using om_insert_length[OF found(2)] Block_Node.prems(3) by simp
        from norm[OF found(3) n(2) this] False below n(3,4) om found c(1) show ?thesis by (auto simp: front_key)
      qed
    qed
  next
    case above
    note om = om_right(2)[OF n(9,4) above(2), of "inorder r" v]
    show ?thesis
    proof (cases "r = Block_Null")
      case True
      with here[of "length (es b)"] above n(3,4) om show ?thesis by (auto simp: front_key back_key count)
    next
      case False
      from Block_Node.IH(2)[OF n(2,6) len(2)] show ?thesis
      proof (cases rule: yields_cases)
        case missing
        with False above n(3,4) om show ?thesis by (simp add: front_key back_key)
      next
        case (found nr)
        have "length (inorder l) + length (es b) + length (inorder nr) \<le> 4294967295"
          using om_insert_length[OF found(2)] Block_Node.prems(3) by simp
        from norm[OF n(1) found(3) this] False above n(3,4) om found c(1) show ?thesis
          by (auto simp: front_key back_key)
      qed
    qed
  next
    case inside
    note om = om_middle(2)[OF n(10,4) inside, of v] and pos = inside_block[OF n(3,7), of k]
    show ?thesis
    proof (cases "same lt k (es b) = []")
      case True
      with here[OF pos(2)] inside n(3,4) om pos(1,3) pos(4)[OF True, of v] show ?thesis
        by (auto simp: front_key back_key)
    next
      case False
      then have "om_insert lt (es b) k v = None" by (simp add: om_insert_def split: list.split)
      with False inside n(3,4) om pos(1,3) show ?thesis by (simp add: front_key back_key)
    qed
  qed
qed

lemma UpdateNode_correct:
  assumes "avl t" "sorted_entries lt (inorder t)"
  shows "updates (BlockTree_UpdateNode B lt t k v) (om_update lt (inorder t) k v) \<and>
    (\<forall>t'. BlockTree_UpdateNode B lt t k v = Inr (Some t') \<longrightarrow> BlockTree_Height t' = BlockTree_Height t)"
  using assms
proof (induction t)
  case (Block_Node b l r s h)
  note n = at_node[OF Block_Node.prems]
  obtain c where c: "bo_copy B b = Inr c" "ok c" "es c = es b" by (rule copy_obtain[OF n(3)])
  have near: "\<bar>BlockTree_Height l - BlockTree_Height r\<bar> \<le> 1"
      "BlockTree_Height (Block_Node b l r s h) = 1 + max (BlockTree_Height l) (BlockTree_Height r)"
    using Block_Node.prems(1) by simp_all
  have make: "\<exists>t'. BlockTree_MakeBalanced B c l' r' = Inr t' \<and> avl t' \<and> inorder t' = inorder l' @ es b @ inorder r' \<and>
      BlockTree_Height t' = BlockTree_Height (Block_Node b l r s h)"
    if "avl l'" "avl r'" "BlockTree_Height l' = BlockTree_Height l" "BlockTree_Height r' = BlockTree_Height r"
      "length (inorder l') = length (inorder l)" "length (inorder r') = length (inorder r)" for l' r'
  proof -
    note lr = that
    obtain t' where "BlockTree_MakeBalanced B c l' r' = Inr t'" "b_balanced ok es l' (es c) r' t'"
      by (rule MakeBalanced_correct[OF lr(1,2) c(2)])
        (use n(4) c(3) near(1) lr b_inorder_le[OF Block_Node.prems(1)] in simp_all)
    with near lr(3,4) c(3) show ?thesis by (auto simp: b_balanced_def)
  qed
  consider (below) "lt k (fst (hd (es b)))" | (above) "\<not> lt k (fst (hd (es b)))" "lt (fst (last (es b))) k"
    | (inside) "\<not> lt k (fst (hd (es b)))" "\<not> lt (fst (last (es b))) k" by blast
  then show ?case
  proof cases
    case below
    note om = om_left(3)[OF n(8,4) below, of "inorder l" v]
    have IH: "updates (BlockTree_UpdateNode B lt l k v) (om_update lt (inorder l) k v)"
      using Block_Node.IH(1)[OF n(1,5)] by blast
    then show ?thesis
    proof (cases rule: yields_cases)
      case missing
      with below n(3,4) om show ?thesis by (simp add: front_key)
    next
      case (found nl)
      have "BlockTree_Height nl = BlockTree_Height l" using Block_Node.IH(1)[OF n(1,5)] found(1) by blast
      from make[OF found(3) n(2) this refl om_update_length[OF n(5) found(2)] refl] below n(3,4) om found c(1)
      show ?thesis by (auto simp: front_key)
    qed
  next
    case above
    note om = om_right(3)[OF n(9,4) above(2), of "inorder r" v]
    have IH: "updates (BlockTree_UpdateNode B lt r k v) (om_update lt (inorder r) k v)"
      using Block_Node.IH(2)[OF n(2,6)] by blast
    then show ?thesis
    proof (cases rule: yields_cases)
      case missing
      with above n(3,4) om show ?thesis by (simp add: front_key back_key)
    next
      case (found nr)
      have "BlockTree_Height nr = BlockTree_Height r" using Block_Node.IH(2)[OF n(2,6)] found(1) by blast
      from make[OF n(1) found(3) refl this refl om_update_length[OF n(6) found(2)]] above n(3,4) om found c(1)
      show ?thesis by (auto simp: front_key back_key)
    qed
  next
    case inside
    note om = om_middle(3)[OF n(10,4) inside, of v] and pos = inside_block[OF n(3,7), of k]
    show ?thesis
    proof (cases "same lt k (es b) = []")
      case True
      then have "om_update lt (es b) k v = None" by (simp add: om_update_def)
      with True inside n(3,4) om pos(1,3) show ?thesis by (simp add: front_key back_key)
    next
      case False
      note p = pos(5)[OF False, of v]
      have "length (lowers lt k (es b)) < length (es b)" using p by blast
      from UpdateInNodeBlock_correct[OF Block_Node.prems(1) this, of v] False inside n(3,4) om pos(1,3) p
      show ?thesis by (auto simp: front_key back_key)
    qed
  qed
qed simp

lemma EraseNode_correct:
  assumes "avl t" "sorted_entries lt (inorder t)"
  shows "updates (BlockTree_EraseNode B lt t k) (om_erase lt (inorder t) k)"
  using assms
proof (induction t)
  case (Block_Node b l r s h)
  note n = at_node[OF Block_Node.prems]
  have total: "length (inorder l) + length (es b) + length (inorder r) \<le> 4294967295"
    using b_inorder_le[OF Block_Node.prems(1)] by simp
  obtain c where c: "bo_copy B b = Inr c" "ok c" "es c = es b" by (rule copy_obtain[OF n(3)])
  have norm: "\<exists>t'. BlockTree_NormalizeNode B c l' r' = Inr t' \<and> avl t' \<and> inorder t' = inorder l' @ es b @ inorder r'"
    if "avl l'" "avl r'" "length (inorder l') + length (es b) + length (inorder r') \<le> 4294967295" for l' r'
    using NormalizeNode_correct[OF that(1,2) c(2)] n(4) c(3) that(3) by auto
  consider (below) "lt k (fst (hd (es b)))" | (above) "\<not> lt k (fst (hd (es b)))" "lt (fst (last (es b))) k"
    | (inside) "\<not> lt k (fst (hd (es b)))" "\<not> lt (fst (last (es b))) k" by blast
  then show ?case
  proof cases
    case below
    note om = om_left(4)[OF n(8,4) below, of "inorder l"]
    from Block_Node.IH(1)[OF n(1,5)] show ?thesis
    proof (cases rule: yields_cases)
      case missing
      with below n(3,4) om show ?thesis by (simp add: front_key)
    next
      case (found nl)
      have "length (inorder nl) + length (es b) + length (inorder r) \<le> 4294967295"
        using om_erase_length[OF n(5) found(2)] total by simp
      from norm[OF found(3) n(2) this] below n(3,4) om found c(1) show ?thesis by (auto simp: front_key)
    qed
  next
    case above
    note om = om_right(4)[OF n(9,4) above(2), of "inorder r"]
    from Block_Node.IH(2)[OF n(2,6)] show ?thesis
    proof (cases rule: yields_cases)
      case missing
      with above n(3,4) om show ?thesis by (simp add: front_key back_key)
    next
      case (found nr)
      have "length (inorder l) + length (es b) + length (inorder nr) \<le> 4294967295"
        using om_erase_length[OF n(6) found(2)] total by simp
      from norm[OF n(1) found(3) this] above n(3,4) om found c(1) show ?thesis by (auto simp: front_key back_key)
    qed
  next
    case inside
    note om = om_middle(4)[OF n(10,4) inside] and pos = inside_block[OF n(3,7), of k]
    show ?thesis
    proof (cases "same lt k (es b) = []")
      case True
      then have "om_erase lt (es b) k = None" by (simp add: om_erase_def)
      with True inside n(3,4) om pos(1,3) show ?thesis by (simp add: front_key back_key)
    next
      case False
      let ?n = "length (lowers lt k (es b))"
      have p: "?n < length (es b)" "om_erase lt (es b) k = Some (take ?n (es b) @ drop (Suc ?n) (es b))"
        using pos(5)[OF False] by blast+
      have start: "BlockTree_EraseNode B lt (Block_Node b l r s h) k =
          (if bo_count B b > 1 then
             bindE (bo_with_erased B b ?n) (\<lambda>block. bindE (BlockTree_NormalizeNode B block l r) (\<lambda>n. Inr (Some n)))
           else if l = Block_Null then Inr (Some r) else if r = Block_Null then Inr (Some l)
           else bindE (bindE (BlockTree_FindMin r) BlockTree_block) (\<lambda>succ_block.
             bindE (BlockTree_EraseMinNode B r) (\<lambda>new_right.
             bindE (bo_copy B succ_block) (\<lambda>block.
             bindE (BlockTree_NormalizeNode B block l new_right) (\<lambda>n. Inr (Some n))))))"
        using False inside n(3,4) pos(1,3) by (simp add: front_key back_key)
      show ?thesis
      proof (cases "length (es b) > 1")
        case True
        obtain d where d: "bo_with_erased B b ?n = Inr d" "ok d" "es d = take ?n (es b) @ drop (Suc ?n) (es b)"
          using with_erased[OF n(3) p(1)] by (auto simp: holds_def)
        have "es d \<noteq> []" "length (inorder l) + length (es d) + length (inorder r) \<le> 4294967295"
          using True p(1) total d(3) by auto
        from NormalizeNode_correct[OF n(1,2) d(2) this] True d(1,3) om p(2) show ?thesis
          unfolding start by (auto simp: count[OF n(3)])
      next
        case False
        then have one: "length (es b) = 1" "?n = 0" using n(4) p(1) by (cases "es b"; simp)+
        then have gone: "om_erase lt (es b) k = Some []" using p(2) by (cases "es b") auto
        show ?thesis
        proof (cases "l = Block_Null \<or> r = Block_Null")
          case True
          with one(1) om gone n(1,2) show ?thesis unfolding start by (auto simp: count[OF n(3)])
        next
          case both: False
          then have "r \<noteq> Block_Null" by simp
          obtain r' m where r': "BlockTree_EraseMinNode B r = Inr r'" "avl r'"
              "bindE (BlockTree_FindMin r) BlockTree_block = Inr m" "inorder r = es m @ inorder r'"
            using EraseMin_correct[OF n(2) \<open>r \<noteq> Block_Null\<close>] by blast
          obtain m' where "bindE (BlockTree_FindMin r) BlockTree_block = Inr m'" "ok m'" "es m' \<noteq> []"
            by (rule FindMin_correct[OF n(2) \<open>r \<noteq> Block_Null\<close>])
          with r'(3) have m: "ok m" "es m \<noteq> []" by simp_all
          obtain d where d: "bo_copy B m = Inr d" "ok d" "es d = es m" by (rule copy_obtain[OF m(1)])
          have "es d \<noteq> []" "length (inorder l) + length (es d) + length (inorder r') \<le> 4294967295"
            using m(2) d(3) total r'(4) by simp_all
          from NormalizeNode_correct[OF n(1) r'(2) d(2) this] both one(1) r' d(1,3) om gone show ?thesis
            unfolding start by (auto simp: count[OF n(3)] simp del: bindE_eq_Inr)
        qed
      qed
    qed
  qed
qed simp

lemma SetNode_correct:
  assumes "avl t" "sorted_entries lt (inorder t)" "length (inorder t) < 4294967295"
  shows "\<exists>t'. BlockTree_SetNode B lt t k v = Inr t' \<and> avl t' \<and> inorder t' = om_set lt (inorder t) k v"
  using assms
proof (induction t)
  case Block_Null
  obtain b where b: "bo_from_sorted B [(k, v)] = Inr b" "ok b" "es b = [(k, v)]"
    using from_one by (auto simp: holds_def)
  have f: "b_fits (length (es b)) Block_Null (Block_Null :: 'b block_ptr)" by (simp add: b_fits_def b)
  then show ?case
    using b MakeNode_fits[OF b(2) f] b_avl_mk[where es = es and ok = ok, OF f] b_mk_fields(4)[where es = es, OF f]
    by simp
next
  case (Block_Node b l r s h)
  note n = at_node[OF Block_Node.prems(1,2)]
  obtain c where c: "bo_copy B b = Inr c" "ok c" "es c = es b" by (rule copy_obtain[OF n(3)])
  note here = InsertInNodeBlock_correct[OF Block_Node.prems(1) _ Block_Node.prems(3), of _ k v]
  have len: "length (inorder l) < 4294967295" "length (inorder r) < 4294967295"
    using Block_Node.prems(3) by simp_all
  have norm: "\<exists>t'. BlockTree_NormalizeNode B c l' r' = Inr t' \<and> avl t' \<and> inorder t' = inorder l' @ es b @ inorder r'"
    if "avl l'" "avl r'" "length (inorder l') + length (es b) + length (inorder r') \<le> 4294967295" for l' r'
    using NormalizeNode_correct[OF that(1,2) c(2)] n(4) c(3) that(3) by auto
  consider (below) "lt k (fst (hd (es b)))" | (above) "\<not> lt k (fst (hd (es b)))" "lt (fst (last (es b))) k"
    | (inside) "\<not> lt k (fst (hd (es b)))" "\<not> lt (fst (last (es b))) k" by blast
  then show ?case
  proof cases
    case below
    note om = om_left(5)[OF n(8,4) below, of "inorder l" v]
    show ?thesis
    proof (cases "l = Block_Null")
      case True
      with here[of 0] below n(3,4) om show ?thesis by (auto simp: front_key)
    next
      case False
      obtain nl where nl: "BlockTree_SetNode B lt l k v = Inr nl" "avl nl" "inorder nl = om_set lt (inorder l) k v"
        using Block_Node.IH(1)[OF n(1,5) len(1)] by blast
      have "length (inorder nl) + length (es b) + length (inorder r) \<le> 4294967295"
        using om_set_length[OF n(5), of k v] nl(3) Block_Node.prems(3) by simp
      from norm[OF nl(2) n(2) this] False below n(3,4) om nl c(1) show ?thesis by (auto simp: front_key)
    qed
  next
    case above
    note om = om_right(5)[OF n(9,4) above(2), of "inorder r" v]
    show ?thesis
    proof (cases "r = Block_Null")
      case True
      with here[of "length (es b)"] above n(3,4) om show ?thesis by (auto simp: front_key back_key count)
    next
      case False
      obtain nr where nr: "BlockTree_SetNode B lt r k v = Inr nr" "avl nr" "inorder nr = om_set lt (inorder r) k v"
        using Block_Node.IH(2)[OF n(2,6) len(2)] by blast
      have "length (inorder l) + length (es b) + length (inorder nr) \<le> 4294967295"
        using om_set_length[OF n(6), of k v] nr(3) Block_Node.prems(3) by simp
      from norm[OF n(1) nr(2) this] False above n(3,4) om nr c(1) show ?thesis by (auto simp: front_key back_key)
    qed
  next
    case inside
    note om = om_middle(5)[OF n(10,4) inside, of v] and pos = inside_block[OF n(3,7), of k]
    show ?thesis
    proof (cases "same lt k (es b) = []")
      case True
      then have "om_set lt (es b) k v = take (length (lowers lt k (es b))) (es b) @ (k, v) # drop (length (lowers lt k (es b))) (es b)"
        using pos(4)[OF True, of v] by (simp add: om_set_def om_update_def om_insert_def)
      with here[OF pos(2)] True inside n(3,4) om pos(1,3) show ?thesis by (auto simp: front_key back_key)
    next
      case False
      note p = pos(5)[OF False, of v]
      have "length (lowers lt k (es b)) < length (es b)" using p by blast
      from UpdateInNodeBlock_correct[OF Block_Node.prems(1) this, of v] False inside n(3,4) om pos(1,3) p
      show ?thesis by (auto simp: front_key back_key om_set_def)
    qed
  qed
qed

section \<open>Iteration\<close>

lemma AppendInOrder_correct: "avl t \<Longrightarrow> BlockTree_AppendInOrder B t out = Inr (out @ inorder t)"
  by (induction t arbitrary: out) (simp_all add: append_to)

lemma ForEachInBlock_correct:
  assumes "ok b"
  shows "BlockTree_ForEachInBlock B b fn st = Inr (fold (\<lambda>(k, v). fn k v) (es b) st)"
proof -
  have "foldE (\<lambda>st i. bindE (bo_key_at B b i) (\<lambda>key. bindE (bo_value_at B b i) (\<lambda>value. Inr (fn key value st)))) st is
      = Inr (fold (\<lambda>(k, v). fn k v) (map ((!) (es b)) is) st)" if "\<forall>i \<in> set is. i < length (es b)" for "is" st
    using that by (induction "is" arbitrary: st) (simp_all add: key_at[OF assms] value_at[OF assms] case_prod_beta)
  from this[of "[0..<length (es b)]"] show ?thesis
    by (simp add: BlockTree_ForEachInBlock_def count[OF assms] map_nth)
qed

lemma ForEach_correct: "avl t \<Longrightarrow> BlockTree_ForEachInOrder B t fn st = Inr (fold (\<lambda>(k, v). fn k v) (inorder t) st)"
  by (induction t arbitrary: st) (simp_all add: ForEachInBlock_correct)

lemma ForEachInBlockUntil_correct:
  assumes "ok b"
  shows "BlockTree_ForEachInBlockUntil B b fn st = Inr (walk_until fn (es b) st)"
proof -
  let ?step = "\<lambda>(going, st) i. if \<not> going then Inr (False, st)
      else bindE (bo_key_at B b i) (\<lambda>key. bindE (bo_value_at B b i) (\<lambda>value. Inr (fn key value st)))"
  have stopped: "foldE ?step (False, st) is = Inr (False, st)" for "is" st
    by (induction "is") simp_all
  have "foldE ?step (True, st) is = Inr (walk_until fn (map ((!) (es b)) is) st)"
    if "\<forall>i \<in> set is. i < length (es b)" for "is" st
    using that
  proof (induction "is" arbitrary: st)
    case (Cons i js)
    obtain k v where kv: "es b ! i = (k, v)" by fastforce
    have "i < length (es b)" "\<forall>i \<in> set js. i < length (es b)" using Cons.prems by simp_all
    with Cons.IH kv show ?case
      by (cases "fn k v st"; cases "fst (fn k v st)") (simp_all add: key_at[OF assms] value_at[OF assms] stopped)
  qed simp
  from this[of "[0..<length (es b)]"] show ?thesis
    by (simp add: BlockTree_ForEachInBlockUntil_def count[OF assms] map_nth)
qed

lemma ForEachUntil_correct: "avl t \<Longrightarrow> BlockTree_ForEachInOrderUntil B t fn st = Inr (walk_until fn (inorder t) st)"
proof (induction t arbitrary: st)
  case (Block_Node b l r s h)
  then show ?case by (auto simp: walk_until_append ForEachInBlockUntil_correct split: prod.split)
qed simp

section \<open>Bulk construction\<close>

lemma ValidateSorted_iff:
  "BlockTree_ValidateSortedUniqueEntries xs lt = Inr () \<longleftrightarrow> sorted_entries lt xs"
proof -
  have "BlockTree_ValidateSortedUniqueEntries xs lt = Inr () \<longleftrightarrow>
      (\<forall>i \<in> {1..<length xs}. lt (fst (xs ! (i - 1))) (fst (xs ! i)))"
    unfolding BlockTree_ValidateSortedUniqueEntries_def foldE_unit_Inr by auto
  then show ?thesis by (simp only: adjacent_sorted)
qed

lemma BuildBalanced_correct:
  assumes "begn \<le> en" "en \<le> length bs" "\<And>b. b \<in> set bs \<Longrightarrow> ok b \<and> es b \<noteq> []"
    and "length (concat (map es bs)) \<le> 4294967295"
  shows "\<exists>t. BlockTree_BuildBalancedFromBlocks B bs begn en = Inr t \<and> avl t \<and>
     inorder t = concat (map es (take (en - begn) (drop begn bs))) \<and>
     BlockTree_Height t = int (bulk_height (en - begn))"
  using assms(1,2)
proof (induction "en - begn" arbitrary: begn en rule: less_induct)
  case less
  show ?case
  proof (cases "begn = en")
    case True
    then show ?thesis by (simp add: BlockTree_BuildBalancedFromBlocks.simps[of B bs en en] bulk_height.simps[of 0])
  next
    case False
    define n where "n = en - begn"
    define middle where "middle = begn + n div 2"
    have n: "0 < n" "middle - begn = n div 2" "en - (middle + 1) = n - n div 2 - 1"
        "middle < en" "begn \<le> middle" "middle \<le> length bs" "middle + 1 \<le> en"
      using False less(2,3) by (auto simp: n_def middle_def)
    have sm: "en - (middle + 1) < en - begn" using n(1,3,5,7) by (simp add: n_def)
    obtain l where l: "BlockTree_BuildBalancedFromBlocks B bs begn middle = Inr l" "avl l"
        "inorder l = concat (map es (take (n div 2) (drop begn bs)))" "BlockTree_Height l = int (bulk_height (n div 2))"
      using less(1)[of middle begn] n less(3) by (auto simp: n_def)
    obtain r where r: "BlockTree_BuildBalancedFromBlocks B bs (middle + 1) en = Inr r" "avl r"
        "inorder r = concat (map es (take (n - n div 2 - 1) (drop (middle + 1) bs)))"
        "BlockTree_Height r = int (bulk_height (n - n div 2 - 1))"
      using less(1)[OF sm n(7) less(3)] n(3) by auto
    have part: "take n (drop begn bs) = take (n div 2) (drop begn bs) @ bs ! middle # take (n - n div 2 - 1) (drop (middle + 1) bs)"
    proof -
      have "drop begn bs ! (n div 2) = bs ! middle" using less(2,3) n by (simp add: middle_def)
      moreover have "n div 2 < length (take n (drop begn bs))" using n(1) less(2,3) by (auto simp: n_def)
      ultimately show ?thesis
        using id_take_nth_drop[of "n div 2" "take n (drop begn bs)"] n(1)
        by (simp add: drop_take middle_def add.commute min_def)
    qed
    have b: "ok (bs ! middle)" "es (bs ! middle) \<noteq> []" using assms(3) n(4) less(3) nth_mem by fastforce+
    have "length (concat (map es (take n (drop begn bs)))) \<le> length (concat (map es bs))"
      by (rule concat_slice_le)
    then have "length (es (bs ! middle)) + length (inorder l) + length (inorder r) \<le> 4294967295"
      using assms(4) unfolding part l(3) r(3) by simp
    then have f: "b_fits (length (es (bs ! middle))) l r" by (rule b_fits_avl[OF l(2) r(2)])
    have "BlockTree_BuildBalancedFromBlocks B bs begn en = Inr (b_mk es (bs ! middle) l r)"
      using False less(2,3) l(1) r(1) n(4) MakeNode_fits[OF b(1) f]
      by (subst BlockTree_BuildBalancedFromBlocks.simps) (simp add: middle_def n_def Let_def)
    moreover have "BlockTree_Height (b_mk es (bs ! middle) l r) = int (bulk_height n)" "avl (b_mk es (bs ! middle) l r)"
      using n(1) bulk_height_halves[OF n(1)] l r b f
      by (simp_all add: b_mk_fields[where es = es, OF f] b_avl_mk bulk_height.simps[of n])
    ultimately show ?thesis
      using part l(3) r(3) by (simp add: n_def b_mk_fields(4)[where es = es, OF f])
  qed
qed

end

section \<open>The tree object meets the contract of the containers\<close>

definition BlockTree_ok ::
    "('k \<Rightarrow> 'k \<Rightarrow> bool) \<Rightarrow> ('b \<Rightarrow> bool) \<Rightarrow> ('b \<Rightarrow> ('k \<times> 'v) list) \<Rightarrow> ('k, 'b) immutable_block_tree \<Rightarrow> bool" where
  "BlockTree_ok lt ok es t \<longleftrightarrow> bt_comp t = lt \<and> b_avl ok es (bt_root t) \<and> sorted_entries lt (b_inorder es (bt_root t))"

definition BlockTree_entries :: "('b \<Rightarrow> ('k \<times> 'v) list) \<Rightarrow> ('k, 'b) immutable_block_tree \<Rightarrow> ('k \<times> 'v) list" where
  "BlockTree_entries es t = b_inorder es (bt_root t)"

lemmas block_tree_obj = BlockTree_ok_def BlockTree_entries_def

lemma wrapped_yields:
  assumes "yields (b_avl ok es) (b_inorder es) m ys" and "\<And>zs. ys = Some zs \<Longrightarrow> sorted_entries lt zs"
  shows "yields (BlockTree_ok lt ok es) (BlockTree_entries es)
    (bindE m (\<lambda>new_root. case new_root of None \<Rightarrow> Inr None | Some n \<Rightarrow> Inr (Some \<lparr>bt_root = n, bt_comp = lt\<rparr>))) ys"
  using assms(1) by (cases rule: yields_cases) (use assms(2) in \<open>auto simp: block_tree_obj\<close>)

context block_tree
begin

abbreviation "obj_ok \<equiv> BlockTree_ok lt ok es"
abbreviation "obj_entries \<equiv> BlockTree_entries es"

lemma obj_updates:
  assumes "obj_ok t"
  shows "length (obj_entries t) < max_entries \<Longrightarrow>
      yields obj_ok obj_entries (ImmutableBlockTree_Insert B t k v) (om_insert lt (obj_entries t) k v)"
    and "yields obj_ok obj_entries (ImmutableBlockTree_Update B t k v) (om_update lt (obj_entries t) k v)"
    and "yields obj_ok obj_entries (ImmutableBlockTree_Erase B t k) (om_erase lt (obj_entries t) k)"
proof -
  have t: "bt_comp t = lt" "avl (bt_root t)" "sorted_entries lt (inorder (bt_root t))"
    using assms by (simp_all add: block_tree_obj)
  show "yields obj_ok obj_entries (ImmutableBlockTree_Insert B t k v) (om_insert lt (obj_entries t) k v)"
    if "length (obj_entries t) < max_entries"
    using wrapped_yields[OF InsertNode_correct[OF t(2,3)], of k v lt] sorted_om_insert[OF t(3)] that
    by (simp add: ImmutableBlockTree_Insert_def t(1) BlockTree_entries_def max_entries_def cong: option.case_cong)
  show "yields obj_ok obj_entries (ImmutableBlockTree_Update B t k v) (om_update lt (obj_entries t) k v)"
    using wrapped_yields[OF conjunct1[OF UpdateNode_correct[OF t(2,3)]], of k v lt] sorted_om_update[OF t(3)]
    by (simp add: ImmutableBlockTree_Update_def t(1) BlockTree_entries_def cong: option.case_cong)
  show "yields obj_ok obj_entries (ImmutableBlockTree_Erase B t k) (om_erase lt (obj_entries t) k)"
    using wrapped_yields[OF EraseNode_correct[OF t(2,3)], of k lt] sorted_om_erase[OF t(3)]
    by (simp add: ImmutableBlockTree_Erase_def t(1) BlockTree_entries_def cong: option.case_cong)
qed

lemma obj_set:
  assumes "obj_ok t" "length (obj_entries t) < max_entries"
  shows "\<exists>t'. ImmutableBlockTree_Set B t k v = Inr t' \<and> obj_ok t' \<and> obj_entries t' = om_set lt (obj_entries t) k v"
  using assms SetNode_correct[of "bt_root t" k v] sorted_om_set[of "inorder (bt_root t)" k v]
  by (auto simp: ImmutableBlockTree_Set_def block_tree_obj max_entries_def)

lemma obj_from_sorted:
  assumes "sorted_entries lt xs" "length xs \<le> max_entries"
  shows "\<exists>t. ImmutableBlockTree_FromSortedUniqueEntries B xs lt = Inr t \<and> obj_ok t \<and> obj_entries t = xs"
proof -
  obtain bs where bs: "bo_pack B xs = Inr bs" "\<And>b. b \<in> set bs \<Longrightarrow> ok b \<and> es b \<noteq> []" "concat (map es bs) = xs"
    by (rule holds_allE[OF pack]) blast
  from BuildBalanced_correct[of 0 "length bs" bs] bs(2,3) assms(2) obtain r where
    "BlockTree_BuildBalancedFromBlocks B bs 0 (length bs) = Inr r" "avl r" "inorder r = xs"
    by (auto simp: max_entries_def)
  with bs(1) assms(1) ValidateSorted_iff[of xs] show ?thesis
    by (auto simp: ImmutableBlockTree_FromSortedUniqueEntries_def block_tree_obj)
qed

lemma obj_from_unsorted:
  assumes "\<not> sorted_entries lt xs"
  shows "ImmutableBlockTree_FromSortedUniqueEntries B xs lt =
    Inl (Invalid_Argument ''ImmutableBlockTree entries must be sorted and unique'')"
proof (cases "BlockTree_ValidateSortedUniqueEntries xs lt")
  case (Inl e)
  then have "e = Invalid_Argument ''ImmutableBlockTree entries must be sorted and unique''"
    by (simp add: BlockTree_ValidateSortedUniqueEntries_def foldE_unit_Inl)
  with Inl show ?thesis by (simp add: ImmutableBlockTree_FromSortedUniqueEntries_def)
next
  case (Inr u)
  then show ?thesis using assms ValidateSorted_iff[of xs] by simp
qed

end

sublocale block_tree < tree: ordered_tree lt "ImmutableBlockTree_ops B" "BlockTree_ok lt ok es" "BlockTree_entries es"
proof (unfold_locales, goal_cases)
  case (5 t)
  then show ?case by (auto simp: ImmutableBlockTree_ops_def ImmutableBlockTree_Empty_def block_tree_obj split: block_ptr.split)
next
  case (7 t)
  then show ?case
    using b_avl_height_size[of ok es "bt_root t"] BlockTree_Size_inorder[of ok es "bt_root t"]
    by (simp add: ImmutableBlockTree_ops_def block_tree_obj)
next
  case (13 t k v)
  then show ?case using obj_set[of t k v] by (simp add: ImmutableBlockTree_ops_def)
qed (simp_all add: ImmutableBlockTree_ops_def obj_updates obj_from_sorted obj_from_unsorted,
    simp_all add: block_tree_obj BlockTree_Size_inorder[of ok es] ImmutableBlockTree_empty_def
      ImmutableBlockTree_Contains_def Find_correct BlockTree_ToVector_def AppendInOrder_correct
      ForEach_correct ForEachUntil_correct)

section \<open>The validation helper accepts exactly the well-formed trees\<close>

context block_tree
begin

text \<open>Strict bounds on the keys of a subtree.\<close>

lemma ValidateInvariants_correct:
  assumes "avl t" "sorted_entries lt (inorder t)"
    and "\<And>m. lo = Some m \<Longrightarrow> \<forall>e \<in> set (inorder t). lt m (fst e)"
    and "\<And>m. hi = Some m \<Longrightarrow> \<forall>e \<in> set (inorder t). lt (fst e) m"
  shows "BlockTree_ValidateInvariants B lt t lo hi =
    Inr \<lparr>dv_valid = True, dv_height = BlockTree_Height t, dv_size = BlockTree_Size t\<rparr>"
  using assms
proof (induction t arbitrary: lo hi)
  case (Block_Node b l r s h)
  note n = at_node[OF Block_Node.prems(1,2)]
  have ends: "hd (es b) \<in> set (es b)" "last (es b) \<in> set (es b)" using n(4) by simp_all
  have L: "BlockTree_ValidateInvariants B lt l lo (Some (fst (hd (es b)))) =
      Inr \<lparr>dv_valid = True, dv_height = BlockTree_Height l, dv_size = BlockTree_Size l\<rparr>"
    by (rule Block_Node.IH(1)[OF n(1,5)]) (use Block_Node.prems(3) n(9) ends in auto)
  have R: "BlockTree_ValidateInvariants B lt r (Some (fst (last (es b)))) hi =
      Inr \<lparr>dv_valid = True, dv_height = BlockTree_Height r, dv_size = BlockTree_Size r\<rparr>"
    by (rule Block_Node.IH(2)[OF n(2,6)]) (use Block_Node.prems(4) n(8) ends in auto)
  let ?step = "\<lambda>valid index. bindE (BlockTree_BlockKeyAt B b (index - 1)) (\<lambda>previous.
      bindE (BlockTree_BlockKeyAt B b index) (\<lambda>current. Inr (if \<not> lt previous current then False else valid)))"
  have loop: "foldE ?step True is = Inr True" if "set is \<subseteq> {1..<length (es b)}" for "is"
    using that
  proof (induction "is")
    case (Cons i js)
    then have i: "i < length (es b)" "i - 1 < length (es b)" "i - 1 < i" by auto
    have "lt (fst (es b ! (i - 1))) (fst (es b ! i))"
      using n(7) i unfolding sorted_entries_def by (intro sorted_wrt_nth_less[of "\<lambda>x y. lt (fst x) (fst y)"])
    with Cons i show ?case by (simp add: BlockTree_BlockKeyAt_def key_at[OF n(3)])
  qed simp
  have bounds: "(case lo of None \<Rightarrow> True | Some m \<Rightarrow> lt m (fst (hd (es b)))) \<and>
      (case hi of None \<Rightarrow> True | Some m \<Rightarrow> lt (fst (last (es b))) m)"
    using Block_Node.prems(3,4) ends by (auto split: option.split)
  have "length (es b) \<noteq> 0" using n(4) by simp
  with L R loop[of "[1..<length (es b)]"] bounds n(3,4) Block_Node.prems(1) show ?case
    by (simp add: front_key back_key count Let_def del: One_nat_def) auto
qed simp

end

lemma block_tree_ZipList:
  assumes "strict_weak_order lt"
  shows "block_tree lt (ZipList_ops (ZipList_ComputeCapacity target_bytes entry_bytes))
    (ZipList_ok (ZipList_ComputeCapacity target_bytes entry_bytes)) ZipList_list"
  using assms zip_block_ZipList[OF ComputeCapacity_pos] by (simp add: block_tree_def)

interpretation zlt: block_tree "(<) :: 'k::linorder \<Rightarrow> 'k \<Rightarrow> bool"
    "ZipList_ops (ZipList_ComputeCapacity target_bytes entry_bytes)"
    "ZipList_ok (ZipList_ComputeCapacity target_bytes entry_bytes)" ZipList_list
  by (rule block_tree_ZipList) unfold_locales

end
