(* ===== verification/Packed_Text.thy ===== *)
theory Packed_Text
  imports Cpp_Prelude "HOL-Library.Char_ord" "HOL-Library.List_Lexorder"
begin

text \<open>
  The value of a \<open>PackedString\<close>: at most \<open>2 ^ 32 - 1\<close> bytes, since every constructor that takes
  bytes refuses more with \<open>length_error\<close>.  Bytes are \<open>char\<close>s, ordered by their unsigned value as
  \<open>memcmp\<close> orders them.  The order \<open>operator<\<close> of the class makes the type a \<open>linorder\<close>.  The
  theory \<open>Packed_String\<close> has the representation of these values in memory.
\<close>

section \<open>The bytes of a packed string\<close>

(* packed_string.h:101-102 kMaxLongSize *)
definition kMaxLongSize :: nat where
  "kMaxLongSize = 4294967295"

(* packed_string.h:100-100 kInlineCapacity *)
definition kInlineCapacity :: nat where
  "kInlineCapacity = 14"

typedef packed_text = "{s :: string. length s \<le> kMaxLongSize}"
  morphisms bytes_of Packed_Text
  by (rule exI[of _ "[]"]) simp

setup_lifting type_definition_packed_text

lemma bytes_of_le [simp]: "length (bytes_of t) \<le> kMaxLongSize"
  using bytes_of[of t] by simp

lemma bytes_of_Packed [simp]: "length s \<le> kMaxLongSize \<Longrightarrow> bytes_of (Packed_Text s) = s"
  by (simp add: Packed_Text_inverse)

lemma packed_text_eqI: "bytes_of s = bytes_of t \<Longrightarrow> s = t"
  by (simp add: bytes_of_inject)

(* packed_string.h:55-57 Size *)
definition text_size :: "packed_text \<Rightarrow> nat" where
  "text_size t = length (bytes_of t)"

text \<open>The checked construction from bytes.\<close>

(* packed_string.h:136-138 Assign *)
definition PackedText_of :: "string \<Rightarrow> packed_text res" where
  "PackedText_of s =
     (if length s > kMaxLongSize then Inl (Length_Error ''PackedString length exceeds uint32_t max'')
      else Inr (Packed_Text s))"

section \<open>The order\<close>

text \<open>\<open>memcmp\<close> over two buffers of the same length: the sign of the first difference.\<close>

fun memcmp :: "string \<Rightarrow> string \<Rightarrow> int" where
  "memcmp (a # as) (b # bs) =
     (if (of_char a :: nat) < of_char b then -1 else if (of_char b :: nat) < of_char a then 1 else memcmp as bs)"
| "memcmp _ _ = 0"

(* packed_string.h:77-84 operator< *)
definition PackedString_less :: "string \<Rightarrow> string \<Rightarrow> bool" where
  "PackedString_less left right =
     (let shared_size = (if length left < length right then length left else length right);
          compared = memcmp (take shared_size left) (take shared_size right)
      in if compared \<noteq> 0 then compared < 0 else length left < length right)"

text \<open>It is the lexicographic order of the bytes.\<close>

lemma PackedString_less_lex: "PackedString_less s t \<longleftrightarrow> s < t"
proof (induction s arbitrary: t)
  case Nil
  then show ?case by (cases t) (simp_all add: PackedString_less_def)
next
  case (Cons a s)
  show ?case
  proof (cases t)
    case Nil
    then show ?thesis by (simp add: PackedString_less_def)
  next
    case (Cons b t')
    have "PackedString_less (a # s) (b # t') \<longleftrightarrow>
        (if (of_char a :: nat) < of_char b then True else if (of_char b :: nat) < of_char a then False
         else PackedString_less s t')"
      by (auto simp: PackedString_less_def Let_def)
    with Cons.IH[of t'] show ?thesis
      by (auto simp: Cons less_char_def less_eq_char_def order.strict_iff_order)
  qed
qed

instantiation packed_text :: linorder
begin

definition less_packed_text :: "packed_text \<Rightarrow> packed_text \<Rightarrow> bool" where
  "less_packed_text s t = PackedString_less (bytes_of s) (bytes_of t)"

definition less_eq_packed_text :: "packed_text \<Rightarrow> packed_text \<Rightarrow> bool" where
  "less_eq_packed_text s t = (\<not> PackedString_less (bytes_of t) (bytes_of s))"

instance
  by intro_classes
    (auto simp: less_packed_text_def less_eq_packed_text_def PackedString_less_lex bytes_of_inject not_less
      order.strict_iff_order)

end

end
