(* ===== verification/Packed_Fit.thy ===== *)
theory Packed_Fit
  imports Zip_Block Packed_Text "HOL-Library.Multiset"
begin

text \<open>
  What the two specialisations of \<open>ZipList\<close> for \<open>PackedString\<close> keys share word for word: the test
  whether a range of entries fits one block, and the greedy packing of a list into blocks.  \<open>cap\<close>
  is \<open>kCapacity\<close> and \<open>P\<close> is \<open>kPayloadBytes\<close> of the class.  A key longer than the whole payload is
  external: it is stored outside the block, and then it must be the only one.
\<close>

section \<open>The fit test\<close>

(* zip_list.h:801-805 FitSummary *)
record fit_summary =
  fs_count :: nat
  fs_inline_bytes :: nat
  fs_has_external_key :: bool

definition FitSummary_new :: fit_summary where
  "FitSummary_new = \<lparr>fs_count = 0, fs_inline_bytes = 0, fs_has_external_key = False\<rparr>"

(* zip_list.h:780-782 UsesExternalKey *)
definition UsesExternalKey :: "nat \<Rightarrow> packed_text \<Rightarrow> bool" where
  "UsesExternalKey P key \<longleftrightarrow> text_size key > P"

(* zip_list.h:807-815 SummaryFits *)
definition SummaryFits :: "nat \<Rightarrow> nat \<Rightarrow> fit_summary \<Rightarrow> bool" where
  "SummaryFits cap P summary \<longleftrightarrow>
     (if fs_count summary > cap then False
      else if fs_has_external_key summary then fs_count summary = 1
      else fs_inline_bytes summary \<le> P)"

text \<open>\<open>None\<close> is the return value \<open>false\<close>; the callers drop the summary then.\<close>

(* zip_list.h:817-829 AccumulateKey *)
definition AccumulateKey :: "nat \<Rightarrow> nat \<Rightarrow> packed_text \<Rightarrow> fit_summary \<Rightarrow> fit_summary option" where
  "AccumulateKey cap P key summary =
     (let summary = summary\<lparr>fs_count := fs_count summary + 1\<rparr> in
      if UsesExternalKey P key then
        let summary = summary\<lparr>fs_has_external_key := True\<rparr> in
        if SummaryFits cap P summary then Some summary else None
      else let key_bytes = text_size key in
        if key_bytes > P - fs_inline_bytes summary then None
        else let summary = summary\<lparr>fs_inline_bytes := fs_inline_bytes summary + key_bytes\<rparr> in
          if SummaryFits cap P summary then Some summary else None)"

(* zip_list.h:831-840 EntriesFit *)
fun EntriesFit_loop :: "nat \<Rightarrow> nat \<Rightarrow> fit_summary \<Rightarrow> packed_text list \<Rightarrow> bool" where
  "EntriesFit_loop cap P summary [] = True"
| "EntriesFit_loop cap P summary (key # keys) =
     (case AccumulateKey cap P key summary of
        None \<Rightarrow> False
      | Some summary \<Rightarrow> EntriesFit_loop cap P summary keys)"

(* zip_list.h:831-840 EntriesFit *)
definition EntriesFit :: "nat \<Rightarrow> nat \<Rightarrow> (packed_text \<times> 'v) list \<Rightarrow> bool" where
  "EntriesFit cap P entries = EntriesFit_loop cap P FitSummary_new (map fst entries)"

text \<open>The same accumulation over the keys of a block, which are read one at a time.\<close>

(* zip_list.h:469-473 CanInsert *)
definition AccumulateBlockKeys ::
    "nat \<Rightarrow> nat \<Rightarrow> (nat \<Rightarrow> packed_text res) \<Rightarrow> nat \<Rightarrow> fit_summary option \<Rightarrow> fit_summary option res" where
  "AccumulateBlockKeys cap P key_at n start =
     foldE (\<lambda>summary i. case summary of
         None \<Rightarrow> Inr None
       | Some s \<Rightarrow> bindE (key_at i) (\<lambda>key. Inr (AccumulateKey cap P key s))) start [0..<n]"

section \<open>Greedy packing\<close>

text \<open>The inner loop: how far the current block reaches.\<close>

(* zip_list.h:850-853 PackEntriesIntoBlocks *)
function PackBlock_end :: "nat \<Rightarrow> nat \<Rightarrow> (packed_text \<times> 'v) list \<Rightarrow> nat \<Rightarrow> nat \<Rightarrow> nat" where
  "PackBlock_end cap P entries begn en =
     (if en < length entries \<and> EntriesFit cap P (drop begn (take (en + 1) entries))
      then PackBlock_end cap P entries begn (en + 1)
      else en)"
  by pat_completeness auto
termination
  by (relation "measure (\<lambda>(cap, P, entries, begn, en). length entries - en)") auto

declare PackBlock_end.simps [simp del]

lemma PackBlock_end_ge: "en \<le> PackBlock_end cap P entries begn en"
proof (induction cap P entries begn en rule: PackBlock_end.induct)
  case (1 cap P entries begn en)
  then show ?case by (subst PackBlock_end.simps) auto
qed

(* zip_list.h:842-863 PackEntriesIntoBlocks *)
function PackEntriesIntoBlocks_from :: "nat \<Rightarrow> nat \<Rightarrow> ((packed_text \<times> 'v) list \<Rightarrow> 'b res) \<Rightarrow>
    (packed_text \<times> 'v) list \<Rightarrow> nat \<Rightarrow> 'b list \<Rightarrow> 'b list res" where
  "PackEntriesIntoBlocks_from cap P from_sorted entries begn blocks =
     (if begn < length entries then
        if \<not> EntriesFit cap P (drop begn (take (begn + 1) entries))
        then Inl (Logic_Error ''ZipList single entry exceeds packed capacity'')
        else let en = PackBlock_end cap P entries begn (begn + 1);
                 block_entries = drop begn (take en entries)
          in bindE (from_sorted block_entries) (\<lambda>b.
             PackEntriesIntoBlocks_from cap P from_sorted entries en (blocks @ [b]))
      else Inr blocks)"
  by pat_completeness auto
termination
proof (relation "measure (\<lambda>(cap, P, from_sorted, entries, begn, blocks). length entries - begn)", goal_cases)
  case (2 cap P from_sorted entries begn blocks x xa y)
  then show ?case using PackBlock_end_ge[of "begn + 1" cap P entries begn] by simp
qed simp

declare PackEntriesIntoBlocks_from.simps [simp del]

(* zip_list.h:842-863 PackEntriesIntoBlocks *)
definition PackEntriesIntoBlocks :: "nat \<Rightarrow> nat \<Rightarrow> ((packed_text \<times> 'v) list \<Rightarrow> 'b res) \<Rightarrow>
    (packed_text \<times> 'v) list \<Rightarrow> 'b list res" where
  "PackEntriesIntoBlocks cap P from_sorted entries = PackEntriesIntoBlocks_from cap P from_sorted entries 0 []"

section \<open>What fits\<close>

definition inline_bytes :: "nat \<Rightarrow> packed_text \<Rightarrow> nat" where
  "inline_bytes P key = (if UsesExternalKey P key then 0 else text_size key)"

definition keys_fit :: "nat \<Rightarrow> nat \<Rightarrow> packed_text list \<Rightarrow> bool" where
  "keys_fit cap P keys \<longleftrightarrow> length keys \<le> cap \<and> sum_list (map (inline_bytes P) keys) \<le> P \<and>
     ((\<exists>key \<in> set keys. UsesExternalKey P key) \<longrightarrow> length keys = 1)"

definition summary_of :: "nat \<Rightarrow> packed_text list \<Rightarrow> fit_summary" where
  "summary_of P keys = \<lparr>fs_count = length keys, fs_inline_bytes = sum_list (map (inline_bytes P) keys),
     fs_has_external_key = (\<exists>key \<in> set keys. UsesExternalKey P key)\<rparr>"

lemma FitSummary_new_of: "FitSummary_new = summary_of P []"
  by (simp add: FitSummary_new_def summary_of_def)

lemma AccumulateKey_of:
  assumes "keys_fit cap P keys"
  shows "AccumulateKey cap P key (summary_of P keys) =
    (if keys_fit cap P (keys @ [key]) then Some (summary_of P (keys @ [key])) else None)"
  using assms by (auto simp: AccumulateKey_def summary_of_def keys_fit_def SummaryFits_def inline_bytes_def Let_def)

lemma keys_fit_append: "keys_fit cap P (ks @ ls) \<Longrightarrow> keys_fit cap P ks"
  by (cases ks) (auto simp: keys_fit_def)

lemma keys_fit_take: "keys_fit cap P ks \<Longrightarrow> keys_fit cap P (take n ks)"
  by (metis append_take_drop_id keys_fit_append)

lemma keys_fit_subset:
  assumes "keys_fit cap P ks" "mset ls \<subseteq># mset ks"
  shows "keys_fit cap P ls"
proof -
  obtain rs where "mset ks = mset ls + mset rs"
    using assms(2) by (metis ex_mset subset_mset.le_iff_add)
  then have m: "mset ks = mset (ls @ rs)" by simp
  have "sum_list (map (inline_bytes P) ks) = sum_list (map (inline_bytes P) (ls @ rs))"
    using m by (metis mset_map sum_mset_sum_list)
  moreover have len: "length ks = length (ls @ rs)" using m by (rule mset_eq_length)
  moreover have "set ks = set (ls @ rs)" using m by (rule mset_eq_setD)
  moreover have "length ls = 1" if "length ks = 1" "x \<in> set ls" for x
    using that len by (cases ls) auto
  ultimately show ?thesis using assms(1) by (auto simp: keys_fit_def)
qed

lemma EntriesFit_loop_of:
  "keys_fit cap P done_keys \<Longrightarrow>
    EntriesFit_loop cap P (summary_of P done_keys) keys \<longleftrightarrow> keys_fit cap P (done_keys @ keys)"
proof (induction keys arbitrary: done_keys)
  case (Cons key keys)
  show ?case
  proof (cases "keys_fit cap P (done_keys @ [key])")
    case True
    with Cons.IH[OF True] Cons.prems show ?thesis by (simp add: AccumulateKey_of)
  next
    case False
    then have "\<not> keys_fit cap P (done_keys @ key # keys)"
      using keys_fit_append[of cap P "done_keys @ [key]" keys] by auto
    with False Cons.prems show ?thesis by (simp add: AccumulateKey_of)
  qed
qed simp

lemma EntriesFit_iff: "EntriesFit cap P entries \<longleftrightarrow> keys_fit cap P (map fst entries)"
  using EntriesFit_loop_of[of cap P "[]" "map fst entries"]
  by (simp add: EntriesFit_def FitSummary_new_of[of P] keys_fit_def)

lemma AccumulateBlockKeys_of:
  assumes "\<And>i. i < length keys \<Longrightarrow> key_at i = Inr (keys ! i)" "keys_fit cap P done_keys"
  shows "AccumulateBlockKeys cap P key_at (length keys) (Some (summary_of P done_keys)) =
    Inr (if keys_fit cap P (done_keys @ keys) then Some (summary_of P (done_keys @ keys)) else None)"
proof -
  let ?step = "\<lambda>summary i. case summary of None \<Rightarrow> Inr None
    | Some s \<Rightarrow> bindE (key_at i) (\<lambda>key. Inr (AccumulateKey cap P key s))"
  have "foldE ?step (if keys_fit cap P ds then Some (summary_of P ds) else None) is =
      Inr (if keys_fit cap P (ds @ map ((!) keys) is) then Some (summary_of P (ds @ map ((!) keys) is)) else None)"
    if "\<forall>i \<in> set is. i < length keys" for "is" ds
    using that
  proof (induction "is" arbitrary: ds)
    case (Cons i js)
    have step: "?step (if keys_fit cap P ds then Some (summary_of P ds) else None) i =
        Inr (if keys_fit cap P (ds @ [keys ! i]) then Some (summary_of P (ds @ [keys ! i])) else None)"
      using Cons.prems assms(1) keys_fit_append[of cap P ds "[keys ! i]"] by (auto simp: AccumulateKey_of)
    show ?case
      unfolding foldE.simps step using Cons.IH[of "ds @ [keys ! i]"] Cons.prems by simp
  qed simp
  from this[of "[0..<length keys]" done_keys] show ?thesis
    using assms(2) by (simp add: AccumulateBlockKeys_def map_nth)
qed

lemma keys_fit_single: "1 \<le> cap \<Longrightarrow> keys_fit cap P [key]"
  by (auto simp: keys_fit_def inline_bytes_def UsesExternalKey_def)

text \<open>Packing always succeeds when a block can be built from any entries that fit.\<close>

lemma PackBlock_end_fits:
  assumes "begn < en" "en \<le> length entries" "keys_fit cap P (map fst (drop begn (take en entries)))"
  shows "PackBlock_end cap P entries begn en \<le> length entries \<and>
    keys_fit cap P (map fst (drop begn (take (PackBlock_end cap P entries begn en) entries)))"
  using assms
proof (induction cap P entries begn en rule: PackBlock_end.induct)
  case (1 cap P entries begn en)
  then show ?case
    by (subst (1 2) PackBlock_end.simps) (auto simp: EntriesFit_iff)
qed

lemma PackEntries_holds:
  assumes cap: "1 \<le> cap"
    and build: "\<And>xs. keys_fit cap P (map fst xs) \<Longrightarrow> holds ok es (from_sorted xs) xs"
  shows "holds_all ok es (PackEntriesIntoBlocks cap P from_sorted entries) entries"
proof -
  have "\<exists>bs'. PackEntriesIntoBlocks_from cap P from_sorted entries begn bs = Inr bs' \<and>
      (\<forall>b \<in> set bs'. ok b \<and> es b \<noteq> []) \<and> concat (map es bs') = concat (map es bs) @ drop begn entries"
    if "begn \<le> length entries" "\<forall>b \<in> set bs. ok b \<and> es b \<noteq> []" for begn bs
    using that
  proof (induction "length entries - begn" arbitrary: begn bs rule: less_induct)
    case less
    show ?case
    proof (cases "begn < length entries")
      case True
      let ?en = "PackBlock_end cap P entries begn (begn + 1)"
      have one: "keys_fit cap P (map fst (drop begn (take (begn + 1) entries)))"
        using True keys_fit_single[OF cap] by (simp add: take_Suc_conv_app_nth)
      have en: "?en \<le> length entries" "keys_fit cap P (map fst (drop begn (take ?en entries)))" "begn < ?en"
        using PackBlock_end_fits[OF _ _ one] PackBlock_end_ge[of "begn + 1" cap P entries begn] True by auto
      obtain b where b: "from_sorted (drop begn (take ?en entries)) = Inr b" "ok b" "es b = drop begn (take ?en entries)"
        using build[OF en(2)] by (auto simp: holds_def)
      then have "es b \<noteq> []" using en by simp
      have "drop begn (take ?en entries) @ drop ?en entries = drop begn entries"
        using en by (metis append_take_drop_id drop_append length_take min.absorb2 diff_is_0_eq drop0 less_imp_le)
      then show ?thesis
        using less(1)[of ?en "bs @ [b]"] less(3) True en one b \<open>es b \<noteq> []\<close>
        by (subst PackEntriesIntoBlocks_from.simps) (simp add: EntriesFit_iff Let_def)
    next
      case False
      with less show ?thesis by (subst PackEntriesIntoBlocks_from.simps) simp
    qed
  qed
  from this[of 0 "[]"] show ?thesis by (simp add: holds_all_def PackEntriesIntoBlocks_def)
qed

end
