(* ===== verification/Zip_List_Packed.thy ===== *)
theory Zip_List_Packed
  imports Packed_Fit
begin

text \<open>
  \<open>ZipList<PackedString, PackedString, TargetBytes>\<close> (zip_list.h, lines 394-1074): the block of the
  string map.  Keys are copied to the front of a payload buffer and found again by 16-bit
  offset and size; values of 15 to 64 bytes are copied to its back, as long as the keys leave
  room; other values live in their slot.  A key longer than the payload is stored outside.
  \<open>T\<close> is \<open>TargetBytes\<close>, from which the class computes its capacity and payload size.
\<close>

section \<open>Compile-time constants\<close>

(* zip_list.h:730-731 kExternalKeyMarker *)
definition kExternalKeyMarker :: nat where
  "kExternalKeyMarker = 65535"

(* zip_list.h:732-732 kEntrySlotBytes *)
definition PackedMap_kEntrySlotBytes :: nat where
  "PackedMap_kEntrySlotBytes = 4 + 16"

(* zip_list.h:735-737 kUsableBytes *)
definition PackedMap_kUsableBytes :: "nat \<Rightarrow> nat" where
  "PackedMap_kUsableBytes T = (let fixed_bytes = 2 * 4 + 8 in if T > fixed_bytes then T - fixed_bytes else 1)"

(* zip_list.h:739-743 ComputeCapacity *)
definition PackedMap_kCapacity :: "nat \<Rightarrow> nat" where
  "PackedMap_kCapacity T =
     (let raw = PackedMap_kUsableBytes T div (PackedMap_kEntrySlotBytes + 64) in if raw = 0 then 1 else raw)"

(* zip_list.h:745-748 ComputePayloadBytes *)
definition PackedMap_kPayloadBytes :: "nat \<Rightarrow> nat" where
  "PackedMap_kPayloadBytes T =
     (let slot_bytes = PackedMap_kCapacity T * PackedMap_kEntrySlotBytes in
      if PackedMap_kUsableBytes T > slot_bytes then PackedMap_kUsableBytes T - slot_bytes else 1)"

text \<open>The two static assertions of the class.\<close>

(* zip_list.h:753-756 static_assert *)
definition PackedMap_static_assert :: "nat \<Rightarrow> bool" where
  "PackedMap_static_assert T \<longleftrightarrow> PackedMap_kCapacity T \<le> 65535 \<and> PackedMap_kPayloadBytes T < kExternalKeyMarker"

section \<open>State\<close>

text \<open>
  A \<open>PackedString\<close> object, by who owns its bytes: itself, or, in the mode \<open>kBorrowed\<close>, some other
  object whose buffer it points into.  Copying makes an owner; moving keeps the mode.
\<close>

(* packed_string.h:98-98 Mode *)
datatype packed_string = Owned packed_text | Borrowed packed_text

fun ps_text :: "packed_string \<Rightarrow> packed_text" where
  "ps_text (Owned t) = t"
| "ps_text (Borrowed t) = t"

(* packed_string.h:121-133 Borrowed *)
definition PackedString_Borrowed :: "packed_text \<Rightarrow> packed_string" where
  "PackedString_Borrowed t = (if text_size t = 0 then Owned t else Borrowed t)"

text \<open>
  A slot of a block holds a \<open>PackedString\<close> object: one with bytes of its own, or one in the mode
  \<open>kBorrowed\<close> that points into the payload of the same block.
\<close>

datatype text_slot = Held packed_text | In_Payload nat nat

(* zip_list.h:725-728 KeyRef *)
record key_ref =
  offset_or_index :: "16 word"
  size_or_marker :: "16 word"

(* zip_list.h:1024-1031 key_refs_ *)
record packed_map =
  pm_key_refs :: "key_ref list"
  pm_values :: "text_slot option list"
  pm_payload :: string
  pm_count :: "16 word"
  pm_payload_used :: "16 word"
  pm_value_payload_used :: "16 word"
  pm_external_value_count :: "16 word"
  pm_external_keys :: "packed_string list option"

(* zip_list.h:401-401 ZipList *)
definition PackedMap_empty :: "nat \<Rightarrow> packed_map" where
  "PackedMap_empty T = \<lparr>
     pm_key_refs = replicate (PackedMap_kCapacity T) \<lparr>offset_or_index = 0, size_or_marker = 0\<rparr>,
     pm_values = replicate (PackedMap_kCapacity T) None,
     pm_payload = replicate (PackedMap_kPayloadBytes T) (CHR 0x00),
     pm_count = 0, pm_payload_used = 0, pm_value_payload_used = 0, pm_external_value_count = 0,
     pm_external_keys = None\<rparr>"

abbreviation pm_n :: "packed_map \<Rightarrow> nat" where
  "pm_n m \<equiv> unat (pm_count m)"

section \<open>Reading\<close>

(* zip_list.h:772-774 KeyRefIsExternal *)
definition KeyRefIsExternal :: "key_ref \<Rightarrow> bool" where
  "KeyRefIsExternal ref \<longleftrightarrow> unat (size_or_marker ref) = kExternalKeyMarker"

(* zip_list.h:865-872 BorrowedKeyAt *)
definition PackedMap_BorrowedKeyAt :: "packed_map \<Rightarrow> nat \<Rightarrow> packed_string res" where
  "PackedMap_BorrowedKeyAt m index =
     (if index < length (pm_key_refs m) then
        let ref = pm_key_refs m ! index; off = unat (offset_or_index ref) in
        if KeyRefIsExternal ref then
          (case pm_external_keys m of
             None \<Rightarrow> Inl Undefined_Behaviour
           | Some stored \<Rightarrow>
               if off < length stored then Inr (PackedString_Borrowed (ps_text (stored ! off)))
               else Inl Undefined_Behaviour)
        else let sz = unat (size_or_marker ref) in
          if off + sz \<le> length (pm_payload m)
          then Inr (PackedString_Borrowed (Packed_Text (take sz (drop off (pm_payload m)))))
          else Inl Undefined_Behaviour
      else Inl Undefined_Behaviour)"

(* zip_list.h:874-877 OwnedKeyAt *)
definition PackedMap_OwnedKeyAt :: "packed_map \<Rightarrow> nat \<Rightarrow> packed_string res" where
  "PackedMap_OwnedKeyAt m index = bindE (PackedMap_BorrowedKeyAt m index) (\<lambda>key. Inr (Owned (ps_text key)))"

text \<open>The key of an entry, by its bytes: what every comparison sees.\<close>

(* zip_list.h:494-494 KeyAtTransient *)
definition PackedMap_KeyAtTransient :: "packed_map \<Rightarrow> nat \<Rightarrow> packed_text res" where
  "PackedMap_KeyAtTransient m index = bindE (PackedMap_BorrowedKeyAt m index) (\<lambda>key. Inr (ps_text key))"

(* zip_list.h:496-496 ValueAt *)
definition PackedMap_ValueAt :: "packed_map \<Rightarrow> nat \<Rightarrow> packed_text res" where
  "PackedMap_ValueAt m index =
     (if index < length (pm_values m) then
        (case pm_values m ! index of
           None \<Rightarrow> Inl Undefined_Behaviour
         | Some (Held t) \<Rightarrow> Inr t
         | Some (In_Payload off sz) \<Rightarrow>
             if off + sz \<le> length (pm_payload m) then Inr (Packed_Text (take sz (drop off (pm_payload m))))
             else Inl Undefined_Behaviour)
      else Inl Undefined_Behaviour)"

(* zip_list.h:455-455 Count *)
definition PackedMap_Count :: "packed_map \<Rightarrow> nat" where
  "PackedMap_Count m = pm_n m"

(* zip_list.h:461-461 Full *)
definition PackedMap_Full :: "nat \<Rightarrow> packed_map \<Rightarrow> bool" where
  "PackedMap_Full T m \<longleftrightarrow> pm_n m = PackedMap_kCapacity T"

(* zip_list.h:463-475 CanInsert *)
definition PackedMap_CanInsert :: "nat \<Rightarrow> packed_map \<Rightarrow> packed_text \<Rightarrow> bool res" where
  "PackedMap_CanInsert T m key =
     (let cap = PackedMap_kCapacity T; P = PackedMap_kPayloadBytes T in
      if pm_n m = cap then Inr False
      else bindE (AccumulateBlockKeys cap P (PackedMap_KeyAtTransient m) (pm_n m) (Some FitSummary_new)) (\<lambda>summary.
        case summary of None \<Rightarrow> Inr False
        | Some s \<Rightarrow> Inr (AccumulateKey cap P key s \<noteq> None)))"

(* zip_list.h:477-480 CanUpdate *)
definition PackedMap_CanUpdate :: "packed_map \<Rightarrow> nat \<Rightarrow> bool" where
  "PackedMap_CanUpdate m index \<longleftrightarrow> index < pm_n m"

(* zip_list.h:498-513 LowerBound *)
definition PackedMap_LowerBound :: "(packed_text \<Rightarrow> packed_text \<Rightarrow> bool) \<Rightarrow> packed_map \<Rightarrow> packed_text \<Rightarrow> nat res" where
  "PackedMap_LowerBound lt m key =
     LowerBound_loop (\<lambda>middle. bindE (PackedMap_KeyAtTransient m middle) (\<lambda>k. Inr (lt k key))) 0 (pm_n m)"

(* zip_list.h:515-526 FindValue *)
definition PackedMap_FindValue ::
    "(packed_text \<Rightarrow> packed_text \<Rightarrow> bool) \<Rightarrow> packed_map \<Rightarrow> packed_text \<Rightarrow> packed_text option res" where
  "PackedMap_FindValue lt m key =
     bindE (PackedMap_LowerBound lt m key) (\<lambda>index.
     if index = pm_n m then Inr None
     else bindE (PackedMap_KeyAtTransient m index) (\<lambda>found_key.
     if lt key found_key \<or> lt found_key key then Inr None
     else bindE (PackedMap_ValueAt m index) (\<lambda>v. Inr (Some v))))"

(* zip_list.h:716-720 AppendTo *)
definition PackedMap_AppendTo ::
    "packed_map \<Rightarrow> (packed_text \<times> packed_text) list \<Rightarrow> (packed_text \<times> packed_text) list res" where
  "PackedMap_AppendTo m output =
     foldE (\<lambda>out i. bindE (bindE (PackedMap_OwnedKeyAt m i) (\<lambda>key.
         bindE (PackedMap_ValueAt m i) (\<lambda>value. Inr (ps_text key, value)))) (\<lambda>e. Inr (out @ [e]))) output [0..<pm_n m]"

(* zip_list.h:709-714 ToVector *)
definition PackedMap_ToVector :: "packed_map \<Rightarrow> (packed_text \<times> packed_text) list res" where
  "PackedMap_ToVector m = PackedMap_AppendTo m []"

section \<open>Appending an entry\<close>

text \<open>\<open>std::size_t\<close> subtraction wraps at \<open>2 ^ 64\<close>.\<close>

(* zip_list.h:768-770 RemainingPayload *)
definition PackedMap_RemainingPayload :: "nat \<Rightarrow> packed_map \<Rightarrow> nat" where
  "PackedMap_RemainingPayload T m =
     (PackedMap_kPayloadBytes T + 2 * 2 ^ 64 - unat (pm_payload_used m) - unat (pm_value_payload_used m)) mod 2 ^ 64"

(* zip_list.h:788-790 ValueInlineBudgetForKeyBytes *)
definition PackedMap_ValueInlineBudgetForKeyBytes :: "nat \<Rightarrow> nat \<Rightarrow> nat" where
  "PackedMap_ValueInlineBudgetForKeyBytes T key_bytes =
     (if key_bytes \<ge> PackedMap_kPayloadBytes T then 0 else PackedMap_kPayloadBytes T - key_bytes)"

(* zip_list.h:784-786 InlineKeyBytes *)
definition PackedMap_InlineKeyBytes :: "nat \<Rightarrow> packed_text \<Rightarrow> nat" where
  "PackedMap_InlineKeyBytes T key = (if UsesExternalKey (PackedMap_kPayloadBytes T) key then 0 else text_size key)"

(* zip_list.h:792-799 ValueInlineBudgetForEntries *)
definition PackedMap_ValueInlineBudgetForEntries :: "nat \<Rightarrow> packed_text list \<Rightarrow> nat" where
  "PackedMap_ValueInlineBudgetForEntries T keys =
     PackedMap_ValueInlineBudgetForKeyBytes T (foldl (\<lambda>n key. n + PackedMap_InlineKeyBytes T key) 0 keys)"

text \<open>Writing bytes into the payload buffer.\<close>

definition memcpy_at :: "string \<Rightarrow> nat \<Rightarrow> string \<Rightarrow> string" where
  "memcpy_at payload off bytes = take off payload @ bytes @ drop (off + length bytes) payload"

text \<open>
  The key that \<open>StoreKey\<close> is handed has a mode.  A key that fits is copied into the payload; an
  external key is moved or copied into the vector, so a borrowed temporary stays borrowed there.
\<close>

(* zip_list.h:879-902 StoreKey *)
definition PackedMap_StoreKey :: "nat \<Rightarrow> packed_map \<Rightarrow> packed_string \<Rightarrow> (packed_map \<times> key_ref) res" where
  "PackedMap_StoreKey T m text =
     (if UsesExternalKey (PackedMap_kPayloadBytes T) (ps_text text) then
        let external_keys = (case pm_external_keys m of None \<Rightarrow> [] | Some ks \<Rightarrow> ks);
            m = m\<lparr>pm_external_keys := Some external_keys\<rparr> in
        if length external_keys \<ge> kExternalKeyMarker
        then Inl (Logic_Error ''ZipList external key index exceeds compact key reference'')
        else let index = length external_keys in
          Inr (m\<lparr>pm_external_keys := Some (external_keys @ [text])\<rparr>,
               \<lparr>offset_or_index = of_nat index, size_or_marker = of_nat kExternalKeyMarker\<rparr>)
      else if text_size (ps_text text) > PackedMap_RemainingPayload T m
      then Inl (Logic_Error ''ZipList payload capacity exceeded'')
      else let off = unat (pm_payload_used m); sz = text_size (ps_text text) in
        Inr (m\<lparr>pm_payload := memcpy_at (pm_payload m) off (bytes_of (ps_text text)),
               pm_payload_used := of_nat (unat (pm_payload_used m) + sz)\<rparr>,
             \<lparr>offset_or_index = of_nat off, size_or_marker = of_nat sz\<rparr>))"

(* zip_list.h:904-913 CanStoreValueInline *)
definition PackedMap_CanStoreValueInline :: "nat \<Rightarrow> packed_map \<Rightarrow> packed_text \<Rightarrow> nat \<Rightarrow> bool" where
  "PackedMap_CanStoreValueInline T m value value_inline_budget \<longleftrightarrow>
     (if text_size value \<le> kInlineCapacity \<or> text_size value > 64 then False
      else if text_size value > PackedMap_RemainingPayload T m then False
      else unat (pm_value_payload_used m) + text_size value \<le> value_inline_budget)"

(* zip_list.h:915-930 ConstructValue *)
definition PackedMap_ConstructValue :: "nat \<Rightarrow> packed_map \<Rightarrow> packed_text \<Rightarrow> nat \<Rightarrow> packed_map res" where
  "PackedMap_ConstructValue T m value value_inline_budget =
     (if pm_n m \<ge> length (pm_values m) then Inl Undefined_Behaviour
      else if PackedMap_CanStoreValueInline T m value value_inline_budget then
        let used = of_nat (unat (pm_value_payload_used m) + text_size value) :: 16 word;
            off = PackedMap_kPayloadBytes T - unat used in
        Inr (m\<lparr>pm_value_payload_used := used,
               pm_payload := memcpy_at (pm_payload m) off (bytes_of value),
               pm_values := (pm_values m)[pm_n m := Some (In_Payload off (text_size value))]\<rparr>)
      else
        Inr (m\<lparr>pm_values := (pm_values m)[pm_n m := Some (Held value)],
               pm_external_value_count :=
                 (if text_size value > kInlineCapacity then pm_external_value_count m + 1
                  else pm_external_value_count m)\<rparr>))"

(* zip_list.h:932-958 ConstructBack *)
definition PackedMap_ConstructBack :: "nat \<Rightarrow> packed_map \<Rightarrow> packed_string \<Rightarrow> packed_text \<Rightarrow> nat \<Rightarrow> packed_map res" where
  "PackedMap_ConstructBack T m key value value_inline_budget =
     (if pm_n m = PackedMap_kCapacity T then Inl (Logic_Error ''ZipList entries exceed capacity'')
      else bindE (PackedMap_CanInsert T m (ps_text key)) (\<lambda>can.
        if \<not> can then Inl (Logic_Error ''ZipList payload capacity exceeded'')
        else bindE (PackedMap_StoreKey T m key) (\<lambda>(m, key_ref).
          bindE (PackedMap_ConstructValue T m value value_inline_budget) (\<lambda>m.
          if pm_n m \<ge> length (pm_key_refs m) then Inl Undefined_Behaviour
          else Inr (m\<lparr>pm_key_refs := (pm_key_refs m)[pm_n m := key_ref], pm_count := pm_count m + 1\<rparr>)))))"

section \<open>Copying and moving\<close>

(* zip_list.h:960-971 CopyFrom *)
definition PackedMap_CopyFrom :: "nat \<Rightarrow> packed_map \<Rightarrow> packed_map \<Rightarrow> packed_map res" where
  "PackedMap_CopyFrom T this other =
     (let value_inline_budget = PackedMap_ValueInlineBudgetForKeyBytes T (unat (pm_payload_used other)) in
      foldE (\<lambda>r i. bindE (PackedMap_BorrowedKeyAt other i) (\<lambda>key.
         bindE (PackedMap_ValueAt other i) (\<lambda>value. PackedMap_ConstructBack T r key value value_inline_budget)))
       this [0..<pm_n other])"

(* zip_list.h:403-403 ZipList *)
definition PackedMap_copy :: "nat \<Rightarrow> packed_map \<Rightarrow> packed_map res" where
  "PackedMap_copy T other = PackedMap_CopyFrom T (PackedMap_empty T) other"

text \<open>
  The destructor of each value in use, from the last to the first, and the reset of the fields;
  the key references and the payload bytes stay as they are.
\<close>

(* zip_list.h:1013-1022 Clear *)
definition PackedMap_Clear :: "packed_map \<Rightarrow> packed_map" where
  "PackedMap_Clear m = m\<lparr>
     pm_values := fold (\<lambda>i vs. vs[i := None]) (rev [0..<pm_n m]) (pm_values m),
     pm_count := 0, pm_external_keys := None, pm_payload_used := 0, pm_value_payload_used := 0,
     pm_external_value_count := 0\<rparr>"

text \<open>A value that points into the payload of the source points to the same offset of the new one.\<close>

(* zip_list.h:980-992 MoveValueFrom *)
definition PackedMap_MoveValueFrom :: "packed_map \<times> packed_map \<Rightarrow> nat \<Rightarrow> (packed_map \<times> packed_map) res" where
  "PackedMap_MoveValueFrom pair index =
     (case pair of (this, other) \<Rightarrow>
      if index < length (pm_values other) \<and> index < length (pm_values this) then
        (case pm_values other ! index of
           None \<Rightarrow> Inl Undefined_Behaviour
         | Some (In_Payload off sz) \<Rightarrow>
             Inr (this\<lparr>pm_values := (pm_values this)[index := Some (In_Payload off sz)]\<rparr>,
                  other\<lparr>pm_values := (pm_values other)[index := None]\<rparr>)
         | Some (Held t) \<Rightarrow>
             Inr (this\<lparr>pm_values := (pm_values this)[index := Some (Held t)]\<rparr>,
                  other\<lparr>pm_values := (pm_values other)[index := None]\<rparr>))
      else Inl Undefined_Behaviour)"

(* zip_list.h:994-1011 MoveFrom *)
definition PackedMap_MoveFrom :: "packed_map \<Rightarrow> packed_map \<Rightarrow> (packed_map \<times> packed_map) res" where
  "PackedMap_MoveFrom this other =
     (let this = this\<lparr>pm_key_refs := pm_key_refs other, pm_payload := pm_payload other,
            pm_count := pm_count other, pm_payload_used := pm_payload_used other,
            pm_value_payload_used := pm_value_payload_used other,
            pm_external_value_count := pm_external_value_count other,
            pm_external_keys := pm_external_keys other\<rparr>;
          other = other\<lparr>pm_external_keys := None\<rparr>
      in bindE (foldE PackedMap_MoveValueFrom (this, other) [0..<pm_n this]) (\<lambda>(this, other).
         Inr (this, other\<lparr>pm_count := 0, pm_payload_used := 0, pm_value_payload_used := 0,
                pm_external_value_count := 0\<rparr>)))"

(* zip_list.h:407-414 operator= *)
definition PackedMap_copy_assign :: "nat \<Rightarrow> packed_map \<Rightarrow> packed_map \<Rightarrow> packed_map res" where
  "PackedMap_copy_assign T this other = PackedMap_CopyFrom T (PackedMap_Clear this) other"

(* zip_list.h:416-423 operator= *)
definition PackedMap_move_assign :: "packed_map \<Rightarrow> packed_map \<Rightarrow> (packed_map \<times> packed_map) res" where
  "PackedMap_move_assign this other = PackedMap_MoveFrom (PackedMap_Clear this) other"

section \<open>Building and updating blocks\<close>

(* zip_list.h:431-449 FromSortedEntries *)
definition PackedMap_FromSortedEntries :: "nat \<Rightarrow> (packed_text \<times> packed_text) list \<Rightarrow> packed_map res" where
  "PackedMap_FromSortedEntries T entries =
     (if length entries > PackedMap_kCapacity T then Inl (Invalid_Argument ''ZipList entries exceed capacity'')
      else let value_inline_budget = PackedMap_ValueInlineBudgetForEntries T (map fst entries) in
        foldE (\<lambda>r e. PackedMap_ConstructBack T r (Owned (fst e)) (snd e) value_inline_budget)
          (PackedMap_empty T) entries)"

(* zip_list.h:451-453 PackSortedEntriesIntoBlocks *)
definition PackedMap_PackSortedEntriesIntoBlocks ::
    "nat \<Rightarrow> (packed_text \<times> packed_text) list \<Rightarrow> packed_map list res" where
  "PackedMap_PackSortedEntriesIntoBlocks T entries =
     PackEntriesIntoBlocks (PackedMap_kCapacity T) (PackedMap_kPayloadBytes T) (PackedMap_FromSortedEntries T) entries"

text \<open>The loop that copies the entries of a range of another block.\<close>

definition PackedMap_copy_range :: "nat \<Rightarrow> packed_map \<Rightarrow> nat \<Rightarrow> packed_map \<Rightarrow> nat list \<Rightarrow> packed_map res" where
  "PackedMap_copy_range T m value_inline_budget result is =
     foldE (\<lambda>r i. bindE (PackedMap_BorrowedKeyAt m i) (\<lambda>key.
        bindE (PackedMap_ValueAt m i) (\<lambda>value. PackedMap_ConstructBack T r key value value_inline_budget))) result is"

(* zip_list.h:533-555 WithInserted *)
definition PackedMap_WithInserted ::
    "nat \<Rightarrow> packed_map \<Rightarrow> nat \<Rightarrow> packed_text \<Rightarrow> packed_text \<Rightarrow> packed_map res" where
  "PackedMap_WithInserted T m index key value =
     (if PackedMap_Full T m then Inl (Logic_Error ''ZipList is full'')
      else bindE (PackedMap_CanInsert T m key) (\<lambda>can.
        if \<not> can then Inl (Logic_Error ''ZipList payload capacity exceeded'')
        else if index > pm_n m then Inl (Out_Of_Range ''ZipList insert index out of range'')
        else let value_inline_budget = PackedMap_ValueInlineBudgetForKeyBytes T
                   (unat (pm_payload_used m) + PackedMap_InlineKeyBytes T key)
          in bindE (PackedMap_copy_range T m value_inline_budget (PackedMap_empty T) [0..<index]) (\<lambda>result.
             bindE (PackedMap_ConstructBack T result (Owned key) value value_inline_budget) (\<lambda>result.
             PackedMap_copy_range T m value_inline_budget result [index..<pm_n m]))))"

(* zip_list.h:557-573 WithUpdated *)
definition PackedMap_WithUpdated :: "nat \<Rightarrow> packed_map \<Rightarrow> nat \<Rightarrow> packed_text \<Rightarrow> packed_map res" where
  "PackedMap_WithUpdated T m index value =
     (if index \<ge> pm_n m then Inl (Out_Of_Range ''ZipList update index out of range'')
      else if \<not> PackedMap_CanUpdate m index then Inl (Logic_Error ''ZipList payload capacity exceeded'')
      else let value_inline_budget = PackedMap_ValueInlineBudgetForKeyBytes T (unat (pm_payload_used m)) in
        foldE (\<lambda>r i. bindE (PackedMap_BorrowedKeyAt m i) (\<lambda>key.
           bindE (if i = index then Inr value else PackedMap_ValueAt m i) (\<lambda>v.
           PackedMap_ConstructBack T r key v value_inline_budget))) (PackedMap_empty T) [0..<pm_n m])"

text \<open>The entries of a block with one value replaced, or with one entry inserted, as a vector.\<close>

(* zip_list.h:581-585 SplitWithUpdated *)
definition PackedMap_updated_entries ::
    "packed_map \<Rightarrow> nat \<Rightarrow> packed_text \<Rightarrow> (packed_text \<times> packed_text) list res" where
  "PackedMap_updated_entries m index value =
     foldE (\<lambda>out i. bindE (bindE (PackedMap_OwnedKeyAt m i) (\<lambda>key.
        bindE (if i = index then Inr value else PackedMap_ValueAt m i) (\<lambda>v. Inr (ps_text key, v))))
        (\<lambda>e. Inr (out @ [e]))) [] [0..<pm_n m]"

(* zip_list.h:637-645 SplitWithInserted *)
definition PackedMap_inserted_entries ::
    "packed_map \<Rightarrow> nat \<Rightarrow> packed_text \<Rightarrow> packed_text \<Rightarrow> (packed_text \<times> packed_text) list res" where
  "PackedMap_inserted_entries m index key value =
     (let entry_at = (\<lambda>i. bindE (PackedMap_OwnedKeyAt m i) (\<lambda>k.
            bindE (PackedMap_ValueAt m i) (\<lambda>v. Inr (ps_text k, v)))) in
      bindE (foldE (\<lambda>out i. bindE (entry_at i) (\<lambda>e. Inr (out @ [e]))) [] [0..<index]) (\<lambda>entries.
      foldE (\<lambda>out i. bindE (entry_at i) (\<lambda>e. Inr (out @ [e]))) (entries @ [(key, value)]) [index..<pm_n m]))"

text \<open>The first cut at which both sides fit.\<close>

(* zip_list.h:647-654 SplitWithInserted *)
definition PackedMap_first_split ::
    "nat \<Rightarrow> (packed_text \<times> packed_text) list \<Rightarrow> string \<Rightarrow> (packed_map \<times> packed_map) res" where
  "PackedMap_first_split T entries message =
     (let cap = PackedMap_kCapacity T; P = PackedMap_kPayloadBytes T in
      case filter (\<lambda>split. EntriesFit cap P (take split entries) \<and> EntriesFit cap P (drop split entries))
             [1..<length entries] of
        [] \<Rightarrow> Inl (Logic_Error message)
      | split # _ \<Rightarrow>
          bindE (PackedMap_FromSortedEntries T (take split entries)) (\<lambda>left.
          bindE (PackedMap_FromSortedEntries T (drop split entries)) (\<lambda>right. Inr (left, right))))"

(* zip_list.h:575-597 SplitWithUpdated *)
definition PackedMap_SplitWithUpdated ::
    "nat \<Rightarrow> packed_map \<Rightarrow> nat \<Rightarrow> packed_text \<Rightarrow> (packed_map \<times> packed_map) res" where
  "PackedMap_SplitWithUpdated T m index value =
     (if index \<ge> pm_n m then Inl (Out_Of_Range ''ZipList split update index out of range'')
      else bindE (PackedMap_updated_entries m index value) (\<lambda>entries.
        PackedMap_first_split T entries ''ZipList split update entries exceed packed capacity''))"

(* zip_list.h:599-611 SplitWithUpdatedBlocks *)
definition PackedMap_SplitWithUpdatedBlocks ::
    "nat \<Rightarrow> packed_map \<Rightarrow> nat \<Rightarrow> packed_text \<Rightarrow> packed_map list res" where
  "PackedMap_SplitWithUpdatedBlocks T m index value =
     (if index \<ge> pm_n m then Inl (Out_Of_Range ''ZipList split update index out of range'')
      else bindE (PackedMap_updated_entries m index value) (PackedMap_PackSortedEntriesIntoBlocks T))"

(* zip_list.h:613-629 WithErased *)
definition PackedMap_WithErased :: "nat \<Rightarrow> packed_map \<Rightarrow> nat \<Rightarrow> packed_map res" where
  "PackedMap_WithErased T m index =
     (if index \<ge> pm_n m then Inl (Out_Of_Range ''ZipList erase index out of range'')
      else if index \<ge> length (pm_key_refs m) then Inl Undefined_Behaviour
      else let ref = pm_key_refs m ! index;
               erased_key_bytes = (if KeyRefIsExternal ref then 0 else unat (size_or_marker ref));
               value_inline_budget = PackedMap_ValueInlineBudgetForKeyBytes T
                 (unat (pm_payload_used m) - erased_key_bytes)
        in PackedMap_copy_range T m value_inline_budget (PackedMap_empty T) (filter (\<lambda>i. i \<noteq> index) [0..<pm_n m]))"

(* zip_list.h:631-657 SplitWithInserted *)
definition PackedMap_SplitWithInserted ::
    "nat \<Rightarrow> packed_map \<Rightarrow> nat \<Rightarrow> packed_text \<Rightarrow> packed_text \<Rightarrow> (packed_map \<times> packed_map) res" where
  "PackedMap_SplitWithInserted T m index key value =
     (if index > pm_n m then Inl (Out_Of_Range ''ZipList split insert index out of range'')
      else bindE (PackedMap_inserted_entries m index key value) (\<lambda>entries.
        PackedMap_first_split T entries ''ZipList split entries exceed packed capacity''))"

(* zip_list.h:659-675 SplitWithInsertedBlocks *)
definition PackedMap_SplitWithInsertedBlocks ::
    "nat \<Rightarrow> packed_map \<Rightarrow> nat \<Rightarrow> packed_text \<Rightarrow> packed_text \<Rightarrow> packed_map list res" where
  "PackedMap_SplitWithInsertedBlocks T m index key value =
     (if index > pm_n m then Inl (Out_Of_Range ''ZipList split insert index out of range'')
      else bindE (PackedMap_inserted_entries m index key value) (PackedMap_PackSortedEntriesIntoBlocks T))"

(* zip_list.h:677-690 CanMerge *)
definition PackedMap_CanMerge :: "nat \<Rightarrow> packed_map \<Rightarrow> packed_map \<Rightarrow> bool res" where
  "PackedMap_CanMerge T left right =
     (let cap = PackedMap_kCapacity T; P = PackedMap_kPayloadBytes T in
      bindE (AccumulateBlockKeys cap P (PackedMap_KeyAtTransient left) (pm_n left) (Some FitSummary_new)) (\<lambda>summary.
      bindE (AccumulateBlockKeys cap P (PackedMap_KeyAtTransient right) (pm_n right) summary) (\<lambda>summary.
      Inr (summary \<noteq> None))))"

(* zip_list.h:692-707 Merged *)
definition PackedMap_Merged :: "nat \<Rightarrow> packed_map \<Rightarrow> packed_map \<Rightarrow> packed_map res" where
  "PackedMap_Merged T left right =
     bindE (PackedMap_CanMerge T left right) (\<lambda>can.
     if \<not> can then Inl (Logic_Error ''ZipList merged entries exceed capacity'')
     else let value_inline_budget = PackedMap_ValueInlineBudgetForKeyBytes T
                (unat (pm_payload_used left) + unat (pm_payload_used right))
       in bindE (PackedMap_copy_range T left value_inline_budget (PackedMap_empty T) [0..<pm_n left]) (\<lambda>result.
          PackedMap_copy_range T right value_inline_budget result [0..<pm_n right]))"

end
