(* ===== verification/Zip_List_Packed_Correct.thy ===== *)
theory Zip_List_Packed_Correct
  imports Zip_List_Packed
begin

text \<open>
  The block of the string map is correct: the representation invariant of its payload (keys grow
  from the front, inlined values from the back, and they never meet), every operation on it, and
  the contract of a block.  No \<open>logic_error\<close> of the class can be reached through the contract.
\<close>

section \<open>The payload buffer\<close>

lemma memcpy_at_length: "off + length bs \<le> length p \<Longrightarrow> length (memcpy_at p off bs) = length p"
  by (simp add: memcpy_at_def)

lemma memcpy_at_read: "off + length bs \<le> length p \<Longrightarrow> take (length bs) (drop off (memcpy_at p off bs)) = bs"
  by (simp add: memcpy_at_def)

lemma memcpy_at_before:
  assumes "i + n \<le> off" "off \<le> length p"
  shows "take n (drop i (memcpy_at p off bs)) = take n (drop i p)"
proof -
  have "take n (drop i (memcpy_at p off bs)) = drop i (take (i + n) (memcpy_at p off bs))"
    by (simp add: take_drop add.commute)
  also have "take (i + n) (memcpy_at p off bs) = take (i + n) p"
    using assms by (simp add: memcpy_at_def min_def)
  finally show ?thesis by (simp add: take_drop add.commute)
qed

lemma memcpy_at_after:
  assumes "off + length bs \<le> i" "off + length bs \<le> length p"
  shows "take n (drop i (memcpy_at p off bs)) = take n (drop i p)"
proof -
  have "drop i (memcpy_at p off bs) = drop (i - (off + length bs)) (drop (off + length bs) p)"
    using assms by (simp add: memcpy_at_def drop_append)
  also have "\<dots> = drop i p" using assms(1) by (simp add: drop_drop)
  finally show ?thesis by simp
qed

lemma unat_of_nat16 [simp]: "n \<le> 65535 \<Longrightarrow> unat (of_nat n :: 16 word) = n"
  by (rule unat_of_nat_small) simp

lemma text_size_bytes: "length (bytes_of t) = text_size t"
  by (simp add: text_size_def)

lemma Packed_bytes [simp]: "Packed_Text (bytes_of t) = t"
  by (rule bytes_of_inverse)

lemma ps_text_Borrowed [simp]: "ps_text (PackedString_Borrowed t) = t"
  by (simp add: PackedString_Borrowed_def)

section \<open>The representation invariant\<close>

abbreviation ext_keys :: "packed_map \<Rightarrow> packed_string list" where
  "ext_keys m \<equiv> (case pm_external_keys m of None \<Rightarrow> [] | Some ks \<Rightarrow> ks)"

text \<open>\<open>ref\<close> denotes the key \<open>k\<close>: in the used front of the payload, or in the external vector.\<close>

definition ref_stored :: "nat \<Rightarrow> packed_map \<Rightarrow> key_ref \<Rightarrow> packed_text \<Rightarrow> bool" where
  "ref_stored T m ref k \<longleftrightarrow>
     (if UsesExternalKey (PackedMap_kPayloadBytes T) k then
        KeyRefIsExternal ref \<and> unat (offset_or_index ref) < length (ext_keys m) \<and>
        ps_text (ext_keys m ! unat (offset_or_index ref)) = k
      else unat (size_or_marker ref) = text_size k \<and>
        unat (offset_or_index ref) + text_size k \<le> unat (pm_payload_used m) \<and>
        take (text_size k) (drop (unat (offset_or_index ref)) (pm_payload m)) = bytes_of k)"

text \<open>Slot \<open>i\<close> holds the value \<open>v\<close>: itself, or in the used back of the payload.\<close>

definition value_stored :: "nat \<Rightarrow> packed_map \<Rightarrow> nat \<Rightarrow> packed_text \<Rightarrow> bool" where
  "value_stored T m i v \<longleftrightarrow>
     pm_values m ! i = Some (Held v) \<or>
     (\<exists>off. pm_values m ! i = Some (In_Payload off (text_size v)) \<and>
        PackedMap_kPayloadBytes T - unat (pm_value_payload_used m) \<le> off \<and>
        off + text_size v \<le> PackedMap_kPayloadBytes T \<and>
        take (text_size v) (drop off (pm_payload m)) = bytes_of v)"

text \<open>The part that holds between the steps of one append too: \<open>used\<close> key bytes, \<open>ext\<close> external keys.\<close>

definition map_core :: "nat \<Rightarrow> packed_map \<Rightarrow> (packed_text \<times> packed_text) list \<Rightarrow> nat \<Rightarrow> nat \<Rightarrow> bool" where
  "map_core T m xs used ext \<longleftrightarrow>
     length (pm_key_refs m) = PackedMap_kCapacity T \<and> length (pm_values m) = PackedMap_kCapacity T \<and>
     length (pm_payload m) = PackedMap_kPayloadBytes T \<and> pm_n m = length xs \<and>
     unat (pm_payload_used m) = used \<and> used + unat (pm_value_payload_used m) \<le> PackedMap_kPayloadBytes T \<and>
     length (ext_keys m) = ext \<and>
     (\<forall>i < length xs. ref_stored T m (pm_key_refs m ! i) (fst (xs ! i)) \<and> value_stored T m i (snd (xs ! i)))"

definition map_fits :: "nat \<Rightarrow> packed_text list \<Rightarrow> bool" where
  "map_fits T ks = keys_fit (PackedMap_kCapacity T) (PackedMap_kPayloadBytes T) ks"

definition key_bytes :: "nat \<Rightarrow> packed_text list \<Rightarrow> nat" where
  "key_bytes T ks = sum_list (map (inline_bytes (PackedMap_kPayloadBytes T)) ks)"

definition ext_count :: "nat \<Rightarrow> packed_text list \<Rightarrow> nat" where
  "ext_count T ks = length (filter (UsesExternalKey (PackedMap_kPayloadBytes T)) ks)"

definition map_rep :: "nat \<Rightarrow> packed_map \<Rightarrow> (packed_text \<times> packed_text) list \<Rightarrow> bool" where
  "map_rep T m xs \<longleftrightarrow> map_core T m xs (key_bytes T (map fst xs)) (ext_count T (map fst xs)) \<and> map_fits T (map fst xs)"

lemma InlineKeyBytes_eq: "PackedMap_InlineKeyBytes T k = key_bytes T [k]"
  by (simp add: PackedMap_InlineKeyBytes_def key_bytes_def inline_bytes_def)

lemma key_bytes_append [simp]: "key_bytes T (ks @ ls) = key_bytes T ks + key_bytes T ls"
  by (simp add: key_bytes_def)

lemma ext_count_append [simp]: "ext_count T (ks @ ls) = ext_count T ks + ext_count T ls"
  by (simp add: ext_count_def)

lemma key_bytes_Nil [simp]: "key_bytes T [] = 0" "ext_count T [] = 0"
  by (simp_all add: key_bytes_def ext_count_def)

lemma map_fits_bytes: "map_fits T ks \<Longrightarrow> key_bytes T ks \<le> PackedMap_kPayloadBytes T"
  by (simp add: map_fits_def keys_fit_def key_bytes_def)

lemma ext_count_le: "map_fits T ks \<Longrightarrow> ext_count T ks \<le> 1"
proof (cases "filter (UsesExternalKey (PackedMap_kPayloadBytes T)) ks")
  case (Cons k rest)
  then have "k \<in> set (filter (UsesExternalKey (PackedMap_kPayloadBytes T)) ks)" by simp
  then have "k \<in> set ks \<and> UsesExternalKey (PackedMap_kPayloadBytes T) k" by simp
  moreover assume "map_fits T ks"
  ultimately have "length ks = 1" unfolding map_fits_def keys_fit_def by blast
  then show ?thesis by (simp add: ext_count_def) (metis length_filter_le)
qed (simp add: ext_count_def)

lemma PackedMap_kCapacity_pos: "1 \<le> PackedMap_kCapacity T"
  by (simp add: PackedMap_kCapacity_def Let_def)

lemma map_rep_empty: "map_rep T (PackedMap_empty T) []"
  by (simp add: map_rep_def map_core_def PackedMap_empty_def map_fits_def keys_fit_def)

section \<open>Reading\<close>

lemma BorrowedKeyAt_core:
  assumes "PackedMap_static_assert T" "map_core T m xs u e" "i < length xs" "length xs \<le> PackedMap_kCapacity T"
  shows "PackedMap_BorrowedKeyAt m i = Inr (PackedString_Borrowed (fst (xs ! i)))"
proof -
  let ?k = "fst (xs ! i)" and ?ref = "pm_key_refs m ! i"
  have r: "ref_stored T m ?ref ?k" "i < length (pm_key_refs m)" using assms by (simp_all add: map_core_def)
  show ?thesis
  proof (cases "UsesExternalKey (PackedMap_kPayloadBytes T) ?k")
    case True
    with r show ?thesis by (auto simp: PackedMap_BorrowedKeyAt_def ref_stored_def Let_def split: option.splits)
  next
    case False
    then have "text_size ?k < kExternalKeyMarker"
      using assms(1) by (simp add: UsesExternalKey_def PackedMap_static_assert_def)
    with False r(1) have "\<not> KeyRefIsExternal ?ref" by (simp add: ref_stored_def KeyRefIsExternal_def)
    with False r assms(2) show ?thesis
      by (simp add: PackedMap_BorrowedKeyAt_def ref_stored_def map_core_def Let_def)
  qed
qed

lemma KeyAt_rep:
  "PackedMap_static_assert T \<Longrightarrow> map_rep T m xs \<Longrightarrow> i < length xs \<Longrightarrow>
    PackedMap_BorrowedKeyAt m i = Inr (PackedString_Borrowed (fst (xs ! i)))"
  by (auto intro!: BorrowedKeyAt_core simp: map_rep_def map_fits_def keys_fit_def)

lemma KeyAtTransient_rep:
  "PackedMap_static_assert T \<Longrightarrow> map_rep T m xs \<Longrightarrow> i < length xs \<Longrightarrow>
    PackedMap_KeyAtTransient m i = Inr (fst (xs ! i))"
  by (simp add: PackedMap_KeyAtTransient_def KeyAt_rep del: bindE_eq_Inr)

lemma ValueAt_rep:
  assumes "map_rep T m xs" "i < length xs"
  shows "PackedMap_ValueAt m i = Inr (snd (xs ! i))"
proof -
  have "value_stored T m i (snd (xs ! i))" "i < length (pm_values m)" "length (pm_payload m) = PackedMap_kPayloadBytes T"
    using assms by (auto simp: map_rep_def map_core_def map_fits_def keys_fit_def)
  then show ?thesis by (auto simp: PackedMap_ValueAt_def value_stored_def)
qed

lemma CanInsert_rep:
  assumes "PackedMap_static_assert T" "map_rep T m xs"
  shows "PackedMap_CanInsert T m k = Inr (map_fits T (map fst xs @ [k]))"
proof -
  have fits: "map_fits T (map fst xs)" and n: "pm_n m = length (map fst xs)"
    using assms(2) by (simp_all add: map_rep_def map_core_def)
  have init: "keys_fit (PackedMap_kCapacity T) (PackedMap_kPayloadBytes T) []" by (simp add: keys_fit_def)
  have keys: "\<And>i. i < length (map fst xs) \<Longrightarrow> PackedMap_KeyAtTransient m i = Inr (map fst xs ! i)"
    using KeyAtTransient_rep[OF assms] by simp
  from AccumulateBlockKeys_of[OF keys init] fits AccumulateKey_of[OF fits[unfolded map_fits_def], of k]
  show ?thesis
    unfolding PackedMap_CanInsert_def n
    by (auto simp: FitSummary_new_of[of "PackedMap_kPayloadBytes T"] map_fits_def Let_def keys_fit_def)
qed

section \<open>Appending\<close>

lemma wrap_mod: "a < b \<Longrightarrow> (a + 2 * b) mod b = (a :: nat)"
  by simp

lemma RemainingPayload_core:
  assumes "PackedMap_static_assert T" "unat (pm_payload_used m) + unat (pm_value_payload_used m) \<le> PackedMap_kPayloadBytes T"
  shows "PackedMap_RemainingPayload T m =
    PackedMap_kPayloadBytes T - unat (pm_payload_used m) - unat (pm_value_payload_used m)"
proof -
  define r where "r = PackedMap_kPayloadBytes T - unat (pm_payload_used m) - unat (pm_value_payload_used m)"
  have "PackedMap_kPayloadBytes T + 2 * 2 ^ 64 - unat (pm_payload_used m) - unat (pm_value_payload_used m) = r + 2 * 2 ^ 64"
    using assms(2) by (simp add: r_def)
  moreover have "r < 65535" using assms(1) by (auto simp: r_def PackedMap_static_assert_def kExternalKeyMarker_def)
  then have "r < 2 ^ 64" by simp
  ultimately show ?thesis unfolding PackedMap_RemainingPayload_def r_def[symmetric] by (simp only: wrap_mod)
qed

text \<open>Facts stored in the payload survive a write to its unused middle part.\<close>

lemma ref_stored_mono:
  assumes "ref_stored T m ref k"
    and "pm_payload_used m \<le> pm_payload_used m'"
    and "length (ext_keys m) \<le> length (ext_keys m')" "\<And>i. i < length (ext_keys m) \<Longrightarrow> ext_keys m' ! i = ext_keys m ! i"
    and "\<And>i n. i + n \<le> unat (pm_payload_used m) \<Longrightarrow> take n (drop i (pm_payload m')) = take n (drop i (pm_payload m))"
  shows "ref_stored T m' ref k"
  using assms by (auto simp: ref_stored_def word_le_nat_alt)

lemma value_stored_mono:
  assumes "value_stored T m i v" "pm_values m' ! i = pm_values m ! i"
    and "pm_value_payload_used m \<le> pm_value_payload_used m'"
    and "\<And>i n. PackedMap_kPayloadBytes T - unat (pm_value_payload_used m) \<le> i \<Longrightarrow>
      take n (drop i (pm_payload m')) = take n (drop i (pm_payload m))"
  shows "value_stored T m' i v"
  using assms by (fastforce simp: value_stored_def word_le_nat_alt)

lemma StoreKey_core:
  assumes S: "PackedMap_static_assert T" and core: "map_core T m xs u e" and "e = 0 \<or> \<not> UsesExternalKey (PackedMap_kPayloadBytes T) (ps_text key)"
    and room: "u + unat (pm_value_payload_used m) + key_bytes T [ps_text key] \<le> PackedMap_kPayloadBytes T"
  obtains m' ref where "PackedMap_StoreKey T m key = Inr (m', ref)"
    "map_core T m' xs (u + key_bytes T [ps_text key]) (e + ext_count T [ps_text key])"
    "ref_stored T m' ref (ps_text key)" "pm_value_payload_used m' = pm_value_payload_used m"
proof -
  let ?k = "ps_text key" and ?P = "PackedMap_kPayloadBytes T"
  have P: "?P < 65535" using S by (simp add: PackedMap_static_assert_def kExternalKeyMarker_def)
  note c = core[unfolded map_core_def]
  show thesis
  proof (cases "UsesExternalKey ?P ?k")
    case True
    then have e: "e = 0" "ext_keys m = []" using assms(3) c by auto
    let ?m = "m\<lparr>pm_external_keys := Some [key]\<rparr>"
    let ?ref = "\<lparr>offset_or_index = 0, size_or_marker = of_nat kExternalKeyMarker\<rparr>"
    have run: "PackedMap_StoreKey T m key = Inr (?m, ?ref)"
      using True e(2) by (simp add: PackedMap_StoreKey_def Let_def kExternalKeyMarker_def)
    have "map_core T ?m xs (u + key_bytes T [?k]) (e + ext_count T [?k])"
      unfolding map_core_def
    proof (intro conjI allI impI)
      fix i assume i: "i < length xs"
      show "ref_stored T ?m (pm_key_refs ?m ! i) (fst (xs ! i))"
        by (rule ref_stored_mono[of T m]) (use c i e(2) in auto)
      show "value_stored T ?m i (snd (xs ! i))"
        by (rule value_stored_mono[of T m]) (use c i in auto)
    qed (use c True e in \<open>simp_all add: key_bytes_def inline_bytes_def ext_count_def\<close>)
    moreover have "ref_stored T ?m ?ref ?k"
      using True by (simp add: ref_stored_def KeyRefIsExternal_def kExternalKeyMarker_def)
    ultimately show thesis using run by (intro that[of ?m ?ref]) simp_all
  next
    case False
    have kb: "key_bytes T [?k] = text_size ?k" "ext_count T [?k] = 0"
      using False by (simp_all add: key_bytes_def inline_bytes_def ext_count_def)
    have pu: "unat (pm_payload_used m) = u" "u + text_size ?k \<le> 65535" "length (pm_payload m) = ?P"
        "u + text_size ?k + unat (pm_value_payload_used m) \<le> ?P"
      using c room P kb by simp_all
    let ?m = "m\<lparr>pm_payload := memcpy_at (pm_payload m) u (bytes_of ?k), pm_payload_used := of_nat (u + text_size ?k)\<rparr>"
    let ?ref = "\<lparr>offset_or_index = of_nat u, size_or_marker = of_nat (text_size ?k)\<rparr>"
    have "text_size ?k \<le> PackedMap_RemainingPayload T m"
      using pu c by (simp add: RemainingPayload_core[OF S])
    then have run: "PackedMap_StoreKey T m key = Inr (?m, ?ref)"
      using False pu by (simp add: PackedMap_StoreKey_def Let_def del: of_nat_add)
    have read: "take n (drop i (memcpy_at (pm_payload m) u (bytes_of ?k))) = take n (drop i (pm_payload m))"
      if "i + n \<le> u \<or> u + text_size ?k \<le> i" for i n
      using that memcpy_at_before[of i n u "pm_payload m"] memcpy_at_after[of u "bytes_of ?k" i "pm_payload m"] pu
      by (auto simp: text_size_bytes)
    have read_back: "take n (drop i (memcpy_at (pm_payload m) u (bytes_of ?k))) = take n (drop i (pm_payload m))"
      if "?P - unat (pm_value_payload_used m) \<le> i" for i n
      by (rule read) (use that pu in linarith)
    have grow: "pm_payload_used m \<le> of_nat (u + text_size ?k)"
      unfolding word_le_nat_alt using pu(1,2) by (simp del: of_nat_add)
    have "map_core T ?m xs (u + key_bytes T [?k]) (e + ext_count T [?k])"
      unfolding map_core_def
    proof (intro conjI allI impI)
      fix i assume i: "i < length xs"
      show "ref_stored T ?m (pm_key_refs ?m ! i) (fst (xs ! i))"
        by (rule ref_stored_mono[of T m]) (use c i pu read grow in \<open>auto simp del: of_nat_add\<close>)
      show "value_stored T ?m i (snd (xs ! i))"
        by (rule value_stored_mono[of T m]) (use c i read_back in auto)
    qed (use c pu kb in \<open>simp_all add: memcpy_at_length text_size_bytes del: of_nat_add\<close>)
    moreover have "ref_stored T ?m ?ref ?k"
      using False pu memcpy_at_read[of u "bytes_of ?k" "pm_payload m"]
      by (simp add: ref_stored_def text_size_bytes del: of_nat_add)
    ultimately show thesis using run by (intro that[of ?m ?ref]) (simp_all del: of_nat_add)
  qed
qed

lemma ConstructValue_core:
  assumes S: "PackedMap_static_assert T" and core: "map_core T m xs u e" and n: "length xs < PackedMap_kCapacity T"
    and ref: "ref_stored T m ref k"
  obtains m' where "PackedMap_ConstructValue T m value budget = Inr m'" "map_core T m' xs u e"
    "value_stored T m' (length xs) value" "ref_stored T m' ref k"
    "unat (pm_value_payload_used m') \<le> max (unat (pm_value_payload_used m)) budget"
proof -
  let ?P = "PackedMap_kPayloadBytes T"
  have P: "?P < 65535" using S by (simp add: PackedMap_static_assert_def kExternalKeyMarker_def)
  note c = core[unfolded map_core_def]
  show thesis
  proof (cases "PackedMap_CanStoreValueInline T m value budget")
    case True
    let ?v = "unat (pm_value_payload_used m) + text_size value"
    let ?off = "?P - ?v"
    have v: "u + ?v \<le> ?P" "?v \<le> budget" "?v \<le> 65535" "?off + text_size value \<le> ?P"
        "?off + text_size value = ?P - unat (pm_value_payload_used m)"
      using True c P RemainingPayload_core[OF S, of m]
      by (auto simp: PackedMap_CanStoreValueInline_def split: if_splits)
    let ?m = "m\<lparr>pm_value_payload_used := of_nat ?v, pm_payload := memcpy_at (pm_payload m) ?off (bytes_of value),
        pm_values := (pm_values m)[length xs := Some (In_Payload ?off (text_size value))]\<rparr>"
    have run: "PackedMap_ConstructValue T m value budget = Inr ?m"
      using True c n v(3) by (simp add: PackedMap_ConstructValue_def Let_def del: of_nat_add)
    have read: "take n (drop i (memcpy_at (pm_payload m) ?off (bytes_of value))) = take n (drop i (pm_payload m))"
      if "i + n \<le> u \<or> ?P - unat (pm_value_payload_used m) \<le> i" for i n
      using that memcpy_at_before[of i n ?off "pm_payload m"] memcpy_at_after[of ?off "bytes_of value" i "pm_payload m"] v c
      by (auto simp: text_size_bytes)
    have grow: "pm_value_payload_used m \<le> of_nat ?v" unfolding word_le_nat_alt using v(3) by (simp del: of_nat_add)
    have core': "map_core T ?m xs u e"
      unfolding map_core_def
    proof (intro conjI allI impI)
      fix i assume i: "i < length xs"
      show "ref_stored T ?m (pm_key_refs ?m ! i) (fst (xs ! i))"
        by (rule ref_stored_mono[of T m]) (use c i read in auto)
      show "value_stored T ?m i (snd (xs ! i))"
        by (rule value_stored_mono[of T m]) (use c i read grow in \<open>auto simp del: of_nat_add\<close>)
    qed (use c v in \<open>simp_all add: memcpy_at_length text_size_bytes del: of_nat_add\<close>)
    moreover have "value_stored T ?m (length xs) value"
      using c n v memcpy_at_read[of ?off "bytes_of value" "pm_payload m"]
      by (simp add: value_stored_def text_size_bytes del: of_nat_add)
    moreover have "ref_stored T ?m ref k"
      by (rule ref_stored_mono[OF ref]) (use c read in auto)
    ultimately show thesis using run v by (intro that[of ?m]) (simp_all del: of_nat_add)
  next
    case False
    let ?m = "m\<lparr>pm_values := (pm_values m)[length xs := Some (Held value)], pm_external_value_count :=
        (if text_size value > kInlineCapacity then pm_external_value_count m + 1 else pm_external_value_count m)\<rparr>"
    have run: "PackedMap_ConstructValue T m value budget = Inr ?m"
      using False c n by (simp add: PackedMap_ConstructValue_def)
    have "map_core T ?m xs u e"
      unfolding map_core_def
    proof (intro conjI allI impI)
      fix i assume i: "i < length xs"
      show "ref_stored T ?m (pm_key_refs ?m ! i) (fst (xs ! i))"
        by (rule ref_stored_mono[of T m]) (use c i in auto)
      show "value_stored T ?m i (snd (xs ! i))"
        by (rule value_stored_mono[of T m]) (use c i in auto)
    qed (use c in simp_all)
    moreover have "value_stored T ?m (length xs) value" using c n by (simp add: value_stored_def)
    moreover have "ref_stored T ?m ref k" by (rule ref_stored_mono[OF ref]) auto
    ultimately show thesis using run by (intro that[of ?m]) simp_all
  qed
qed

lemma ConstructBack_rep:
  assumes S: "PackedMap_static_assert T" and rep: "map_rep T m xs" and fits: "map_fits T (map fst xs @ [ps_text key])"
    and room: "key_bytes T (map fst xs @ [ps_text key]) + unat (pm_value_payload_used m) \<le> PackedMap_kPayloadBytes T"
  obtains m' where "PackedMap_ConstructBack T m key val budget = Inr m'" "map_rep T m' (xs @ [(ps_text key, val)])"
    "unat (pm_value_payload_used m') \<le> max (unat (pm_value_payload_used m)) budget"
proof -
  have core: "map_core T m xs (key_bytes T (map fst xs)) (ext_count T (map fst xs))" using rep by (simp add: map_rep_def)
  have n: "length xs < PackedMap_kCapacity T" "PackedMap_kCapacity T \<le> 65535"
    using fits S by (simp_all add: map_fits_def keys_fit_def PackedMap_static_assert_def)
  have ext: "ext_count T (map fst xs) = 0 \<or> \<not> UsesExternalKey (PackedMap_kPayloadBytes T) (ps_text key)"
    using ext_count_le[OF fits] by (auto simp: ext_count_def)
  obtain m1 ref where m1: "PackedMap_StoreKey T m key = Inr (m1, ref)"
      "map_core T m1 xs (key_bytes T (map fst xs) + key_bytes T [ps_text key]) (ext_count T (map fst xs) + ext_count T [ps_text key])"
      "ref_stored T m1 ref (ps_text key)" "pm_value_payload_used m1 = pm_value_payload_used m"
    by (rule StoreKey_core[OF S core ext]) (use room in simp_all)
  obtain m2 where m2: "PackedMap_ConstructValue T m1 val budget = Inr m2"
      "map_core T m2 xs (key_bytes T (map fst xs) + key_bytes T [ps_text key]) (ext_count T (map fst xs) + ext_count T [ps_text key])"
      "value_stored T m2 (length xs) val" "ref_stored T m2 ref (ps_text key)"
      "unat (pm_value_payload_used m2) \<le> max (unat (pm_value_payload_used m1)) budget"
    by (rule ConstructValue_core[OF S m1(2) n(1) m1(3)])
  note c = m2(2)[unfolded map_core_def]
  let ?m = "m2\<lparr>pm_key_refs := (pm_key_refs m2)[length xs := ref], pm_count := pm_count m2 + 1\<rparr>"
  have count: "pm_n m2 = length xs" "unat (pm_count m2 + 1) = Suc (length xs)"
  proof -
    show l: "pm_n m2 = length xs" using c by simp
    have "unat (pm_count m2) + unat (1 :: 16 word) < 2 ^ LENGTH(16)" using l n by simp
    then have "unat (pm_count m2 + 1) = unat (pm_count m2) + unat (1 :: 16 word)" by (rule unat_add_lem[THEN iffD1])
    with l show "unat (pm_count m2 + 1) = Suc (length xs)" by simp
  qed
  have run: "PackedMap_ConstructBack T m key val budget = Inr ?m"
    using CanInsert_rep[OF S rep, of "ps_text key"] fits core m1(1) m2(1) c n(1) count(1)
    by (simp add: PackedMap_ConstructBack_def map_core_def)
  have same: "ref_stored T ?m = ref_stored T m2" "value_stored T ?m = value_stored T m2"
    by (simp_all add: fun_eq_iff ref_stored_def value_stored_def)
  have "map_core T ?m (xs @ [(ps_text key, val)]) (key_bytes T (map fst (xs @ [(ps_text key, val)])))
      (ext_count T (map fst (xs @ [(ps_text key, val)])))"
    unfolding map_core_def same
  proof (intro conjI allI impI)
    fix i assume i: "i < length (xs @ [(ps_text key, val)])"
    show "ref_stored T m2 (pm_key_refs ?m ! i) (fst ((xs @ [(ps_text key, val)]) ! i))"
      using i c m2(4) n(1) by (cases "i = length xs") (auto simp: nth_append)
    show "value_stored T m2 i (snd ((xs @ [(ps_text key, val)]) ! i))"
      using i c m2(3) by (cases "i = length xs") (auto simp: nth_append)
  qed (use c count in simp_all)
  with fits have "map_rep T ?m (xs @ [(ps_text key, val)])" by (simp add: map_rep_def)
  with that run m2(5) m1(4) show thesis by simp
qed

text \<open>A loop of appends whose budget is what the keys of the whole result leave over.\<close>

lemma append_loop_rep:
  assumes S: "PackedMap_static_assert T"
    and "\<And>i. i \<in> set is \<Longrightarrow> \<exists>key. get_key i = Inr key \<and> ps_text key = fst (f i)"
    and "\<And>i. i \<in> set is \<Longrightarrow> get_value i = Inr (snd (f i))"
    and "map_rep T r ys" and "map_fits T (map fst (ys @ map f is))"
    and "key_bytes T (map fst (ys @ map f is)) + budget \<le> PackedMap_kPayloadBytes T"
    and "unat (pm_value_payload_used r) \<le> budget"
  shows "\<exists>r'. foldE (\<lambda>r i. bindE (get_key i) (\<lambda>key. bindE (get_value i) (\<lambda>value.
      PackedMap_ConstructBack T r key value budget))) r is = Inr r' \<and>
    map_rep T r' (ys @ map f is) \<and> unat (pm_value_payload_used r') \<le> budget"
  using assms(2-)
proof (induction "is" arbitrary: r ys)
  case (Cons i js)
  obtain key where key: "get_key i = Inr key" "ps_text key = fst (f i)" using Cons.prems(1)[of i] by auto
  have val: "get_value i = Inr (snd (f i))" using Cons.prems(2)[of i] by simp
  have fits: "map_fits T (map fst ys @ [ps_text key])"
    using Cons.prems(4) keys_fit_append[of _ _ "map fst ys @ [ps_text key]"] by (auto simp: map_fits_def key(2))
  have room: "key_bytes T (map fst ys @ [ps_text key]) + unat (pm_value_payload_used r) \<le> PackedMap_kPayloadBytes T"
    using Cons.prems(5,6) by (simp add: key(2)) (simp add: key_bytes_def)
  obtain r1 where r1: "PackedMap_ConstructBack T r key (snd (f i)) budget = Inr r1"
      "map_rep T r1 (ys @ [(ps_text key, snd (f i))])"
      "unat (pm_value_payload_used r1) \<le> max (unat (pm_value_payload_used r)) budget"
    by (rule ConstructBack_rep[OF S Cons.prems(3) fits room])
  have appended: "ys @ [(ps_text key, snd (f i))] = ys @ [f i]" by (simp add: key(2))
  show ?case
    using Cons.IH[of r1 "ys @ [f i]"] r1 Cons.prems key val unfolding appended by simp
qed simp

lemma budget_room:
  "n \<le> PackedMap_kPayloadBytes T \<Longrightarrow> n + PackedMap_ValueInlineBudgetForKeyBytes T n \<le> PackedMap_kPayloadBytes T"
  by (simp add: PackedMap_ValueInlineBudgetForKeyBytes_def)

lemma empty_value_bytes [simp]: "unat (pm_value_payload_used (PackedMap_empty T)) = 0"
  by (simp add: PackedMap_empty_def)

text \<open>The entries of a block, read through its own accessors.\<close>

definition PackedMap_list :: "packed_map \<Rightarrow> (packed_text \<times> packed_text) list" where
  "PackedMap_list m = map (\<lambda>i. (projr (PackedMap_KeyAtTransient m i), projr (PackedMap_ValueAt m i))) [0..<pm_n m]"

definition PackedMap_ok :: "nat \<Rightarrow> packed_map \<Rightarrow> bool" where
  "PackedMap_ok T m \<longleftrightarrow> map_rep T m (PackedMap_list m)"

text \<open>A class whose static assertions hold: the only ones that compile.\<close>

locale packed_map_class =
  fixes T :: nat
  assumes S: "PackedMap_static_assert T"
begin

lemma list_rep: "map_rep T m xs \<Longrightarrow> PackedMap_list m = xs"
proof -
  assume rep: "map_rep T m xs"
  then have "pm_n m = length xs" by (simp add: map_rep_def map_core_def)
  then show ?thesis
    using KeyAtTransient_rep[OF S rep] ValueAt_rep[OF rep]
    by (intro nth_equalityI) (simp_all add: PackedMap_list_def)
qed

lemma ok_rep: "map_rep T m xs \<Longrightarrow> PackedMap_ok T m \<and> PackedMap_list m = xs"
  by (simp add: list_rep PackedMap_ok_def)

lemma holds_rep: "m = Inr b \<Longrightarrow> map_rep T b xs \<Longrightarrow> holds (PackedMap_ok T) PackedMap_list m xs"
  using ok_rep by (simp add: holds_def)

lemma rep_n: "map_rep T m xs \<Longrightarrow> pm_n m = length xs"
  by (simp add: map_rep_def map_core_def)

lemma rep_used: "map_rep T m xs \<Longrightarrow> unat (pm_payload_used m) = key_bytes T (map fst xs)"
  by (simp add: map_rep_def map_core_def)

lemma rep_fits: "map_rep T m xs \<Longrightarrow> map_fits T (map fst xs)"
  by (simp add: map_rep_def)

text \<open>Where in the block a new key goes does not matter for the fit.\<close>

lemma fits_mset:
  assumes "map_fits T ks" "mset ls = mset ks"
  shows "map_fits T ls" "key_bytes T ls = key_bytes T ks"
proof -
  show "map_fits T ls"
    using keys_fit_subset[of _ _ ks ls] assms by (simp add: map_fits_def)
  show "key_bytes T ls = key_bytes T ks"
    unfolding key_bytes_def using assms(2) by (metis mset_map sum_mset_sum_list)
qed

lemma fits_insert:
  assumes "map_fits T (map fst xs @ [k])"
  shows "map_fits T (map fst (take i xs @ (k, v) # drop i xs))"
    and "key_bytes T (map fst (take i xs @ (k, v) # drop i xs)) = key_bytes T (map fst xs @ [k])"
proof -
  have "mset (take i xs @ (k, v) # drop i xs) = add_mset (k, v) (mset (take i xs @ drop i xs))"
    by (simp del: append_take_drop_id)
  then have "mset (map fst (take i xs @ (k, v) # drop i xs)) = mset (map fst xs @ [k])"
    unfolding append_take_drop_id mset_map by simp
  from fits_mset[OF assms this] show "map_fits T (map fst (take i xs @ (k, v) # drop i xs))"
      "key_bytes T (map fst (take i xs @ (k, v) # drop i xs)) = key_bytes T (map fst xs @ [k])" .
qed

text \<open>Copying a range of a block after some entries of the result.\<close>

lemma copy_range_rep:
  assumes rep: "map_rep T m xs" and "map_rep T r ys" and "\<And>i. i \<in> set is \<Longrightarrow> i < length xs"
    and "map_fits T (map fst (ys @ map ((!) xs) is))"
    and "key_bytes T (map fst (ys @ map ((!) xs) is)) + budget \<le> PackedMap_kPayloadBytes T"
    and "unat (pm_value_payload_used r) \<le> budget"
  shows "\<exists>r'. PackedMap_copy_range T m budget r is = Inr r' \<and> map_rep T r' (ys @ map ((!) xs) is) \<and>
    unat (pm_value_payload_used r') \<le> budget"
  unfolding PackedMap_copy_range_def
  by (rule append_loop_rep[OF S _ _ assms(2,4,5,6)])
    (use assms(3) KeyAt_rep[OF S rep] ValueAt_rep[OF rep] in auto)

lemma FromSortedEntries_rep:
  assumes "map_fits T (map fst xs)"
  shows "holds (PackedMap_ok T) PackedMap_list (PackedMap_FromSortedEntries T xs) xs"
proof -
  have sum: "foldl (\<lambda>n key. n + PackedMap_InlineKeyBytes T key) n ks = n + key_bytes T ks" for n ks
    by (induction ks arbitrary: n) (simp_all add: InlineKeyBytes_eq key_bytes_def)
  let ?b = "PackedMap_ValueInlineBudgetForEntries T (map fst xs)"
  have "\<exists>r'. foldE (\<lambda>r i. bindE (Inr (Owned (fst i))) (\<lambda>key. bindE (Inr (snd i)) (\<lambda>value.
      PackedMap_ConstructBack T r key value ?b))) (PackedMap_empty T) xs = Inr r' \<and>
      map_rep T r' ([] @ map id xs) \<and> unat (pm_value_payload_used r') \<le> ?b"
    by (rule append_loop_rep[OF S _ _ map_rep_empty])
      (use assms budget_room[OF map_fits_bytes[OF assms]] sum[of 0] in
        \<open>simp_all add: PackedMap_ValueInlineBudgetForEntries_def\<close>)
  then obtain r where "foldE (\<lambda>r e. PackedMap_ConstructBack T r (Owned (fst e)) (snd e) ?b) (PackedMap_empty T) xs = Inr r"
      "map_rep T r xs" by auto
  moreover have "length xs \<le> PackedMap_kCapacity T" using assms by (simp add: map_fits_def keys_fit_def)
  ultimately show ?thesis by (intro holds_rep[of _ r]) (simp_all add: PackedMap_FromSortedEntries_def Let_def)
qed

lemma copy_rep:
  assumes "map_rep T m xs"
  shows "holds (PackedMap_ok T) PackedMap_list (PackedMap_copy T m) xs"
proof -
  let ?b = "PackedMap_ValueInlineBudgetForKeyBytes T (key_bytes T (map fst xs))"
  have "\<exists>r. PackedMap_copy_range T m ?b (PackedMap_empty T) [0..<length xs] = Inr r \<and>
      map_rep T r ([] @ map ((!) xs) [0..<length xs]) \<and> unat (pm_value_payload_used r) \<le> ?b"
    by (rule copy_range_rep[OF assms map_rep_empty])
      (use rep_fits[OF assms] budget_room[OF map_fits_bytes[OF rep_fits[OF assms]]] in \<open>simp_all add: map_nth\<close>)
  then show ?thesis
    by (auto intro!: holds_rep simp: map_nth PackedMap_copy_def PackedMap_CopyFrom_def PackedMap_copy_range_def Let_def
        rep_n[OF assms] rep_used[OF assms])
qed

lemma WithInserted_rep:
  assumes rep: "map_rep T m xs" and fits: "map_fits T (map fst xs @ [k])" and i: "i \<le> length xs"
    and full: "\<not> PackedMap_Full T m"
  shows "holds (PackedMap_ok T) PackedMap_list (PackedMap_WithInserted T m i k v) (take i xs @ (k, v) # drop i xs)"
proof -
  let ?b = "PackedMap_ValueInlineBudgetForKeyBytes T (key_bytes T (map fst xs) + PackedMap_InlineKeyBytes T k)"
  let ?ys = "take i xs @ (k, v) # drop i xs"
  note perm = fits_insert[OF fits, of i v]
  have room: "key_bytes T (map fst ?ys) + ?b \<le> PackedMap_kPayloadBytes T"
    unfolding perm(2) using budget_room[of "key_bytes T (map fst xs @ [k])" T] map_fits_bytes[OF fits]
    by (simp add: InlineKeyBytes_eq)
  have pre: "map_fits T (map fst (take i xs))" "map_fits T (map fst (take i xs) @ [k])"
    using perm(1) keys_fit_append[of _ _ "map fst (take i xs)" "k # map fst (drop i xs)"]
      keys_fit_append[of _ _ "map fst (take i xs) @ [k]" "map fst (drop i xs)"] by (simp_all add: map_fits_def)
  have take: "map ((!) xs) [0..<i] = take i xs" using i by (simp add: map_nth_range)
  have rest: "map ((!) xs) [i..<length xs] = drop i xs" by (simp add: map_nth_range)
  obtain r1 where r1: "PackedMap_copy_range T m ?b (PackedMap_empty T) [0..<i] = Inr r1" "map_rep T r1 (take i xs)"
      "unat (pm_value_payload_used r1) \<le> ?b"
    using copy_range_rep[OF rep map_rep_empty, of "[0..<i]" ?b] i pre(1) room unfolding take by auto
  obtain r2 where r2: "PackedMap_ConstructBack T r1 (Owned k) v ?b = Inr r2" "map_rep T r2 (take i xs @ [(k, v)])"
      "unat (pm_value_payload_used r2) \<le> max (unat (pm_value_payload_used r1)) ?b"
    by (rule ConstructBack_rep[OF S r1(2), where key = "Owned k" and val = v and budget = ?b])
      (use pre(2) room r1(3) in \<open>auto simp: key_bytes_def\<close>)
  have "\<exists>r3. PackedMap_copy_range T m ?b r2 [i..<length xs] = Inr r3 \<and>
      map_rep T r3 ((take i xs @ [(k, v)]) @ map ((!) xs) [i..<length xs]) \<and> unat (pm_value_payload_used r3) \<le> ?b"
    by (rule copy_range_rep[OF rep r2(2)]) (use r2(3) r1(3) perm(1) room in \<open>simp_all add: rest\<close>)
  then obtain r3 where "PackedMap_copy_range T m ?b r2 [i..<length xs] = Inr r3" "map_rep T r3 ?ys"
    by (auto simp: rest)
  with r1(1) r2(1) full i fits show ?thesis
    by (intro holds_rep[of _ r3]) (simp_all add: PackedMap_WithInserted_def CanInsert_rep[OF S rep] rep_n[OF rep]
        rep_used[OF rep] Let_def)
qed

lemma WithUpdated_rep:
  assumes rep: "map_rep T m xs" and i: "i < length xs"
  shows "holds (PackedMap_ok T) PackedMap_list (PackedMap_WithUpdated T m i v) (xs[i := (fst (xs ! i), v)])"
proof -
  let ?b = "PackedMap_ValueInlineBudgetForKeyBytes T (key_bytes T (map fst xs))"
  let ?f = "\<lambda>j. (fst (xs ! j), if j = i then v else snd (xs ! j))"
  have ys: "map ?f [0..<length xs] = xs[i := (fst (xs ! i), v)]"
    using i by (intro nth_equalityI) (auto simp: nth_list_update)
  have keys: "map fst (map ?f [0..<length xs]) = map fst xs"
    by (intro nth_equalityI) simp_all
  have "\<exists>r. foldE (\<lambda>r j. bindE (PackedMap_BorrowedKeyAt m j) (\<lambda>key.
      bindE (if j = i then Inr v else PackedMap_ValueAt m j) (\<lambda>w. PackedMap_ConstructBack T r key w ?b)))
      (PackedMap_empty T) [0..<length xs] = Inr r \<and>
      map_rep T r ([] @ map ?f [0..<length xs]) \<and> unat (pm_value_payload_used r) \<le> ?b"
    by (rule append_loop_rep[OF S _ _ map_rep_empty])
      (use KeyAt_rep[OF S rep] ValueAt_rep[OF rep] rep_fits[OF rep] keys budget_room[OF map_fits_bytes[OF rep_fits[OF rep]]] in simp_all)
  then show ?thesis
    using i ys by (auto intro!: holds_rep simp: PackedMap_WithUpdated_def PackedMap_CanUpdate_def Let_def
        rep_n[OF rep] rep_used[OF rep])
qed

lemma ref_bytes:
  assumes "map_rep T m xs" "i < length xs"
  shows "(if KeyRefIsExternal (pm_key_refs m ! i) then 0 else unat (size_or_marker (pm_key_refs m ! i))) =
    key_bytes T [fst (xs ! i)]"
proof -
  have "ref_stored T m (pm_key_refs m ! i) (fst (xs ! i))" using assms by (simp add: map_rep_def map_core_def)
  then show ?thesis
    using S by (auto simp: ref_stored_def key_bytes_def inline_bytes_def KeyRefIsExternal_def UsesExternalKey_def
        PackedMap_static_assert_def split: if_splits)
qed

lemma WithErased_rep:
  assumes rep: "map_rep T m xs" and i: "i < length xs"
  shows "holds (PackedMap_ok T) PackedMap_list (PackedMap_WithErased T m i) (take i xs @ drop (Suc i) xs)"
proof -
  let ?ys = "take i xs @ drop (Suc i) xs"
  let ?b = "PackedMap_ValueInlineBudgetForKeyBytes T (key_bytes T (map fst xs) - key_bytes T [fst (xs ! i)])"
  have xs: "xs = take i xs @ xs ! i # drop (Suc i) xs" using i by (rule list_split_at)
  have bytes: "key_bytes T (map fst xs) = key_bytes T (map fst ?ys) + key_bytes T [fst (xs ! i)]"
    by (subst (1) xs) (simp add: key_bytes_def)
  have sub: "mset (map fst ?ys) \<subseteq># mset (map fst xs)"
    by (subst (3) xs) simp
  have fits: "map_fits T (map fst ?ys)"
    using keys_fit_subset[OF _ sub] rep_fits[OF rep] by (simp add: map_fits_def)
  note get = map_nth_skip[OF i]
  have "\<exists>r. PackedMap_copy_range T m ?b (PackedMap_empty T) (filter (\<lambda>j. j \<noteq> i) [0..<length xs]) = Inr r \<and>
      map_rep T r ([] @ map ((!) xs) (filter (\<lambda>j. j \<noteq> i) [0..<length xs])) \<and> unat (pm_value_payload_used r) \<le> ?b"
  proof (rule copy_range_rep[OF rep map_rep_empty])
    show "key_bytes T (map fst ([] @ map ((!) xs) (filter (\<lambda>j. j \<noteq> i) [0..<length xs]))) + ?b \<le> PackedMap_kPayloadBytes T"
      unfolding get using budget_room[OF map_fits_bytes[OF fits]] bytes by simp
  qed (use fits get in auto)
  moreover have "i < length (pm_key_refs m)"
    using rep i rep_fits[OF rep] by (simp add: map_rep_def map_core_def map_fits_def keys_fit_def)
  ultimately show ?thesis
    using i by (auto intro!: holds_rep simp: get PackedMap_WithErased_def Let_def ref_bytes[OF rep i]
        rep_n[OF rep] rep_used[OF rep])
qed

lemma CanMerge_rep:
  assumes "map_rep T a xs" "map_rep T b ys"
  shows "PackedMap_CanMerge T a b = Inr (map_fits T (map fst xs @ map fst ys))"
proof -
  let ?P = "PackedMap_kPayloadBytes T"
  have init: "keys_fit (PackedMap_kCapacity T) ?P []" by (simp add: keys_fit_def)
  have n: "pm_n a = length (map fst xs)" "pm_n b = length (map fst ys)" using rep_n assms by simp_all
  have ka: "\<And>i. i < length (map fst xs) \<Longrightarrow> PackedMap_KeyAtTransient a i = Inr (map fst xs ! i)"
    using KeyAtTransient_rep[OF S assms(1)] by simp
  have kb: "\<And>i. i < length (map fst ys) \<Longrightarrow> PackedMap_KeyAtTransient b i = Inr (map fst ys ! i)"
    using KeyAtTransient_rep[OF S assms(2)] by simp
  show ?thesis
    using AccumulateBlockKeys_of[OF ka init] AccumulateBlockKeys_of[OF kb, of _ _ "map fst xs"] rep_fits[OF assms(1)]
    unfolding PackedMap_CanMerge_def n Let_def by (simp add: FitSummary_new_of[of ?P] map_fits_def)
qed

lemma Merged_rep:
  assumes a: "map_rep T a xs" and b: "map_rep T b ys" and fits: "map_fits T (map fst xs @ map fst ys)"
  shows "holds (PackedMap_ok T) PackedMap_list (PackedMap_Merged T a b) (xs @ ys)"
proof -
  let ?b = "PackedMap_ValueInlineBudgetForKeyBytes T (key_bytes T (map fst xs) + key_bytes T (map fst ys))"
  have room: "key_bytes T (map fst xs) + key_bytes T (map fst ys) + ?b \<le> PackedMap_kPayloadBytes T"
    using budget_room map_fits_bytes[OF fits] by simp
  obtain r1 where r1: "PackedMap_copy_range T a ?b (PackedMap_empty T) [0..<length xs] = Inr r1" "map_rep T r1 xs"
      "unat (pm_value_payload_used r1) \<le> ?b"
    using copy_range_rep[OF a map_rep_empty, of "[0..<length xs]" ?b] rep_fits[OF a] room by (auto simp: map_nth)
  obtain r2 where r2: "PackedMap_copy_range T b ?b r1 [0..<length ys] = Inr r2" "map_rep T r2 (xs @ ys)"
    using copy_range_rep[OF b r1(2), of "[0..<length ys]" ?b] r1(3) fits room by (auto simp: map_nth)
  with r1(1) fits show ?thesis
    by (intro holds_rep[of _ r2]) (simp_all add: PackedMap_Merged_def CanMerge_rep[OF a b] Let_def
        rep_n[OF a] rep_n[OF b] rep_used[OF a] rep_used[OF b])
qed

lemma entry_loop:
  assumes rep: "map_rep T m xs" and "j \<le> length xs"
  shows "foldE (\<lambda>out i. bindE (bindE (PackedMap_OwnedKeyAt m i) (\<lambda>k. bindE (PackedMap_ValueAt m i) (\<lambda>v.
      Inr (ps_text k, v)))) (\<lambda>e. Inr (out @ [e]))) out [i..<j] = Inr (out @ drop i (take j xs))"
proof -
  have "bindE (PackedMap_OwnedKeyAt m l) (\<lambda>k. bindE (PackedMap_ValueAt m l) (\<lambda>v. Inr (ps_text k, v))) = Inr (xs ! l)"
    if "l \<in> set [i..<j]" for l
    using that assms(2) KeyAt_rep[OF S rep, of l] ValueAt_rep[OF rep, of l]
    by (simp add: PackedMap_OwnedKeyAt_def del: bindE_eq_Inr)
  then show ?thesis
    using collect_loop[of "[i..<j]" "\<lambda>i. bindE (PackedMap_OwnedKeyAt m i) (\<lambda>k. bindE (PackedMap_ValueAt m i) (\<lambda>v.
      Inr (ps_text k, v)))" "(!) xs" out] assms(2)
    by (simp add: map_nth_range del: bindE_eq_Inr)
qed

lemma AppendTo_rep: "map_rep T m xs \<Longrightarrow> PackedMap_AppendTo m out = Inr (out @ xs)"
  using entry_loop[of m xs "length xs" out 0] by (simp add: PackedMap_AppendTo_def rep_n)

lemma Pack_holds: "holds_all (PackedMap_ok T) PackedMap_list (PackedMap_PackSortedEntriesIntoBlocks T xs) xs"
  unfolding PackedMap_PackSortedEntriesIntoBlocks_def
  by (rule PackEntries_holds[OF PackedMap_kCapacity_pos]) (rule FromSortedEntries_rep, simp add: map_fits_def)

lemma SplitWithInsertedBlocks_rep:
  assumes rep: "map_rep T m xs" and i: "i \<le> length xs"
  shows "holds_all (PackedMap_ok T) PackedMap_list (PackedMap_SplitWithInsertedBlocks T m i k v)
    (take i xs @ (k, v) # drop i xs)"
proof -
  have "PackedMap_inserted_entries m i k v = Inr (take i xs @ (k, v) # drop i xs)"
    using entry_loop[OF rep i, of "[]" 0] entry_loop[OF rep order_refl, of "take i xs @ [(k, v)]" i]
    by (simp add: PackedMap_inserted_entries_def rep_n[OF rep] Let_def)
  then show ?thesis
    using i Pack_holds by (simp add: PackedMap_SplitWithInsertedBlocks_def rep_n[OF rep] del: bindE_eq_Inr)
qed

lemma LowerBound_rep:
  assumes rep: "map_rep T m xs" and lt: "strict_weak_order lt" "sorted_entries lt xs"
  shows "PackedMap_LowerBound lt m k = Inr (length (lowers lt k xs))"
  unfolding PackedMap_LowerBound_def rep_n[OF rep]
  by (rule strict_weak_order.lower_bound_sorted[OF lt])
    (simp add: KeyAtTransient_rep[OF S rep] del: bindE_eq_Inr)

lemma FindValue_rep:
  assumes rep: "map_rep T m xs" and lt: "strict_weak_order lt" "sorted_entries lt xs"
  shows "PackedMap_FindValue lt m k = Inr (om_find lt xs k)"
proof -
  let ?n = "length (lowers lt k xs)"
  note found = strict_weak_order.find_at_lower_bound[OF lt, of k]
  show ?thesis
  proof (cases "?n = length xs")
    case False
    then have n: "?n < length xs" using found(1) by simp
    show ?thesis
      using found(3)[OF n] KeyAtTransient_rep[OF S rep n] ValueAt_rep[OF rep n] False
      by (simp add: PackedMap_FindValue_def LowerBound_rep[OF assms] rep_n[OF rep] del: bindE_eq_Inr)
  qed (use found(2) in \<open>simp add: PackedMap_FindValue_def LowerBound_rep[OF assms] rep_n[OF rep]\<close>)
qed

end

section \<open>The block contract\<close>

definition PackedMap_ops :: "nat \<Rightarrow> (packed_text, packed_text, packed_map) block_ops" where
  "PackedMap_ops T = \<lparr>
     bo_copy = PackedMap_copy T,
     bo_from_sorted = PackedMap_FromSortedEntries T,
     bo_pack = PackedMap_PackSortedEntriesIntoBlocks T,
     bo_count = PackedMap_Count,
     bo_full = PackedMap_Full T,
     bo_can_insert = (\<lambda>m k v. PackedMap_CanInsert T m k),
     bo_can_update = (\<lambda>m i v. PackedMap_CanUpdate m i),
     bo_key_at = PackedMap_KeyAtTransient,
     bo_value_at = PackedMap_ValueAt,
     bo_lower_bound = PackedMap_LowerBound,
     bo_find_value = PackedMap_FindValue,
     bo_with_inserted = PackedMap_WithInserted T,
     bo_with_updated = PackedMap_WithUpdated T,
     bo_with_erased = PackedMap_WithErased T,
     bo_split_inserted = PackedMap_SplitWithInsertedBlocks T,
     bo_split_updated = PackedMap_SplitWithUpdatedBlocks T,
     bo_can_merge = PackedMap_CanMerge T,
     bo_merged = PackedMap_Merged T,
     bo_append_to = PackedMap_AppendTo\<rparr>"

lemma PackedMap_okD: "PackedMap_ok T m \<Longrightarrow> map_rep T m (PackedMap_list m)"
  by (simp add: PackedMap_ok_def)

lemma map_fits_one: "map_fits T [k]"
  unfolding map_fits_def by (rule keys_fit_single[OF PackedMap_kCapacity_pos])

context packed_map_class
begin

lemma block_laws: "zip_block (PackedMap_ops T) (PackedMap_ok T) PackedMap_list"
proof (unfold_locales, goal_cases)
  case (1 b)
  then show ?case using copy_rep[OF PackedMap_okD] by (simp add: PackedMap_ops_def)
next
  case (2 k v)
  then show ?case using FromSortedEntries_rep[of "[(k, v)]"] by (simp add: PackedMap_ops_def map_fits_one)
next
  case (3 xs)
  then show ?case using Pack_holds by (simp add: PackedMap_ops_def)
next
  case (4 b)
  then show ?case using rep_n[OF PackedMap_okD] by (simp add: PackedMap_ops_def PackedMap_Count_def)
next
  case (5 b k v)
  then show ?case using CanInsert_rep[OF S PackedMap_okD] by (simp add: PackedMap_ops_def)
next
  case (6 b i v)
  then show ?case using rep_n[OF PackedMap_okD] by (simp add: PackedMap_ops_def PackedMap_CanUpdate_def)
next
  case (7 b i)
  then show ?case using KeyAtTransient_rep[OF S PackedMap_okD] by (simp add: PackedMap_ops_def)
next
  case (8 b i)
  then show ?case using ValueAt_rep[OF PackedMap_okD] by (simp add: PackedMap_ops_def)
next
  case (9 lt b k)
  then show ?case using LowerBound_rep[OF PackedMap_okD] by (simp add: PackedMap_ops_def)
next
  case (10 lt b k)
  then show ?case using FindValue_rep[OF PackedMap_okD] by (simp add: PackedMap_ops_def)
next
  case (11 b i k v)
  then have "map_fits T (map fst (PackedMap_list b) @ [k])"
    using CanInsert_rep[OF S PackedMap_okD[OF 11(1)], of k] by (simp add: PackedMap_ops_def)
  with 11 show ?case using WithInserted_rep[OF PackedMap_okD] by (simp add: PackedMap_ops_def)
next
  case (12 b i v)
  then show ?case using WithUpdated_rep[OF PackedMap_okD] by (simp add: PackedMap_ops_def)
next
  case (13 b i)
  then show ?case using WithErased_rep[OF PackedMap_okD] by (simp add: PackedMap_ops_def)
next
  case (14 b i k v)
  then show ?case using SplitWithInsertedBlocks_rep[OF PackedMap_okD] by (simp add: PackedMap_ops_def)
next
  case (15 a b)
  then show ?case using CanMerge_rep[OF PackedMap_okD PackedMap_okD] by (simp add: PackedMap_ops_def)
next
  case (16 a b)
  then have "map_fits T (map fst (PackedMap_list a) @ map fst (PackedMap_list b))"
    using CanMerge_rep[OF PackedMap_okD PackedMap_okD, of a b] by (simp add: PackedMap_ops_def)
  with 16 show ?case using Merged_rep[OF PackedMap_okD PackedMap_okD] by (simp add: PackedMap_ops_def)
next
  case (17 b out)
  then show ?case using AppendTo_rep[OF PackedMap_okD] by (simp add: PackedMap_ops_def)
qed

end

end
