(* ===== verification/Zip_List_Key_Set.thy ===== *)
theory Zip_List_Key_Set
  imports Zip_List_Packed_Correct
begin

text \<open>
  \<open>ZipList<PackedString, UnitValue, TargetBytes>\<close> (zip_list.h, lines 1076-1580): the block of the
  string set.  There are no values; each key has a slot with a \<open>PackedString\<close> that points into the
  payload, where the keys are stored one after the other, or, when the key is longer than the
  payload, owns its bytes.  The theory has the definitions, the representation invariant, and the
  proof of the block contract.
\<close>

section \<open>Compile-time constants\<close>

(* zip_list.h:1391-1393 kUsableBytes *)
definition PackedSet_kUsableBytes :: "nat \<Rightarrow> nat" where
  "PackedSet_kUsableBytes T = (let fixed_bytes = 8 * 2 in if T > fixed_bytes then T - fixed_bytes else 1)"

(* zip_list.h:1395-1398 ComputeCapacity *)
definition PackedSet_kCapacity :: "nat \<Rightarrow> nat" where
  "PackedSet_kCapacity T = (let raw = T div 64 in if raw = 0 then 1 else raw)"

(* zip_list.h:1400-1403 ComputePayloadBytes *)
definition PackedSet_kPayloadBytes :: "nat \<Rightarrow> nat" where
  "PackedSet_kPayloadBytes T =
     (let slot_bytes = PackedSet_kCapacity T * 16 in
      if PackedSet_kUsableBytes T > slot_bytes then PackedSet_kUsableBytes T - slot_bytes else 1)"

section \<open>State\<close>

(* zip_list.h:1576-1579 key_storage_ *)
record packed_set =
  pk_key_storage :: "text_slot option list"
  pk_payload :: string
  pk_count :: nat
  pk_payload_used :: nat

(* zip_list.h:1083-1083 ZipList *)
definition PackedSet_empty :: "nat \<Rightarrow> packed_set" where
  "PackedSet_empty T = \<lparr>pk_key_storage = replicate (PackedSet_kCapacity T) None,
     pk_payload = replicate (PackedSet_kPayloadBytes T) (CHR 0x00), pk_count = 0, pk_payload_used = 0\<rparr>"

section \<open>Reading\<close>

(* zip_list.h:1167-1169 KeyAt *)
definition PackedSet_KeyAt :: "packed_set \<Rightarrow> nat \<Rightarrow> packed_text res" where
  "PackedSet_KeyAt m index =
     (if index < length (pk_key_storage m) then
        (case pk_key_storage m ! index of
           None \<Rightarrow> Inl Undefined_Behaviour
         | Some (Held t) \<Rightarrow> Inr t
         | Some (In_Payload off sz) \<Rightarrow>
             if off + sz \<le> length (pk_payload m) then Inr (Packed_Text (take sz (drop off (pk_payload m))))
             else Inl Undefined_Behaviour)
      else Inl Undefined_Behaviour)"

(* zip_list.h:1171-1174 ValueAt *)
definition PackedSet_ValueAt :: "packed_set \<Rightarrow> nat \<Rightarrow> unit res" where
  "PackedSet_ValueAt m index = Inr ()"

(* zip_list.h:1134-1134 Count *)
definition PackedSet_Count :: "packed_set \<Rightarrow> nat" where
  "PackedSet_Count m = pk_count m"

(* zip_list.h:1418-1418 RemainingPayload *)
definition PackedSet_RemainingPayload :: "nat \<Rightarrow> packed_set \<Rightarrow> nat" where
  "PackedSet_RemainingPayload T m = (PackedSet_kPayloadBytes T + 2 ^ 64 - pk_payload_used m) mod 2 ^ 64"

(* zip_list.h:1140-1140 Full *)
definition PackedSet_Full :: "nat \<Rightarrow> packed_set \<Rightarrow> bool" where
  "PackedSet_Full T m \<longleftrightarrow> pk_count m = PackedSet_kCapacity T \<or> PackedSet_RemainingPayload T m = 0"

(* zip_list.h:1142-1153 CanInsert *)
definition PackedSet_CanInsert :: "nat \<Rightarrow> packed_set \<Rightarrow> packed_text \<Rightarrow> bool res" where
  "PackedSet_CanInsert T m key =
     (let cap = PackedSet_kCapacity T; P = PackedSet_kPayloadBytes T in
      if pk_count m = cap then Inr False
      else bindE (AccumulateBlockKeys cap P (PackedSet_KeyAt m) (pk_count m) (Some FitSummary_new)) (\<lambda>summary.
        case summary of None \<Rightarrow> Inr False
        | Some s \<Rightarrow> Inr (AccumulateKey cap P key s \<noteq> None)))"

(* zip_list.h:1155-1155 CanUpdate *)
definition PackedSet_CanUpdate :: "packed_set \<Rightarrow> nat \<Rightarrow> bool" where
  "PackedSet_CanUpdate m index \<longleftrightarrow> index < pk_count m"

(* zip_list.h:1176-1191 LowerBound *)
definition PackedSet_LowerBound :: "(packed_text \<Rightarrow> packed_text \<Rightarrow> bool) \<Rightarrow> packed_set \<Rightarrow> packed_text \<Rightarrow> nat res" where
  "PackedSet_LowerBound lt m key =
     LowerBound_loop (\<lambda>middle. bindE (PackedSet_KeyAt m middle) (\<lambda>k. Inr (lt k key))) 0 (pk_count m)"

(* zip_list.h:1193-1203 FindValue *)
definition PackedSet_FindValue ::
    "(packed_text \<Rightarrow> packed_text \<Rightarrow> bool) \<Rightarrow> packed_set \<Rightarrow> packed_text \<Rightarrow> unit option res" where
  "PackedSet_FindValue lt m key =
     bindE (PackedSet_LowerBound lt m key) (\<lambda>index.
     if index = pk_count m then Inr None
     else bindE (PackedSet_KeyAt m index) (\<lambda>found_key.
     if lt key found_key \<or> lt found_key key then Inr None else Inr (Some ())))"

(* zip_list.h:1380-1384 AppendTo *)
definition PackedSet_AppendTo :: "packed_set \<Rightarrow> (packed_text \<times> unit) list \<Rightarrow> (packed_text \<times> unit) list res" where
  "PackedSet_AppendTo m output =
     foldE (\<lambda>out i. bindE (bindE (PackedSet_KeyAt m i) (\<lambda>key. Inr (key, ()))) (\<lambda>e. Inr (out @ [e]))) output [0..<pk_count m]"

(* zip_list.h:1373-1378 ToVector *)
definition PackedSet_ToVector :: "packed_set \<Rightarrow> (packed_text \<times> unit) list res" where
  "PackedSet_ToVector m = PackedSet_AppendTo m []"

section \<open>Appending a key\<close>

text \<open>The answer has the bytes stored as the offset and size of a view of the payload.\<close>

(* zip_list.h:1491-1502 StoreBytes *)
definition PackedSet_StoreBytes :: "nat \<Rightarrow> packed_set \<Rightarrow> packed_text \<Rightarrow> (packed_set \<times> nat \<times> nat) res" where
  "PackedSet_StoreBytes T m text =
     (if text_size text > PackedSet_RemainingPayload T m
      then Inl (Logic_Error ''ZipList payload capacity exceeded'')
      else let off = pk_payload_used m in
        Inr (m\<lparr>pk_payload := (if text_size text \<noteq> 0 then memcpy_at (pk_payload m) off (bytes_of text) else pk_payload m),
               pk_payload_used := pk_payload_used m + text_size text\<rparr>, off, text_size text))"

text \<open>A borrowed string of length 0 is the empty inline string (packed_string.h, \<open>Borrowed\<close>).\<close>

(* zip_list.h:1504-1521 ConstructBack *)
definition PackedSet_ConstructBack :: "nat \<Rightarrow> packed_set \<Rightarrow> packed_text \<Rightarrow> packed_set res" where
  "PackedSet_ConstructBack T m key =
     (if pk_count m = PackedSet_kCapacity T then Inl (Logic_Error ''ZipList entries exceed capacity'')
      else bindE (PackedSet_CanInsert T m key) (\<lambda>can.
        if \<not> can then Inl (Logic_Error ''ZipList payload capacity exceeded'')
        else bindE (if UsesExternalKey (PackedSet_kPayloadBytes T) key then Inr (m, Held key)
               else bindE (PackedSet_StoreBytes T m key) (\<lambda>(m, off, sz).
                 Inr (m, if sz = 0 then Held key else In_Payload off sz))) (\<lambda>(m, slot).
          if pk_count m \<ge> length (pk_key_storage m) then Inl Undefined_Behaviour
          else Inr (m\<lparr>pk_key_storage := (pk_key_storage m)[pk_count m := Some slot], pk_count := pk_count m + 1\<rparr>))))"

text \<open>The loop that appends the keys of a range of another block.\<close>

definition PackedSet_copy_range :: "nat \<Rightarrow> packed_set \<Rightarrow> packed_set \<Rightarrow> nat list \<Rightarrow> packed_set res" where
  "PackedSet_copy_range T m result is =
     foldE (\<lambda>r i. bindE (PackedSet_KeyAt m i) (PackedSet_ConstructBack T r)) result is"

section \<open>Copying and moving\<close>

(* zip_list.h:1523-1532 CopyFrom *)
definition PackedSet_CopyFrom :: "nat \<Rightarrow> packed_set \<Rightarrow> packed_set \<Rightarrow> packed_set res" where
  "PackedSet_CopyFrom T this other = PackedSet_copy_range T other this [0..<pk_count other]"

(* zip_list.h:1085-1085 ZipList *)
definition PackedSet_copy :: "nat \<Rightarrow> packed_set \<Rightarrow> packed_set res" where
  "PackedSet_copy T other = PackedSet_CopyFrom T (PackedSet_empty T) other"

(* zip_list.h:1568-1574 Clear *)
definition PackedSet_Clear :: "packed_set \<Rightarrow> packed_set" where
  "PackedSet_Clear m = m\<lparr>
     pk_key_storage := fold (\<lambda>i ks. ks[i := None]) (rev [0..<pk_count m]) (pk_key_storage m),
     pk_count := 0, pk_payload_used := 0\<rparr>"

text \<open>A key that points into the payload of the source points to the same offset of the new one.\<close>

(* zip_list.h:1541-1553 MoveKeyFrom *)
definition PackedSet_MoveKeyFrom :: "packed_set \<times> packed_set \<Rightarrow> nat \<Rightarrow> (packed_set \<times> packed_set) res" where
  "PackedSet_MoveKeyFrom pair index =
     (case pair of (this, other) \<Rightarrow>
      if index < length (pk_key_storage other) \<and> index < length (pk_key_storage this) then
        (case pk_key_storage other ! index of
           None \<Rightarrow> Inl Undefined_Behaviour
         | Some (In_Payload off sz) \<Rightarrow>
             Inr (this\<lparr>pk_key_storage := (pk_key_storage this)[index := Some (In_Payload off sz)]\<rparr>,
                  other\<lparr>pk_key_storage := (pk_key_storage other)[index := None]\<rparr>)
         | Some (Held t) \<Rightarrow>
             Inr (this\<lparr>pk_key_storage := (pk_key_storage this)[index := Some (Held t)]\<rparr>,
                  other\<lparr>pk_key_storage := (pk_key_storage other)[index := None]\<rparr>))
      else Inl Undefined_Behaviour)"

(* zip_list.h:1555-1566 MoveFrom *)
definition PackedSet_MoveFrom :: "packed_set \<Rightarrow> packed_set \<Rightarrow> (packed_set \<times> packed_set) res" where
  "PackedSet_MoveFrom this other =
     (let this = this\<lparr>pk_payload := pk_payload other, pk_count := pk_count other,
                      pk_payload_used := pk_payload_used other\<rparr>
      in bindE (foldE PackedSet_MoveKeyFrom (this, other) [0..<pk_count this]) (\<lambda>(this, other).
         Inr (this, other\<lparr>pk_count := 0, pk_payload_used := 0\<rparr>)))"

(* zip_list.h:1089-1096 operator= *)
definition PackedSet_copy_assign :: "nat \<Rightarrow> packed_set \<Rightarrow> packed_set \<Rightarrow> packed_set res" where
  "PackedSet_copy_assign T this other = PackedSet_CopyFrom T (PackedSet_Clear this) other"

(* zip_list.h:1098-1105 operator= *)
definition PackedSet_move_assign :: "packed_set \<Rightarrow> packed_set \<Rightarrow> (packed_set \<times> packed_set) res" where
  "PackedSet_move_assign this other = PackedSet_MoveFrom (PackedSet_Clear this) other"

section \<open>Building and updating blocks\<close>

(* zip_list.h:1118-1128 FromSortedEntries *)
definition PackedSet_FromSortedEntries :: "nat \<Rightarrow> (packed_text \<times> unit) list \<Rightarrow> packed_set res" where
  "PackedSet_FromSortedEntries T entries =
     (if length entries > PackedSet_kCapacity T then Inl (Invalid_Argument ''ZipList entries exceed capacity'')
      else foldE (\<lambda>r e. PackedSet_ConstructBack T r (fst e)) (PackedSet_empty T) entries)"

(* zip_list.h:1130-1132 PackSortedEntriesIntoBlocks *)
definition PackedSet_PackSortedEntriesIntoBlocks :: "nat \<Rightarrow> (packed_text \<times> unit) list \<Rightarrow> packed_set list res" where
  "PackedSet_PackSortedEntriesIntoBlocks T entries =
     PackEntriesIntoBlocks (PackedSet_kCapacity T) (PackedSet_kPayloadBytes T) (PackedSet_FromSortedEntries T) entries"

(* zip_list.h:1210-1230 WithInserted *)
definition PackedSet_WithInserted :: "nat \<Rightarrow> packed_set \<Rightarrow> nat \<Rightarrow> packed_text \<Rightarrow> packed_set res" where
  "PackedSet_WithInserted T m index key =
     (if PackedSet_Full T m then Inl (Logic_Error ''ZipList is full'')
      else bindE (PackedSet_CanInsert T m key) (\<lambda>can.
        if \<not> can then Inl (Logic_Error ''ZipList payload capacity exceeded'')
        else if index > pk_count m then Inl (Out_Of_Range ''ZipList insert index out of range'')
        else bindE (PackedSet_copy_range T m (PackedSet_empty T) [0..<index]) (\<lambda>result.
             bindE (PackedSet_ConstructBack T result key) (\<lambda>result.
             PackedSet_copy_range T m result [index..<pk_count m]))))"

(* zip_list.h:1232-1245 WithUpdated *)
definition PackedSet_WithUpdated :: "nat \<Rightarrow> packed_set \<Rightarrow> nat \<Rightarrow> packed_set res" where
  "PackedSet_WithUpdated T m index =
     (if index \<ge> pk_count m then Inl (Out_Of_Range ''ZipList update index out of range'')
      else if \<not> PackedSet_CanUpdate m index then Inl (Logic_Error ''ZipList payload capacity exceeded'')
      else PackedSet_copy_range T m (PackedSet_empty T) [0..<pk_count m])"

text \<open>The first cut at which both sides fit.\<close>

(* zip_list.h:1258-1265 SplitWithUpdated *)
definition PackedSet_first_split ::
    "nat \<Rightarrow> (packed_text \<times> unit) list \<Rightarrow> string \<Rightarrow> (packed_set \<times> packed_set) res" where
  "PackedSet_first_split T entries message =
     (let cap = PackedSet_kCapacity T; P = PackedSet_kPayloadBytes T in
      case filter (\<lambda>split. EntriesFit cap P (take split entries) \<and> EntriesFit cap P (drop split entries))
             [1..<length entries] of
        [] \<Rightarrow> Inl (Logic_Error message)
      | split # _ \<Rightarrow>
          bindE (PackedSet_FromSortedEntries T (take split entries)) (\<lambda>left.
          bindE (PackedSet_FromSortedEntries T (drop split entries)) (\<lambda>right. Inr (left, right))))"

(* zip_list.h:1247-1268 SplitWithUpdated *)
definition PackedSet_SplitWithUpdated :: "nat \<Rightarrow> packed_set \<Rightarrow> nat \<Rightarrow> (packed_set \<times> packed_set) res" where
  "PackedSet_SplitWithUpdated T m index =
     (if index \<ge> pk_count m then Inl (Out_Of_Range ''ZipList split update index out of range'')
      else bindE (PackedSet_AppendTo m []) (\<lambda>entries.
        PackedSet_first_split T entries ''ZipList split update entries exceed packed capacity''))"

(* zip_list.h:1270-1281 SplitWithUpdatedBlocks *)
definition PackedSet_SplitWithUpdatedBlocks :: "nat \<Rightarrow> packed_set \<Rightarrow> nat \<Rightarrow> packed_set list res" where
  "PackedSet_SplitWithUpdatedBlocks T m index =
     (if index \<ge> pk_count m then Inl (Out_Of_Range ''ZipList split update index out of range'')
      else bindE (PackedSet_AppendTo m []) (PackedSet_PackSortedEntriesIntoBlocks T))"

(* zip_list.h:1283-1295 WithErased *)
definition PackedSet_WithErased :: "nat \<Rightarrow> packed_set \<Rightarrow> nat \<Rightarrow> packed_set res" where
  "PackedSet_WithErased T m index =
     (if index \<ge> pk_count m then Inl (Out_Of_Range ''ZipList erase index out of range'')
      else PackedSet_copy_range T m (PackedSet_empty T) (filter (\<lambda>i. i \<noteq> index) [0..<pk_count m]))"

text \<open>The keys of a block with one inserted, as a vector of entries.\<close>

(* zip_list.h:1303-1311 SplitWithInserted *)
definition PackedSet_inserted_entries :: "packed_set \<Rightarrow> nat \<Rightarrow> packed_text \<Rightarrow> (packed_text \<times> unit) list res" where
  "PackedSet_inserted_entries m index key =
     (let entry_at = (\<lambda>i. bindE (PackedSet_KeyAt m i) (\<lambda>k. Inr (k, ()))) in
      bindE (foldE (\<lambda>out i. bindE (entry_at i) (\<lambda>e. Inr (out @ [e]))) [] [0..<index]) (\<lambda>entries.
      foldE (\<lambda>out i. bindE (entry_at i) (\<lambda>e. Inr (out @ [e]))) (entries @ [(key, ())]) [index..<pk_count m]))"

(* zip_list.h:1297-1323 SplitWithInserted *)
definition PackedSet_SplitWithInserted :: "nat \<Rightarrow> packed_set \<Rightarrow> nat \<Rightarrow> packed_text \<Rightarrow> (packed_set \<times> packed_set) res" where
  "PackedSet_SplitWithInserted T m index key =
     (if index > pk_count m then Inl (Out_Of_Range ''ZipList split insert index out of range'')
      else bindE (PackedSet_inserted_entries m index key) (\<lambda>entries.
        PackedSet_first_split T entries ''ZipList split entries exceed packed capacity''))"

(* zip_list.h:1325-1341 SplitWithInsertedBlocks *)
definition PackedSet_SplitWithInsertedBlocks :: "nat \<Rightarrow> packed_set \<Rightarrow> nat \<Rightarrow> packed_text \<Rightarrow> packed_set list res" where
  "PackedSet_SplitWithInsertedBlocks T m index key =
     (if index > pk_count m then Inl (Out_Of_Range ''ZipList split insert index out of range'')
      else bindE (PackedSet_inserted_entries m index key) (PackedSet_PackSortedEntriesIntoBlocks T))"

(* zip_list.h:1343-1356 CanMerge *)
definition PackedSet_CanMerge :: "nat \<Rightarrow> packed_set \<Rightarrow> packed_set \<Rightarrow> bool res" where
  "PackedSet_CanMerge T left right =
     (let cap = PackedSet_kCapacity T; P = PackedSet_kPayloadBytes T in
      bindE (AccumulateBlockKeys cap P (PackedSet_KeyAt left) (pk_count left) (Some FitSummary_new)) (\<lambda>summary.
      bindE (AccumulateBlockKeys cap P (PackedSet_KeyAt right) (pk_count right) summary) (\<lambda>summary.
      Inr (summary \<noteq> None))))"

(* zip_list.h:1358-1371 Merged *)
definition PackedSet_Merged :: "nat \<Rightarrow> packed_set \<Rightarrow> packed_set \<Rightarrow> packed_set res" where
  "PackedSet_Merged T left right =
     bindE (PackedSet_CanMerge T left right) (\<lambda>can.
     if \<not> can then Inl (Logic_Error ''ZipList merged entries exceed capacity'')
     else bindE (PackedSet_copy_range T left (PackedSet_empty T) [0..<pk_count left]) (\<lambda>result.
          PackedSet_copy_range T right result [0..<pk_count right]))"

section \<open>The representation invariant\<close>

abbreviation set_fits :: "nat \<Rightarrow> packed_text list \<Rightarrow> bool" where
  "set_fits T ks \<equiv> keys_fit (PackedSet_kCapacity T) (PackedSet_kPayloadBytes T) ks"

text \<open>Slot \<open>i\<close> holds the key \<open>k\<close>: itself, or in the used front of the payload.\<close>

definition slot_stored :: "packed_set \<Rightarrow> nat \<Rightarrow> packed_text \<Rightarrow> bool" where
  "slot_stored m i k \<longleftrightarrow>
     pk_key_storage m ! i = Some (Held k) \<or>
     (\<exists>off. pk_key_storage m ! i = Some (In_Payload off (text_size k)) \<and>
        off + text_size k \<le> pk_payload_used m \<and> take (text_size k) (drop off (pk_payload m)) = bytes_of k)"

definition set_rep :: "nat \<Rightarrow> packed_set \<Rightarrow> packed_text list \<Rightarrow> bool" where
  "set_rep T m ks \<longleftrightarrow>
     length (pk_key_storage m) = PackedSet_kCapacity T \<and> length (pk_payload m) = PackedSet_kPayloadBytes T \<and>
     pk_count m = length ks \<and> pk_payload_used m = sum_list (map (inline_bytes (PackedSet_kPayloadBytes T)) ks) \<and>
     (\<forall>i < length ks. slot_stored m i (ks ! i)) \<and> set_fits T ks"

lemma PackedSet_kCapacity_pos: "1 \<le> PackedSet_kCapacity T"
  by (simp add: PackedSet_kCapacity_def Let_def)

lemma set_rep_empty: "set_rep T (PackedSet_empty T) []"
  by (simp add: set_rep_def PackedSet_empty_def keys_fit_def)

lemma set_rep_count: "set_rep T m ks \<Longrightarrow> pk_count m = length ks"
  by (simp add: set_rep_def)

lemma set_rep_fits: "set_rep T m ks \<Longrightarrow> set_fits T ks"
  by (simp add: set_rep_def)

lemma set_rep_used: "set_rep T m ks \<Longrightarrow> pk_payload_used m \<le> PackedSet_kPayloadBytes T"
  by (simp add: set_rep_def keys_fit_def)

lemma PackedSet_KeyAt_rep:
  assumes rep: "set_rep T m ks" and "i < length ks"
  shows "PackedSet_KeyAt m i = Inr (ks ! i)"
proof -
  have "slot_stored m i (ks ! i)" "i < length (pk_key_storage m)"
    using assms by (simp_all add: set_rep_def keys_fit_def)
  then show ?thesis
    using rep set_rep_used[OF rep] by (auto simp: PackedSet_KeyAt_def slot_stored_def set_rep_def)
qed

lemma PackedSet_CanInsert_rep:
  assumes "set_rep T m ks"
  shows "PackedSet_CanInsert T m k = Inr (set_fits T (ks @ [k]))"
proof -
  have fits: "set_fits T ks" and n: "pk_count m = length ks" using assms by (simp_all add: set_rep_def)
  have init: "keys_fit (PackedSet_kCapacity T) (PackedSet_kPayloadBytes T) []" by (simp add: keys_fit_def)
  show ?thesis
    using AccumulateBlockKeys_of[OF PackedSet_KeyAt_rep[OF assms] init] fits AccumulateKey_of[OF fits, of k]
    by (auto simp: PackedSet_CanInsert_def n Let_def FitSummary_new_of[of "PackedSet_kPayloadBytes T"] keys_fit_def)
qed

lemma wrap_minus: "a < b \<Longrightarrow> u \<le> a \<Longrightarrow> (a + b - u) mod b = a - (u :: nat)"
  by (metis add.commute diff_add_assoc less_imp_diff_less mod_add_self1 mod_less)

text \<open>Appending a key: earlier keys keep their bytes, because the new ones go behind them.\<close>

lemma PackedSet_ConstructBack_rep:
  assumes rep: "set_rep T m ks" and fits: "set_fits T (ks @ [k])" and T: "PackedSet_kPayloadBytes T < 2 ^ 64"
  shows "\<exists>m'. PackedSet_ConstructBack T m k = Inr m' \<and> set_rep T m' (ks @ [k])"
proof -
  let ?P = "PackedSet_kPayloadBytes T"
  let ?u = "pk_payload_used m"
  let ?slot = "if UsesExternalKey ?P k \<or> text_size k = 0 then Held k else In_Payload ?u (text_size k)"
  let ?payload = "if UsesExternalKey ?P k \<or> text_size k = 0 then pk_payload m else memcpy_at (pk_payload m) ?u (bytes_of k)"
  let ?m = "m\<lparr>pk_payload := ?payload, pk_payload_used := ?u + inline_bytes ?P k,
      pk_key_storage := (pk_key_storage m)[length ks := Some ?slot], pk_count := Suc (length ks)\<rparr>"
  have n: "length ks < PackedSet_kCapacity T" using fits by (simp add: keys_fit_def)
  have u: "?u + inline_bytes ?P k \<le> ?P" using fits rep by (simp add: keys_fit_def set_rep_def)
  have remaining: "PackedSet_RemainingPayload T m = ?P - ?u"
    unfolding PackedSet_RemainingPayload_def by (rule wrap_minus[OF T]) (use u in simp)
  note c = rep[unfolded set_rep_def]
  have can: "PackedSet_CanInsert T m k = Inr True" using PackedSet_CanInsert_rep[OF rep] fits by simp
  have run: "PackedSet_ConstructBack T m k = Inr ?m"
  proof (cases "UsesExternalKey ?P k")
    case False
    then have "PackedSet_StoreBytes T m k = Inr (m\<lparr>pk_payload := ?payload, pk_payload_used := ?u + text_size k\<rparr>, ?u, text_size k)"
      using u by (simp add: PackedSet_StoreBytes_def remaining inline_bytes_def Let_def)
    then show ?thesis
      using False n c can by (simp add: PackedSet_ConstructBack_def inline_bytes_def del: bindE_eq_Inr)
  qed (use n c can in \<open>simp add: PackedSet_ConstructBack_def inline_bytes_def\<close>)
  have room: "?u + length (bytes_of k) \<le> length (pk_payload m)" if "\<not> UsesExternalKey ?P k"
    using that u c by (simp add: inline_bytes_def text_size_bytes)
  have old: "take l (drop off ?payload) = take l (drop off (pk_payload m))" if "off + l \<le> ?u" for off l
  proof (cases "UsesExternalKey ?P k \<or> text_size k = 0")
    case False
    then show ?thesis using memcpy_at_before[OF that] room by simp
  qed simp
  have new: "slot_stored ?m (length ks) k"
  proof (cases "UsesExternalKey ?P k \<or> text_size k = 0")
    case False
    then show ?thesis
      using n c room memcpy_at_read[of ?u "bytes_of k" "pk_payload m"]
      by (simp add: slot_stored_def inline_bytes_def text_size_bytes)
  qed (use n c in \<open>simp add: slot_stored_def\<close>)
  have "slot_stored ?m i ((ks @ [k]) ! i)" if "i < length (ks @ [k])" for i
  proof (cases "i = length ks")
    case False
    then have i: "i < length ks" using that by simp
    then have "slot_stored m i (ks ! i)" using rep by (simp add: set_rep_def)
    then show ?thesis using i old by (auto simp: slot_stored_def nth_append)
  qed (use new in simp)
  moreover have "length ?payload = ?P"
    using room c by (simp add: memcpy_at_length)
  ultimately have "set_rep T ?m (ks @ [k])"
    using fits rep by (simp add: set_rep_def)
  with run show ?thesis by blast
qed

lemma PackedSet_append_rep:
  assumes "PackedSet_kPayloadBytes T < 2 ^ 64" and "\<And>i. i \<in> set is \<Longrightarrow> get i = Inr (f i)"
    and "set_rep T r ks" and "set_fits T (ks @ map f is)"
  shows "\<exists>r'. foldE (\<lambda>r i. bindE (get i) (PackedSet_ConstructBack T r)) r is = Inr r' \<and> set_rep T r' (ks @ map f is)"
  using assms(2-)
proof (induction "is" arbitrary: r ks)
  case (Cons i js)
  have "set_fits T (ks @ [f i])" using Cons.prems(3) keys_fit_append[of _ _ "ks @ [f i]" "map f js"] by simp
  from PackedSet_ConstructBack_rep[OF Cons.prems(2) this assms(1)] obtain r1 where
    "PackedSet_ConstructBack T r (f i) = Inr r1" "set_rep T r1 (ks @ [f i])" by blast
  then show ?case using Cons.IH[of r1 "ks @ [f i]"] Cons.prems by simp
qed simp

text \<open>The entries of a block, read through its own accessor.\<close>

definition PackedSet_list :: "packed_set \<Rightarrow> (packed_text \<times> unit) list" where
  "PackedSet_list m = map (\<lambda>i. (projr (PackedSet_KeyAt m i), ())) [0..<pk_count m]"

definition PackedSet_ok :: "nat \<Rightarrow> packed_set \<Rightarrow> bool" where
  "PackedSet_ok T m \<longleftrightarrow> set_rep T m (map fst (PackedSet_list m))"

lemma PackedSet_okD: "PackedSet_ok T m \<Longrightarrow> set_rep T m (map fst (PackedSet_list m))"
  by (simp add: PackedSet_ok_def)

lemma unit_entries: "map (\<lambda>k. (k, ())) (map fst xs) = xs"
  by (induction xs) auto

lemma PackedSet_list_rep: "set_rep T m ks \<Longrightarrow> PackedSet_list m = map (\<lambda>k. (k, ())) ks"
  using PackedSet_KeyAt_rep[of T m ks] set_rep_count[of T m ks]
  by (intro nth_equalityI) (simp_all add: PackedSet_list_def)

lemma set_holds_rep:
  "m = Inr b \<Longrightarrow> set_rep T b (map fst xs) \<Longrightarrow> holds (PackedSet_ok T) PackedSet_list m xs"
  by (simp add: holds_def PackedSet_ok_def PackedSet_list_rep unit_entries del: map_map)

section \<open>The block contract\<close>

definition PackedSet_ops :: "nat \<Rightarrow> (packed_text, unit, packed_set) block_ops" where
  "PackedSet_ops T = \<lparr>
     bo_copy = PackedSet_copy T,
     bo_from_sorted = PackedSet_FromSortedEntries T,
     bo_pack = PackedSet_PackSortedEntriesIntoBlocks T,
     bo_count = PackedSet_Count,
     bo_full = PackedSet_Full T,
     bo_can_insert = (\<lambda>m k v. PackedSet_CanInsert T m k),
     bo_can_update = (\<lambda>m i v. PackedSet_CanUpdate m i),
     bo_key_at = PackedSet_KeyAt,
     bo_value_at = PackedSet_ValueAt,
     bo_lower_bound = PackedSet_LowerBound,
     bo_find_value = PackedSet_FindValue,
     bo_with_inserted = (\<lambda>m i k v. PackedSet_WithInserted T m i k),
     bo_with_updated = (\<lambda>m i v. PackedSet_WithUpdated T m i),
     bo_with_erased = PackedSet_WithErased T,
     bo_split_inserted = (\<lambda>m i k v. PackedSet_SplitWithInsertedBlocks T m i k),
     bo_split_updated = (\<lambda>m i v. PackedSet_SplitWithUpdatedBlocks T m i),
     bo_can_merge = PackedSet_CanMerge T,
     bo_merged = PackedSet_Merged T,
     bo_append_to = PackedSet_AppendTo\<rparr>"

text \<open>The payload size is a \<open>std::size_t\<close>.\<close>

locale packed_set_class =
  fixes T :: nat
  assumes P: "PackedSet_kPayloadBytes T < 2 ^ 64"
begin

lemma copy_range_rep:
  assumes "set_rep T m ks" "set_rep T r ls" "\<And>i. i \<in> set is \<Longrightarrow> i < length ks" "set_fits T (ls @ map ((!) ks) is)"
  shows "\<exists>r'. PackedSet_copy_range T m r is = Inr r' \<and> set_rep T r' (ls @ map ((!) ks) is)"
  unfolding PackedSet_copy_range_def
  by (rule PackedSet_append_rep[OF P PackedSet_KeyAt_rep[OF assms(1)] assms(2,4)]) (rule assms(3))

lemma copy_all_rep:
  assumes m: "set_rep T m ks" and r: "set_rep T r ls" and fits: "set_fits T (ls @ ks)"
  shows "\<exists>r'. PackedSet_copy_range T m r [0..<length ks] = Inr r' \<and> set_rep T r' (ls @ ks)"
  using copy_range_rep[OF m r, of "[0..<length ks]"] fits by (simp add: map_nth)

lemma fits_perm: "set_fits T ks \<Longrightarrow> mset ls \<subseteq># mset ks \<Longrightarrow> set_fits T ls"
  by (rule keys_fit_subset)

lemma FromSortedEntries_rep:
  assumes "set_fits T (map fst xs)"
  shows "holds (PackedSet_ok T) PackedSet_list (PackedSet_FromSortedEntries T xs) xs"
proof -
  have "\<exists>r. foldE (\<lambda>r i. bindE (Inr (fst i)) (PackedSet_ConstructBack T r)) (PackedSet_empty T) xs = Inr r \<and>
      set_rep T r ([] @ map fst xs)"
    by (rule PackedSet_append_rep[OF P _ set_rep_empty]) (use assms in simp_all)
  moreover have "length xs \<le> PackedSet_kCapacity T" using assms by (simp add: keys_fit_def)
  ultimately show ?thesis by (auto intro!: set_holds_rep simp: PackedSet_FromSortedEntries_def)
qed

lemma Pack_holds: "holds_all (PackedSet_ok T) PackedSet_list (PackedSet_PackSortedEntriesIntoBlocks T xs) xs"
  unfolding PackedSet_PackSortedEntriesIntoBlocks_def
  by (rule PackEntries_holds[OF PackedSet_kCapacity_pos]) (rule FromSortedEntries_rep)

lemma WithInserted_rep:
  assumes rep: "set_rep T m ks" and fits: "set_fits T (ks @ [k])" and i: "i \<le> length ks" and full: "\<not> PackedSet_Full T m"
  shows "\<exists>r. PackedSet_WithInserted T m i k = Inr r \<and> set_rep T r (take i ks @ k # drop i ks)"
proof -
  have perm: "mset (take i ks @ k # drop i ks) = mset (ks @ [k])"
    by (metis append_take_drop_id mset_append mset.simps add_mset_add_single union_mset_add_mset_right add.right_neutral)
  have all: "set_fits T (take i ks @ k # drop i ks)" by (rule fits_perm[OF fits]) (simp only: perm subset_mset.order_refl)
  then have pre: "set_fits T (take i ks)" "set_fits T (take i ks @ [k])"
    using keys_fit_append[of _ _ "take i ks" "k # drop i ks"] keys_fit_append[of _ _ "take i ks @ [k]" "drop i ks"]
    by simp_all
  obtain r1 where r1: "PackedSet_copy_range T m (PackedSet_empty T) [0..<i] = Inr r1" "set_rep T r1 (take i ks)"
    using copy_range_rep[OF rep set_rep_empty, of "[0..<i]"] i pre(1) by (auto simp: map_nth_range)
  from PackedSet_ConstructBack_rep[OF r1(2) pre(2) P] obtain r2 where
    r2: "PackedSet_ConstructBack T r1 k = Inr r2" "set_rep T r2 (take i ks @ [k])" by blast
  have "\<exists>r3. PackedSet_copy_range T m r2 [i..<length ks] = Inr r3 \<and>
      set_rep T r3 ((take i ks @ [k]) @ map ((!) ks) [i..<length ks])"
    by (rule copy_range_rep[OF rep r2(2)]) (use all in \<open>auto simp: map_nth_range\<close>)
  then show ?thesis
    using r1(1) r2(1) i full fits PackedSet_CanInsert_rep[OF rep, of k] set_rep_count[OF rep]
    by (auto simp: PackedSet_WithInserted_def map_nth_range)
qed

lemma WithErased_rep:
  assumes rep: "set_rep T m ks" and i: "i < length ks"
  shows "\<exists>r. PackedSet_WithErased T m i = Inr r \<and> set_rep T r (take i ks @ drop (Suc i) ks)"
proof -
  have "mset (take i ks @ drop (Suc i) ks) \<subseteq># mset ks"
    by (subst (3) list_split_at[OF i]) simp
  then have "set_fits T (take i ks @ drop (Suc i) ks)" by (rule fits_perm[OF set_rep_fits[OF rep]])
  then show ?thesis
    using copy_range_rep[OF rep set_rep_empty, of "filter (\<lambda>j. j \<noteq> i) [0..<length ks]"] i
    by (simp add: PackedSet_WithErased_def set_rep_count[OF rep] map_nth_skip)
qed

lemma CanMerge_rep:
  assumes "set_rep T a ks" "set_rep T b ls"
  shows "PackedSet_CanMerge T a b = Inr (set_fits T (ks @ ls))"
proof -
  have init: "keys_fit (PackedSet_kCapacity T) (PackedSet_kPayloadBytes T) []" by (simp add: keys_fit_def)
  show ?thesis
    using AccumulateBlockKeys_of[OF PackedSet_KeyAt_rep[OF assms(1)] init]
      AccumulateBlockKeys_of[OF PackedSet_KeyAt_rep[OF assms(2)], of _ _ ks] set_rep_fits[OF assms(1)]
    by (simp add: PackedSet_CanMerge_def Let_def set_rep_count[OF assms(1)] set_rep_count[OF assms(2)]
        FitSummary_new_of[of "PackedSet_kPayloadBytes T"])
qed

lemma Merged_rep:
  assumes a: "set_rep T a ks" and b: "set_rep T b ls" and fits: "set_fits T (ks @ ls)"
  shows "\<exists>r. PackedSet_Merged T a b = Inr r \<and> set_rep T r (ks @ ls)"
proof -
  obtain r1 where "PackedSet_copy_range T a (PackedSet_empty T) [0..<length ks] = Inr r1" "set_rep T r1 ks"
    using copy_all_rep[OF a set_rep_empty] set_rep_fits[OF a] by auto
  with copy_all_rep[OF b, of r1 ks] fits show ?thesis
    by (auto simp: PackedSet_Merged_def CanMerge_rep[OF a b] set_rep_count[OF a] set_rep_count[OF b])
qed

lemma entry_loop:
  assumes "set_rep T m (map fst xs)" and "j \<le> length xs"
  shows "foldE (\<lambda>out i. bindE (bindE (PackedSet_KeyAt m i) (\<lambda>k. Inr (k, ()))) (\<lambda>e. Inr (out @ [e]))) out [i..<j] =
    Inr (out @ drop i (take j xs))"
  using collect_loop[of "[i..<j]" "\<lambda>i. bindE (PackedSet_KeyAt m i) (\<lambda>k. Inr (k, ()))" "(!) xs" out] assms(2)
    PackedSet_KeyAt_rep[OF assms(1)] by (simp add: map_nth_range prod_eq_iff del: bindE_eq_Inr)

lemma inserted_entries_rep:
  assumes rep: "set_rep T m (map fst xs)" and i: "i \<le> length xs"
  shows "PackedSet_inserted_entries m i k = Inr (take i xs @ (k, ()) # drop i xs)"
  using entry_loop[OF rep i, of "[]" 0] entry_loop[OF rep order_refl, of "take i xs @ [(k, ())]" i] set_rep_count[OF rep]
  by (simp add: PackedSet_inserted_entries_def Let_def)

lemma LowerBound_rep:
  assumes rep: "set_rep T m (map fst xs)" and lt: "strict_weak_order lt" "sorted_entries lt xs"
  shows "PackedSet_LowerBound lt m k = Inr (length (lowers lt k xs))"
proof -
  have "pk_count m = length xs" using set_rep_count[OF rep] by simp
  then show ?thesis
    unfolding PackedSet_LowerBound_def
    using strict_weak_order.lower_bound_sorted[OF lt, of _ k] PackedSet_KeyAt_rep[OF rep]
    by (simp del: bindE_eq_Inr)
qed

lemma FindValue_rep:
  assumes rep: "set_rep T m (map fst xs)" and lt: "strict_weak_order lt" "sorted_entries lt xs"
  shows "PackedSet_FindValue lt m k = Inr (om_find lt xs k)"
proof -
  let ?n = "length (lowers lt k xs)"
  note found = strict_weak_order.find_at_lower_bound[OF lt, of k] and count = set_rep_count[OF rep]
  show ?thesis
  proof (cases "?n = length xs")
    case False
    then have n: "?n < length xs" using found(1) by simp
    show ?thesis
      using found(3)[OF n] PackedSet_KeyAt_rep[OF rep, of ?n] n count
      by (simp add: PackedSet_FindValue_def LowerBound_rep[OF assms] del: bindE_eq_Inr)
  qed (use found(2) count in \<open>simp add: PackedSet_FindValue_def LowerBound_rep[OF assms]\<close>)
qed

lemma block_laws: "zip_block (PackedSet_ops T) (PackedSet_ok T) PackedSet_list"
proof (unfold_locales, goal_cases)
  case (1 b)
  have n: "pk_count b = length (map fst (PackedSet_list b))" using set_rep_count[OF PackedSet_okD[OF 1]] .
  show ?case
    using copy_all_rep[OF PackedSet_okD[OF 1] set_rep_empty] set_rep_fits[OF PackedSet_okD[OF 1]]
    by (auto intro!: set_holds_rep simp: PackedSet_ops_def PackedSet_copy_def PackedSet_CopyFrom_def n simp del: map_map)
next
  case (2 k v)
  then show ?case
    using FromSortedEntries_rep[of "[(k, v)]"] keys_fit_single[OF PackedSet_kCapacity_pos] by (simp add: PackedSet_ops_def)
next
  case (3 xs)
  then show ?case using Pack_holds by (simp add: PackedSet_ops_def)
next
  case (4 b)
  then show ?case using set_rep_count[OF PackedSet_okD] by (simp add: PackedSet_ops_def PackedSet_Count_def)
next
  case (5 b k v)
  then show ?case using PackedSet_CanInsert_rep[OF PackedSet_okD] by (simp add: PackedSet_ops_def)
next
  case (6 b i v)
  then show ?case using set_rep_count[OF PackedSet_okD] by (simp add: PackedSet_ops_def PackedSet_CanUpdate_def)
next
  case (7 b i)
  then show ?case using PackedSet_KeyAt_rep[OF PackedSet_okD] by (simp add: PackedSet_ops_def)
next
  case (8 b i)
  then show ?case by (simp add: PackedSet_ops_def PackedSet_ValueAt_def)
next
  case (9 lt b k)
  then show ?case using LowerBound_rep[OF PackedSet_okD] by (simp add: PackedSet_ops_def)
next
  case (10 lt b k)
  then show ?case using FindValue_rep[OF PackedSet_okD] by (simp add: PackedSet_ops_def)
next
  case (11 b i k v)
  then have "set_fits T (map fst (PackedSet_list b) @ [k])"
    using PackedSet_CanInsert_rep[OF PackedSet_okD[OF 11(1)], of k] by (simp add: PackedSet_ops_def)
  with 11 show ?case
    using WithInserted_rep[OF PackedSet_okD[OF 11(1)], of k i]
    by (auto intro!: set_holds_rep simp: PackedSet_ops_def take_map drop_map)
next
  case (12 b i v)
  have n: "pk_count b = length (map fst (PackedSet_list b))" using set_rep_count[OF PackedSet_okD[OF 12(1)]] .
  have "(PackedSet_list b)[i := (fst (PackedSet_list b ! i), v)] = PackedSet_list b"
    by (rule list_update_same_conv[THEN iffD2]) (use 12(2) in \<open>auto simp: prod_eq_iff\<close>)
  then show ?case
    using copy_all_rep[OF PackedSet_okD[OF 12(1)] set_rep_empty] set_rep_fits[OF PackedSet_okD[OF 12(1)]] 12(2) n
    by (auto intro!: set_holds_rep simp: PackedSet_ops_def PackedSet_WithUpdated_def PackedSet_CanUpdate_def simp del: map_map)
next
  case (13 b i)
  then show ?case
    using WithErased_rep[OF PackedSet_okD[OF 13(1)], of i]
    by (auto intro!: set_holds_rep simp: PackedSet_ops_def take_map drop_map)
next
  case (14 b i k v)
  then show ?case
    using inserted_entries_rep[OF PackedSet_okD[OF 14(1)] 14(3), of k] set_rep_count[OF PackedSet_okD[OF 14(1)]] Pack_holds
    by (simp add: PackedSet_ops_def PackedSet_SplitWithInsertedBlocks_def)
next
  case (15 a b)
  then show ?case using CanMerge_rep[OF PackedSet_okD PackedSet_okD] by (simp add: PackedSet_ops_def)
next
  case (16 a b)
  then have "set_fits T (map fst (PackedSet_list a) @ map fst (PackedSet_list b))"
    using CanMerge_rep[OF PackedSet_okD PackedSet_okD, of a b] by (simp add: PackedSet_ops_def)
  with 16 show ?case
    using Merged_rep[OF PackedSet_okD PackedSet_okD, of a b]
    by (auto intro!: set_holds_rep simp: PackedSet_ops_def)
next
  case (17 b out)
  then show ?case
    using entry_loop[OF PackedSet_okD[OF 17], of "length (PackedSet_list b)" out 0] set_rep_count[OF PackedSet_okD[OF 17]]
    by (simp add: PackedSet_ops_def PackedSet_AppendTo_def del: bindE_eq_Inr)
qed

end

end
