(* ===== verification/Imt_Containers.thy ===== *)
theory Imt_Containers
  imports Imt_Map_Set Immutable_Tree Block_Tree_Correct Zip_List_Key_Set
begin

text \<open>
  The public containers over every tree of the library: \<open>ImtMap\<close> and \<open>ImtSet\<close> on \<open>ImmutableTree\<close>,
  and on \<open>ImmutableBlockTree\<close> with each of its three block types.  Sequences of calls are run
  against the ordered-map specification, and the contracts of the trees and of their blocks are
  discharged at the instances the library has.
\<close>

section \<open>The block size of a tree\<close>

text \<open>\<open>counter_bytes\<close> is \<open>sizeof(RefCountPolicy::Counter)\<close>, 8 for both policies; a pointer has 8 bytes.\<close>

(* immutable_block_tree.h:31-34 kNodeEnvelopeBytes *)
definition BlockTree_kNodeEnvelopeBytes :: "nat \<Rightarrow> nat" where
  "BlockTree_kNodeEnvelopeBytes counter_bytes = counter_bytes + 8 * 2 + 4 + 2 + 16"

(* immutable_block_tree.h:35-36 kZipListTargetBytes *)
definition BlockTree_kZipListTargetBytes :: "nat \<Rightarrow> nat \<Rightarrow> nat" where
  "BlockTree_kZipListTargetBytes target_block_bytes counter_bytes =
     (let envelope = BlockTree_kNodeEnvelopeBytes counter_bytes in
      if target_block_bytes > envelope then target_block_bytes - envelope else 1)"

abbreviation text_block_bytes :: nat where
  "text_block_bytes \<equiv> BlockTree_kZipListTargetBytes 4096 8"

section \<open>The interfaces at the instances of the library\<close>

lemma text_block_bytes: "text_block_bytes = 4050"
  by (simp add: BlockTree_kZipListTargetBytes_def BlockTree_kNodeEnvelopeBytes_def)


lemma packed_set_default: "PackedSet_kPayloadBytes text_block_bytes < 2 ^ 64"
  unfolding text_block_bytes
  by (simp add: PackedSet_kPayloadBytes_def PackedSet_kUsableBytes_def PackedSet_kCapacity_def)


interpretation text_set: packed_set_class text_block_bytes
  by unfold_locales (rule packed_set_default)

lemma text_order: "strict_weak_order ((<) :: packed_text \<Rightarrow> packed_text \<Rightarrow> bool)"
  by unfold_locales auto


interpretation text_set_tree: block_tree "(<) :: packed_text \<Rightarrow> packed_text \<Rightarrow> bool"
    "PackedSet_ops text_block_bytes" "PackedSet_ok text_block_bytes" PackedSet_list
  using text_order text_set.block_laws by (simp add: block_tree_def)

interpretation imm_key_set: ordered_set_tree "(<) :: 'k::linorder \<Rightarrow> 'k \<Rightarrow> bool" ImmutableTree_ops
    "ImmutableTree_ok (<)" ImmutableTree_entries
  unfolding ordered_set_tree_def by (rule imm.ordered_tree_axioms)

interpretation text_key_set: ordered_set_tree "(<) :: packed_text \<Rightarrow> packed_text \<Rightarrow> bool"
    "ImmutableBlockTree_ops (PackedSet_ops text_block_bytes)"
    "BlockTree_ok (<) (PackedSet_ok text_block_bytes) PackedSet_list" "BlockTree_entries PackedSet_list"
  unfolding ordered_set_tree_def by (rule text_set_tree.tree.ordered_tree_axioms)

section \<open>Sequences of calls\<close>

datatype ('k, 'v) map_call = Do_Insert 'k 'v | Do_Update 'k 'v | Do_Set 'k 'v | Do_Erase 'k

text \<open>
  A caller that keeps the version a call returns, or stays with its old one when the call
  refuses.  The answer is whether there is a new version.
\<close>

definition keep :: "'m \<Rightarrow> 'm option \<Rightarrow> 'm \<times> bool" where
  "keep m r = (case r of None \<Rightarrow> (m, False) | Some m' \<Rightarrow> (m', True))"

fun imt_call :: "('k, 'v, 't, 's) tree_ops \<Rightarrow> 't imt_map \<Rightarrow> ('k, 'v) map_call \<Rightarrow> ('t imt_map \<times> bool) res" where
  "imt_call T m (Do_Insert k v) = bindE (ImtMap_Insert T m k v) (\<lambda>r. Inr (keep m r))"
| "imt_call T m (Do_Update k v) = bindE (ImtMap_Update T m k v) (\<lambda>r. Inr (keep m r))"
| "imt_call T m (Do_Set k v) = bindE (ImtMap_Set T m k v) (\<lambda>m'. Inr (m', True))"
| "imt_call T m (Do_Erase k) = bindE (ImtMap_Erase T m k) (\<lambda>r. Inr (keep m r))"

fun imt_calls :: "('k, 'v, 't, 's) tree_ops \<Rightarrow> 't imt_map \<Rightarrow> ('k, 'v) map_call list \<Rightarrow> ('t imt_map \<times> bool list) res" where
  "imt_calls T m [] = Inr (m, [])"
| "imt_calls T m (c # cs) =
     bindE (imt_call T m c) (\<lambda>(m, a). bindE (imt_calls T m cs) (\<lambda>(m, as). Inr (m, a # as)))"

text \<open>The same calls on a sorted list of entries.\<close>

fun spec_call :: "('k \<Rightarrow> 'k \<Rightarrow> bool) \<Rightarrow> ('k \<times> 'v) list \<Rightarrow> ('k, 'v) map_call \<Rightarrow> ('k \<times> 'v) list \<times> bool" where
  "spec_call lt xs (Do_Insert k v) = keep xs (om_insert lt xs k v)"
| "spec_call lt xs (Do_Update k v) = keep xs (om_update lt xs k v)"
| "spec_call lt xs (Do_Set k v) = (om_set lt xs k v, True)"
| "spec_call lt xs (Do_Erase k) = keep xs (om_erase lt xs k)"

fun spec_calls :: "('k \<Rightarrow> 'k \<Rightarrow> bool) \<Rightarrow> ('k \<times> 'v) list \<Rightarrow> ('k, 'v) map_call list \<Rightarrow> ('k \<times> 'v) list \<times> bool list" where
  "spec_calls lt xs [] = (xs, [])"
| "spec_calls lt xs (c # cs) =
     (let (ys, a) = spec_call lt xs c; (zs, as) = spec_calls lt ys cs in (zs, a # as))"

context ordered_tree
begin

lemma keep_yields:
  assumes "yields (map_ok ok) (\<lambda>m. entries (map_tree m)) r ys" and "map_ok ok m" "entries (map_tree m) = xs"
  shows "\<exists>m' a. bindE r (\<lambda>r. Inr (keep m r)) = Inr (m', a) \<and> map_ok ok m' \<and> (entries (map_tree m'), a) = keep xs ys"
  using assms by (cases rule: yields_cases) (auto simp: keep_def)

lemma imt_call_refines:
  assumes "map_ok ok m" and "length (entries (map_tree m)) < max_entries"
  shows "\<exists>m' a. imt_call ops m c = Inr (m', a) \<and> map_ok ok m' \<and>
    (entries (map_tree m'), a) = spec_call lt (entries (map_tree m)) c \<and>
    length (entries (map_tree m')) \<le> Suc (length (entries (map_tree m)))"
proof -
  have ok: "ok (map_tree m)" using assms(1) by (simp add: map_ok_def)
  have len: "length (fst (spec_call lt (entries (map_tree m)) c)) \<le> Suc (length (entries (map_tree m)))"
    using om_insert_length om_update_length[OF sorted[OF ok]] om_erase_length[OF sorted[OF ok]]
      om_set_length[OF sorted[OF ok]]
    by (cases c) (auto simp: keep_def split: option.splits, fastforce+)
  have "\<exists>m' a. imt_call ops m c = Inr (m', a) \<and> map_ok ok m' \<and>
      (entries (map_tree m'), a) = spec_call lt (entries (map_tree m)) c"
  proof (cases c)
    case (Do_Set k v)
    then show ?thesis using set[OF ok assms(2), of k v] by (auto simp: ImtMap_Set_def map_ok_def)
  qed (use keep_yields[OF Map_update_yields(1)[OF ok assms(2)] assms(1) refl]
      keep_yields[OF Map_update_yields(2)[OF ok] assms(1) refl]
      keep_yields[OF Map_update_yields(3)[OF ok] assms(1) refl] in simp_all)
  then show ?thesis using len by (metis fst_conv)
qed

lemma imt_calls_refine:
  assumes "map_ok ok m" and "length (entries (map_tree m)) + length cs \<le> max_entries"
  shows "\<exists>m' as. imt_calls ops m cs = Inr (m', as) \<and> map_ok ok m' \<and>
    (entries (map_tree m'), as) = spec_calls lt (entries (map_tree m)) cs \<and>
    length (entries (map_tree m')) \<le> length (entries (map_tree m)) + length cs"
  using assms
proof (induction cs arbitrary: m)
  case (Cons c cs)
  from Cons.prems have "length (entries (map_tree m)) < max_entries" by simp
  from imt_call_refines[OF Cons.prems(1) this, of c] obtain m1 a where
    1: "imt_call ops m c = Inr (m1, a)" "map_ok ok m1"
      "spec_call lt (entries (map_tree m)) c = (entries (map_tree m1), a)"
      "length (entries (map_tree m1)) \<le> Suc (length (entries (map_tree m)))" by metis
  have "length (entries (map_tree m1)) + length cs \<le> max_entries" using 1(4) Cons.prems(2) by simp
  from Cons.IH[OF 1(2) this] obtain m2 as where
    "imt_calls ops m1 cs = Inr (m2, as)" "map_ok ok m2"
    "spec_calls lt (entries (map_tree m1)) cs = (entries (map_tree m2), as)"
    "length (entries (map_tree m2)) \<le> length (entries (map_tree m1)) + length cs" by metis
  with 1 show ?case by simp
qed simp

lemma fresh_calls:
  assumes "length cs \<le> max_entries"
  obtains m as where "imt_calls ops (ImtMap_new ops lt) cs = Inr (m, as)" "map_ok ok m"
    "(entries (map_tree m), as) = spec_calls lt [] cs" "length (entries (map_tree m)) \<le> length cs"
    "ImtMap_ToVector ops m = Inr (entries (map_tree m))" "ImtMap_Size ops m = length (entries (map_tree m))"
    "\<forall>k. ImtMap_Find ops m k = Inr (om_find lt (entries (map_tree m)) k)"
proof -
  have "map_ok ok (ImtMap_new ops lt)" "entries (map_tree (ImtMap_new ops lt)) = []"
    using new by (simp_all add: map_ok_def ImtMap_new_def)
  with imt_calls_refine[of "ImtMap_new ops lt" cs] assms obtain m as where
    m: "imt_calls ops (ImtMap_new ops lt) cs = Inr (m, as)" "map_ok ok m"
      "(entries (map_tree m), as) = spec_calls lt [] cs" "length (entries (map_tree m)) \<le> length cs" by auto
  show thesis
    by (rule that[OF m])
      (use m(2) to_vector size find in \<open>simp_all add: map_ok_def ImtMap_ToVector_def ImtMap_Size_def ImtMap_Find_def\<close>)
qed

end

section \<open>Properties\<close>

context block_tree
begin

lemma tree_laws:
  "ordered_tree lt (ImmutableBlockTree_ops B) (BlockTree_ok lt ok es) (BlockTree_entries es)"
  by (rule tree.ordered_tree_axioms)

end

abbreviation plain_ops :: "('k, 'v, ('k, 'v) immutable_tree, unit) tree_ops" where
  "plain_ops \<equiv> ImmutableTree_ops"

abbreviation block_ops_of :: "nat \<Rightarrow> nat \<Rightarrow> ('k, 'v, ('k, ('k \<times> 'v) zip_list) immutable_block_tree, unit) tree_ops" where
  "block_ops_of target_bytes entry_bytes \<equiv>
     ImmutableBlockTree_ops (ZipList_ops (ZipList_ComputeCapacity target_bytes entry_bytes))"



text \<open>C6: an \<open>ImtMap\<close> over \<open>ImmutableTree\<close> and one over \<open>ImmutableBlockTree\<close>, with blocks of any size,
  cannot be told apart: after any sequence of at most \<open>2 ^ 32 - 1\<close> inserts, updates, sets and erases
  (none of which throws), every call has given the same answer, the traversals agree with each
  other and with the ordered-map specification, and so does the lookup of every key.\<close>

theorem ImtMap_trees_agree:
  fixes lt :: "'k \<Rightarrow> 'k \<Rightarrow> bool" and cs :: "('k, 'v) map_call list"
  assumes "strict_weak_order lt" and "length cs \<le> max_entries"
  shows "\<exists>m n es answers. imt_calls plain_ops (ImtMap_new plain_ops lt) cs = Inr (m, answers) \<and>
    imt_calls (block_ops_of tb eb) (ImtMap_new (block_ops_of tb eb) lt) cs = Inr (n, answers) \<and>
    (es, answers) = spec_calls lt [] cs \<and>
    ImtMap_ToVector plain_ops m = Inr es \<and> ImtMap_ToVector (block_ops_of tb eb) n = Inr es \<and>
    ImtMap_Size plain_ops m = length es \<and> ImtMap_Size (block_ops_of tb eb) n = length es \<and>
    (\<forall>k. ImtMap_Find plain_ops m k = Inr (om_find lt es k) \<and>
      ImtMap_Find (block_ops_of tb eb) n k = Inr (om_find lt es k))"
proof -
  obtain m as where m: "imt_calls plain_ops (ImtMap_new plain_ops lt) cs = Inr (m, as)"
      "(ImmutableTree_entries (map_tree m), as) = spec_calls lt [] cs"
      "ImtMap_ToVector plain_ops m = Inr (ImmutableTree_entries (map_tree m))"
      "ImtMap_Size plain_ops m = length (ImmutableTree_entries (map_tree m))"
      "\<forall>k. ImtMap_Find plain_ops m k = Inr (om_find lt (ImmutableTree_entries (map_tree m)) k)"
    by (rule ordered_tree.fresh_calls[OF ordered_tree_ImmutableTree[OF assms(1)] assms(2)])
  obtain n bs where n: "imt_calls (block_ops_of tb eb) (ImtMap_new (block_ops_of tb eb) lt) cs = Inr (n, bs)"
      "(BlockTree_entries ZipList_list (map_tree n), bs) = spec_calls lt [] cs"
      "ImtMap_ToVector (block_ops_of tb eb) n = Inr (BlockTree_entries ZipList_list (map_tree n))"
      "ImtMap_Size (block_ops_of tb eb) n = length (BlockTree_entries ZipList_list (map_tree n))"
      "\<forall>k. ImtMap_Find (block_ops_of tb eb) n k = Inr (om_find lt (BlockTree_entries ZipList_list (map_tree n)) k)"
    by (rule ordered_tree.fresh_calls[OF block_tree.tree_laws[OF block_tree_ZipList[OF assms(1)]] assms(2)])
  have "BlockTree_entries ZipList_list (map_tree n) = ImmutableTree_entries (map_tree m)" "bs = as"
    using m(2) n(2) by (metis Pair_inject)+
  with m n show ?thesis by metis
qed

abbreviation sample_calls :: "(nat, bool) map_call list" where
  "sample_calls \<equiv> [Do_Insert 3 True, Do_Insert 3 False, Do_Set 1 False, Do_Erase 3]"

lemma sample_calls_spec: "spec_calls (<) [] sample_calls = ([(1, False)], [True, False, True, True])"
  by (simp add: om_defs part_defs keep_def)

theorem ImtMap_trees_agree_witness:
  "\<exists>m n. imt_calls plain_ops (ImtMap_new plain_ops (<)) sample_calls = Inr (m, [True, False, True, True]) \<and>
    imt_calls (block_ops_of 4096 16) (ImtMap_new (block_ops_of 4096 16) (<)) sample_calls =
      Inr (n, [True, False, True, True]) \<and>
    ImtMap_ToVector (block_ops_of 4096 16) n = Inr [(1, False)]"
  using ImtMap_trees_agree[OF less_nat_order, of sample_calls 4096 16]
  unfolding sample_calls_spec max_entries_def by (auto simp del: imt_calls.simps)









end
