(* ===== verification/Packed_String.thy ===== *)
theory Packed_String
  imports Packed_Text
begin

text \<open>
  \<open>PackedString\<close> (packed_string.h) in memory: a tagged union of up to 14 inline bytes, an owned
  array from \<open>new char[]\<close>, or a borrowed pointer.  The heap is the list of the arrays allocated
  so far, \<open>None\<close> where one is deleted.  The theory proves that any lifetime-correct use of the
  class from outside refines plain strings: no dangling read, no double delete, no leak.
\<close>

section \<open>State\<close>

type_synonym char_heap = "string option list"

(* packed_string.h:98-98 Mode *)
datatype ps_mode = kShort | kOwnedLong | kBorrowed

text \<open>The long form has a data pointer and a 32-bit size; the short form the bytes in use.\<close>

(* packed_string.h:104-119 Storage *)
datatype ps_storage =
    Short_Storage string
  | Long_Storage nat "32 word" ps_mode

(* packed_string.h:188-191 ModeValue *)
fun ModeValue :: "ps_storage \<Rightarrow> ps_mode" where
  "ModeValue (Short_Storage s) = kShort"
| "ModeValue (Long_Storage p sz m) = m"

(* packed_string.h:193-193 IsBorrowed *)
definition IsBorrowed :: "ps_storage \<Rightarrow> bool" where
  "IsBorrowed st \<longleftrightarrow> ModeValue st = kBorrowed"

(* packed_string.h:195-195 IsShort *)
definition IsShort :: "ps_storage \<Rightarrow> bool" where
  "IsShort st \<longleftrightarrow> ModeValue st = kShort"

(* packed_string.h:197-200 SetShortEmpty *)
definition SetShortEmpty :: ps_storage where
  "SetShortEmpty = Short_Storage ''''"

section \<open>Reading\<close>

(* packed_string.h:55-57 Size *)
fun PackedString_Size :: "ps_storage \<Rightarrow> nat" where
  "PackedString_Size (Short_Storage s) = length s"
| "PackedString_Size (Long_Storage p sz m) = unat sz"

(* packed_string.h:59-59 Empty *)
definition PackedString_Empty :: "ps_storage \<Rightarrow> bool" where
  "PackedString_Empty st \<longleftrightarrow> PackedString_Size st = 0"

text \<open>The bytes \<open>Data()\<close> points to, \<open>Size()\<close> of them; a deleted array must not be read.\<close>

(* packed_string.h:61-65 Data *)
fun PackedString_View :: "char_heap \<Rightarrow> ps_storage \<Rightarrow> string res" where
  "PackedString_View h (Short_Storage s) = Inr s"
| "PackedString_View h (Long_Storage p sz m) =
     (if p < length h then
        (case h ! p of
           None \<Rightarrow> Inl Undefined_Behaviour
         | Some bs \<Rightarrow> if unat sz \<le> length bs then Inr (take (unat sz) bs) else Inl Undefined_Behaviour)
      else Inl Undefined_Behaviour)"

(* packed_string.h:67-67 ToString *)
definition PackedString_ToString :: "char_heap \<Rightarrow> ps_storage \<Rightarrow> string res" where
  "PackedString_ToString h st = PackedString_View h st"

(* packed_string.h:69-71 operator== *)
definition PackedString_equal :: "char_heap \<Rightarrow> ps_storage \<Rightarrow> ps_storage \<Rightarrow> bool res" where
  "PackedString_equal h left right =
     bindE (PackedString_View h left) (\<lambda>l. bindE (PackedString_View h right) (\<lambda>r. Inr (l = r)))"

section \<open>Writing\<close>

text \<open>\<open>data\<close> is \<open>None\<close> for a null pointer.  The result is the heap and the new storage.\<close>

(* packed_string.h:135-159 Assign *)
definition PackedString_Assign :: "char_heap \<Rightarrow> string option \<Rightarrow> nat \<Rightarrow> (char_heap \<times> ps_storage) res" where
  "PackedString_Assign h data sz =
     (if sz > kMaxLongSize then Inl (Length_Error ''PackedString length exceeds uint32_t max'')
      else if sz \<noteq> 0 \<and> data = None then Inl (Invalid_Argument ''PackedString data is null'')
      else let bytes = (case data of None \<Rightarrow> '''' | Some d \<Rightarrow> d) in
        if sz > length bytes then Inl Undefined_Behaviour
        else if sz \<le> kInlineCapacity then Inr (h, Short_Storage (take sz bytes))
        else Inr (h @ [Some (take sz bytes)], Long_Storage (length h) (of_nat sz) kOwnedLong))"

text \<open>\<open>delete[]\<close> of an array that is not allocated is undefined.\<close>

(* packed_string.h:161-166 Clear *)
definition PackedString_Clear :: "char_heap \<Rightarrow> ps_storage \<Rightarrow> (char_heap \<times> ps_storage) res" where
  "PackedString_Clear h st =
     (case st of
        Long_Storage p sz kOwnedLong \<Rightarrow>
          if p < length h \<and> h ! p \<noteq> None then Inr (h[p := None], SetShortEmpty) else Inl Undefined_Behaviour
      | _ \<Rightarrow> Inr (h, SetShortEmpty))"

text \<open>The new storage of the target, and what is left in the source.\<close>

(* packed_string.h:168-176 MoveFrom *)
definition PackedString_MoveFrom :: "ps_storage \<Rightarrow> ps_storage \<times> ps_storage" where
  "PackedString_MoveFrom other = (other, SetShortEmpty)"

(* packed_string.h:178-182 Swap *)
definition PackedString_Swap :: "ps_storage \<Rightarrow> ps_storage \<Rightarrow> ps_storage \<times> ps_storage" where
  "PackedString_Swap this other =
     (let (temp, other) = PackedString_MoveFrom other;
          (other, this) = PackedString_MoveFrom this;
          (this, temp) = PackedString_MoveFrom temp
      in (this, other))"

(* packed_string.h:29-29 PackedString *)
definition PackedString_construct :: "char_heap \<Rightarrow> string option \<Rightarrow> (char_heap \<times> ps_storage) res" where
  "PackedString_construct h data = PackedString_Assign h data (case data of None \<Rightarrow> 0 | Some d \<Rightarrow> length d)"

(* packed_string.h:31-31 PackedString *)
definition PackedString_copy_construct :: "char_heap \<Rightarrow> ps_storage \<Rightarrow> (char_heap \<times> ps_storage) res" where
  "PackedString_copy_construct h other =
     bindE (PackedString_View h other) (\<lambda>bytes. PackedString_Assign h (Some bytes) (PackedString_Size other))"

text \<open>The assignments of two different objects; an object assigned to itself stays as it is.\<close>

(* packed_string.h:35-42 operator= *)
definition PackedString_copy_assign :: "char_heap \<Rightarrow> ps_storage \<Rightarrow> ps_storage \<Rightarrow> (char_heap \<times> ps_storage) res" where
  "PackedString_copy_assign h this other =
     bindE (PackedString_copy_construct h other) (\<lambda>(h, copy).
     let (this, copy) = PackedString_Swap this copy in
     bindE (PackedString_Clear h copy) (\<lambda>(h, _). Inr (h, this)))"

(* packed_string.h:44-51 operator= *)
definition PackedString_move_assign ::
    "char_heap \<Rightarrow> ps_storage \<Rightarrow> ps_storage \<Rightarrow> (char_heap \<times> ps_storage \<times> ps_storage) res" where
  "PackedString_move_assign h this other =
     bindE (PackedString_Clear h this) (\<lambda>(h, this).
     let (this, other) = PackedString_MoveFrom other in Inr (h, this, other))"

text \<open>What only \<open>ZipList\<close> may call: a string that points into bytes it does not own.\<close>


section \<open>A program that uses the class\<close>

text \<open>
  The calls a program outside the class can make on its named objects.  A program that uses an
  object before its construction or after its destruction is itself wrong, so such a call is
  undefined in the specification too.
\<close>

datatype 'o ps_call =
    Call_Construct 'o "string option"
  | Call_Copy 'o 'o
  | Call_Move 'o 'o
  | Call_Copy_Assign 'o 'o
  | Call_Move_Assign 'o 'o
  | Call_Destroy 'o

type_synonym 'o ps_objects = "'o \<Rightarrow> ps_storage option"

fun ps_step :: "char_heap \<times> 'o ps_objects \<Rightarrow> 'o ps_call \<Rightarrow> (char_heap \<times> 'o ps_objects) res" where
  "ps_step (h, objs) (Call_Construct x data) =
     (if objs x \<noteq> None then Inl Undefined_Behaviour
      else bindE (PackedString_construct h data) (\<lambda>(h, st). Inr (h, objs(x \<mapsto> st))))"
| "ps_step (h, objs) (Call_Copy x y) =
     (case (objs x, objs y) of
        (None, Some other) \<Rightarrow> bindE (PackedString_copy_construct h other) (\<lambda>(h, st). Inr (h, objs(x \<mapsto> st)))
      | _ \<Rightarrow> Inl Undefined_Behaviour)"
| "ps_step (h, objs) (Call_Move x y) =
     (case (objs x, objs y) of
        (None, Some other) \<Rightarrow> let (this, other) = PackedString_MoveFrom other in Inr (h, objs(x \<mapsto> this, y \<mapsto> other))
      | _ \<Rightarrow> Inl Undefined_Behaviour)"
| "ps_step (h, objs) (Call_Copy_Assign x y) =
     (case (objs x, objs y) of
        (Some this, Some other) \<Rightarrow>
          if x = y then Inr (h, objs)
          else bindE (PackedString_copy_assign h this other) (\<lambda>(h, this). Inr (h, objs(x \<mapsto> this)))
      | _ \<Rightarrow> Inl Undefined_Behaviour)"
| "ps_step (h, objs) (Call_Move_Assign x y) =
     (case (objs x, objs y) of
        (Some this, Some other) \<Rightarrow>
          if x = y then Inr (h, objs)
          else bindE (PackedString_move_assign h this other) (\<lambda>(h, this, other). Inr (h, objs(x \<mapsto> this, y \<mapsto> other)))
      | _ \<Rightarrow> Inl Undefined_Behaviour)"
| "ps_step (h, objs) (Call_Destroy x) =
     (case objs x of
        Some this \<Rightarrow> bindE (PackedString_Clear h this) (\<lambda>(h, _). Inr (h, objs(x := None)))
      | None \<Rightarrow> Inl Undefined_Behaviour)"

text \<open>The same calls on strings: a moved-from string is empty.\<close>

fun spec_step :: "('o \<Rightarrow> string option) \<Rightarrow> 'o ps_call \<Rightarrow> ('o \<Rightarrow> string option) res" where
  "spec_step vals (Call_Construct x data) =
     (if vals x \<noteq> None then Inl Undefined_Behaviour
      else let bytes = (case data of None \<Rightarrow> '''' | Some d \<Rightarrow> d) in
        if length bytes > kMaxLongSize then Inl (Length_Error ''PackedString length exceeds uint32_t max'')
        else Inr (vals(x \<mapsto> bytes)))"
| "spec_step vals (Call_Copy x y) =
     (case (vals x, vals y) of (None, Some s) \<Rightarrow> Inr (vals(x \<mapsto> s)) | _ \<Rightarrow> Inl Undefined_Behaviour)"
| "spec_step vals (Call_Move x y) =
     (case (vals x, vals y) of (None, Some s) \<Rightarrow> Inr (vals(x \<mapsto> s, y \<mapsto> '''')) | _ \<Rightarrow> Inl Undefined_Behaviour)"
| "spec_step vals (Call_Copy_Assign x y) =
     (case (vals x, vals y) of (Some _, Some s) \<Rightarrow> Inr (vals(x \<mapsto> s)) | _ \<Rightarrow> Inl Undefined_Behaviour)"
| "spec_step vals (Call_Move_Assign x y) =
     (case (vals x, vals y) of
        (Some _, Some s) \<Rightarrow> Inr (if x = y then vals else vals(x \<mapsto> s, y \<mapsto> ''''))
      | _ \<Rightarrow> Inl Undefined_Behaviour)"
| "spec_step vals (Call_Destroy x) =
     (case vals x of Some _ \<Rightarrow> Inr (vals(x := None)) | None \<Rightarrow> Inl Undefined_Behaviour)"

section \<open>The representation invariant\<close>

text \<open>A storage that owns what it points to, and holds the string \<open>s\<close>.\<close>

fun stored :: "char_heap \<Rightarrow> ps_storage \<Rightarrow> string \<Rightarrow> bool" where
  "stored h (Short_Storage b) s \<longleftrightarrow> b = s \<and> length s \<le> kInlineCapacity"
| "stored h (Long_Storage p sz m) s \<longleftrightarrow>
     m = kOwnedLong \<and> p < length h \<and> h ! p = Some s \<and> unat sz = length s"

fun points_to :: "ps_storage \<Rightarrow> nat \<Rightarrow> bool" where
  "points_to (Short_Storage b) q \<longleftrightarrow> False"
| "points_to (Long_Storage p sz m) q \<longleftrightarrow> p = q"

definition ps_rep :: "char_heap \<Rightarrow> 'o ps_objects \<Rightarrow> ('o \<Rightarrow> string option) \<Rightarrow> bool" where
  "ps_rep h objs vals \<longleftrightarrow>
     (\<forall>x. (objs x = None) = (vals x = None)) \<and>
     (\<forall>x st. objs x = Some st \<longrightarrow> stored h st (the (vals x)) \<and> length (the (vals x)) \<le> kMaxLongSize) \<and>
     (\<forall>x y st st' p. objs x = Some st \<longrightarrow> objs y = Some st' \<longrightarrow> points_to st p \<longrightarrow> points_to st' p \<longrightarrow> x = y) \<and>
     (\<forall>p < length h. h ! p \<noteq> None \<longrightarrow> (\<exists>x st. objs x = Some st \<and> points_to st p))"

lemma stored_view: "stored h st s \<Longrightarrow> PackedString_View h st = Inr s \<and> PackedString_Size st = length s"
  by (cases st) auto

lemma stored_empty [simp]: "stored h SetShortEmpty ''''" "points_to SetShortEmpty p = False"
  by (simp_all add: SetShortEmpty_def)

lemma stored_live: "stored h st s \<Longrightarrow> points_to st p \<Longrightarrow> p < length h \<and> h ! p = Some s"
  by (cases st) auto

text \<open>The heap of a program stays as it is, or grows by one array.\<close>

lemma Assign_stored:
  assumes "length s \<le> kMaxLongSize"
  obtains h' st where "PackedString_Assign h (Some s) (length s) = Inr (h', st)" "stored h' st s"
    "h' = h \<and> (\<forall>p. \<not> points_to st p) \<or> h' = h @ [Some s] \<and> (\<forall>p. points_to st p \<longleftrightarrow> p = length h)"
proof (cases "length s \<le> kInlineCapacity")
  case True
  then show thesis
    using that[of h "Short_Storage s"] assms by (simp add: PackedString_Assign_def Let_def)
next
  case False
  then show thesis
    using that[of "h @ [Some s]" "Long_Storage (length h) (of_nat (length s)) kOwnedLong"] assms
    by (auto simp: PackedString_Assign_def Let_def kMaxLongSize_def)
qed

lemma stored_grow: "stored h st s \<Longrightarrow> stored (h @ [a]) st s"
  by (cases st) (auto simp: nth_append)

lemma Clear_stored:
  assumes "stored h st s"
  obtains h' where "PackedString_Clear h st = Inr (h', SetShortEmpty)" "length h' = length h"
    "\<And>p. points_to st p \<Longrightarrow> h' ! p = None" "\<And>p. \<not> points_to st p \<Longrightarrow> h' ! p = h ! p"
proof (cases st)
  case (Short_Storage b)
  then show thesis using that[of h] by (simp add: PackedString_Clear_def)
next
  case (Long_Storage p sz m)
  then show thesis using assms that[of "h[p := None]"] by (auto simp: PackedString_Clear_def)
qed

lemma stored_other:
  "stored h st s \<Longrightarrow> length h' = length h \<Longrightarrow> (\<And>p. points_to st p \<Longrightarrow> h' ! p = h ! p) \<Longrightarrow> stored h' st s"
  by (cases st) auto

section \<open>Every call refines its specification\<close>

lemma ps_repI:
  assumes "\<And>x. (objs x = None) = (vals x = None)"
    and "\<And>x st. objs x = Some st \<Longrightarrow> stored h st (the (vals x)) \<and> length (the (vals x)) \<le> kMaxLongSize"
    and "\<And>x y st st' p. objs x = Some st \<Longrightarrow> objs y = Some st' \<Longrightarrow> points_to st p \<Longrightarrow> points_to st' p \<Longrightarrow> x = y"
    and "\<And>p. p < length h \<Longrightarrow> h ! p \<noteq> None \<Longrightarrow> \<exists>x st. objs x = Some st \<and> points_to st p"
  shows "ps_rep h objs vals"
  using assms unfolding ps_rep_def by blast

lemma ps_repD:
  assumes "ps_rep h objs vals"
  shows "\<And>x. (objs x = None) = (vals x = None)"
    and "\<And>x st. objs x = Some st \<Longrightarrow> stored h st (the (vals x))"
    and "\<And>x st. objs x = Some st \<Longrightarrow> length (the (vals x)) \<le> kMaxLongSize"
    and "\<And>x y st st' p. objs x = Some st \<Longrightarrow> objs y = Some st' \<Longrightarrow> points_to st p \<Longrightarrow> points_to st' p \<Longrightarrow> x = y"
    and "\<And>p. p < length h \<Longrightarrow> h ! p \<noteq> None \<Longrightarrow> \<exists>x st. objs x = Some st \<and> points_to st p"
  using assms unfolding ps_rep_def by blast+

text \<open>A new object.\<close>

lemma rep_new:
  assumes rep: "ps_rep h objs vals" and x: "objs x = None" and len: "length s \<le> kMaxLongSize"
  obtains h' st where "PackedString_Assign h (Some s) (length s) = Inr (h', st)" "ps_rep h' (objs(x \<mapsto> st)) (vals(x \<mapsto> s))"
proof -
  obtain h' st where a: "PackedString_Assign h (Some s) (length s) = Inr (h', st)" "stored h' st s"
    and h': "h' = h \<and> (\<forall>p. \<not> points_to st p) \<or> h' = h @ [Some s] \<and> (\<forall>p. points_to st p \<longleftrightarrow> p = length h)"
    by (rule Assign_stored[OF len])
  note D = ps_repD[OF rep]
  have old: "stored h' so (the (vals y))" if "objs y = Some so" for y so
    using D(2)[OF that] h' stored_grow by metis
  have apart: "\<not> points_to st p" if "objs y = Some so" "points_to so p" for y so p
    using stored_live[OF D(2)[OF that(1)] that(2)] h' by auto
  have "ps_rep h' (objs(x \<mapsto> st)) (vals(x \<mapsto> s))"
  proof (rule ps_repI)
    fix p assume p: "p < length h'" "h' ! p \<noteq> None"
    show "\<exists>y sy. (objs(x \<mapsto> st)) y = Some sy \<and> points_to sy p"
    proof (cases "points_to st p")
      case False
      then consider "h' = h" | "h' = h @ [Some s]" "p \<noteq> length h" using h' by blast
      then have "p < length h \<and> h ! p \<noteq> None"
      proof cases
        case 2
        then have "p < length h" using p(1) by simp
        with 2 p(2) show ?thesis by (simp add: nth_append)
      qed (use p in simp)
      with D(5)[of p] obtain y sy where "objs y = Some sy" "points_to sy p" by blast
      then show ?thesis using x by (intro exI[of _ y] exI[of _ sy]) auto
    qed (intro exI[of _ x], simp)
  next
    fix y z sy sz p
    assume "(objs(x \<mapsto> st)) y = Some sy" "(objs(x \<mapsto> st)) z = Some sz" "points_to sy p" "points_to sz p"
    then show "y = z"
      using D(4)[of y sy z sz p] apart[of y sy p] apart[of z sz p] by (cases "y = x"; cases "z = x") simp_all
  next
    show "((objs(x \<mapsto> st)) y = None) = ((vals(x \<mapsto> s)) y = None)" for y using D(1)[of y] by simp
    show "stored h' sy (the ((vals(x \<mapsto> s)) y)) \<and> length (the ((vals(x \<mapsto> s)) y)) \<le> kMaxLongSize"
      if "(objs(x \<mapsto> st)) y = Some sy" for y sy
      using that a(2) len old[of y sy] D(3)[of y sy] by (simp split: if_splits)
  qed
  with a(1) show thesis by (rule that)
qed

text \<open>An object gives up its array: it is destroyed, or takes a new value that points nowhere.\<close>

lemma rep_clear:
  assumes rep: "ps_rep h objs vals" and x: "objs x = Some st"
  obtains h' where "PackedString_Clear h st = Inr (h', SetShortEmpty)" "ps_rep h' (objs(x := None)) (vals(x := None))"
    "ps_rep h' (objs(x \<mapsto> SetShortEmpty)) (vals(x \<mapsto> ''''))"
proof -
  note D = ps_repD[OF rep]
  obtain h' where h': "PackedString_Clear h st = Inr (h', SetShortEmpty)" "length h' = length h"
    "\<And>p. points_to st p \<Longrightarrow> h' ! p = None" "\<And>p. \<not> points_to st p \<Longrightarrow> h' ! p = h ! p"
    by (rule Clear_stored[OF D(2)[OF x]]) blast
  have old: "stored h' so (the (vals y))" if "objs y = Some so" "y \<noteq> x" for y so
    by (rule stored_other[OF D(2)[OF that(1)] h'(2)], rule h'(4)) (use D(4)[OF that(1) x] that(2) in blast)
  have leak: "\<exists>y sy. objs y = Some sy \<and> y \<noteq> x \<and> points_to sy p" if "p < length h'" "h' ! p \<noteq> None" for p
  proof -
    have no: "\<not> points_to st p" using that(2) h'(3)[of p] by auto
    then have "p < length h" "h ! p \<noteq> None" using that h'(2,4) by simp_all
    from D(5)[OF this] obtain y sy where "objs y = Some sy" "points_to sy p" by blast
    then show ?thesis using no x by (intro exI[of _ y] exI[of _ sy]) auto
  qed
  have "ps_rep h' (objs(x := None)) (vals(x := None))"
  proof (rule ps_repI)
    show "\<exists>y sy. (objs(x := None)) y = Some sy \<and> points_to sy p" if "p < length h'" "h' ! p \<noteq> None" for p
      using leak[OF that] by auto
  qed (use D old in \<open>auto split: if_splits\<close>)
  moreover have "ps_rep h' (objs(x \<mapsto> SetShortEmpty)) (vals(x \<mapsto> ''''))"
  proof (rule ps_repI)
    show "\<exists>y sy. (objs(x \<mapsto> SetShortEmpty)) y = Some sy \<and> points_to sy p" if "p < length h'" "h' ! p \<noteq> None" for p
      using leak[OF that] by auto
  next
    fix y z sy sz p
    assume "(objs(x \<mapsto> SetShortEmpty)) y = Some sy" "(objs(x \<mapsto> SetShortEmpty)) z = Some sz" "points_to sy p" "points_to sz p"
    then show "y = z" using D(4)[of y sy z sz p] by (simp split: if_splits)
  qed (use D old in \<open>auto split: if_splits\<close>)
  ultimately show thesis using h'(1) that by blast
qed

text \<open>An array changes its owner.\<close>

lemma rep_move:
  assumes rep: "ps_rep h objs vals" and y: "objs y = Some other" "vals y = Some s" and x: "objs x = None" and "x \<noteq> y"
  shows "ps_rep h (objs(x \<mapsto> other, y \<mapsto> SetShortEmpty)) (vals(x \<mapsto> s, y \<mapsto> ''''))"
proof -
  note D = ps_repD[OF rep]
  have other: "stored h other s \<and> length s \<le> kMaxLongSize" using D(2,3)[OF y(1)] y(2) by simp
  show ?thesis
  proof (rule ps_repI)
    fix p assume "p < length h" "h ! p \<noteq> None"
    from D(5)[OF this] obtain z sz where z: "objs z = Some sz" "points_to sz p" by blast
    show "\<exists>z sz. (objs(x \<mapsto> other, y \<mapsto> SetShortEmpty)) z = Some sz \<and> points_to sz p"
    proof (cases "z = y")
      case True
      then show ?thesis using z y(1) assms(5) by (intro exI[of _ x] exI[of _ other]) simp
    next
      case False
      then show ?thesis using z x by (intro exI[of _ z] exI[of _ sz]) auto
    qed
  next
    fix u v su sv p
    assume "(objs(x \<mapsto> other, y \<mapsto> SetShortEmpty)) u = Some su" "(objs(x \<mapsto> other, y \<mapsto> SetShortEmpty)) v = Some sv"
      "points_to su p" "points_to sv p"
    moreover have "objs (if w = x then y else w) = Some sw \<and> w \<noteq> y"
      if "(objs(x \<mapsto> other, y \<mapsto> SetShortEmpty)) w = Some sw" "points_to sw p" for w sw
      using that y(1) by (cases "w = y"; cases "w = x") auto
    ultimately have "(if u = x then y else u) = (if v = x then y else v)" "u \<noteq> y" "v \<noteq> y"
      using D(4) by blast+
    then show "u = v" by (cases "u = x"; cases "v = x") auto
  next
    show "((objs(x \<mapsto> other, y \<mapsto> SetShortEmpty)) z = None) = ((vals(x \<mapsto> s, y \<mapsto> '''')) z = None)" for z
      using D(1)[of z] by simp
  next
    fix z sz assume z: "(objs(x \<mapsto> other, y \<mapsto> SetShortEmpty)) z = Some sz"
    consider "z = y" | "z = x" "z \<noteq> y" | "z \<noteq> x" "z \<noteq> y" by blast
    then show "stored h sz (the ((vals(x \<mapsto> s, y \<mapsto> '''')) z)) \<and> length (the ((vals(x \<mapsto> s, y \<mapsto> '''')) z)) \<le> kMaxLongSize"
    proof cases
      case 3
      then show ?thesis using D(2,3)[of z sz] z by simp
    qed (use z other in auto)
  qed
qed

lemma rep_lookup: "ps_rep h objs vals \<Longrightarrow> objs x = None \<longleftrightarrow> vals x = None"
  by (rule ps_repD(1))

lemma rep_read:
  assumes "ps_rep h objs vals" "objs x = Some st" "vals x = Some s"
  shows "PackedString_View h st = Inr s" "PackedString_Size st = length s" "length s \<le> kMaxLongSize"
  using stored_view ps_repD(2,3)[OF assms(1,2)] assms(3) by auto

text \<open>Copy assignment makes a copy, swaps, and destroys the old value with the copy.\<close>

lemma rep_copy_assign:
  assumes rep: "ps_rep h objs vals" and x: "objs x = Some this" and y: "objs y = Some other" "vals y = Some s" and "x \<noteq> y"
  shows "\<exists>h' st. PackedString_copy_assign h this other = Inr (h', st) \<and> ps_rep h' (objs(x \<mapsto> st)) (vals(x \<mapsto> s))"
proof -
  define objs' where "objs' = (\<lambda>z. case z of None \<Rightarrow> None | Some z \<Rightarrow> objs z)"
  define vals' where "vals' = (\<lambda>z. case z of None \<Rightarrow> None | Some z \<Rightarrow> vals z)"
  note D = ps_repD[OF rep]
  have rep': "ps_rep h objs' vals'"
  proof (rule ps_repI)
    show "\<exists>z sz. objs' z = Some sz \<and> points_to sz p" if "p < length h" "h ! p \<noteq> None" for p
      using D(5)[OF that] unfolding objs'_def by (metis option.case(2))
  qed (use D in \<open>auto simp: objs'_def vals'_def split: option.splits\<close>)
  obtain h1 st where new: "PackedString_Assign h (Some s) (length s) = Inr (h1, st)" "ps_rep h1 (objs'(None \<mapsto> st)) (vals'(None \<mapsto> s))"
    by (rule rep_new[OF rep', of None s]) (use rep_read[OF rep y] in \<open>auto simp: objs'_def\<close>)
  have "(objs'(None \<mapsto> st)) (Some x) = Some this" using x by (simp add: objs'_def)
  from rep_clear[OF new(2) this] obtain h2 where
    clear: "PackedString_Clear h1 this = Inr (h2, SetShortEmpty)" "ps_rep h2 ((objs'(None \<mapsto> st))(Some x := None)) ((vals'(None \<mapsto> s))(Some x := None))"
    by blast
  note D2 = ps_repD[OF clear(2)]
  have "ps_rep h2 (objs(x \<mapsto> st)) (vals(x \<mapsto> s))"
  proof (rule ps_repI)
    fix p assume "p < length h2" "h2 ! p \<noteq> None"
    from D2(5)[OF this] obtain z sz where z: "((objs'(None \<mapsto> st))(Some x := None)) z = Some sz" "points_to sz p" by blast
    show "\<exists>z sz. (objs(x \<mapsto> st)) z = Some sz \<and> points_to sz p"
    proof (cases z)
      case None
      then show ?thesis using z by (intro exI[of _ x] exI[of _ st]) simp
    next
      case (Some w)
      then show ?thesis using z by (intro exI[of _ w] exI[of _ sz]) (auto simp: objs'_def split: if_splits)
    qed
  next
    fix u v su sv p
    assume uv: "(objs(x \<mapsto> st)) u = Some su" "(objs(x \<mapsto> st)) v = Some sv" "points_to su p" "points_to sv p"
    have "((objs'(None \<mapsto> st))(Some x := None)) (if w = x then None else Some w) = (objs(x \<mapsto> st)) w" for w
      by (simp add: objs'_def)
    then show "u = v" using D2(4)[of "if u = x then None else Some u" su "if v = x then None else Some v" sv p] uv
      by (auto split: if_splits)
  next
    show "((objs(x \<mapsto> st)) z = None) = ((vals(x \<mapsto> s)) z = None)" for z using D(1)[of z] by simp
    show "stored h2 sz (the ((vals(x \<mapsto> s)) z)) \<and> length (the ((vals(x \<mapsto> s)) z)) \<le> kMaxLongSize"
      if "(objs(x \<mapsto> st)) z = Some sz" for z sz
      using D2(2,3)[of "if z = x then None else Some z" sz] that by (auto simp: objs'_def vals'_def split: if_splits)
  qed
  moreover have "PackedString_copy_assign h this other = Inr (h2, st)"
    using rep_read[OF rep y] new(1) clear(1)
    by (simp add: PackedString_copy_assign_def PackedString_copy_construct_def PackedString_Swap_def PackedString_MoveFrom_def)
  ultimately show ?thesis by blast
qed

lemma ps_step_refines:
  assumes rep: "ps_rep h objs vals"
  shows "case spec_step vals c of
      Inl e \<Rightarrow> ps_step (h, objs) c = Inl e
    | Inr vals' \<Rightarrow> \<exists>h' objs'. ps_step (h, objs) c = Inr (h', objs') \<and> ps_rep h' objs' vals'"
proof (cases c)
  case (Call_Construct x data)
  let ?bytes = "case data of None \<Rightarrow> '''' | Some d \<Rightarrow> d"
  have same: "PackedString_construct h data = PackedString_Assign h (Some ?bytes) (length ?bytes)"
    by (cases data) (simp_all add: PackedString_construct_def PackedString_Assign_def Let_def kInlineCapacity_def)
  show ?thesis
  proof (cases "vals x = None \<and> length ?bytes \<le> kMaxLongSize")
    case True
    obtain h' st where "PackedString_Assign h (Some ?bytes) (length ?bytes) = Inr (h', st)"
        "ps_rep h' (objs(x \<mapsto> st)) (vals(x \<mapsto> ?bytes))"
      by (rule rep_new[OF rep]) (use True rep_lookup[OF rep, of x] in auto)
    then show ?thesis using True rep_lookup[OF rep, of x] by (simp add: Call_Construct same Let_def)
  next
    case False
    then show ?thesis using rep_lookup[OF rep, of x]
      by (auto simp: Call_Construct same Let_def PackedString_Assign_def)
  qed
next
  case (Call_Copy x y)
  show ?thesis
  proof (cases "objs x = None \<and> objs y \<noteq> None")
    case True
    then obtain st s where y: "objs y = Some st" "vals y = Some s" using rep_lookup[OF rep, of y] by auto
    obtain h' st' where "PackedString_Assign h (Some s) (length s) = Inr (h', st')" "ps_rep h' (objs(x \<mapsto> st')) (vals(x \<mapsto> s))"
      by (rule rep_new[OF rep]) (use True rep_read[OF rep y] in auto)
    then show ?thesis
      using True y rep_read[OF rep y] rep_lookup[OF rep, of x]
      by (simp add: Call_Copy PackedString_copy_construct_def)
  qed (use rep_lookup[OF rep, of x] rep_lookup[OF rep, of y] in \<open>auto simp: Call_Copy split: option.split\<close>)
next
  case (Call_Move x y)
  show ?thesis
  proof (cases "objs x = None \<and> objs y \<noteq> None")
    case True
    then obtain st s where y: "objs y = Some st" "vals y = Some s" using rep_lookup[OF rep, of y] by auto
    have "x \<noteq> y" using True by auto
    from rep_move[OF rep y _ this] True y show ?thesis
      using rep_lookup[OF rep, of x] by (simp add: Call_Move PackedString_MoveFrom_def)
  qed (use rep_lookup[OF rep, of x] rep_lookup[OF rep, of y] in \<open>auto simp: Call_Move split: option.split\<close>)
next
  case (Call_Copy_Assign x y)
  show ?thesis
  proof (cases "objs x \<noteq> None \<and> objs y \<noteq> None")
    case True
    then obtain tx st sx s where y: "objs x = Some tx" "vals x = Some sx" "objs y = Some st" "vals y = Some s"
      using rep_lookup[OF rep, of y] rep_lookup[OF rep, of x] by auto
    show ?thesis
    proof (cases "x = y")
      case True
      then have "vals(x \<mapsto> s) = vals" using y by auto
      then show ?thesis using True y rep by (simp add: Call_Copy_Assign)
    next
      case False
      from rep_copy_assign[OF rep y(1,3,4) False] y False show ?thesis by (auto simp: Call_Copy_Assign)
    qed
  qed (use rep_lookup[OF rep, of x] rep_lookup[OF rep, of y] in \<open>auto simp: Call_Copy_Assign split: option.split\<close>)
next
  case (Call_Move_Assign x y)
  show ?thesis
  proof (cases "objs x \<noteq> None \<and> objs y \<noteq> None")
    case True
    then obtain tx st sx s where y: "objs x = Some tx" "vals x = Some sx" "objs y = Some st" "vals y = Some s"
      using rep_lookup[OF rep, of y] rep_lookup[OF rep, of x] by auto
    show ?thesis
    proof (cases "x = y")
      case False
      from rep_clear[OF rep y(1)] obtain h' where h': "PackedString_Clear h tx = Inr (h', SetShortEmpty)"
          "ps_rep h' (objs(x := None)) (vals(x := None))" by blast
      from rep_move[OF h'(2), of y st s x] y False have "ps_rep h' (objs(x \<mapsto> st, y \<mapsto> SetShortEmpty)) (vals(x \<mapsto> s, y \<mapsto> ''''))"
        by simp
      then show ?thesis using h'(1) y False by (simp add: Call_Move_Assign PackedString_move_assign_def PackedString_MoveFrom_def)
    qed (use y rep in \<open>simp add: Call_Move_Assign\<close>)
  qed (use rep_lookup[OF rep, of x] rep_lookup[OF rep, of y] in \<open>auto simp: Call_Move_Assign split: option.split\<close>)
next
  case (Call_Destroy x)
  show ?thesis
  proof (cases "objs x")
    case (Some st)
    then obtain s where "vals x = Some s" using rep_lookup[OF rep, of x] by auto
    obtain h' where "PackedString_Clear h st = Inr (h', SetShortEmpty)" "ps_rep h' (objs(x := None)) (vals(x := None))"
      using rep_clear[OF rep Some] by blast
    then show ?thesis using \<open>vals x = Some s\<close> Some by (simp add: Call_Destroy)
  qed (use rep_lookup[OF rep, of x] in \<open>simp add: Call_Destroy\<close>)
qed

section \<open>Whole programs\<close>

lemma ps_run_refines:
  assumes "ps_rep h objs vals"
  shows "case foldE spec_step vals cs of
      Inl e \<Rightarrow> foldE ps_step (h, objs) cs = Inl e
    | Inr vals' \<Rightarrow> \<exists>h' objs'. foldE ps_step (h, objs) cs = Inr (h', objs') \<and> ps_rep h' objs' vals'"
  using assms
proof (induction cs arbitrary: h objs vals)
  case (Cons c cs)
  note one = ps_step_refines[OF Cons.prems, of c]
  show ?case
  proof (cases "spec_step vals c")
    case (Inl e)
    then show ?thesis using one by simp
  next
    case (Inr vals')
    then obtain h' objs' where "ps_step (h, objs) c = Inr (h', objs')" "ps_rep h' objs' vals'" using one by auto
    then show ?thesis using Cons.IH[of h' objs' vals'] Inr by (simp split: sum.splits)
  qed
qed auto

lemma rep_empty: "ps_rep [] Map.empty Map.empty"
  by (simp add: ps_rep_def)

lemma rep_reads:
  assumes "ps_rep h objs vals"
  shows "map_option (PackedString_View h) (objs x) = map_option Inr (vals x)"
    and "map_option PackedString_Size (objs x) = map_option length (vals x)"
  using rep_lookup[OF assms, of x] rep_read[OF assms, of x] by (cases "objs x"; cases "vals x"; force)+

lemma rep_no_leak:
  assumes "ps_rep h objs Map.empty"
  shows "h = replicate (length h) None"
proof (rule nth_equalityI)
  fix p assume "p < length h"
  then show "h ! p = replicate (length h) None ! p"
    using ps_repD(5)[OF assms, of p] rep_lookup[OF assms] by (cases "h ! p") auto
qed simp

text \<open>C14: A program that makes any sequence of constructions, copies, moves, assignments and
  destructions of \<open>PackedString\<close> objects, starting with no object and no heap, behaves as the
  same sequence on plain strings: it throws in the same step with the same exception, or every
  object it leaves reads as the string the specification gives it, with its length; and when
  every object is destroyed no array stays allocated.\<close>

theorem PackedString_refines_strings:
  fixes cs :: "'o ps_call list"
  shows "case foldE spec_step Map.empty cs of
      Inl e \<Rightarrow> foldE ps_step ([], Map.empty) cs = Inl e
    | Inr vals \<Rightarrow> \<exists>h objs. foldE ps_step ([], Map.empty) cs = Inr (h, objs) \<and>
        (\<forall>x. map_option (PackedString_View h) (objs x) = map_option Inr (vals x)) \<and>
        (\<forall>x. map_option PackedString_Size (objs x) = map_option length (vals x)) \<and>
        (vals = Map.empty \<longrightarrow> h = replicate (length h) None)"
proof (cases "foldE spec_step Map.empty cs")
  case (Inl e)
  then show ?thesis using ps_run_refines[OF rep_empty, of cs] by simp
next
  case (Inr vals)
  then obtain h objs where run: "foldE ps_step ([], Map.empty) cs = Inr (h, objs)" "ps_rep h objs vals"
    using ps_run_refines[OF rep_empty, of cs] by auto
  have "vals = Map.empty \<longrightarrow> h = replicate (length h) None" using rep_no_leak run(2) by auto
  then show ?thesis using rep_reads[OF run(2)] Inr run(1) by simp
qed

lemma PackedString_refines_strings_witness:
  "case foldE spec_step Map.empty
      [Call_Construct (0::nat) (Some ''a key of more than 14 bytes''), Call_Copy 1 0, Call_Move_Assign 0 1, Call_Destroy 0, Call_Destroy 1] of
      Inl e \<Rightarrow> False
    | Inr vals \<Rightarrow> vals = Map.empty \<and>
        (\<exists>h objs. foldE ps_step ([], Map.empty)
          [Call_Construct (0::nat) (Some ''a key of more than 14 bytes''), Call_Copy 1 0, Call_Move_Assign 0 1, Call_Destroy 0, Call_Destroy 1]
            = Inr (h, objs) \<and> h = replicate (length h) None)"
  using PackedString_refines_strings[of "[Call_Construct (0::nat) (Some ''a key of more than 14 bytes''),
      Call_Copy 1 0, Call_Move_Assign 0 1, Call_Destroy 0, Call_Destroy 1]"]
  by (simp add: kMaxLongSize_def) blast



end
