(* ===== verification/Resp.thy ===== *)
theory Resp
  imports Cpp_Prelude
begin

text \<open>
  The RESP codec (resp.h): the packing functions, which append to a string, and \<open>UnpackOne\<close>, which
  parses one value from a buffer without copying and without recursion.  \<open>std::string_view\<close>
  results are offsets into the input; the caller's array \<open>scratch\<close> is a list of values, a
  \<open>RespValue*\<close> is an index into it; \<open>int64_t\<close> and \<open>uint64_t\<close> are 64-bit words.
\<close>

section \<open>Data\<close>

(* resp.h:14-22 RespType *)
datatype resp_type = kSimpleString | kError | kInteger | kBulkString | kNullBulkString | kArray | kNullArray

text \<open>A view of the input, or the default view, which is empty and has no data pointer.\<close>

datatype text_view = No_Text | View nat nat

(* resp.h:24-30 RespValue *)
record resp_value =
  rv_type :: resp_type
  rv_text :: text_view
  rv_integer :: "64 word"
  rv_elements :: "nat option"
  rv_element_count :: nat

(* resp.h:32-36 RespLimits *)
record resp_limits =
  max_bulk_bytes :: nat
  max_array_elements :: nat
  max_depth :: nat

(* resp.h:32-36 RespLimits *)
definition RespLimits_default :: resp_limits where
  "RespLimits_default = \<lparr>max_bulk_bytes = 2 ^ 64 - 1, max_array_elements = 2 ^ 64 - 1, max_depth = 128\<rparr>"

(* resp.h:38-43 RespStatus *)
datatype resp_status = kOk | kNeedMore | kStatusError | kNoMemory

(* resp.h:45-50 RespResult *)
record resp_result =
  rr_status :: resp_status
  rr_consumed :: nat
  rr_value :: "nat option"
  rr_error :: string

(* resp.h:54-54 kMaxParserDepth *)
definition kMaxParserDepth :: nat where
  "kMaxParserDepth = 128"

(* resp.h:56-62 LineResult *)
record line_result =
  lr_status :: resp_status
  lr_begin :: nat
  lr_size :: nat
  lr_next :: nat
  lr_error :: string

(* resp.h:64-68 Frame *)
record frame =
  fr_elements :: nat
  fr_count :: nat
  fr_index :: nat

(* resp.h:70-73 MakeResult *)
definition MakeResult :: "resp_status \<Rightarrow> nat \<Rightarrow> nat option \<Rightarrow> string \<Rightarrow> resp_result" where
  "MakeResult status consumed v error = \<lparr>rr_status = status, rr_consumed = consumed, rr_value = v, rr_error = error\<rparr>"

abbreviation CR :: char where "CR \<equiv> CHR 0x0D"
abbreviation LF :: char where "LF \<equiv> CHR 0x0A"

section \<open>Lines and numbers\<close>

text \<open>The scan for the line feed, from index \<open>i\<close>.\<close>

(* resp.h:80-90 ReadLine *)
function ReadLine_loop :: "string \<Rightarrow> nat \<Rightarrow> nat \<Rightarrow> line_result" where
  "ReadLine_loop input begn i =
     (if i < length input then
        if input ! i = LF then
          if i = begn \<or> input ! (i - 1) \<noteq> CR
          then \<lparr>lr_status = kStatusError, lr_begin = begn, lr_size = 0, lr_next = i + 1, lr_error = ''expected CRLF''\<rparr>
          else \<lparr>lr_status = kOk, lr_begin = begn, lr_size = i - begn - 1, lr_next = i + 1, lr_error = ''''\<rparr>
        else ReadLine_loop input begn (i + 1)
      else \<lparr>lr_status = kNeedMore, lr_begin = begn, lr_size = 0, lr_next = length input, lr_error = ''''\<rparr>)"
  by pat_completeness auto
termination
  by (relation "measure (\<lambda>(input, begn, i). length input - i)") auto

declare ReadLine_loop.simps [simp del]

(* resp.h:75-91 ReadLine *)
definition ReadLine :: "string \<Rightarrow> nat \<Rightarrow> line_result" where
  "ReadLine input begn =
     (if begn > length input
      then \<lparr>lr_status = kNeedMore, lr_begin = begn, lr_size = 0, lr_next = begn, lr_error = ''''\<rparr>
      else ReadLine_loop input begn begn)"

(* resp.h:114-124 ParseSignedNumber *)
fun ParseSignedNumber_loop :: "64 word \<Rightarrow> 64 word \<Rightarrow> string \<Rightarrow> 64 word option" where
  "ParseSignedNumber_loop limit magnitude [] = Some magnitude"
| "ParseSignedNumber_loop limit magnitude (ch # text) =
     (if (of_char ch :: nat) < of_char (CHR ''0'') \<or> (of_char ch :: nat) > of_char (CHR ''9'') then None
      else let digit = of_nat (of_char ch - of_char (CHR ''0'')) in
        if magnitude > (limit - digit) div 10 then None
        else ParseSignedNumber_loop limit (magnitude * 10 + digit) text)"

text \<open>\<open>None\<close> is the return value \<open>false\<close>.  The smallest number is its own negation.\<close>

(* resp.h:93-136 ParseSignedNumber *)
definition ParseSignedNumber :: "string \<Rightarrow> 64 word option" where
  "ParseSignedNumber text =
     (if text = [] then None
      else let negative = (hd text = CHR ''-''); digits = (if negative then tl text else text) in
        if negative \<and> digits = [] then None
        else let limit = (if negative then push_bit 63 1 else 2 ^ 63 - 1) in
          case ParseSignedNumber_loop limit 0 digits of
            None \<Rightarrow> None
          | Some magnitude \<Rightarrow>
              if negative then
                if magnitude = push_bit 63 1 then Some (push_bit 63 1) else Some (- magnitude)
              else Some magnitude)"

(* resp.h:138-142 FitsSize *)
definition FitsSize :: "64 word \<Rightarrow> bool" where
  "FitsSize n \<longleftrightarrow> sint n \<ge> 0 \<and> unat n \<le> 2 ^ 64 - 1"

text \<open>The digits are written from the end of the buffer towards its start.\<close>

(* resp.h:157-160 AppendSignedInteger *)
function digits_loop :: "64 word \<Rightarrow> string \<Rightarrow> string" where
  "digits_loop magnitude current =
     (let current = char_of (of_char (CHR ''0'') + unat (magnitude mod 10)) # current; magnitude = magnitude div 10 in
      if magnitude \<noteq> 0 then digits_loop magnitude current else current)"
  by pat_completeness auto
termination
proof (relation "measure (\<lambda>(magnitude, current). unat magnitude)", goal_cases)
  case (2 magnitude current x y)
  then have "magnitude \<noteq> 0" by auto
  then have "unat magnitude \<noteq> 0" by (simp add: unat_eq_zero)
  then show ?case using 2 by (simp add: unat_div)
qed simp

declare digits_loop.simps [simp del]

text \<open>A buffer of 32 characters; writing before its start would be undefined.\<close>

(* resp.h:144-166 AppendSignedInteger *)
definition AppendSignedInteger :: "64 word \<Rightarrow> string \<Rightarrow> string res" where
  "AppendSignedInteger v out =
     (let negative = sint v < 0;
          magnitude = (if negative then - (v + 1) + 1 else v);
          digits = digits_loop magnitude [];
          current = (if negative then CHR ''-'' # digits else digits)
      in if length current > 32 then Inl Undefined_Behaviour else Inr (out @ current))"

(* resp.h:168-179 AppendUnsignedInteger *)
definition AppendUnsignedInteger :: "nat \<Rightarrow> string \<Rightarrow> string res" where
  "AppendUnsignedInteger n out =
     (let digits = digits_loop (of_nat n) [] in
      if length digits > 32 then Inl Undefined_Behaviour else Inr (out @ digits))"

(* resp.h:181-188 DecimalLength *)
function DecimalLength_loop :: "nat \<Rightarrow> nat \<Rightarrow> nat" where
  "DecimalLength_loop n len = (if n \<ge> 10 then DecimalLength_loop (n div 10) (len + 1) else len)"
  by pat_completeness auto
termination
  by (relation "measure (\<lambda>(n, len). n)") auto

declare DecimalLength_loop.simps [simp del]

(* resp.h:181-188 DecimalLength *)
definition DecimalLength :: "nat \<Rightarrow> nat" where
  "DecimalLength n = DecimalLength_loop n 1"

section \<open>Packing\<close>

(* resp.h:321-325 PackSimpleString *)
definition PackSimpleString :: "string \<Rightarrow> string \<Rightarrow> string" where
  "PackSimpleString v out = out @ ''+'' @ v @ [CR, LF]"

(* resp.h:327-331 PackError *)
definition PackError :: "string \<Rightarrow> string \<Rightarrow> string" where
  "PackError v out = out @ ''-'' @ v @ [CR, LF]"

(* resp.h:333-337 PackInteger *)
definition PackInteger :: "64 word \<Rightarrow> string \<Rightarrow> string res" where
  "PackInteger v out = bindE (AppendSignedInteger v (out @ '':'')) (\<lambda>out. Inr (out @ [CR, LF]))"

(* resp.h:339-345 PackBulkString *)
definition PackBulkString :: "string \<Rightarrow> string \<Rightarrow> string res" where
  "PackBulkString v out =
     bindE (AppendUnsignedInteger (length v) (out @ ''$'')) (\<lambda>out. Inr (out @ [CR, LF] @ v @ [CR, LF]))"

(* resp.h:347-347 PackNullBulkString *)
definition PackNullBulkString :: "string \<Rightarrow> string" where
  "PackNullBulkString out = out @ ''$-1'' @ [CR, LF]"

(* resp.h:349-353 PackArrayHeader *)
definition PackArrayHeader :: "nat \<Rightarrow> string \<Rightarrow> string res" where
  "PackArrayHeader count out =
     bindE (AppendUnsignedInteger count (out @ ''*'')) (\<lambda>out. Inr (out @ [CR, LF]))"

(* resp.h:355-355 PackNullArray *)
definition PackNullArray :: "string \<Rightarrow> string" where
  "PackNullArray out = out @ ''*-1'' @ [CR, LF]"

text \<open>What \<open>PackCommand\<close> reserves before it appends.\<close>

(* resp.h:359-363 PackCommand *)
definition PackCommand_additional :: "string list \<Rightarrow> nat" where
  "PackCommand_additional args =
     foldl (\<lambda>additional arg. additional + (1 + DecimalLength (length arg) + 2 + length arg + 2))
       (1 + DecimalLength (length args) + 2) args"

(* resp.h:357-369 PackCommand *)
definition PackCommand :: "string list \<Rightarrow> string \<Rightarrow> string res" where
  "PackCommand args out = bindE (PackArrayHeader (length args) out) (\<lambda>out. foldE (\<lambda>out arg. PackBulkString arg out) out args)"

section \<open>Parsing one value\<close>

(* resp.h:190-196 ResetValue *)
definition ResetValue :: resp_value where
  "ResetValue = \<lparr>rv_type = kNullBulkString, rv_text = No_Text, rv_integer = 0, rv_elements = None, rv_element_count = 0\<rparr>"

text \<open>Subtraction of \<open>std::size_t\<close> values wraps.\<close>

definition size_minus :: "nat \<Rightarrow> nat \<Rightarrow> nat" where
  "size_minus a b = (if b \<le> a then a - b else a + 2 ^ 64 - b)"

text \<open>The bytes of a view of the input.\<close>

definition view_bytes :: "string \<Rightarrow> nat \<Rightarrow> nat \<Rightarrow> string" where
  "view_bytes input first sz = take sz (drop first input)"

type_synonym parse_state = "resp_value list \<times> nat"

text \<open>
  The four kinds of value, by their first byte.  Each part is handed the reset target and the line
  after the prefix, and answers the result, the value for the target and the new \<open>next_free\<close>.
\<close>

(* resp.h:209-217 ParseValueAt *)
definition ParseLineValue :: "char \<Rightarrow> nat \<Rightarrow> line_result \<Rightarrow> resp_result \<times> resp_value" where
  "ParseLineValue prefix target line =
     (if lr_status line \<noteq> kOk then (MakeResult (lr_status line) 0 None (lr_error line), ResetValue)
      else (MakeResult kOk (lr_next line) (Some target) '''',
            ResetValue\<lparr>rv_type := (if prefix = CHR ''+'' then kSimpleString else kError),
              rv_text := View (lr_begin line) (lr_size line)\<rparr>))"

(* resp.h:219-232 ParseValueAt *)
definition ParseIntegerValue :: "string \<Rightarrow> nat \<Rightarrow> line_result \<Rightarrow> resp_result \<times> resp_value" where
  "ParseIntegerValue input target line =
     (if lr_status line \<noteq> kOk then (MakeResult (lr_status line) 0 None (lr_error line), ResetValue)
      else case ParseSignedNumber (view_bytes input (lr_begin line) (lr_size line)) of
        None \<Rightarrow> (MakeResult kStatusError 0 None ''invalid integer'', ResetValue)
      | Some parsed \<Rightarrow> (MakeResult kOk (lr_next line) (Some target) '''',
          ResetValue\<lparr>rv_type := kInteger, rv_integer := parsed\<rparr>))"

(* resp.h:234-270 ParseValueAt *)
definition ParseBulkValue :: "string \<Rightarrow> nat \<Rightarrow> resp_limits \<Rightarrow> line_result \<Rightarrow> resp_result \<times> resp_value" where
  "ParseBulkValue input target limits line =
     (if lr_status line \<noteq> kOk then (MakeResult (lr_status line) 0 None (lr_error line), ResetValue)
      else case ParseSignedNumber (view_bytes input (lr_begin line) (lr_size line)) of
        None \<Rightarrow> (MakeResult kStatusError 0 None ''invalid bulk length'', ResetValue)
      | Some n \<Rightarrow>
          if sint n = -1 then (MakeResult kOk (lr_next line) (Some target) '''', ResetValue\<lparr>rv_type := kNullBulkString\<rparr>)
          else if \<not> FitsSize n then (MakeResult kStatusError 0 None ''invalid bulk length'', ResetValue)
          else let bulk_size = unat n in
            if bulk_size > max_bulk_bytes limits then (MakeResult kStatusError 0 None ''bulk length limit'', ResetValue)
            else if bulk_size > size_minus (length input) (lr_next line) then (MakeResult kNeedMore 0 None '''', ResetValue)
            else let trailer = lr_next line + bulk_size in
              if size_minus (length input) trailer < 2 then (MakeResult kNeedMore 0 None '''', ResetValue)
              else if input ! trailer \<noteq> CR \<or> input ! (trailer + 1) \<noteq> LF
              then (MakeResult kStatusError 0 None ''invalid bulk trailer'', ResetValue)
              else (MakeResult kOk (trailer + 2) (Some target) '''',
                    ResetValue\<lparr>rv_type := kBulkString, rv_text := View (lr_next line) bulk_size\<rparr>))"

(* resp.h:280-313 ParseValueAt *)
definition ParseArrayHeader :: "string \<Rightarrow> nat \<Rightarrow> nat \<Rightarrow> nat \<Rightarrow> resp_limits \<Rightarrow> line_result \<Rightarrow>
    resp_result \<times> resp_value \<times> nat" where
  "ParseArrayHeader input target capacity next_free limits line =
     (if lr_status line \<noteq> kOk then (MakeResult (lr_status line) 0 None (lr_error line), ResetValue, next_free)
      else case ParseSignedNumber (view_bytes input (lr_begin line) (lr_size line)) of
        None \<Rightarrow> (MakeResult kStatusError 0 None ''invalid array length'', ResetValue, next_free)
      | Some n \<Rightarrow>
          if sint n = -1
          then (MakeResult kOk (lr_next line) (Some target) '''', ResetValue\<lparr>rv_type := kNullArray\<rparr>, next_free)
          else if \<not> FitsSize n then (MakeResult kStatusError 0 None ''invalid array length'', ResetValue, next_free)
          else let count = unat n in
            if count > max_array_elements limits
            then (MakeResult kStatusError 0 None ''array length limit'', ResetValue, next_free)
            else if count > size_minus capacity next_free
            then (MakeResult kNoMemory 0 None ''scratch exhausted'', ResetValue, next_free)
            else let v = ResetValue\<lparr>rv_type := kArray, rv_element_count := count\<rparr> in
              if count = 0 then (MakeResult kOk (lr_next line) (Some target) '''', v\<lparr>rv_elements := None\<rparr>, next_free)
              else (MakeResult kOk (lr_next line) (Some target) '''', v\<lparr>rv_elements := Some next_free\<rparr>, next_free + count))"

text \<open>
  \<open>scratch\<close> is written at \<open>target\<close> once a byte is there to read; a target outside the array would
  be undefined.
\<close>

(* resp.h:198-317 ParseValueAt *)
definition ParseValueAt :: "string \<Rightarrow> nat \<Rightarrow> nat \<Rightarrow> resp_value list \<Rightarrow> nat \<Rightarrow> resp_limits \<Rightarrow> nat \<Rightarrow>
    (resp_result \<times> resp_value list \<times> nat) res" where
  "ParseValueAt input pos target scratch next_free limits active_array_depth =
     (if pos \<ge> length input then Inr (MakeResult kNeedMore 0 None '''', scratch, next_free)
      else if target \<ge> length scratch then Inl Undefined_Behaviour
      else let prefix = input ! pos;
               (result, v, next_free) =
                 (if prefix = CHR ''+'' \<or> prefix = CHR ''-'' then
                    let (r, v) = ParseLineValue prefix target (ReadLine input (pos + 1)) in (r, v, next_free)
                  else if prefix = CHR '':'' then
                    let (r, v) = ParseIntegerValue input target (ReadLine input (pos + 1)) in (r, v, next_free)
                  else if prefix = CHR ''$'' then
                    let (r, v) = ParseBulkValue input target limits (ReadLine input (pos + 1)) in (r, v, next_free)
                  else if prefix = CHR ''*'' then
                    let value_depth = active_array_depth + 1;
                        configured_depth = (if max_depth limits < kMaxParserDepth then max_depth limits else kMaxParserDepth)
                    in if value_depth > configured_depth
                      then (MakeResult kStatusError 0 None ''array depth limit'', ResetValue, next_free)
                      else ParseArrayHeader input target (length scratch) next_free limits (ReadLine input (pos + 1))
                  else (MakeResult kStatusError 0 None ''unknown RESP type'', ResetValue, next_free))
        in Inr (result, scratch[target := v], next_free))"

section \<open>A parsed value has consumed bytes\<close>

lemma ReadLine_loop_ok:
  assumes "lr_status (ReadLine_loop input begn i) = kOk" and "begn \<le> i"
  shows "lr_begin (ReadLine_loop input begn i) = begn \<and> i < lr_next (ReadLine_loop input begn i) \<and>
    lr_next (ReadLine_loop input begn i) \<le> length input \<and>
    begn + lr_size (ReadLine_loop input begn i) + 2 = lr_next (ReadLine_loop input begn i)"
  using assms
proof (induction input begn i rule: ReadLine_loop.induct)
  case (1 input begn i)
  show ?case
  proof (cases "i < length input \<and> input ! i \<noteq> LF")
    case True
    with 1 show ?thesis by (simp add: ReadLine_loop.simps[of input begn i])
  next
    case False
    with 1(2,3) show ?thesis by (auto simp: ReadLine_loop.simps[of input begn i] split: if_splits)
  qed
qed

lemma ReadLine_ok:
  assumes "lr_status (ReadLine input begn) = kOk"
  shows "lr_begin (ReadLine input begn) = begn" "begn < lr_next (ReadLine input begn)"
    "lr_next (ReadLine input begn) \<le> length input"
    "begn + lr_size (ReadLine input begn) + 2 = lr_next (ReadLine input begn)"
  using assms ReadLine_loop_ok[of input begn begn] by (auto simp: ReadLine_def split: if_splits)

lemma status_MakeResult [simp]:
  "rr_status (MakeResult s n v e) = s" "rr_consumed (MakeResult s n v e) = n"
  "rr_value (MakeResult s n v e) = v" "rr_error (MakeResult s n v e) = e"
  by (simp_all add: MakeResult_def)

lemma ParseValueAt_progress:
  assumes "ParseValueAt input pos target scratch nf limits depth = Inr (r, scratch', nf')" and "rr_status r = kOk"
  shows "pos < rr_consumed r \<and> rr_consumed r \<le> length input \<and> length scratch' = length scratch"
  using assms ReadLine_ok[of input "pos + 1"]
  by (auto simp: ParseValueAt_def ParseLineValue_def ParseIntegerValue_def ParseBulkValue_def ParseArrayHeader_def
      size_minus_def Let_def split: if_splits option.splits)

section \<open>Parsing with an explicit stack\<close>

text \<open>
  The inner loop: after a value is complete, the first frame that still has an element left gives
  the next target; frames that are complete are popped.  The top of the stack is the head of
  the list, and \<open>None\<close> is an empty stack, where \<open>UnpackOne\<close> returns.
\<close>

(* resp.h:406-419 UnpackOne *)
fun next_target :: "frame list \<Rightarrow> (nat \<times> frame list) option" where
  "next_target [] = None"
| "next_target (f # fs) =
     (let f = f\<lparr>fr_index := fr_index f + 1\<rparr> in
      if fr_index f < fr_count f then Some (fr_elements f + fr_index f, f # fs) else next_target fs)"

(* resp.h:385-420 UnpackOne *)
function UnpackOne_loop :: "string \<Rightarrow> resp_limits \<Rightarrow> resp_value list \<Rightarrow> nat \<Rightarrow> nat \<Rightarrow> nat \<Rightarrow> frame list \<Rightarrow>
    (resp_result \<times> resp_value list) res" where
  "UnpackOne_loop input limits scratch next_free pos current frames =
     bindE (ParseValueAt input pos current scratch next_free limits (length frames)) (\<lambda>(parsed, scratch, next_free).
     if rr_status parsed \<noteq> kOk then Inr (parsed, scratch)
     else let pos = rr_consumed parsed; v = scratch ! current in
       if rv_type v = kArray \<and> rv_element_count v > 0 then
         if length frames = kMaxParserDepth then Inr (MakeResult kStatusError 0 None ''array depth limit'', scratch)
         else (case rv_elements v of
             None \<Rightarrow> Inl Undefined_Behaviour
           | Some elements \<Rightarrow> UnpackOne_loop input limits scratch next_free pos elements
               (\<lparr>fr_elements = elements, fr_count = rv_element_count v, fr_index = 0\<rparr> # frames))
       else (case next_target frames of
           None \<Rightarrow> Inr (MakeResult kOk pos (Some 0) '''', scratch)
         | Some (current, frames) \<Rightarrow> UnpackOne_loop input limits scratch next_free pos current frames))"
  by pat_completeness auto
termination
proof (relation "measure (\<lambda>(input, limits, scratch, next_free, pos, current, frames). length input - pos)", goal_cases)
  case 1
  then show ?case by simp
qed (force dest: ParseValueAt_progress)+

declare UnpackOne_loop.simps [simp del]

(* resp.h:371-421 UnpackOne *)
definition UnpackOne :: "string \<Rightarrow> resp_value list \<Rightarrow> resp_limits \<Rightarrow> (resp_result \<times> resp_value list) res" where
  "UnpackOne input scratch limits =
     (if scratch = [] then Inr (MakeResult kNoMemory 0 None ''scratch is empty'', scratch)
      else UnpackOne_loop input limits scratch 1 0 0 [])"

end
