(* ===== verification/Resp_Numbers.thy ===== *)
theory Resp_Numbers
  imports Resp
begin

text \<open>
  The decimal numbers of RESP: what \<open>ParseSignedNumber\<close> accepts, exactly, and that it reads back
  what \<open>AppendSignedInteger\<close> and \<open>AppendUnsignedInteger\<close> write.
\<close>

section \<open>Decimal notation\<close>

definition is_digit :: "char \<Rightarrow> bool" where
  "is_digit c \<longleftrightarrow> 48 \<le> (of_char c :: nat) \<and> (of_char c :: nat) \<le> 57"

definition is_number :: "string \<Rightarrow> bool" where
  "is_number cs \<longleftrightarrow> (\<forall>c \<in> set cs. is_digit c)"

text \<open>The value of a digit string read after a number \<open>m\<close>.\<close>

definition read_on :: "nat \<Rightarrow> string \<Rightarrow> nat" where
  "read_on = foldl (\<lambda>m c. 10 * m + (of_char c - 48))"

lemma read_on_simps [simp]:
  "read_on m [] = m" "read_on m (c # cs) = read_on (10 * m + (of_char c - 48)) cs"
  "read_on m (cs @ ds) = read_on (read_on m cs) ds"
  by (simp_all add: read_on_def)

lemma is_number_simps [simp]:
  "is_number []" "is_number (c # cs) \<longleftrightarrow> is_digit c \<and> is_number cs"
  "is_number (cs @ ds) \<longleftrightarrow> is_number cs \<and> is_number ds"
  by (auto simp: is_number_def)

lemma read_on_ge: "m \<le> read_on m cs"
proof (induction cs arbitrary: m)
  case (Cons c cs)
  from Cons[of "10 * m + (of_char c - 48)"] show ?case by simp
qed simp

text \<open>The signed number a text denotes, if it denotes one.\<close>

definition signed_value :: "string \<Rightarrow> int option" where
  "signed_value text =
     (if text = [] then None
      else if hd text = CHR ''-'' then
        (if tl text \<noteq> [] \<and> is_number (tl text) then Some (- int (read_on 0 (tl text))) else None)
      else if is_number text then Some (int (read_on 0 text)) else None)"

section \<open>Parsing\<close>

lemma limit_test:
  fixes m l :: "64 word"
  assumes "d \<le> 9" "9 \<le> unat l"
  shows "m > (l - of_nat d) div 10 \<longleftrightarrow> 10 * unat m + d > unat l"
proof -
  have d: "unat (of_nat d :: 64 word) = d" using assms(1) by (intro unat_of_nat_small) simp
  then have "unat (l - of_nat d) = unat l - d" using assms by (simp add: unat_sub word_le_nat_alt)
  then have "unat ((l - of_nat d) div 10) = (unat l - d) div 10" by (simp add: unat_div)
  then show ?thesis
    unfolding word_less_nat_alt using assms by (auto simp: div_less_iff_less_mult)
qed

lemma ParseSignedNumber_loop_spec:
  assumes "unat m \<le> unat l" "9 \<le> unat l"
  shows "ParseSignedNumber_loop l m cs =
    (if is_number cs \<and> read_on (unat m) cs \<le> unat l then Some (of_nat (read_on (unat m) cs)) else None)"
  using assms(1)
proof (induction cs arbitrary: m)
  case (Cons c cs)
  show ?case
  proof (cases "is_digit c")
    case True
    define d where "d = of_char c - (48 :: nat)"
    have d: "d \<le> 9" using True by (auto simp: d_def is_digit_def)
    show ?thesis
    proof (cases "10 * unat m + d > unat l")
      case True
      with read_on_ge[of "10 * unat m + d" cs] show ?thesis
        using limit_test[OF d assms(2), of m] \<open>is_digit c\<close> by (simp add: d_def is_digit_def Let_def)
    next
      case False
      have "unat l < 2 ^ LENGTH(64)" by (rule unsigned_less)
      then have "10 * unat m + d < 2 ^ 64" using False by simp
      then have "unat (of_nat (10 * unat m + d) :: 64 word) = 10 * unat m + d" by (intro unat_of_nat_small) simp
      moreover have "(of_nat (10 * unat m + d) :: 64 word) = m * 10 + of_nat d" by (simp add: mult.commute)
      ultimately have u: "unat (m * 10 + of_nat d) = 10 * unat m + d" by metis
      with Cons.IH[of "m * 10 + of_nat d"] False show ?thesis
        using limit_test[OF d assms(2), of m] \<open>is_digit c\<close> by (simp add: d_def is_digit_def Let_def)
    qed
  qed (auto simp: is_digit_def)
qed simp

lemma minus_limit: "unat (push_bit 63 1 :: 64 word) = 2 ^ 63" "unat (2 ^ 63 - 1 :: 64 word) = 2 ^ 63 - 1"
  by simp_all

lemma ParseSignedNumber_spec:
  "ParseSignedNumber text = (case signed_value text of
      None \<Rightarrow> None
    | Some i \<Rightarrow> if - (2 ^ 63) \<le> i \<and> i < 2 ^ 63 then Some (word_of_int i) else None)"
proof (cases "text = []")
  case False
  have zero: "unat (0 :: 64 word) = 0" by simp
  show ?thesis
  proof (cases "hd text = CHR ''-''")
    case True
    have "ParseSignedNumber_loop (push_bit 63 1) 0 (tl text) =
        (if is_number (tl text) \<and> read_on 0 (tl text) \<le> 2 ^ 63 then Some (of_nat (read_on 0 (tl text))) else None)"
      using ParseSignedNumber_loop_spec[of 0 "push_bit 63 1" "tl text"] by (simp only: minus_limit zero) simp
    moreover have "(of_nat n = (push_bit 63 1 :: 64 word)) \<longleftrightarrow> n = 2 ^ 63" if "n \<le> 2 ^ 63" for n
      using that by (subst word_unat_eq_iff) (simp add: unat_of_nat_small)
    moreover have "word_of_int (- int (2 ^ 63)) = (push_bit 63 1 :: 64 word)" by simp
    ultimately show ?thesis
      using False True by (auto simp: ParseSignedNumber_def signed_value_def Let_def)
  next
    case no: False
    have "ParseSignedNumber_loop (2 ^ 63 - 1) 0 text =
        (if is_number text \<and> read_on 0 text \<le> 2 ^ 63 - 1 then Some (of_nat (read_on 0 text)) else None)"
      using ParseSignedNumber_loop_spec[of 0 "2 ^ 63 - 1" "text"] by (simp only: minus_limit zero) simp
    then show ?thesis
      using False no by (auto simp: ParseSignedNumber_def signed_value_def Let_def)
  qed
qed (simp add: ParseSignedNumber_def signed_value_def)

section \<open>Printing\<close>

text \<open>The decimal digits of a number, most significant first.\<close>

fun decimal :: "nat \<Rightarrow> string" where
  "decimal n = (if n < 10 then [char_of (48 + n)] else decimal (n div 10) @ [char_of (48 + n mod 10)])"

declare decimal.simps [simp del]

lemma digit_char [simp]: "d < 10 \<Longrightarrow> (of_char (char_of (48 + d) :: char) :: nat) = 48 + d"
  by simp

lemma decimal_number: "is_number (decimal n) \<and> read_on 0 (decimal n) = n \<and> decimal n \<noteq> []"
proof (induction n rule: decimal.induct)
  case (1 n)
  show ?case
  proof (cases "n < 10")
    case False
    with 1 show ?thesis by (subst (1 2 3) decimal.simps) (simp add: is_digit_def)
  qed (simp add: decimal.simps[of n] is_digit_def)
qed

lemma decimal_head: "hd (decimal n) \<noteq> CHR ''-''"
proof -
  obtain c cs where c: "decimal n = c # cs" using decimal_number[of n] by (cases "decimal n") auto
  then have "is_digit c" using decimal_number[of n] by simp
  then show ?thesis using c by (auto simp: is_digit_def)
qed

lemma decimal_no_LF: "LF \<notin> set (decimal n)"
  using decimal_number[of n] by (auto simp: is_number_def is_digit_def)

lemma decimal_length: "n < 10 ^ k \<Longrightarrow> 0 < k \<Longrightarrow> length (decimal n) \<le> k"
proof (induction k arbitrary: n)
  case (Suc k)
  show ?case
  proof (cases "n < 10")
    case False
    then have "k \<noteq> 0" using Suc.prems by (intro notI) simp
    moreover have "n div 10 < 10 ^ k" using Suc.prems by (simp add: div_less_iff_less_mult mult.commute)
    ultimately show ?thesis using Suc.IH False by (simp add: decimal.simps[of n])
  qed (simp add: decimal.simps[of n])
qed simp

lemma digits_loop_decimal: "digits_loop w buf = decimal (unat w) @ buf"
proof (induction w buf rule: digits_loop.induct)
  case (1 w buf)
  have small: "w div 10 \<noteq> 0 \<longleftrightarrow> \<not> unat w < 10"
    by (simp add: word_unat_eq_iff unat_div div_eq_0_iff)
  show ?case
  proof (cases "w div 10 = 0")
    case True
    then have "unat w < 10" using small by blast
    then show ?thesis using True by (simp add: digits_loop.simps[of w] decimal.simps[of "unat w"] unat_mod Let_def)
  next
    case False
    with 1[OF refl refl False] small show ?thesis
      by (simp add: digits_loop.simps[of w] decimal.simps[of "unat w"] unat_div unat_mod Let_def)
  qed
qed

lemma DecimalLength_decimal: "DecimalLength n = length (decimal n)"
proof -
  have "DecimalLength_loop n l + 1 = l + length (decimal n)" for l
  proof (induction n l rule: DecimalLength_loop.induct)
    case (1 n l)
    then show ?case by (cases "n < 10") (simp_all add: DecimalLength_loop.simps[of n] decimal.simps[of n])
  qed
  from this[of 1] show ?thesis by (simp add: DecimalLength_def)
qed

lemma decimal_word: "length (decimal (unat (w :: 64 word))) \<le> 20"
proof (rule decimal_length)
  have "unat w < 2 ^ LENGTH(64)" by (rule unsigned_less)
  also have "2 ^ LENGTH(64) \<le> (10 ^ 20 :: nat)" by simp
  finally show "unat w < 10 ^ 20" .
qed simp

lemma AppendUnsignedInteger_decimal:
  assumes "n < 2 ^ 64"
  shows "AppendUnsignedInteger n out = Inr (out @ decimal n)"
proof -
  have "unat (of_nat n :: 64 word) = n" using assms by (intro unat_of_nat_small) simp
  then show ?thesis
    using decimal_word[of "of_nat n"] by (simp add: AppendUnsignedInteger_def digits_loop_decimal Let_def)
qed

definition signed_decimal :: "int \<Rightarrow> string" where
  "signed_decimal i = (if i < 0 then CHR ''-'' # decimal (nat (- i)) else decimal (nat i))"

lemma AppendSignedInteger_decimal: "AppendSignedInteger v out = Inr (out @ signed_decimal (sint v))"
proof (cases "sint v < 0")
  case True
  then have big: "2 ^ 63 \<le> uint v" "sint v = uint v - 2 ^ 64"
    using sint64[of v] uint_ge_0[of v] by (auto simp only: not_less split: if_splits)
  have "- v = word_of_int (2 ^ 64 - uint v)" by simp
  moreover have "uint (word_of_int (2 ^ 64 - uint v) :: 64 word) = 2 ^ 64 - uint v"
    unfolding uint_word_of_int_eq by (rule take_bit_int_eq_self) (use big uint64_lt[of v] in simp_all)
  ultimately have "uint (- v) = - sint v" using big(2) by (simp only:)
  then have "unat (- v) = nat (- sint v)" unfolding unat_eq_nat_uint by (rule arg_cong)
  then show ?thesis
    using True decimal_word[of "- v"]
    by (simp add: AppendSignedInteger_def signed_decimal_def digits_loop_decimal Let_def)
next
  case False
  moreover have "sint v < 0" if "\<not> uint v < 2 ^ 63"
    unfolding sint64 if_not_P[OF that] using uint64_lt[of v] by linarith
  ultimately have "sint v = uint v" using sint64[of v] by argo
  then have "unat v = nat (sint v)" unfolding unat_eq_nat_uint by (rule arg_cong[OF sym])
  then show ?thesis
    using False decimal_word[of v]
    by (simp add: AppendSignedInteger_def signed_decimal_def digits_loop_decimal Let_def)
qed

lemma signed_value_decimal: "signed_value (signed_decimal i) = Some i"
  using decimal_number[of "nat i"] decimal_number[of "nat (- i)"] decimal_head[of "nat i"]
  by (auto simp: signed_value_def signed_decimal_def)

text \<open>Reading back what was written.\<close>

lemma ParseSignedNumber_decimal:
  "n < 2 ^ 63 \<Longrightarrow> ParseSignedNumber (decimal n) = Some (of_nat n)"
  using signed_value_decimal[of "int n"] by (simp add: ParseSignedNumber_spec signed_decimal_def)

lemma ParseSignedNumber_signed: "ParseSignedNumber (signed_decimal (sint v)) = Some (v :: 64 word)"
  using signed_value_decimal[of "sint v"] sint_ge[of v] sint_lt[of v] by (simp add: ParseSignedNumber_spec)

lemma signed_decimal_no_LF: "LF \<notin> set (signed_decimal i)"
  using decimal_no_LF by (auto simp: signed_decimal_def)

end
