(* ===== verification/Resp_Correct.thy ===== *)
theory Resp_Correct
  imports Resp_Numbers
begin

text \<open>
  The RESP codec is correct: what the packing functions write for a tree of values, \<open>UnpackOne\<close>
  reads back, whatever follows; on any input at all it stays inside the input and the
  scratch array; and no answer but \<open>kNeedMore\<close> changes when more bytes arrive.
\<close>

section \<open>Values as trees\<close>

datatype resp_tree =
    T_Simple string
  | T_Error string
  | T_Integer "64 word"
  | T_Bulk string
  | T_Null_Bulk
  | T_Array "resp_tree list"
  | T_Null_Array

text \<open>How a caller packs a tree: a header and then the elements.\<close>

fun pack_tree :: "resp_tree \<Rightarrow> string \<Rightarrow> string res" where
  "pack_tree (T_Simple s) out = Inr (PackSimpleString s out)"
| "pack_tree (T_Error s) out = Inr (PackError s out)"
| "pack_tree (T_Integer i) out = PackInteger i out"
| "pack_tree (T_Bulk s) out = PackBulkString s out"
| "pack_tree T_Null_Bulk out = Inr (PackNullBulkString out)"
| "pack_tree (T_Array ts) out = bindE (PackArrayHeader (length ts) out) (\<lambda>out. foldE (\<lambda>out t. pack_tree t out) out ts)"
| "pack_tree T_Null_Array out = Inr (PackNullArray out)"

text \<open>What it appends.\<close>

fun encoding :: "resp_tree \<Rightarrow> string" where
  "encoding (T_Simple s) = ''+'' @ s @ [CR, LF]"
| "encoding (T_Error s) = ''-'' @ s @ [CR, LF]"
| "encoding (T_Integer i) = '':'' @ signed_decimal (sint i) @ [CR, LF]"
| "encoding (T_Bulk s) = ''$'' @ decimal (length s) @ [CR, LF] @ s @ [CR, LF]"
| "encoding T_Null_Bulk = ''$-1'' @ [CR, LF]"
| "encoding (T_Array ts) = ''*'' @ decimal (length ts) @ [CR, LF] @ concat (map encoding ts)"
| "encoding T_Null_Array = ''*-1'' @ [CR, LF]"

text \<open>The limits of the parser: a text of one line has no line feed, and sizes and depth are in range.\<close>

fun depth :: "resp_tree \<Rightarrow> nat" where
  "depth (T_Array ts) = Suc (foldr (\<lambda>t n. max (depth t) n) ts 0)"
| "depth T_Null_Array = 1"
| "depth _ = 0"

fun slots :: "resp_tree \<Rightarrow> nat" where
  "slots (T_Array ts) = length ts + sum_list (map slots ts)"
| "slots _ = 0"

fun packable :: "resp_limits \<Rightarrow> resp_tree \<Rightarrow> bool" where
  "packable limits (T_Simple s) \<longleftrightarrow> LF \<notin> set s"
| "packable limits (T_Error s) \<longleftrightarrow> LF \<notin> set s"
| "packable limits (T_Integer i) \<longleftrightarrow> True"
| "packable limits (T_Bulk s) \<longleftrightarrow> length s \<le> max_bulk_bytes limits \<and> length s < 2 ^ 63"
| "packable limits T_Null_Bulk \<longleftrightarrow> True"
| "packable limits (T_Array ts) \<longleftrightarrow>
     length ts \<le> max_array_elements limits \<and> length ts < 2 ^ 63 \<and> (\<forall>t \<in> set ts. packable limits t)"
| "packable limits T_Null_Array \<longleftrightarrow> True"

text \<open>The value in slot \<open>c\<close> of the scratch array, read with its elements, is the tree.\<close>

definition text_is :: "string \<Rightarrow> text_view \<Rightarrow> string \<Rightarrow> bool" where
  "text_is input view s \<longleftrightarrow> (case view of No_Text \<Rightarrow> False | View first sz \<Rightarrow> first + sz \<le> length input \<and> view_bytes input first sz = s)"

fun reads_as :: "string \<Rightarrow> resp_value list \<Rightarrow> nat \<Rightarrow> resp_tree \<Rightarrow> bool"
and reads_list :: "string \<Rightarrow> resp_value list \<Rightarrow> nat \<Rightarrow> resp_tree list \<Rightarrow> bool" where
  "reads_as input scratch c (T_Simple s) \<longleftrightarrow> c < length scratch \<and> rv_type (scratch ! c) = kSimpleString \<and> text_is input (rv_text (scratch ! c)) s"
| "reads_as input scratch c (T_Error s) \<longleftrightarrow> c < length scratch \<and> rv_type (scratch ! c) = kError \<and> text_is input (rv_text (scratch ! c)) s"
| "reads_as input scratch c (T_Integer i) \<longleftrightarrow> c < length scratch \<and> rv_type (scratch ! c) = kInteger \<and> rv_integer (scratch ! c) = i"
| "reads_as input scratch c (T_Bulk s) \<longleftrightarrow> c < length scratch \<and> rv_type (scratch ! c) = kBulkString \<and> text_is input (rv_text (scratch ! c)) s"
| "reads_as input scratch c T_Null_Bulk \<longleftrightarrow> c < length scratch \<and> rv_type (scratch ! c) = kNullBulkString"
| "reads_as input scratch c (T_Array ts) \<longleftrightarrow> c < length scratch \<and> rv_type (scratch ! c) = kArray \<and>
     rv_element_count (scratch ! c) = length ts \<and>
     (case rv_elements (scratch ! c) of
        None \<Rightarrow> ts = []
      | Some e \<Rightarrow> reads_list input scratch e ts)"
| "reads_as input scratch c T_Null_Array \<longleftrightarrow> c < length scratch \<and> rv_type (scratch ! c) = kNullArray"
| "reads_list input scratch e [] \<longleftrightarrow> True"
| "reads_list input scratch e (t # ts) \<longleftrightarrow> reads_as input scratch e t \<and> reads_list input scratch (e + 1) ts"

lemma reads_as_lt: "reads_as input scratch c t \<Longrightarrow> c < length scratch"
  by (cases t) simp_all

section \<open>Packing\<close>

lemma PackBulkString_encoding: "length s < 2 ^ 64 \<Longrightarrow> PackBulkString s out = Inr (out @ encoding (T_Bulk s))"
  by (simp add: PackBulkString_def AppendUnsignedInteger_decimal)

lemma PackArrayHeader_decimal: "n < 2 ^ 64 \<Longrightarrow> PackArrayHeader n out = Inr (out @ ''*'' @ decimal n @ [CR, LF])"
  by (simp add: PackArrayHeader_def AppendUnsignedInteger_decimal)

lemma pack_tree_encoding: "packable limits t \<Longrightarrow> pack_tree t out = Inr (out @ encoding t)"
proof (induction t arbitrary: out)
  case (T_Array ts)
  have "foldE (\<lambda>out t. pack_tree t out) out us = Inr (out @ concat (map encoding us))" if "set us \<subseteq> set ts" for us out
    using that T_Array by (induction us arbitrary: out) auto
  from this[OF subset_refl] show ?case
    using T_Array.prems by (simp add: PackArrayHeader_decimal)
next
  case (T_Bulk s)
  then show ?case by (subst pack_tree.simps, subst PackBulkString_encoding) simp_all
qed (simp_all add: PackSimpleString_def PackError_def PackInteger_def PackNullBulkString_def PackNullArray_def
    AppendSignedInteger_decimal)

section \<open>Lines\<close>

lemma drop_nth: "drop n xs = y # ys \<Longrightarrow> n < length xs \<and> xs ! n = y \<and> drop (Suc n) xs = ys"
  by (metis Cons_nth_drop_Suc drop_all leI list.distinct(1) list.inject)

lemma drop_more: "drop n xs = ys @ zs \<Longrightarrow> drop (n + length ys) xs = zs"
  by (metis add.commute append_eq_conv_conj drop_drop)

lemma ReadLine_text:
  assumes "drop begn input = s @ CR # LF # rest" and "LF \<notin> set s"
  shows "ReadLine input begn =
    \<lparr>lr_status = kOk, lr_begin = begn, lr_size = length s, lr_next = begn + length s + 2, lr_error = ''''\<rparr>"
proof -
  let ?l = "\<lparr>lr_status = kOk, lr_begin = begn, lr_size = length s, lr_next = begn + length s + 2, lr_error = ''''\<rparr>"
  have "drop (begn + length s) input = CR # LF # rest"
    using assms(1) by (metis add.commute append_eq_conv_conj drop_drop)
  then have at: "input ! (begn + length s) = CR" "begn + length s + 1 < length input" "input ! (begn + length s + 1) = LF"
    using drop_nth[of "begn + length s" input] drop_nth[of "Suc (begn + length s)" input] by auto
  have loop: "ReadLine_loop input begn i = ?l" if "begn \<le> i" "i \<le> begn + length s + 1" for i
    using that
  proof (induction "begn + length s + 1 - i" arbitrary: i)
    case 0
    then have "i = begn + length s + 1" by simp
    with at show ?case by (simp add: ReadLine_loop.simps[of input begn "Suc (begn + length s)"])
  next
    case (Suc n)
    have "input ! i \<noteq> LF"
    proof (cases "i = begn + length s")
      case False
      then have "i - begn < length s" using Suc by simp
      moreover have "input ! i = s ! (i - begn)"
        using assms(1) Suc.prems(1) calculation at(2) by (metis le_add_diff_inverse nth_append nth_drop less_imp_le_nat add_leD1 Suc_eq_plus1 less_le_trans)
      ultimately show ?thesis using assms(2) nth_mem by metis
    qed (use at in simp)
    moreover have "ReadLine_loop input begn (i + 1) = ?l" using Suc by (intro Suc.hyps(1)) simp_all
    ultimately show ?case using Suc at(2) by (simp add: ReadLine_loop.simps[of input begn i])
  qed
  show ?thesis using loop[of begn] at(2) by (simp add: ReadLine_def)
qed

lemma view_text: "drop begn input = s @ rest \<Longrightarrow> view_bytes input begn (length s) = s"
  by (simp add: view_bytes_def)
section \<open>One value or header\<close>

lemma small_word:
  fixes n :: nat
  assumes "n < 2 ^ 63"
  shows "sint (of_nat n :: 64 word) = int n" "unat (of_nat n :: 64 word) = n" "FitsSize (of_nat n)"
proof -
  show u: "unat (of_nat n :: 64 word) = n" by (rule unat_of_nat_small) (use assms in simp)
  then have "uint (of_nat n :: 64 word) = int n" by (metis uint_nat)
  then show s: "sint (of_nat n :: 64 word) = int n" unfolding sint64 using assms by simp
  show "FitsSize (of_nat n)" unfolding FitsSize_def s u using assms by simp
qed

lemma minus_one_text: "ParseSignedNumber ''-1'' = Some (- 1)" "LF \<notin> set ''-1''" "sint (- 1 :: 64 word) = - 1"
  by (simp_all add: ParseSignedNumber_spec signed_value_def is_digit_def)

lemma prefix_byte:
  assumes "drop pos input = p # body"
  shows "\<not> pos \<ge> length input" "input ! pos = p" "drop (pos + 1) input = body"
  using drop_nth[OF assms] by simp_all

lemma parse_line:
  assumes "drop pos input = p # s @ CR # LF # rest" "LF \<notin> set s" "c < length scratch"
    and "p = CHR ''+'' \<or> p = CHR ''-''"
  shows "ParseValueAt input pos c scratch nf limits d = Inr (MakeResult kOk (pos + length s + 3) (Some c) '''',
    scratch[c := ResetValue\<lparr>rv_type := (if p = CHR ''+'' then kSimpleString else kError), rv_text := View (pos + 1) (length s)\<rparr>], nf)"
  using assms prefix_byte[OF assms(1)] ReadLine_text[of "pos + 1" input s rest]
  by (simp add: ParseValueAt_def ParseLineValue_def)

lemma parse_integer:
  assumes "drop pos input = CHR '':'' # s @ CR # LF # rest" "LF \<notin> set s" "c < length scratch" "ParseSignedNumber s = Some i"
  shows "ParseValueAt input pos c scratch nf limits d = Inr (MakeResult kOk (pos + length s + 3) (Some c) '''',
    scratch[c := ResetValue\<lparr>rv_type := kInteger, rv_integer := i\<rparr>], nf)"
  using assms prefix_byte[OF assms(1)] ReadLine_text[of "pos + 1" input s rest] view_text[of "pos + 1" input s]
  by (simp add: ParseValueAt_def ParseIntegerValue_def)

lemma parse_bulk:
  assumes "drop pos input = CHR ''$'' # decimal (length s) @ CR # LF # s @ CR # LF # rest"
    and "length s < 2 ^ 63" "length s \<le> max_bulk_bytes limits" "c < length scratch"
  shows "ParseValueAt input pos c scratch nf limits d = Inr (MakeResult kOk (pos + length (encoding (T_Bulk s))) (Some c) '''',
    scratch[c := ResetValue\<lparr>rv_type := kBulkString,
      rv_text := View (pos + length (decimal (length s)) + 3) (length s)\<rparr>], nf)"
proof -
  let ?l = "length (decimal (length s))"
  note p = prefix_byte[OF assms(1)]
  have line: "ReadLine input (pos + 1) = \<lparr>lr_status = kOk, lr_begin = pos + 1, lr_size = ?l, lr_next = pos + 1 + ?l + 2, lr_error = ''''\<rparr>"
    by (rule ReadLine_text[OF p(3) decimal_no_LF])
  have rest: "drop (pos + 1 + ?l + 2) input = s @ CR # LF # rest"
    using drop_more[of "pos + 1" input "decimal (length s) @ [CR, LF]" "s @ CR # LF # rest"] p(3)
    by (simp add: add.assoc)
  then have tail: "drop (pos + 1 + ?l + 2 + length s) input = CR # LF # rest" by (rule drop_more)
  have at: "input ! (pos + 1 + ?l + 2 + length s) = CR" "input ! (pos + 1 + ?l + 2 + length s + 1) = LF"
      "pos + 1 + ?l + 2 + length s + 1 < length input"
    using drop_nth[OF tail] drop_nth[of "Suc (pos + 1 + ?l + 2 + length s)" input] by auto
  have number: "ParseSignedNumber (view_bytes input (pos + 1) ?l) = Some (of_nat (length s))"
    unfolding view_text[OF p(3)] by (rule ParseSignedNumber_decimal[OF assms(2)])
  have "sint (of_nat (length s) :: 64 word) \<noteq> - 1" unfolding small_word(1)[OF assms(2)] by simp
  then have "ParseBulkValue input c limits (ReadLine input (pos + 1)) = (MakeResult kOk (pos + length (encoding (T_Bulk s))) (Some c) '''',
      ResetValue\<lparr>rv_type := kBulkString, rv_text := View (pos + ?l + 3) (length s)\<rparr>)"
    using at assms(3) number unfolding line ParseBulkValue_def
    by (simp add: small_word[OF assms(2)] size_minus_def Let_def)
  then show ?thesis using p assms(4) by (simp add: ParseValueAt_def)
qed

lemma parse_null:
  assumes "drop pos input = p # ''-1'' @ CR # LF # rest" "c < length scratch"
    and "p = CHR ''$'' \<or> p = CHR ''*'' \<and> d < max_depth limits \<and> d < kMaxParserDepth"
  shows "ParseValueAt input pos c scratch nf limits d = Inr (MakeResult kOk (pos + 5) (Some c) '''',
    scratch[c := ResetValue\<lparr>rv_type := (if p = CHR ''$'' then kNullBulkString else kNullArray)\<rparr>], nf)"
proof -
  note p = prefix_byte[OF assms(1)]
  have line: "ReadLine input (pos + 1) = \<lparr>lr_status = kOk, lr_begin = pos + 1, lr_size = 2, lr_next = pos + 5, lr_error = ''''\<rparr>"
    using ReadLine_text[OF p(3) minus_one_text(2)] by (simp add: numeral_eq_Suc)
  have "view_bytes input (pos + 1) 2 = ''-1''" using view_text[OF p(3)] by (simp add: numeral_eq_Suc)
  then have number: "ParseSignedNumber (view_bytes input (pos + 1) 2) = Some (- 1)" using minus_one_text(1) by simp
  show ?thesis
    using p(1,2) assms(2,3) number unfolding ParseValueAt_def ParseBulkValue_def ParseArrayHeader_def line
    by (auto simp: minus_one_text(3) Let_def)
qed

text \<open>The value an array header leaves in its slot.\<close>

definition array_value :: "nat \<Rightarrow> nat \<Rightarrow> resp_value" where
  "array_value nf n = ResetValue\<lparr>rv_type := kArray, rv_element_count := n, rv_elements := (if n = 0 then None else Some nf)\<rparr>"

lemma parse_header:
  assumes "drop pos input = CHR ''*'' # decimal n @ CR # LF # rest" "n < 2 ^ 63" "n \<le> max_array_elements limits"
    and "c < length scratch" "nf + n \<le> length scratch" "d < max_depth limits" "d < kMaxParserDepth"
  shows "ParseValueAt input pos c scratch nf limits d = Inr (MakeResult kOk (pos + length (decimal n) + 3) (Some c) '''',
    scratch[c := array_value nf n], nf + n)"
proof -
  note p = prefix_byte[OF assms(1)]
  have line: "ReadLine input (pos + 1) = \<lparr>lr_status = kOk, lr_begin = pos + 1, lr_size = length (decimal n),
      lr_next = pos + 1 + length (decimal n) + 2, lr_error = ''''\<rparr>"
    by (rule ReadLine_text[OF p(3) decimal_no_LF])
  have number: "ParseSignedNumber (view_bytes input (pos + 1) (length (decimal n))) = Some (of_nat n)"
    unfolding view_text[OF p(3)] by (rule ParseSignedNumber_decimal[OF assms(2)])
  have room: "nf \<le> length scratch" "\<not> length scratch - nf < n" using assms(5) by simp_all
  have "ParseArrayHeader input c (length scratch) nf limits (ReadLine input (pos + 1)) =
      (MakeResult kOk (pos + length (decimal n) + 3) (Some c) '''', array_value nf n, nf + n)"
    using assms(3) room number unfolding line ParseArrayHeader_def
    by (simp add: small_word[OF assms(2)] size_minus_def array_value_def Let_def)
  then show ?thesis using p(1,2) assms(4,6,7) by (simp add: ParseValueAt_def Let_def)
qed

section \<open>Round trip\<close>

text \<open>What the loop does once a value is complete.\<close>

definition go_on :: "string \<Rightarrow> resp_limits \<Rightarrow> resp_value list \<Rightarrow> nat \<Rightarrow> nat \<Rightarrow> frame list \<Rightarrow> (resp_result \<times> resp_value list) res" where
  "go_on input limits scratch nf pos frames =
     (case next_target frames of
        None \<Rightarrow> Inr (MakeResult kOk pos (Some 0) '''', scratch)
      | Some (current, frames) \<Rightarrow> UnpackOne_loop input limits scratch nf pos current frames)"

text \<open>A value that is not an array with elements is complete at once.\<close>

lemma loop_leaf:
  assumes "ParseValueAt input pos c scratch nf limits (length frames) = Inr (MakeResult kOk next (Some c) '''', scratch[c := v], nf)"
    and "c < length scratch" "rv_type v \<noteq> kArray \<or> rv_element_count v = 0"
  shows "UnpackOne_loop input limits scratch nf pos c frames = go_on input limits (scratch[c := v]) nf next frames"
  using assms by (auto simp: UnpackOne_loop.simps[of input limits scratch] go_on_def)

lemma loop_header:
  assumes "ParseValueAt input pos c scratch nf limits (length frames) =
      Inr (MakeResult kOk next (Some c) '''', scratch[c := array_value nf n], nf + n)"
    and "c < length scratch" "0 < n" "length frames < kMaxParserDepth"
  shows "UnpackOne_loop input limits scratch nf pos c frames =
    UnpackOne_loop input limits (scratch[c := array_value nf n]) (nf + n) next nf
      (\<lparr>fr_elements = nf, fr_count = n, fr_index = 0\<rparr> # frames)"
  using assms by (simp add: UnpackOne_loop.simps[of input limits scratch] array_value_def)

text \<open>Two scratch arrays of the same length that agree on some slots.\<close>

definition agree :: "nat set \<Rightarrow> resp_value list \<Rightarrow> resp_value list \<Rightarrow> bool" where
  "agree S xs ys \<longleftrightarrow> length ys = length xs \<and> (\<forall>i \<in> S. i < length xs \<longrightarrow> ys ! i = xs ! i)"

lemma agreeI: "length ys = length xs \<Longrightarrow> (\<And>i. i \<in> S \<Longrightarrow> ys ! i = xs ! i) \<Longrightarrow> agree S xs ys"
  by (simp add: agree_def)

lemma agree_trans: "agree S xs ys \<Longrightarrow> agree S' ys zs \<Longrightarrow> S'' \<subseteq> S \<Longrightarrow> S'' \<subseteq> S' \<Longrightarrow> agree S'' xs zs"
  unfolding agree_def by (metis subset_iff)

lemma agree_mono: "agree S xs ys \<Longrightarrow> S' \<subseteq> S \<Longrightarrow> agree S' xs ys"
  by (auto simp: agree_def)

text \<open>
  The slots of a run: those in \<open>own\<close> and the ones it allocates.  It leaves all others alone, and
  the tree can be read from any array that still has its slots.
\<close>

definition own_slots :: "nat set \<Rightarrow> nat \<Rightarrow> nat \<Rightarrow> nat set" where
  "own_slots own nf n = own \<union> {nf..<nf + n}"

definition runs :: "string \<Rightarrow> resp_limits \<Rightarrow> resp_tree \<Rightarrow> bool" where
  "runs input limits t \<longleftrightarrow> (\<forall>pos rest c nf scratch frames.
     drop pos input = encoding t @ rest \<longrightarrow> packable limits t \<longrightarrow> c < nf \<longrightarrow> nf + slots t \<le> length scratch \<longrightarrow>
     length frames + depth t \<le> max_depth limits \<longrightarrow> length frames + depth t \<le> kMaxParserDepth \<longrightarrow>
     (\<exists>scratch'. UnpackOne_loop input limits scratch nf pos c frames =
         go_on input limits scratch' (nf + slots t) (pos + length (encoding t)) frames \<and>
       agree (- own_slots {c} nf (slots t)) scratch scratch' \<and>
       (\<forall>later. agree (own_slots {c} nf (slots t)) scratch' later \<longrightarrow> reads_as input later c t)))"

lemma leaf_run:
  assumes "ParseValueAt input pos c scratch nf limits (length frames) = Inr (MakeResult kOk next (Some c) '''', scratch[c := v], nf)"
    and "c < length scratch" "rv_type v \<noteq> kArray \<or> rv_element_count v = 0"
    and "\<And>later. length later = length scratch \<Longrightarrow> later ! c = v \<Longrightarrow> reads_as input later c t" and "slots t = 0"
  shows "\<exists>scratch'. UnpackOne_loop input limits scratch nf pos c frames = go_on input limits scratch' (nf + slots t) next frames \<and>
    agree (- own_slots {c} nf (slots t)) scratch scratch' \<and>
    (\<forall>later. agree (own_slots {c} nf (slots t)) scratch' later \<longrightarrow> reads_as input later c t)"
  using loop_leaf[OF assms(1-3)] assms(2,4,5)
  by (intro exI[of _ "scratch[c := v]"]) (auto simp: own_slots_def agree_def)

lemma text_is_view:
  assumes "drop first input = s @ r # rest"
  shows "text_is input (View first (length s)) s"
proof -
  have "length input - first = length s + Suc (length rest)" using assms by (metis length_append length_Cons length_drop)
  then show ?thesis using view_text[OF assms] by (simp add: text_is_def)
qed

lemma forall_runs_list:
  assumes "\<And>t. t \<in> set ts \<Longrightarrow> runs input limits t" and "ts \<noteq> []"
    and "drop pos input = concat (map encoding ts) @ rest" and "\<And>t. t \<in> set ts \<Longrightarrow> packable limits t"
    and "e + length ts \<le> nf" "nf + sum_list (map slots ts) \<le> length scratch"
    and "\<And>t. t \<in> set ts \<Longrightarrow> Suc (length frames) + depth t \<le> max_depth limits"
    and "\<And>t. t \<in> set ts \<Longrightarrow> Suc (length frames) + depth t \<le> kMaxParserDepth"
    and "e = e0 + i" "i + length ts = n"
  shows "\<exists>scratch'. UnpackOne_loop input limits scratch nf pos e (\<lparr>fr_elements = e0, fr_count = n, fr_index = i\<rparr> # frames) =
      go_on input limits scratch' (nf + sum_list (map slots ts)) (pos + length (concat (map encoding ts))) frames \<and>
    agree (- own_slots {e..<e + length ts} nf (sum_list (map slots ts))) scratch scratch' \<and>
    (\<forall>later. agree (own_slots {e..<e + length ts} nf (sum_list (map slots ts))) scratch' later \<longrightarrow> reads_list input later e ts)"
  using assms
proof (induction ts arbitrary: pos e i nf scratch)
  case (Cons t ts)
  let ?f = "\<lparr>fr_elements = e0, fr_count = n, fr_index = i\<rparr>"
  have start: "drop pos input = encoding t @ (concat (map encoding ts) @ rest)" using Cons.prems(3) by simp
  from Cons.prems(1)[of t, simplified, unfolded runs_def, rule_format, OF start, of e nf scratch "?f # frames"] Cons.prems
  obtain s1 where s1: "UnpackOne_loop input limits scratch nf pos e (?f # frames) =
      go_on input limits s1 (nf + slots t) (pos + length (encoding t)) (?f # frames)"
    "agree (- own_slots {e} nf (slots t)) scratch s1"
    "\<And>later. agree (own_slots {e} nf (slots t)) s1 later \<Longrightarrow> reads_as input later e t" by auto
  show ?case
  proof (cases "ts = []")
    case True
    then have "next_target (?f # frames) = next_target frames" using Cons.prems(10) by simp
    with s1 True show ?thesis by (intro exI[of _ s1]) (simp add: go_on_def)
  next
    case False
    then have more: "next_target (?f # frames) = Some (e + 1, \<lparr>fr_elements = e0, fr_count = n, fr_index = i + 1\<rparr> # frames)"
      using Cons.prems(9,10) by (cases ts) simp_all
    have len: "length s1 = length scratch" using s1(2) by (simp add: agree_def)
    obtain s2 where s2: "UnpackOne_loop input limits s1 (nf + slots t) (pos + length (encoding t)) (e + 1)
        (\<lparr>fr_elements = e0, fr_count = n, fr_index = i + 1\<rparr> # frames) =
        go_on input limits s2 (nf + slots t + sum_list (map slots ts)) (pos + length (encoding t) + length (concat (map encoding ts))) frames"
      "agree (- own_slots {e + 1..<e + 1 + length ts} (nf + slots t) (sum_list (map slots ts))) s1 s2"
      "\<And>later. agree (own_slots {e + 1..<e + 1 + length ts} (nf + slots t) (sum_list (map slots ts))) s2 later \<Longrightarrow>
        reads_list input later (e + 1) ts"
      using Cons.IH[of "pos + length (encoding t)" "e + 1" "nf + slots t" s1 "i + 1"] Cons.prems False len drop_more[OF start]
      by (auto simp: add.assoc)
    have "agree (- own_slots {e..<e + length (t # ts)} nf (sum_list (map slots (t # ts)))) scratch s2"
      by (rule agree_trans[OF s1(2) s2(2)]) (auto simp: own_slots_def)
    moreover have "reads_list input later e (t # ts)"
      if "agree (own_slots {e..<e + length (t # ts)} nf (sum_list (map slots (t # ts)))) s2 later" for later
    proof -
      have "agree (own_slots {e} nf (slots t)) s1 later"
        by (rule agree_trans[OF s2(2) that]) (use Cons.prems(5) in \<open>auto simp: own_slots_def\<close>)
      moreover have "agree (own_slots {e + 1..<e + 1 + length ts} (nf + slots t) (sum_list (map slots ts))) s2 later"
        by (rule agree_mono[OF that]) (auto simp: own_slots_def)
      ultimately show ?thesis using s1(3) s2(3) by simp
    qed
    ultimately show ?thesis using s1(1) s2(1) more by (intro exI[of _ s2]) (simp add: go_on_def add.assoc)
  qed
qed simp

lemma depth_elements: "t \<in> set ts \<Longrightarrow> Suc (depth t) \<le> depth (T_Array ts)"
  by (induction ts) auto

lemma all_run: "runs input limits t"
proof (induction t)
  case (T_Simple s)
  show ?case unfolding runs_def
  proof (intro allI impI, goal_cases)
    case (1 pos rest c nf scratch frames)
    then have start: "drop pos input = CHR ''+'' # s @ CR # LF # rest" by simp
    note view = text_is_view[OF prefix_byte(3)[OF start]]
    show ?case by (rule leaf_run, rule parse_line[OF start, THEN trans]) (use 1 view in auto)
  qed
next
  case (T_Error s)
  show ?case unfolding runs_def
  proof (intro allI impI, goal_cases)
    case (1 pos rest c nf scratch frames)
    then have start: "drop pos input = CHR ''-'' # s @ CR # LF # rest" by simp
    note view = text_is_view[OF prefix_byte(3)[OF start]]
    show ?case by (rule leaf_run, rule parse_line[OF start, THEN trans]) (use 1 view in auto)
  qed
next
  case (T_Integer i)
  show ?case unfolding runs_def
  proof (intro allI impI, goal_cases)
    case (1 pos rest c nf scratch frames)
    then have start: "drop pos input = CHR '':'' # signed_decimal (sint i) @ CR # LF # rest" by simp
    show ?case
      by (rule leaf_run, rule parse_integer[OF start signed_decimal_no_LF _ ParseSignedNumber_signed, THEN trans])
        (use 1 in auto)
  qed
next
  case (T_Bulk s)
  show ?case unfolding runs_def
  proof (intro allI impI, goal_cases)
    case (1 pos rest c nf scratch frames)
    then have start: "drop pos input = CHR ''$'' # decimal (length s) @ CR # LF # s @ CR # LF # rest" by simp
    have "drop (pos + length (CHR ''$'' # decimal (length s) @ [CR, LF])) input = s @ CR # LF # rest"
      by (rule drop_more) (use start in simp)
    then have view: "text_is input (View (pos + length (decimal (length s)) + 3) (length s)) s"
      using text_is_view[of "pos + length (decimal (length s)) + 3" input s CR] by (simp add: numeral_eq_Suc)
    show ?case by (rule leaf_run, rule parse_bulk[OF start]) (use 1 view in auto)
  qed
next
  case T_Null_Bulk
  show ?case unfolding runs_def
  proof (intro allI impI, goal_cases)
    case (1 pos rest c nf scratch frames)
    then have start: "drop pos input = CHR ''$'' # ''-1'' @ CR # LF # rest" by simp
    show ?case by (rule leaf_run, rule parse_null[OF start, THEN trans]) (use 1 in auto)
  qed
next
  case (T_Array ts)
  show ?case unfolding runs_def
  proof (intro allI impI, goal_cases)
    case (1 pos rest c nf scratch frames)
    then have start: "drop pos input = CHR ''*'' # decimal (length ts) @ CR # LF # (concat (map encoding ts) @ rest)" by simp
    have deep: "Suc (length frames) + depth t \<le> max_depth limits \<and> Suc (length frames) + depth t \<le> kMaxParserDepth" if "t \<in> set ts" for t
      using depth_elements[OF that] 1(5,6) by linarith
    have header: "ParseValueAt input pos c scratch nf limits (length frames) =
        Inr (MakeResult kOk (pos + length (decimal (length ts)) + 3) (Some c) '''', scratch[c := array_value nf (length ts)], nf + length ts)"
      by (rule parse_header[OF start]) (use 1 in auto)
    show ?case
    proof (cases "ts = []")
      case True
      show ?thesis
        by (rule leaf_run, rule header[THEN trans]) (use 1 True in \<open>auto simp: array_value_def\<close>)
    next
      case False
      have after: "drop (pos + length (decimal (length ts)) + 3) input = concat (map encoding ts) @ rest"
        using drop_more[of pos input "CHR ''*'' # decimal (length ts) @ [CR, LF]"] start by (simp add: numeral_eq_Suc)
      let ?s = "scratch[c := array_value nf (length ts)]" and ?sum = "sum_list (map slots ts)"
      have "\<exists>scratch'. UnpackOne_loop input limits ?s (nf + length ts) (pos + length (decimal (length ts)) + 3) nf
          (\<lparr>fr_elements = nf, fr_count = length ts, fr_index = 0\<rparr> # frames) =
          go_on input limits scratch' (nf + length ts + ?sum)
            (pos + length (decimal (length ts)) + 3 + length (concat (map encoding ts))) frames \<and>
        agree (- own_slots {nf..<nf + length ts} (nf + length ts) ?sum) ?s scratch' \<and>
        (\<forall>later. agree (own_slots {nf..<nf + length ts} (nf + length ts) ?sum) scratch' later \<longrightarrow> reads_list input later nf ts)"
        by (rule forall_runs_list[OF T_Array False after]) (use 1 deep in auto)
      then obtain s2 where s2: "UnpackOne_loop input limits ?s (nf + length ts) (pos + length (decimal (length ts)) + 3) nf
          (\<lparr>fr_elements = nf, fr_count = length ts, fr_index = 0\<rparr> # frames) =
          go_on input limits s2 (nf + length ts + ?sum)
            (pos + length (decimal (length ts)) + 3 + length (concat (map encoding ts))) frames"
        "agree (- own_slots {nf..<nf + length ts} (nf + length ts) ?sum) ?s s2"
        "\<And>later. agree (own_slots {nf..<nf + length ts} (nf + length ts) ?sum) s2 later \<Longrightarrow> reads_list input later nf ts"
        by blast
      have at_c: "s2 ! c = array_value nf (length ts)" "c < length scratch" "length s2 = length scratch"
        using s2(2) 1(3,4) by (auto simp: agree_def own_slots_def)
      have "agree (- own_slots {c} nf (slots (T_Array ts))) scratch s2"
        using s2(2) by (auto simp: agree_def own_slots_def)
      moreover have "reads_as input later c (T_Array ts)" if "agree (own_slots {c} nf (slots (T_Array ts))) s2 later" for later
      proof -
        have "reads_list input later nf ts"
          by (rule s2(3), rule agree_mono[OF that]) (auto simp: own_slots_def)
        then show ?thesis
          using that at_c False by (auto simp: agree_def own_slots_def array_value_def)
      qed
      moreover have "UnpackOne_loop input limits scratch nf pos c frames =
          go_on input limits s2 (nf + slots (T_Array ts)) (pos + length (encoding (T_Array ts))) frames"
        using loop_header[OF header at_c(2)] s2(1) False deep 1(6) by (simp add: add.assoc numeral_eq_Suc)
      ultimately show ?thesis by blast
    qed
  qed
next
  case T_Null_Array
  show ?case unfolding runs_def
  proof (intro allI impI, goal_cases)
    case (1 pos rest c nf scratch frames)
    then have start: "drop pos input = CHR ''*'' # ''-1'' @ CR # LF # rest" by simp
    show ?case by (rule leaf_run, rule parse_null[OF start, THEN trans]) (use 1 in auto)
  qed
qed

section \<open>Any input\<close>

text \<open>A value is written to its own slot, and the elements of an array to fresh slots.\<close>

definition parsed_ok :: "string \<Rightarrow> nat \<Rightarrow> nat \<Rightarrow> nat \<Rightarrow> nat \<Rightarrow> resp_result \<Rightarrow> resp_value \<Rightarrow> nat \<Rightarrow> bool" where
  "parsed_ok input pos capacity nf d r v nf' \<longleftrightarrow> nf \<le> nf' \<and> nf' \<le> capacity \<and>
     (if rr_status r = kOk then pos < rr_consumed r \<and> rr_consumed r \<le> length input \<and>
        (rv_type v = kArray \<longrightarrow> 0 < rv_element_count v \<longrightarrow>
          rv_elements v = Some nf \<and> nf + rv_element_count v \<le> nf' \<and> d < kMaxParserDepth)
      else rr_consumed r = 0 \<and> rr_value r = None)"

lemma parsed_error: "s \<noteq> kOk \<Longrightarrow> nf \<le> capacity \<Longrightarrow> parsed_ok input pos capacity nf d (MakeResult s 0 None e) v nf"
  by (simp add: parsed_ok_def)

lemma parsed_scalar:
  "pos < n \<Longrightarrow> n \<le> length input \<Longrightarrow> rv_type v \<noteq> kArray \<or> rv_element_count v = 0 \<Longrightarrow> nf \<le> capacity \<Longrightarrow>
    parsed_ok input pos capacity nf d (MakeResult kOk n c e) v nf"
  by (auto simp: parsed_ok_def)

lemma parsed_array:
  "pos < n \<Longrightarrow> n \<le> length input \<Longrightarrow> nf + rv_element_count v \<le> capacity \<Longrightarrow> rv_elements v = Some nf \<Longrightarrow> d < kMaxParserDepth \<Longrightarrow>
    parsed_ok input pos capacity nf d (MakeResult kOk n c e) v (nf + rv_element_count v)"
  by (auto simp: parsed_ok_def)

lemma ParseLineValue_safe:
  assumes "nf \<le> capacity"
  shows "case ParseLineValue p c (ReadLine input (pos + 1)) of (r, v) \<Rightarrow> parsed_ok input pos capacity nf d r v nf"
  using assms ReadLine_ok[of input "pos + 1"] by (auto simp: ParseLineValue_def intro!: parsed_error parsed_scalar)

lemma ParseIntegerValue_safe:
  assumes "nf \<le> capacity"
  shows "case ParseIntegerValue input c (ReadLine input (pos + 1)) of (r, v) \<Rightarrow> parsed_ok input pos capacity nf d r v nf"
  using assms ReadLine_ok[of input "pos + 1"]
  by (auto simp: ParseIntegerValue_def intro!: parsed_error parsed_scalar split: option.split)

lemma ParseBulkValue_safe:
  assumes "nf \<le> capacity"
  shows "case ParseBulkValue input c limits (ReadLine input (pos + 1)) of (r, v) \<Rightarrow> parsed_ok input pos capacity nf d r v nf"
  using assms ReadLine_ok[of input "pos + 1"]
  by (auto simp: ParseBulkValue_def size_minus_def Let_def intro!: parsed_error parsed_scalar split: option.split)

lemma ParseArrayHeader_safe:
  assumes "nf \<le> capacity" "d < kMaxParserDepth"
  shows "case ParseArrayHeader input c capacity nf limits (ReadLine input (pos + 1)) of
    (r, v, nf') \<Rightarrow> parsed_ok input pos capacity nf d r v nf'"
proof (cases "lr_status (ReadLine input (pos + 1)) = kOk")
  case True
  note line = ReadLine_ok[OF True]
  show ?thesis
  proof (cases "ParseSignedNumber (view_bytes input (lr_begin (ReadLine input (pos + 1))) (lr_size (ReadLine input (pos + 1))))")
    case (Some n)
    show ?thesis
      using assms True line Some parsed_array[of pos "lr_next (ReadLine input (pos + 1))" input nf
        "ResetValue\<lparr>rv_type := kArray, rv_element_count := unat n, rv_elements := Some nf\<rparr>" capacity d]
      by (auto simp: ParseArrayHeader_def size_minus_def Let_def intro!: parsed_error parsed_scalar)
  qed (use assms True in \<open>auto simp: ParseArrayHeader_def intro!: parsed_error\<close>)
qed (use assms in \<open>auto simp: ParseArrayHeader_def intro!: parsed_error\<close>)

lemma ParseValueAt_safe:
  assumes "target < length scratch" "nf \<le> length scratch"
  obtains r v nf' where "ParseValueAt input pos target scratch nf limits d = Inr (r, scratch[target := v], nf')"
    "parsed_ok input pos (length scratch) nf d r v nf'"
proof (cases "pos < length input")
  case True
  let ?line = "ReadLine input (pos + 1)"
  obtain r1 v1 where 1: "ParseLineValue (input ! pos) target ?line = (r1, v1)" by fastforce
  obtain r2 v2 where 2: "ParseIntegerValue input target ?line = (r2, v2)" by fastforce
  obtain r3 v3 where 3: "ParseBulkValue input target limits ?line = (r3, v3)" by fastforce
  obtain r4 v4 n4 where 4: "ParseArrayHeader input target (length scratch) nf limits ?line = (r4, v4, n4)"
    by (cases "ParseArrayHeader input target (length scratch) nf limits ?line") auto
  note parts = ParseLineValue_safe[OF assms(2), where p = "input ! pos" and c = target and input = input and pos = pos and d = d]
    ParseIntegerValue_safe[OF assms(2), where c = target and input = input and pos = pos and d = d]
    ParseBulkValue_safe[OF assms(2), where c = target and input = input and limits = limits and pos = pos and d = d]
    ParseArrayHeader_safe[OF assms(2), where c = target and input = input and limits = limits and pos = pos and d = d]
  have error: "parsed_ok input pos (length scratch) nf d (MakeResult kStatusError 0 None e) v nf" for e v
    by (rule parsed_error[OF _ assms(2)]) simp
  have "\<exists>r v nf'. ParseValueAt input pos target scratch nf limits d = Inr (r, scratch[target := v], nf') \<and>
      parsed_ok input pos (length scratch) nf d r v nf'"
    unfolding ParseValueAt_def using True assms(1) parts error by (simp add: 1 2 3 4 Let_def del: add.commute One_nat_def) auto
  then show thesis using that by blast
next
  case False
  have "scratch = scratch[target := scratch ! target]" by simp
  with that[of "MakeResult kNeedMore 0 None ''''" "scratch ! target" nf] False assms(2) show thesis
    by (simp add: ParseValueAt_def parsed_error)
qed

definition frames_ok :: "nat \<Rightarrow> frame list \<Rightarrow> bool" where
  "frames_ok nf fs \<longleftrightarrow> (\<forall>f \<in> set fs. fr_elements f + fr_count f \<le> nf)"

lemma next_target_ok:
  "frames_ok nf fs \<Longrightarrow> next_target fs = Some (c, fs') \<Longrightarrow> c < nf \<and> frames_ok nf fs'"
  by (induction fs) (auto simp: frames_ok_def Let_def split: if_splits)

lemma UnpackOne_loop_safe:
  assumes "current < length scratch" "nf \<le> length scratch" "frames_ok nf frames"
  shows "\<exists>r scratch'. UnpackOne_loop input limits scratch nf pos current frames = Inr (r, scratch') \<and>
    length scratch' = length scratch \<and>
    (rr_status r = kOk \<longrightarrow> pos < rr_consumed r \<and> rr_consumed r \<le> length input \<and> rr_value r = Some 0) \<and>
    (rr_status r \<noteq> kOk \<longrightarrow> rr_consumed r = 0 \<and> rr_value r = None)"
  using assms
proof (induction input limits scratch nf pos current frames rule: UnpackOne_loop.induct)
  case (1 input limits scratch nf pos current frames)
  obtain r v nf1 where call: "ParseValueAt input pos current scratch nf limits (length frames) = Inr (r, scratch[current := v], nf1)"
    and v: "parsed_ok input pos (length scratch) nf (length frames) r v nf1"
    by (rule ParseValueAt_safe[OF "1.prems"(1,2)])
  define s1 where "s1 = scratch[current := v]"
  have p: "ParseValueAt input pos current scratch nf limits (length frames) = Inr (r, s1, nf1)"
      "length s1 = length scratch" "nf \<le> nf1" "nf1 \<le> length scratch"
    using call v by (simp_all add: s1_def parsed_ok_def)
  have at: "s1 ! current = v" using "1.prems"(1) by (simp add: s1_def)
  have ok: "rr_status r = kOk \<Longrightarrow> pos < rr_consumed r \<and> rr_consumed r \<le> length input"
    and fail: "rr_status r \<noteq> kOk \<Longrightarrow> rr_consumed r = 0 \<and> rr_value r = None"
    and arr: "rr_status r = kOk \<Longrightarrow> rv_type (s1 ! current) = kArray \<Longrightarrow> 0 < rv_element_count (s1 ! current) \<Longrightarrow>
      rv_elements (s1 ! current) = Some nf \<and> nf + rv_element_count (s1 ! current) \<le> nf1 \<and> length frames < kMaxParserDepth"
    using v unfolding at parsed_ok_def by (simp_all split: if_splits)
  note step = UnpackOne_loop.simps[of input limits scratch nf pos current frames]
  have mono: "frames_ok nf1 frames" using "1.prems"(3) p(3) by (force simp: frames_ok_def)
  consider (stop) "rr_status r \<noteq> kOk"
    | (push) "rr_status r = kOk" "rv_type (s1 ! current) = kArray" "0 < rv_element_count (s1 ! current)"
    | (leaf) "rr_status r = kOk" "\<not> (rv_type (s1 ! current) = kArray \<and> 0 < rv_element_count (s1 ! current))"
    by auto
  then show ?case
  proof cases
    case stop
    then show ?thesis using p fail by (simp add: step)
  next
    case push
    let ?f = "\<lparr>fr_elements = nf, fr_count = rv_element_count (s1 ! current), fr_index = 0\<rparr>"
    have a: "rv_elements (s1 ! current) = Some nf" "nf + rv_element_count (s1 ! current) \<le> nf1" "length frames \<noteq> kMaxParserDepth"
      using arr[OF push] by simp_all
    have "nf < length s1" "frames_ok nf1 (?f # frames)"
      using a(2) push(3) p(2,4) mono by (auto simp: frames_ok_def)
    moreover have "UnpackOne_loop input limits scratch nf pos current frames =
        UnpackOne_loop input limits s1 nf1 (rr_consumed r) nf (?f # frames)"
      unfolding step p(1) using push a by simp
    ultimately show ?thesis
      using "1.IH"(1)[OF p(1) refl refl _ refl refl _ a(3,1)] push p(2,4) ok[OF push(1)] by fastforce
  next
    case leaf
    show ?thesis
    proof (cases "next_target frames")
      case None
      then show ?thesis using leaf p ok by (auto simp: step Let_def)
    next
      case (Some cf)
      then obtain c fs where cf: "next_target frames = Some (c, fs)" by (cases cf) auto
      have "c < length s1" "frames_ok nf1 fs" using next_target_ok[OF mono cf] p(2,4) by simp_all
      moreover have "UnpackOne_loop input limits scratch nf pos current frames =
          UnpackOne_loop input limits s1 nf1 (rr_consumed r) c fs"
        unfolding step p(1) using leaf cf by (auto simp: Let_def)
      ultimately show ?thesis
        using "1.IH"(2)[OF p(1) refl refl _ refl refl leaf(2) cf refl] leaf(1) p(2,4) ok[OF leaf(1)] by fastforce
    qed
  qed
qed

section \<open>More input\<close>

lemma ReadLine_loop_append:
  assumes "lr_status (ReadLine_loop input begn i) \<noteq> kNeedMore" "begn \<le> i"
  shows "ReadLine_loop (input @ tail) begn i = ReadLine_loop input begn i"
  using assms
proof (induction input begn i rule: ReadLine_loop.induct)
  case (1 input begn i)
  have i: "i < length input" using 1(2) by (auto simp: ReadLine_loop.simps[of input begn i] split: if_splits)
  then have "i - 1 < length input" by simp
  with i have at: "(input @ tail) ! i = input ! i" "(input @ tail) ! (i - 1) = input ! (i - 1)"
    by (simp_all add: nth_append)
  show ?case
    using 1 i at by (auto simp: ReadLine_loop.simps[of input begn i] ReadLine_loop.simps[of "input @ tail" begn i])
qed

lemma ReadLine_append:
  assumes "lr_status (ReadLine input begn) \<noteq> kNeedMore"
  shows "ReadLine (input @ tail) begn = ReadLine input begn"
  using assms ReadLine_loop_append[of input begn begn] by (auto simp: ReadLine_def split: if_splits)

lemma view_append: "first + sz \<le> length input \<Longrightarrow> view_bytes (input @ tail) first sz = view_bytes input first sz"
  by (simp add: view_bytes_def)

lemma line_view_append:
  assumes "lr_status (ReadLine input begn) = kOk"
  shows "view_bytes (input @ tail) (lr_begin (ReadLine input begn)) (lr_size (ReadLine input begn)) =
    view_bytes input (lr_begin (ReadLine input begn)) (lr_size (ReadLine input begn))"
  using ReadLine_ok[OF assms] by (intro view_append) simp

lemma ParseIntegerValue_append:
  "ParseIntegerValue (input @ tail) c (ReadLine input begn) = ParseIntegerValue input c (ReadLine input begn)"
  by (cases "lr_status (ReadLine input begn) = kOk") (simp_all add: ParseIntegerValue_def line_view_append)

lemma ParseArrayHeader_append:
  "ParseArrayHeader (input @ tail) c capacity nf limits (ReadLine input begn) =
    ParseArrayHeader input c capacity nf limits (ReadLine input begn)"
  by (cases "lr_status (ReadLine input begn) = kOk") (simp_all add: ParseArrayHeader_def line_view_append)

lemma ParseBulkValue_append:
  assumes "rr_status (fst (ParseBulkValue input c limits (ReadLine input begn))) \<noteq> kNeedMore"
  shows "ParseBulkValue (input @ tail) c limits (ReadLine input begn) = ParseBulkValue input c limits (ReadLine input begn)"
proof (cases "lr_status (ReadLine input begn) = kOk")
  case True
  note line = ReadLine_ok[OF True]
  show ?thesis
    using assms True line(3)
    by (auto simp: ParseBulkValue_def line_view_append size_minus_def Let_def nth_append split: option.splits if_splits)
qed (simp add: ParseBulkValue_def)

lemma bulk_line_status:
  "rr_status (fst (ParseBulkValue input c limits line)) \<noteq> kNeedMore \<Longrightarrow> lr_status line \<noteq> kNeedMore"
  "rr_status (fst (ParseIntegerValue input c line)) \<noteq> kNeedMore \<Longrightarrow> lr_status line \<noteq> kNeedMore"
  "rr_status (fst (ParseLineValue p c line)) \<noteq> kNeedMore \<Longrightarrow> lr_status line \<noteq> kNeedMore"
  "rr_status (fst (ParseArrayHeader input c capacity nf limits line)) \<noteq> kNeedMore \<Longrightarrow> lr_status line \<noteq> kNeedMore"
  by (auto simp: ParseBulkValue_def ParseIntegerValue_def ParseLineValue_def ParseArrayHeader_def split: if_splits)

lemma ParseValueAt_append:
  assumes "ParseValueAt input pos c scratch nf limits d = Inr (r, s1, nf1)" and "rr_status r \<noteq> kNeedMore"
  shows "ParseValueAt (input @ tail) pos c scratch nf limits d = Inr (r, s1, nf1)"
proof -
  let ?line = "ReadLine input (pos + 1)" and ?line' = "ReadLine (input @ tail) (pos + 1)"
  have pos: "pos < length input" using assms by (auto simp: ParseValueAt_def split: if_splits)
  have at: "(input @ tail) ! pos = input ! pos" using pos by (simp add: nth_append)
  have line: "?line' = ?line" if "lr_status ?line \<noteq> kNeedMore" by (rule ReadLine_append[OF that])
  obtain r1 v1 where 1: "ParseLineValue (input ! pos) c ?line = (r1, v1)" by fastforce
  obtain r2 v2 where 2: "ParseIntegerValue input c ?line = (r2, v2)" by fastforce
  obtain r3 v3 where 3: "ParseBulkValue input c limits ?line = (r3, v3)" by fastforce
  obtain r4 v4 n4 where 4: "ParseArrayHeader input c (length scratch) nf limits ?line = (r4, v4, n4)"
    by (cases "ParseArrayHeader input c (length scratch) nf limits ?line") auto
  have t1: "ParseLineValue (input ! pos) c ?line' = (r1, v1)" if "rr_status r1 \<noteq> kNeedMore"
    using line[OF bulk_line_status(3)[of "input ! pos" c ?line]] that 1 by simp
  have t2: "ParseIntegerValue (input @ tail) c ?line' = (r2, v2)" if "rr_status r2 \<noteq> kNeedMore"
    using line[OF bulk_line_status(2)[of input c ?line]] that 2 ParseIntegerValue_append by simp
  have t3: "ParseBulkValue (input @ tail) c limits ?line' = (r3, v3)" if "rr_status r3 \<noteq> kNeedMore"
    using line[OF bulk_line_status(1)[of input c limits ?line]] that 3 ParseBulkValue_append by simp
  have t4: "ParseArrayHeader (input @ tail) c (length scratch) nf limits ?line' = (r4, v4, n4)" if "rr_status r4 \<noteq> kNeedMore"
    using line[OF bulk_line_status(4)[of input c "length scratch" nf limits ?line]] that 4 ParseArrayHeader_append by simp
  show ?thesis
    using assms pos at t1 t2 t3 t4 unfolding ParseValueAt_def
    by (auto simp: 1[simplified] 2[simplified] 3[simplified] 4[simplified] Let_def split: if_splits)
qed

lemma UnpackOne_loop_append:
  assumes "UnpackOne_loop input limits scratch nf pos c frames = Inr (r, s)" and "rr_status r \<noteq> kNeedMore"
  shows "UnpackOne_loop (input @ tail) limits scratch nf pos c frames = Inr (r, s)"
  using assms
proof (induction input limits scratch nf pos c frames rule: UnpackOne_loop.induct)
  case (1 input limits scratch nf pos c frames)
  note step = UnpackOne_loop.simps[of _ limits scratch nf pos c frames]
  obtain r1 s1 nf1 where p: "ParseValueAt input pos c scratch nf limits (length frames) = Inr (r1, s1, nf1)"
    using "1.prems"(1) unfolding step by (auto simp: bindE_def split: sum.splits)
  show ?case
  proof (cases "rr_status r1 = kOk")
    case False
    then have "r1 = r" "s1 = s" using "1.prems"(1) by (simp_all add: step p)
    with "1.prems"(2) False ParseValueAt_append[OF p] show ?thesis by (simp add: step)
  next
    case True
    then have p': "ParseValueAt (input @ tail) pos c scratch nf limits (length frames) = Inr (r1, s1, nf1)"
      using ParseValueAt_append[OF p] by simp
    consider (array) "rv_type (s1 ! c) = kArray" "0 < rv_element_count (s1 ! c)"
      | (leaf) "\<not> (rv_type (s1 ! c) = kArray \<and> 0 < rv_element_count (s1 ! c))" by auto
    then show ?thesis
    proof cases
      case array
      then show ?thesis
        using "1.IH"(1)[OF p refl refl _ refl refl] "1.prems" True
        by (auto simp: step p p' Let_def split: if_splits option.splits)
    next
      case leaf
      then show ?thesis
        using "1.IH"(2)[OF p refl refl _ refl refl leaf] "1.prems" True
        by (auto simp: step p p' Let_def split: if_splits option.splits)
    qed
  qed
qed

lemma UnpackOne_append:
  "UnpackOne input scratch limits = Inr (r, s) \<Longrightarrow> rr_status r \<noteq> kNeedMore \<Longrightarrow>
    UnpackOne (input @ tail) scratch limits = Inr (r, s)"
  by (auto simp: UnpackOne_def UnpackOne_loop_append split: if_splits)

lemma UnpackOne_returns:
  "\<exists>r s. UnpackOne input scratch limits = Inr (r, s) \<and> length s = length scratch \<and>
    (if rr_status r = kOk then 0 < rr_consumed r \<and> rr_consumed r \<le> length input \<and> rr_value r = Some 0
     else rr_consumed r = 0 \<and> rr_value r = None)"
  using UnpackOne_loop_safe[of 0 scratch 1 "[]" input limits 0]
  by (cases scratch) (auto simp: UnpackOne_def frames_ok_def)

section \<open>Properties\<close>

text \<open>Sixteen values of scratch space, for the concrete runs.\<close>

abbreviation scratch16 :: "resp_value list" where
  "scratch16 \<equiv> replicate 16 ResetValue"

text \<open>C10: whatever is packed is unpacked: any tree of RESP values within the limits of the parser (a
  one-line text without a line feed, sizes and nesting in range, enough scratch slots) is packed
  without an exception, and \<open>UnpackOne\<close> on those bytes, whatever follows them, consumes exactly
  them and leaves the same tree in the scratch array, its texts as views of the input.\<close>

theorem UnpackOne_pack_tree:
  assumes "packable limits t" and "slots t < length scratch" and "depth t \<le> max_depth limits" "depth t \<le> kMaxParserDepth"
  shows "\<exists>bytes scratch'. pack_tree t '''' = Inr bytes \<and>
    UnpackOne (bytes @ rest) scratch limits = Inr (MakeResult kOk (length bytes) (Some 0) '''', scratch') \<and>
    length scratch' = length scratch \<and> reads_as (bytes @ rest) scratch' 0 t"
proof -
  have start: "drop 0 (encoding t @ rest) = encoding t @ rest" by simp
  from all_run[of "encoding t @ rest" limits t, unfolded runs_def, rule_format, OF start assms(1), of 0 1 scratch "[]"] assms
  obtain s where s: "UnpackOne_loop (encoding t @ rest) limits scratch 1 0 0 [] =
      go_on (encoding t @ rest) limits s (1 + slots t) (length (encoding t)) []"
    "agree (- own_slots {0} 1 (slots t)) scratch s" "reads_as (encoding t @ rest) s 0 t"
    by (auto simp: agree_def)
  have "scratch \<noteq> []" using assms(2) by auto
  with s pack_tree_encoding[OF assms(1), of "''''"] show ?thesis
    by (auto simp: UnpackOne_def go_on_def agree_def)
qed

theorem UnpackOne_pack_tree_witness:
  "\<exists>bytes scratch'. pack_tree (T_Array [T_Integer (- 5), T_Array [T_Bulk [CR, LF], T_Null_Array], T_Simple ''OK'']) '''' = Inr bytes \<and>
    UnpackOne (bytes @ ''+x'') scratch16 RespLimits_default = Inr (MakeResult kOk (length bytes) (Some 0) '''', scratch')"
  using UnpackOne_pack_tree[of RespLimits_default
      "T_Array [T_Integer (- 5), T_Array [T_Bulk [CR, LF], T_Null_Array], T_Simple ''OK'']" scratch16 "''+x''"]
  by (auto simp: RespLimits_default_def kMaxParserDepth_def)


text \<open>C12: a caller may hand in a stream in pieces: once \<open>UnpackOne\<close> answers anything but \<open>kNeedMore\<close>, more
  bytes change neither the answer nor the values, and every proper prefix of the bytes a
  successful call consumes is answered \<open>kNeedMore\<close>, never an error.\<close>

theorem UnpackOne_streaming:
  assumes "UnpackOne input scratch limits = Inr (r, s)" and "rr_status r \<noteq> kNeedMore"
  shows "UnpackOne (input @ tail) scratch limits = Inr (r, s) \<and>
    (rr_status r = kOk \<longrightarrow> (\<forall>n < rr_consumed r.
      \<exists>r' s'. UnpackOne (take n input) scratch limits = Inr (r', s') \<and> rr_status r' = kNeedMore))"
proof (intro conjI impI allI)
  show "UnpackOne (input @ tail) scratch limits = Inr (r, s)" by (rule UnpackOne_append[OF assms])
  fix n assume ok: "rr_status r = kOk" and n: "n < rr_consumed r"
  obtain r' s' where p: "UnpackOne (take n input) scratch limits = Inr (r', s')"
      "rr_status r' = kOk \<Longrightarrow> rr_consumed r' \<le> length (take n input)"
    using UnpackOne_returns[of "take n input" scratch limits] by (auto split: if_splits)
  have "rr_status r' = kNeedMore"
  proof (rule ccontr)
    assume "rr_status r' \<noteq> kNeedMore"
    from UnpackOne_append[OF p(1) this, of "drop n input"] assms(1) have "r' = r" by simp
    with p(2) ok n show False by simp
  qed
  with p(1) show "\<exists>r' s'. UnpackOne (take n input) scratch limits = Inr (r', s') \<and> rr_status r' = kNeedMore" by blast
qed

theorem UnpackOne_streaming_witness:
  "UnpackOne (''+OK'' @ [CR, LF] @ '':7'') [ResetValue] RespLimits_default =
    Inr (MakeResult kOk 5 (Some 0) '''', [ResetValue\<lparr>rv_type := kSimpleString, rv_text := View 1 2\<rparr>])"
proof -
  let ?v = "ResetValue\<lparr>rv_type := kSimpleString, rv_text := View 1 2\<rparr>"
  have v: "ParseValueAt (''+OK'' @ [CR, LF]) 0 0 [ResetValue] 1 RespLimits_default (length ([] :: frame list)) =
      Inr (MakeResult kOk 5 (Some 0) '''', [ResetValue][0 := ?v], 1)"
    using parse_line[of 0 "''+OK'' @ [CR, LF]" "CHR ''+''" "''OK''" "[]" 0 "[ResetValue]" 1 RespLimits_default 0]
    by (simp add: numeral_eq_Suc)
  have "UnpackOne (''+OK'' @ [CR, LF]) [ResetValue] RespLimits_default = Inr (MakeResult kOk 5 (Some 0) '''', [?v])"
    using loop_leaf[OF v] by (simp add: UnpackOne_def go_on_def)
  from UnpackOne_streaming[OF this, of "'':7''"] show ?thesis by simp
qed

text \<open>C13: \<open>ParseSignedNumber\<close> accepts exactly the decimal texts, with an optional minus sign, of the numbers
  an \<open>int64_t\<close> can hold, the smallest one included, and gives that number; no intermediate
  multiplication overflows, however long the text.  It reads back all that
  \<open>AppendSignedInteger\<close> writes.\<close>

theorem ParseSignedNumber_correct:
  "ParseSignedNumber s = (case signed_value s of
      None \<Rightarrow> None
    | Some i \<Rightarrow> if - (2 ^ 63) \<le> i \<and> i < 2 ^ 63 then Some (word_of_int i) else None) \<and>
   (\<exists>t. AppendSignedInteger v '''' = Inr t \<and> signed_value t = Some (sint v) \<and> ParseSignedNumber t = Some v)"
  by (simp add: ParseSignedNumber_spec[symmetric] AppendSignedInteger_decimal signed_value_decimal ParseSignedNumber_signed)

text \<open>\<open>PackCommand\<close> writes the array of its arguments as bulk strings, byte for byte what packing that
  tree writes, and the number of bytes it reserves beforehand is exactly the number it appends.\<close>

theorem PackCommand_correct:
  assumes "length args < 2 ^ 63" and "\<forall>arg \<in> set args. length arg < 2 ^ 63"
  shows "\<exists>bytes. PackCommand args out = Inr (out @ bytes) \<and> pack_tree (T_Array (map T_Bulk args)) '''' = Inr bytes \<and>
    length bytes = PackCommand_additional args"
proof -
  have loop: "foldE (\<lambda>out arg. PackBulkString arg out) out as = Inr (out @ concat (map (\<lambda>s. encoding (T_Bulk s)) as))"
    if "set as \<subseteq> set args" for as out
    using that assms(2) by (induction as arbitrary: out) (auto simp: PackBulkString_encoding simp del: encoding.simps)
  have size: "foldl (\<lambda>n arg. n + (1 + DecimalLength (length arg) + 2 + length arg + 2)) n as =
      n + length (concat (map (\<lambda>s. encoding (T_Bulk s)) as))" for as n
    by (induction as arbitrary: n) (simp_all add: DecimalLength_decimal)
  have "pack_tree (T_Array (map T_Bulk args)) '''' = Inr (encoding (T_Array (map T_Bulk args)))"
    using pack_tree_encoding[of RespLimits_default "T_Array (map T_Bulk args)" "''''"] assms
    by (force simp: RespLimits_default_def)
  then show ?thesis
    using assms(1) loop[OF subset_refl] size[of _ args]
    by (simp add: PackCommand_def PackArrayHeader_decimal PackCommand_additional_def DecimalLength_decimal comp_def)
qed

theorem PackCommand_correct_witness:
  "\<exists>bytes. PackCommand [''SET'', ''k'', '' ''] '''' = Inr bytes \<and> length bytes = 27"
  using PackCommand_correct[of "[''SET'', ''k'', '' '']" "''''"]
  by (auto simp: PackCommand_additional_def DecimalLength_def DecimalLength_loop.simps)

end
