(* ===== verification/Shared_Ptr.thy ===== *)
theory Shared_Ptr
  imports Cpp_Prelude "HOL-Library.Multiset"
begin

text \<open>
  \<open>SharedPtr\<close> (shared_ptr.h) over the intrusive counters of ref_count_policy.h, with the heap of
  nodes it manages.  The trees of the other theories are values; this theory justifies that: a
  program of \<open>SharedPtr\<close> copies, moves and assignments over nodes that are never written behaves
  as the same program on tree values, frees every node exactly once and leaks none.
\<close>

section \<open>The counters\<close>

text \<open>A counter at zero would wrap to the largest \<open>std::size_t\<close>.\<close>

(* ref_count_policy.h:16-16 Retain *)
definition NonAtomic_Retain :: "nat \<Rightarrow> nat" where
  "NonAtomic_Retain c = c + 1"

(* ref_count_policy.h:18-21 Release *)
definition NonAtomic_Release :: "nat \<Rightarrow> nat \<times> bool" where
  "NonAtomic_Release c =
     (let c = (if c = 0 then 2 ^ 64 - 1 else c - 1) in (c, c = 0))"

(* ref_count_policy.h:37-37 Retain *)
definition Atomic_Retain :: "nat \<Rightarrow> nat" where
  "Atomic_Retain c = (let fetch_add = c + 1 in fetch_add)"

text \<open>The test is on the value before the subtraction.\<close>

(* ref_count_policy.h:39-41 Release *)
definition Atomic_Release :: "nat \<Rightarrow> nat \<times> bool" where
  "Atomic_Release c = (if c = 0 then 2 ^ 64 - 1 else c - 1, c = 1)"

lemma policies_agree: "Atomic_Retain = NonAtomic_Retain" "Atomic_Release = NonAtomic_Release"
  by (auto simp: fun_eq_iff Atomic_Retain_def NonAtomic_Retain_def Atomic_Release_def NonAtomic_Release_def Let_def)

section \<open>Nodes and pointers\<close>

text \<open>
  A node carries its counter, its contents and its \<open>SharedPtr\<close> members in declaration order.  The
  address of a node is its place in the list of the nodes allocated so far; \<open>None\<close> stands there
  once the node is deleted.
\<close>

type_synonym ptr = "nat option"

record 'a node =
  ref_count :: nat
  contents :: 'a
  members :: "ptr list"

type_synonym 'a node_heap = "'a node option list"

definition live :: "'a node_heap \<Rightarrow> nat \<Rightarrow> bool" where
  "live h p \<longleftrightarrow> p < length h \<and> h ! p \<noteq> None"

definition live_count :: "'a node_heap \<Rightarrow> nat" where
  "live_count h = length (filter (\<lambda>c. c \<noteq> None) h)"

(* shared_ptr.h:65-69 Retain *)
definition SharedPtr_Retain :: "'a node_heap \<Rightarrow> ptr \<Rightarrow> 'a node_heap res" where
  "SharedPtr_Retain h ptr =
     (case ptr of
        None \<Rightarrow> Inr h
      | Some p \<Rightarrow>
          if live h p then Inr (h[p := map_option (ref_count_update NonAtomic_Retain) (h ! p)])
          else Inl Undefined_Behaviour)"

lemma live_count_delete:
  assumes "p < length h" "h ! p \<noteq> None"
  shows "live_count (h[p := None]) < live_count h"
proof -
  have "h = take p h @ h ! p # drop (Suc p) h" by (rule id_take_nth_drop[OF assms(1)])
  then have "live_count h = live_count (take p h @ h ! p # drop (Suc p) h)" by simp
  moreover have "live_count (h[p := None]) = live_count (take p h @ None # drop (Suc p) h)"
    using assms(1) by (simp add: upd_conv_take_nth_drop)
  ultimately show ?thesis using assms(2) by (simp add: live_count_def)
qed

lemma live_count_keep:
  assumes "p < length h" "h ! p \<noteq> None"
  shows "live_count (h[p := Some c]) = live_count h"
proof -
  have "h = take p h @ h ! p # drop (Suc p) h" by (rule id_take_nth_drop[OF assms(1)])
  then have "live_count h = live_count (take p h @ h ! p # drop (Suc p) h)" by simp
  moreover have "live_count (h[p := Some c]) = live_count (take p h @ Some c # drop (Suc p) h)"
    using assms(1) by (simp add: upd_conv_take_nth_drop)
  ultimately show ?thesis using assms(2) by (simp add: live_count_def)
qed

text \<open>
  Releasing the pointers of a list in order.  \<open>delete\<close> runs the destructor of the node, which
  releases its members in reverse order, each completely before the next.
\<close>

(* shared_ptr.h:71-76 ReleaseCurrent *)
function release_all :: "'a node_heap \<Rightarrow> ptr list \<Rightarrow> 'a node_heap res" where
  "release_all h [] = Inr h"
| "release_all h (None # ptrs) = release_all h ptrs"
| "release_all h (Some p # ptrs) =
     (if p < length h then
        (case h ! p of
           None \<Rightarrow> Inl Undefined_Behaviour
         | Some n \<Rightarrow>
             let (new_count, last_one) = NonAtomic_Release (ref_count n) in
             if last_one then release_all (h[p := None]) (rev (members n) @ ptrs)
             else release_all (h[p := Some (n\<lparr>ref_count := new_count\<rparr>)]) ptrs)
      else Inl Undefined_Behaviour)"
  by pat_completeness auto

termination release_all
  by (relation "measures [\<lambda>(h, ptrs). live_count h, \<lambda>(h, ptrs). length ptrs]")
    (auto simp: live_count_delete live_count_keep)

(* shared_ptr.h:71-76 ReleaseCurrent *)
definition SharedPtr_ReleaseCurrent :: "'a node_heap \<Rightarrow> ptr \<Rightarrow> ('a node_heap \<times> ptr) res" where
  "SharedPtr_ReleaseCurrent h ptr = bindE (release_all h [ptr]) (\<lambda>h. Inr (h, None))"

section \<open>The operations\<close>

text \<open>
  A program has named \<open>SharedPtr\<close> variables; a variable not constructed is \<open>None\<close>.  A source of a
  copy is a variable or a member of the node a variable points to.
\<close>

type_synonym 'r vars = "'r \<Rightarrow> ptr option"

datatype 'r loc = Var 'r | Member 'r nat

fun read_loc :: "'a node_heap \<Rightarrow> 'r vars \<Rightarrow> 'r loc \<Rightarrow> ptr res" where
  "read_loc h vars (Var y) = (case vars y of None \<Rightarrow> Inl Undefined_Behaviour | Some p \<Rightarrow> Inr p)"
| "read_loc h vars (Member y i) =
     (case vars y of
        Some (Some p) \<Rightarrow>
          if p < length h then
            (case h ! p of
               None \<Rightarrow> Inl Undefined_Behaviour
             | Some n \<Rightarrow> if i < length (members n) then Inr (members n ! i) else Inl Undefined_Behaviour)
          else Inl Undefined_Behaviour
      | _ \<Rightarrow> Inl Undefined_Behaviour)"

(* shared_ptr.h:15-19 Adopt *)
definition SharedPtr_Adopt :: "nat \<Rightarrow> ptr" where
  "SharedPtr_Adopt p = Some p"

text \<open>The copies a call of the node constructor takes, moved into the members.\<close>

fun retain_all :: "'a node_heap \<Rightarrow> ptr list \<Rightarrow> 'a node_heap res" where
  "retain_all h [] = Inr h"
| "retain_all h (p # ps) = bindE (SharedPtr_Retain h p) (\<lambda>h. retain_all h ps)"

fun read_locs :: "'a node_heap \<Rightarrow> 'r vars \<Rightarrow> 'r loc list \<Rightarrow> ptr list res" where
  "read_locs h vars [] = Inr []"
| "read_locs h vars (l # ls) = bindE (read_loc h vars l) (\<lambda>p. bindE (read_locs h vars ls) (\<lambda>ps. Inr (p # ps)))"

(* ref_count_policy.h:26-26 ref_count_ *)
definition kInitialRefCount :: nat where
  "kInitialRefCount = 1"

definition new_node :: "'a node_heap \<Rightarrow> 'a \<Rightarrow> ptr list \<Rightarrow> ('a node_heap \<times> ptr) res" where
  "new_node h a ps =
     bindE (retain_all h ps) (\<lambda>h.
       Inr (h @ [Some \<lparr>ref_count = kInitialRefCount, contents = a, members = ps\<rparr>], SharedPtr_Adopt (length h)))"

(* shared_ptr.h:21-21 SharedPtr *)
definition SharedPtr_copy_construct :: "'a node_heap \<Rightarrow> ptr \<Rightarrow> ('a node_heap \<times> ptr) res" where
  "SharedPtr_copy_construct h other = bindE (SharedPtr_Retain h other) (\<lambda>h. Inr (h, other))"

(* shared_ptr.h:23-23 SharedPtr *)
definition SharedPtr_move_construct :: "ptr \<Rightarrow> ptr \<times> ptr" where
  "SharedPtr_move_construct other = (other, None)"

text \<open>
  Copy assignment reads \<open>other\<close> for the call of \<open>Retain\<close> and again after \<open>ReleaseCurrent\<close>: if
  \<open>other\<close> is a member of the node that \<open>ReleaseCurrent\<close> deletes, the second read is of freed
  memory.
\<close>

(* shared_ptr.h:27-35 operator= *)
definition SharedPtr_copy_assign :: "'a node_heap \<Rightarrow> 'r vars \<Rightarrow> 'r \<Rightarrow> 'r loc \<Rightarrow> ('a node_heap \<times> 'r vars) res" where
  "SharedPtr_copy_assign h vars x other =
     (if other = Var x then Inr (h, vars)
      else
        bindE (read_loc h vars other) (\<lambda>ptr.
        bindE (SharedPtr_Retain h ptr) (\<lambda>h.
        bindE (read_loc h vars (Var x)) (\<lambda>this.
        bindE (SharedPtr_ReleaseCurrent h this) (\<lambda>(h, this).
        bindE (read_loc h vars other) (\<lambda>ptr.
        Inr (h, vars(x \<mapsto> ptr))))))))"

(* shared_ptr.h:37-45 operator= *)
definition SharedPtr_move_assign :: "'a node_heap \<Rightarrow> ptr \<Rightarrow> ptr \<Rightarrow> ('a node_heap \<times> ptr \<times> ptr) res" where
  "SharedPtr_move_assign h this other =
     bindE (SharedPtr_ReleaseCurrent h this) (\<lambda>(h, this). Inr (h, other, None))"

(* shared_ptr.h:47-50 operator= *)
definition SharedPtr_null_assign :: "'a node_heap \<Rightarrow> ptr \<Rightarrow> ('a node_heap \<times> ptr) res" where
  "SharedPtr_null_assign h this = SharedPtr_ReleaseCurrent h this"

(* shared_ptr.h:25-25 ~SharedPtr *)
definition SharedPtr_destroy :: "'a node_heap \<Rightarrow> ptr \<Rightarrow> 'a node_heap res" where
  "SharedPtr_destroy h this = bindE (SharedPtr_ReleaseCurrent h this) (\<lambda>(h, _). Inr h)"

section \<open>Programs and their meaning on trees\<close>

datatype ('r, 'a) sp_call =
    Sp_New 'r 'a "'r loc list"
  | Sp_Copy 'r "'r loc"
  | Sp_Move 'r 'r
  | Sp_Copy_Assign 'r "'r loc"
  | Sp_Move_Assign 'r 'r
  | Sp_Null_Assign 'r
  | Sp_Destroy 'r

fun sp_step :: "'a node_heap \<times> 'r vars \<Rightarrow> ('r, 'a) sp_call \<Rightarrow> ('a node_heap \<times> 'r vars) res" where
  "sp_step (h, vars) (Sp_New x a ls) =
     (if vars x \<noteq> None then Inl Undefined_Behaviour
      else bindE (read_locs h vars ls) (\<lambda>ps. bindE (new_node h a ps) (\<lambda>(h, p). Inr (h, vars(x \<mapsto> p)))))"
| "sp_step (h, vars) (Sp_Copy x l) =
     (if vars x \<noteq> None then Inl Undefined_Behaviour
      else bindE (read_loc h vars l) (\<lambda>p. bindE (SharedPtr_copy_construct h p) (\<lambda>(h, p). Inr (h, vars(x \<mapsto> p)))))"
| "sp_step (h, vars) (Sp_Move x y) =
     (case (vars x, vars y) of
        (None, Some p) \<Rightarrow> let (this, other) = SharedPtr_move_construct p in Inr (h, vars(x \<mapsto> this, y \<mapsto> other))
      | _ \<Rightarrow> Inl Undefined_Behaviour)"
| "sp_step (h, vars) (Sp_Copy_Assign x l) =
     (if vars x = None then Inl Undefined_Behaviour else SharedPtr_copy_assign h vars x l)"
| "sp_step (h, vars) (Sp_Move_Assign x y) =
     (case (vars x, vars y) of
        (Some this, Some other) \<Rightarrow>
          if x = y then Inr (h, vars)
          else bindE (SharedPtr_move_assign h this other) (\<lambda>(h, this, other). Inr (h, vars(x \<mapsto> this, y \<mapsto> other)))
      | _ \<Rightarrow> Inl Undefined_Behaviour)"
| "sp_step (h, vars) (Sp_Null_Assign x) =
     (case vars x of
        None \<Rightarrow> Inl Undefined_Behaviour
      | Some this \<Rightarrow> bindE (SharedPtr_null_assign h this) (\<lambda>(h, this). Inr (h, vars(x \<mapsto> this))))"
| "sp_step (h, vars) (Sp_Destroy x) =
     (case vars x of
        None \<Rightarrow> Inl Undefined_Behaviour
      | Some this \<Rightarrow> bindE (SharedPtr_destroy h this) (\<lambda>h. Inr (h, vars(x := None))))"

text \<open>The same calls on tree values: a null pointer is the empty tree, a copy is the value.\<close>

datatype 'a tree_value = Tree_Nil | Tree_Node 'a "'a tree_value list"

type_synonym ('r, 'a) tree_vars = "'r \<Rightarrow> 'a tree_value option"

fun tree_loc :: "('r, 'a) tree_vars \<Rightarrow> 'r loc \<Rightarrow> 'a tree_value res" where
  "tree_loc vals (Var y) = (case vals y of None \<Rightarrow> Inl Undefined_Behaviour | Some t \<Rightarrow> Inr t)"
| "tree_loc vals (Member y i) =
     (case vals y of
        Some (Tree_Node a ts) \<Rightarrow> if i < length ts then Inr (ts ! i) else Inl Undefined_Behaviour
      | _ \<Rightarrow> Inl Undefined_Behaviour)"

fun tree_locs :: "('r, 'a) tree_vars \<Rightarrow> 'r loc list \<Rightarrow> 'a tree_value list res" where
  "tree_locs vals [] = Inr []"
| "tree_locs vals (l # ls) = bindE (tree_loc vals l) (\<lambda>t. bindE (tree_locs vals ls) (\<lambda>ts. Inr (t # ts)))"

fun tree_step :: "('r, 'a) tree_vars \<Rightarrow> ('r, 'a) sp_call \<Rightarrow> ('r, 'a) tree_vars res" where
  "tree_step vals (Sp_New x a ls) =
     (if vals x \<noteq> None then Inl Undefined_Behaviour
      else bindE (tree_locs vals ls) (\<lambda>ts. Inr (vals(x \<mapsto> Tree_Node a ts))))"
| "tree_step vals (Sp_Copy x l) =
     (if vals x \<noteq> None then Inl Undefined_Behaviour else bindE (tree_loc vals l) (\<lambda>t. Inr (vals(x \<mapsto> t))))"
| "tree_step vals (Sp_Move x y) =
     (case (vals x, vals y) of
        (None, Some t) \<Rightarrow> Inr (vals(x \<mapsto> t, y \<mapsto> Tree_Nil)) | _ \<Rightarrow> Inl Undefined_Behaviour)"
| "tree_step vals (Sp_Copy_Assign x l) =
     (if vals x = None then Inl Undefined_Behaviour else bindE (tree_loc vals l) (\<lambda>t. Inr (vals(x \<mapsto> t))))"
| "tree_step vals (Sp_Move_Assign x y) =
     (case (vals x, vals y) of
        (Some _, Some t) \<Rightarrow> Inr (if x = y then vals else vals(x \<mapsto> t, y \<mapsto> Tree_Nil))
      | _ \<Rightarrow> Inl Undefined_Behaviour)"
| "tree_step vals (Sp_Null_Assign x) = (if vals x = None then Inl Undefined_Behaviour else Inr (vals(x \<mapsto> Tree_Nil)))"
| "tree_step vals (Sp_Destroy x) = (if vals x = None then Inl Undefined_Behaviour else Inr (vals(x := None)))"

section \<open>The counting invariant\<close>

definition ptrs :: "ptr list \<Rightarrow> nat multiset" where
  "ptrs ps = mset (List.map_filter id ps)"

lemma ptrs_simps [simp]:
  "ptrs [] = {#}" "ptrs (None # ps) = ptrs ps" "ptrs (Some p # ps) = add_mset p (ptrs ps)"
  "ptrs (ps @ qs) = ptrs ps + ptrs qs" "ptrs (rev ps) = ptrs ps"
  by (simp_all add: ptrs_def List.map_filter_def rev_map[symmetric] rev_filter[symmetric])

lemma set_ptrs: "q \<in># ptrs ps \<longleftrightarrow> Some q \<in> set ps"
  by (force simp: ptrs_def List.map_filter_def)

text \<open>The pointers inside live nodes.\<close>

definition inner :: "'a node_heap \<Rightarrow> nat multiset" where
  "inner h = sum_list (map (case_option {#} (\<lambda>n. ptrs (members n))) h)"

lemma inner_simps [simp]: "inner [] = {#}" "inner (h @ [Some n]) = inner h + ptrs (members n)"
  by (simp_all add: inner_def)

lemma inner_update:
  assumes "p < length h" "h ! p = Some n"
  shows "inner h = inner (h[p := None]) + ptrs (members n)"
    and "members n' = members n \<Longrightarrow> inner (h[p := Some n']) = inner h"
proof -
  have split: "h = take p h @ Some n # drop (Suc p) h" using id_take_nth_drop[OF assms(1)] assms(2) by simp
  have "inner h = inner (take p h) + ptrs (members n) + inner (drop (Suc p) h)"
    by (subst split) (simp add: inner_def)
  moreover have "inner (h[p := c]) = inner (take p h) + case_option {#} (\<lambda>n. ptrs (members n)) c + inner (drop (Suc p) h)" for c
    using assms(1) by (simp add: upd_conv_take_nth_drop inner_def)
  ultimately show "inner h = inner (h[p := None]) + ptrs (members n)"
    "members n' = members n \<Longrightarrow> inner (h[p := Some n']) = inner h" by simp_all
qed

text \<open>
  Every counter is the number of references to its node, from the program (\<open>R\<close>) and from live
  nodes; every reference is to a live node; a node refers to older nodes only.
\<close>

definition rc_ok :: "'a node_heap \<Rightarrow> nat multiset \<Rightarrow> bool" where
  "rc_ok h R \<longleftrightarrow>
     (\<forall>p. p \<in># R + inner h \<longrightarrow> p < length h \<and> h ! p \<noteq> None) \<and>
     (\<forall>p n. p < length h \<longrightarrow> h ! p = Some n \<longrightarrow>
        ref_count n = count (R + inner h) p \<and> 0 < ref_count n \<and> (\<forall>q. q \<in># ptrs (members n) \<longrightarrow> q < p))"

lemma rc_okI:
  assumes "\<And>p. p \<in># R + inner h \<Longrightarrow> p < length h \<and> h ! p \<noteq> None"
    and "\<And>p n. p < length h \<Longrightarrow> h ! p = Some n \<Longrightarrow>
      ref_count n = count (R + inner h) p \<and> 0 < ref_count n \<and> (\<forall>q. q \<in># ptrs (members n) \<longrightarrow> q < p)"
  shows "rc_ok h R"
  using assms unfolding rc_ok_def by blast

lemma rc_okD:
  assumes "rc_ok h R"
  shows "p \<in># R + inner h \<Longrightarrow> p < length h \<and> h ! p \<noteq> None"
    and "p < length h \<Longrightarrow> h ! p = Some n \<Longrightarrow> ref_count n = count (R + inner h) p"
    and "p < length h \<Longrightarrow> h ! p = Some n \<Longrightarrow> 0 < ref_count n"
    and "p < length h \<Longrightarrow> h ! p = Some n \<Longrightarrow> q \<in># ptrs (members n) \<Longrightarrow> q < p"
  using assms unfolding rc_ok_def by blast+

lemma rc_ok_node:
  assumes "rc_ok h R" "p < length h" "h ! p = Some n"
  shows "ref_count n = count (R + inner h) p \<and> 0 < ref_count n \<and> (\<forall>q. q \<in># ptrs (members n) \<longrightarrow> q < p)"
  using assms unfolding rc_ok_def by blast

text \<open>With no reference from the program, no node is left: the youngest one has no reference.\<close>

lemma inner_member: "q \<in># inner h \<longleftrightarrow> (\<exists>p n. p < length h \<and> h ! p = Some n \<and> q \<in># ptrs (members n))"
proof (induction h rule: rev_induct)
  case (snoc c h)
  have "inner (h @ [c]) = inner h + (case c of None \<Rightarrow> {#} | Some n \<Rightarrow> ptrs (members n))"
    by (simp add: inner_def)
  then have "q \<in># inner (h @ [c]) \<longleftrightarrow> q \<in># inner h \<or> (\<exists>n. c = Some n \<and> q \<in># ptrs (members n))"
    by (cases c) auto
  then show ?case using snoc by (auto simp: nth_append less_Suc_eq)
qed simp

lemma rc_ok_empty:
  assumes "rc_ok h {#}"
  shows "h = replicate (length h) None"
proof -
  have "h ! p = None" if "p < length h" for p
    using that
  proof (induction "length h - p" arbitrary: p rule: less_induct)
    case less
    show ?case
    proof (rule ccontr)
      assume "h ! p \<noteq> None"
      then obtain n where n: "h ! p = Some n" by auto
      from rc_okD(2,3)[OF assms less.prems n] have "p \<in># inner h"
        by (metis count_inI empty_neutral(1) less_numeral_extra(3))
      then obtain q m where q: "q < length h" "h ! q = Some m" "p \<in># ptrs (members m)"
        unfolding inner_member by blast
      from rc_okD(4)[OF assms q] have "p < q" .
      then show False using less.hyps[of q] less.prems q by (simp add: diff_less_mono2)
    qed
  qed
  then show ?thesis by (simp add: list_eq_iff_nth_eq)
qed

section \<open>Retain and release keep the count\<close>

text \<open>What a node holds never changes; a live node of the later heap was live before.\<close>

definition kept :: "'a node_heap \<Rightarrow> 'a node_heap \<Rightarrow> bool" where
  "kept h h' \<longleftrightarrow> length h \<le> length h' \<and>
     (\<forall>p n'. p < length h \<longrightarrow> h' ! p = Some n' \<longrightarrow>
        (\<exists>n. h ! p = Some n \<and> contents n = contents n' \<and> members n = members n'))"

lemma kept_refl [simp]: "kept h h"
  by (simp add: kept_def)

lemma kept_trans: "kept h h' \<Longrightarrow> kept h' h'' \<Longrightarrow> kept h h''"
  unfolding kept_def by (metis order_trans order_less_le_trans)

lemma kept_update:
  assumes "p < length h" "h ! p = Some n" "\<forall>n'. c = Some n' \<longrightarrow> contents n' = contents n \<and> members n' = members n"
  shows "kept h (h[p := c])"
  using assms by (auto simp: kept_def nth_list_update)

lemma kept_live:
  assumes "kept h h'" "p < length h" "h ! p = Some n" "h' ! p \<noteq> None"
  obtains n' where "p < length h'" "h' ! p = Some n'" "contents n' = contents n" "members n' = members n"
  using assms unfolding kept_def by (metis not_None_eq option.inject order_less_le_trans)

lemma Retain_ok:
  assumes ok: "rc_ok h R" and p: "\<forall>q. p = Some q \<longrightarrow> q < length h \<and> h ! q \<noteq> None"
  obtains h' where "SharedPtr_Retain h p = Inr h'" "rc_ok h' (ptrs [p] + R)" "kept h h'" "length h' = length h"
    "\<forall>q. (h' ! q = None) = (h ! q = None)"
proof (cases p)
  case None
  then show thesis using that[of h] ok by (simp add: SharedPtr_Retain_def)
next
  case (Some q)
  then obtain n where n: "q < length h" "h ! q = Some n" using p by auto
  let ?n = "n\<lparr>ref_count := Suc (ref_count n)\<rparr>"
  let ?h = "h[q := Some ?n]"
  have inner: "inner ?h = inner h" by (rule inner_update(2)[OF n]) simp
  have "rc_ok ?h (add_mset q R)"
  proof (rule rc_okI)
    fix r assume "r \<in># add_mset q R + inner ?h"
    then show "r < length ?h \<and> ?h ! r \<noteq> None"
      using rc_okD(1)[OF ok, of r] n unfolding inner by (cases "r = q") auto
  next
    fix r m assume m: "r < length ?h" "?h ! r = Some m"
    have counts: "count (add_mset q R + inner ?h) r = count (R + inner h) r + (if r = q then 1 else 0)"
      unfolding inner by simp
    show "ref_count m = count (add_mset q R + inner ?h) r \<and> 0 < ref_count m \<and> (\<forall>s. s \<in># ptrs (members m) \<longrightarrow> s < r)"
    proof (cases "r = q")
      case True
      then have "m = ?n" using m n by simp
      then show ?thesis using rc_ok_node[OF ok n] True unfolding counts by simp
    next
      case False
      then show ?thesis using rc_ok_node[OF ok, of r m] m unfolding counts by auto
    qed
  qed
  moreover have "SharedPtr_Retain h p = Inr ?h"
    using n Some by (cases n) (simp add: SharedPtr_Retain_def live_def NonAtomic_Retain_def)
  ultimately show thesis using that[of ?h] kept_update[OF n, of "Some ?n"] n Some by (simp add: nth_list_update)
qed

lemma rc_ok_delete:
  assumes ok: "rc_ok h (add_mset q R)" and "q < length h" "h ! q = Some n" "ref_count n = 1"
  shows "rc_ok (h[q := None]) (ptrs (rev (members n)) + R)"
proof (rule rc_okI)
  have sum: "ptrs (rev (members n)) + R + inner (h[q := None]) = R + inner h"
    using inner_update(1)[OF assms(2,3)] by simp
  have none: "count (R + inner h) q = 0" using rc_okD(2)[OF ok assms(2,3)] assms(4) by simp
  {
    fix p assume "p \<in># ptrs (rev (members n)) + R + inner (h[q := None])"
    then have p: "p \<in># R + inner h" unfolding sum .
    then have "p \<noteq> q" using none by (metis count_eq_zero_iff)
    then show "p < length (h[q := None]) \<and> h[q := None] ! p \<noteq> None" using rc_okD(1)[OF ok, of p] p by simp
  next
    fix p m assume m: "p < length (h[q := None])" "h[q := None] ! p = Some m"
    then have "p \<noteq> q" by auto
    then show "ref_count m = count (ptrs (rev (members n)) + R + inner (h[q := None])) p \<and> 0 < ref_count m \<and>
        (\<forall>s. s \<in># ptrs (members m) \<longrightarrow> s < p)"
      unfolding sum using rc_ok_node[OF ok, of p m] m by auto
  }
qed

lemma release_all_ok:
  "rc_ok h (ptrs ws + R) \<Longrightarrow> \<exists>h'. release_all h ws = Inr h' \<and> rc_ok h' R \<and> kept h h' \<and> length h' = length h"
proof (induction h ws rule: release_all.induct)
  case (3 h p ws)
  have total: "p \<in># ptrs (Some p # ws) + R + inner h" by simp
  then have "p < length h" "h ! p \<noteq> None" using rc_okD(1)[OF "3.prems", of p] by auto
  then obtain n where n: "p < length h" "h ! p = Some n" by auto
  note c = rc_okD(2)[OF "3.prems" n]
  show ?case
  proof (cases "ref_count n = 1")
    case True
    let ?h = "h[p := None]"
    have "rc_ok ?h (ptrs (rev (members n) @ ws) + R)"
      using rc_ok_delete[of h p "ptrs ws + R" n] "3.prems" n True by (simp add: ac_simps)
    from "3.IH"(1)[OF n(1,2) refl, of _ True] True this obtain h' where
      "release_all ?h (rev (members n) @ ws) = Inr h'" "rc_ok h' R" "kept ?h h'" "length h' = length ?h"
      by (auto simp: NonAtomic_Release_def)
    then show ?thesis using n True kept_trans[OF kept_update[OF n, of None]] by (simp add: NonAtomic_Release_def)
  next
    case False
    let ?n = "n\<lparr>ref_count := ref_count n - 1\<rparr>"
    let ?h = "h[p := Some ?n]"
    have inner: "inner ?h = inner h" by (rule inner_update(2)[OF n]) simp
    have pos: "ref_count n > 1" using False rc_okD(3)[OF "3.prems" n] by simp
    have "rc_ok ?h (ptrs ws + R)"
    proof (rule rc_okI)
      fix q assume "q \<in># ptrs ws + R + inner ?h"
      then show "q < length ?h \<and> ?h ! q \<noteq> None"
        using rc_okD(1)[OF "3.prems", of q] n unfolding inner by (auto simp: nth_list_update)
    next
      fix q m assume m: "q < length ?h" "?h ! q = Some m"
      have counts: "count (ptrs (Some p # ws) + R + inner h) q = count (ptrs ws + R + inner ?h) q + (if q = p then 1 else 0)"
        unfolding inner by simp
      show "ref_count m = count (ptrs ws + R + inner ?h) q \<and> 0 < ref_count m \<and> (\<forall>s. s \<in># ptrs (members m) \<longrightarrow> s < q)"
      proof (cases "q = p")
        case True
        then have "m = ?n" using m n by simp
        then show ?thesis using rc_ok_node[OF "3.prems" n] True pos counts by simp
      next
        case False
        then show ?thesis using rc_ok_node[OF "3.prems", of q m] m unfolding counts by auto
      qed
    qed
    from "3.IH"(2)[OF n(1,2) refl, of _ False] pos this obtain h' where
      "release_all ?h ws = Inr h'" "rc_ok h' R" "kept ?h h'" "length h' = length ?h"
      by (auto simp: NonAtomic_Release_def)
    then show ?thesis using n pos kept_trans[OF kept_update[OF n, of "Some ?n"]] by (simp add: NonAtomic_Release_def)
  qed
qed simp_all

section \<open>The tree a pointer denotes\<close>

inductive denotes :: "'a node_heap \<Rightarrow> ptr \<Rightarrow> 'a tree_value \<Rightarrow> bool" for h where
  denotes_Nil: "denotes h None Tree_Nil"
| denotes_Node: "p < length h \<Longrightarrow> h ! p = Some n \<Longrightarrow> list_all2 (denotes h) (members n) ts \<Longrightarrow>
    denotes h (Some p) (Tree_Node (contents n) ts)"

inductive_simps denotes_None [simp]: "denotes h None t"
inductive_simps denotes_Some: "denotes h (Some p) t"

lemma denotes_live: "denotes h p t \<Longrightarrow> \<forall>q. p = Some q \<longrightarrow> q < length h \<and> h ! q \<noteq> None"
  by (auto elim: denotes.cases)

text \<open>A pointer the program still holds denotes the same tree in a later heap.\<close>

lemma denotes_kept:
  assumes "denotes h p t" "kept h h'" "rc_ok h' R" "\<forall>q. p = Some q \<longrightarrow> q \<in># R + inner h'"
  shows "denotes h' p t"
  using assms(1,4)
proof (induction rule: denotes.induct)
  case (denotes_Node p n ts)
  then have "h' ! p \<noteq> None" "p < length h'" using rc_okD(1)[OF assms(3), of p] by auto
  from kept_live[OF assms(2) denotes_Node(1,2) this(1)] obtain n' where
    n': "p < length h'" "h' ! p = Some n'" "contents n' = contents n" "members n' = members n" .
  have "\<forall>q. m = Some q \<longrightarrow> q \<in># R + inner h'" if "m \<in> set (members n)" for m
    using that n' by (auto simp: inner_member set_ptrs)
  then have "list_all2 (denotes h') (members n') ts"
    using denotes_Node(3) unfolding n'(4) list_all2_conv_all_nth by (metis nth_mem)
  from denotes.denotes_Node[OF n'(1,2) this] n'(3) show ?case by simp
qed simp

section \<open>Programs\<close>

text \<open>The pointers the variables of a program hold.\<close>

definition var_ptrs :: "'r vars \<Rightarrow> nat multiset" where
  "var_ptrs vars = (\<Sum>x\<in>dom vars. ptrs [the (vars x)])"

lemma var_ptrs_remove:
  assumes "finite (dom vars)" "vars x = Some p"
  shows "var_ptrs vars = ptrs [p] + var_ptrs (vars(x := None))"
proof -
  have "var_ptrs vars = ptrs [the (vars x)] + (\<Sum>y\<in>dom (vars(x := None)). ptrs [the (vars y)])"
    unfolding var_ptrs_def dom_fun_upd using sum.remove[of "dom vars" x "\<lambda>y. ptrs [the (vars y)]"] assms
    by (simp add: domI)
  also have "(\<Sum>y\<in>dom (vars(x := None)). ptrs [the (vars y)]) = var_ptrs (vars(x := None))"
    unfolding var_ptrs_def by (rule sum.cong) auto
  finally show ?thesis using assms(2) by simp
qed

lemma var_ptrs_set:
  "finite (dom vars) \<Longrightarrow> var_ptrs (vars(x \<mapsto> p)) = ptrs [p] + var_ptrs (vars(x := None))"
  using var_ptrs_remove[of "vars(x \<mapsto> p)" x p] by simp

lemma var_ptrs_absent: "vars x = None \<Longrightarrow> var_ptrs (vars(x := None)) = var_ptrs vars"
  by (simp add: fun_upd_idem)

lemma var_ptrs_holds:
  assumes "finite (dom vars)" "vars x = Some (Some p)"
  shows "p \<in># var_ptrs vars"
  using var_ptrs_remove[OF assms] by simp

definition sp_rep :: "'a node_heap \<Rightarrow> 'r vars \<Rightarrow> ('r, 'a) tree_vars \<Rightarrow> bool" where
  "sp_rep h vars vals \<longleftrightarrow>
     finite (dom vars) \<and> rc_ok h (var_ptrs vars) \<and> (\<forall>x. rel_option (denotes h) (vars x) (vals x))"

lemma sp_repD:
  assumes "sp_rep h vars vals"
  shows "finite (dom vars)" "rc_ok h (var_ptrs vars)" "rel_option (denotes h) (vars x) (vals x)"
    "vars x = None \<longleftrightarrow> vals x = None"
    "vars x = Some p \<Longrightarrow> \<exists>t. vals x = Some t \<and> denotes h p t"
  using assms unfolding sp_rep_def by (auto simp: option_rel_Some1 dest!: spec[of _ x])

text \<open>A step keeps the relation if it keeps the count and changes only the variables it names.\<close>

lemma sp_rep_step:
  assumes rep: "sp_rep h vars vals" and "kept h h'" and ok: "rc_ok h' (var_ptrs vars')"
    and fin: "finite (dom vars')"
    and vars: "\<And>x. vars' x = vars x \<and> vals' x = vals x \<or> rel_option (denotes h') (vars' x) (vals' x) \<or>
      (\<exists>p t. vars' x = Some p \<and> vals' x = Some t \<and> denotes h p t)"
  shows "sp_rep h' vars' vals'"
  unfolding sp_rep_def
proof (intro conjI allI)
  fix x
  have keep: "denotes h' p t" if "vars' x = Some p" "denotes h p t" for p t
    using denotes_kept[OF that(2) \<open>kept h h'\<close> ok] var_ptrs_holds[OF fin] that(1) by auto
  from vars[of x] show "rel_option (denotes h') (vars' x) (vals' x)"
  proof (elim disjE exE conjE)
    assume "vars' x = vars x" "vals' x = vals x"
    then show ?thesis using sp_repD(3)[OF rep, of x] keep by (cases "vars x"; cases "vals x") auto
  qed (use keep in auto)
qed (use ok fin in auto)

lemma read_loc_tree:
  assumes rep: "sp_rep h vars vals"
  shows "case tree_loc vals l of
      Inl e \<Rightarrow> read_loc h vars l = Inl e
    | Inr t \<Rightarrow> \<exists>p. read_loc h vars l = Inr p \<and> denotes h p t"
proof (cases l)
  case (Var y)
  then show ?thesis using sp_repD(3)[OF rep, of y] by (cases "vars y"; cases "vals y") auto
next
  case (Member y i)
  show ?thesis
  proof (cases "vars y")
    case None
    then show ?thesis using Member sp_repD(4)[OF rep, of y] by simp
  next
    case (Some p)
    from sp_repD(5)[OF rep Some] obtain t where t: "vals y = Some t" "denotes h p t" by blast
    show ?thesis
    proof (cases p)
      case None
      then show ?thesis using Some t Member by simp
    next
      case (Some q)
      then obtain n ts where "q < length h" "h ! q = Some n" "list_all2 (denotes h) (members n) ts"
          "t = Tree_Node (contents n) ts" using t(2) by (auto simp: denotes_Some)
      then show ?thesis using Member \<open>vars y = Some p\<close> Some t(1)
        by (auto simp: list_all2_conv_all_nth)
    qed
  qed
qed

lemma read_locs_tree:
  assumes "sp_rep h vars vals"
  shows "case tree_locs vals ls of
      Inl e \<Rightarrow> read_locs h vars ls = Inl e
    | Inr ts \<Rightarrow> \<exists>ps. read_locs h vars ls = Inr ps \<and> list_all2 (denotes h) ps ts"
proof (induction ls)
  case (Cons l ls)
  show ?case
    using read_loc_tree[OF assms, of l] Cons by (auto split: sum.splits)
qed simp

lemma retain_all_ok:
  assumes "rc_ok h R" "\<forall>p \<in> set ps. \<forall>q. p = Some q \<longrightarrow> q < length h \<and> h ! q \<noteq> None"
  shows "\<exists>h'. retain_all h ps = Inr h' \<and> rc_ok h' (ptrs ps + R) \<and> kept h h' \<and> length h' = length h"
  using assms
proof (induction ps arbitrary: h R)
  case (Cons p ps)
  from Retain_ok[OF Cons.prems(1), of p] Cons.prems(2) obtain h1 where
    h1: "SharedPtr_Retain h p = Inr h1" "rc_ok h1 (ptrs [p] + R)" "kept h h1" "length h1 = length h"
      "\<forall>q. (h1 ! q = None) = (h ! q = None)"
    by (metis list.set_intros(1))
  from Cons.IH[OF h1(2)] Cons.prems(2) h1(4,5) obtain h' where
    h': "retain_all h1 ps = Inr h'" "rc_ok h' (ptrs ps + (ptrs [p] + R))" "kept h1 h'" "length h' = length h1"
    by auto
  moreover have "ptrs ps + (ptrs [p] + R) = ptrs (p # ps) + R" by (cases p) simp_all
  ultimately show ?case using h1 kept_trans[OF h1(3) h'(3)] by simp
qed simp

lemma new_node_ok:
  assumes ok: "rc_ok h R" and ps: "list_all2 (denotes h) ps ts"
  obtains h' where "new_node h a ps = Inr (h', Some (length h))" "rc_ok h' (add_mset (length h) R)" "kept h h'"
    "denotes h' (Some (length h)) (Tree_Node a ts)"
proof -
  have "\<forall>p \<in> set ps. \<forall>q. p = Some q \<longrightarrow> q < length h \<and> h ! q \<noteq> None"
    using ps denotes_live by (metis in_set_conv_nth list_all2_conv_all_nth)
  from retain_all_ok[OF ok this] obtain h1 where
    h1: "retain_all h ps = Inr h1" "rc_ok h1 (ptrs ps + R)" "kept h h1" "length h1 = length h" by blast
  let ?n = "\<lparr>ref_count = 1, contents = a, members = ps\<rparr>"
  let ?h = "h1 @ [Some ?n]"
  have total: "add_mset (length h) R + inner ?h = add_mset (length h) (ptrs ps + R + inner h1)" by simp
  have fresh: "length h \<notin># ptrs ps + R + inner h1" using rc_okD(1)[OF h1(2), of "length h"] h1(4) by auto
  have ok': "rc_ok ?h (add_mset (length h) R)"
  proof (rule rc_okI)
    fix p assume "p \<in># add_mset (length h) R + inner ?h"
    then have "p = length h \<or> p \<in># ptrs ps + R + inner h1" unfolding total by simp
    then show "p < length ?h \<and> ?h ! p \<noteq> None"
      using rc_okD(1)[OF h1(2), of p] h1(4) by (auto simp: nth_append)
  next
    fix p m assume m: "p < length ?h" "?h ! p = Some m"
    show "ref_count m = count (add_mset (length h) R + inner ?h) p \<and> 0 < ref_count m \<and> (\<forall>q. q \<in># ptrs (members m) \<longrightarrow> q < p)"
    proof (cases "p = length h")
      case True
      then have "m = ?n" using m(2) h1(4) by (simp add: nth_append)
      moreover have "q < length h" if "q \<in># ptrs ps" for q using rc_okD(1)[OF h1(2), of q] that h1(4) by simp
      moreover have "count (ptrs ps + R + inner h1) p = 0" using fresh True by (simp only: not_in_iff)
      ultimately show ?thesis unfolding total using True by simp
    next
      case False
      then have "p < length h1" "h1 ! p = Some m" using m h1(4) by (auto simp: nth_append)
      then show ?thesis using rc_ok_node[OF h1(2), of p m] False unfolding total by auto
    qed
  qed
  have kept': "kept h ?h" using h1(3,4) by (auto simp: kept_def nth_append)
  have "list_all2 (denotes ?h) ps ts"
    unfolding list_all2_conv_all_nth
  proof (intro conjI allI impI)
    fix i assume i: "i < length ps"
    then have d: "denotes h (ps ! i) (ts ! i)" using ps by (simp add: list_all2_conv_all_nth)
    show "denotes ?h (ps ! i) (ts ! i)"
      by (rule denotes_kept[OF d kept' ok']) (use i in \<open>auto simp: set_ptrs in_set_conv_nth\<close>)
  qed (use ps in \<open>simp add: list_all2_lengthD\<close>)
  then have "denotes ?h (Some (length h)) (Tree_Node a ts)"
    using denotes_Node[of "length h" ?h ?n ts] h1(4) by (simp add: nth_append)
  then show thesis using that[of ?h] h1 ok' kept' by (simp add: new_node_def kInitialRefCount_def SharedPtr_Adopt_def)
qed

text \<open>The variable \<open>x\<close> holds the only reference to its node.\<close>

definition sole_owner :: "'a node_heap \<Rightarrow> 'r vars \<Rightarrow> 'r \<Rightarrow> bool" where
  "sole_owner h vars x \<longleftrightarrow>
     (case vars x of Some (Some p) \<Rightarrow> p < length h \<and> map_option ref_count (h ! p) = Some 1 | _ \<Rightarrow> False)"

text \<open>\<open>x = x->member\<close>: with another reference to the node it still holds the member afterwards.\<close>

lemma release_one_shared:
  assumes "q < length h" "h ! q = Some n" "1 < ref_count n"
  shows "release_all h [Some q] = Inr (h[q := Some (n\<lparr>ref_count := ref_count n - 1\<rparr>)])"
  using assms by (simp add: NonAtomic_Release_def)

lemma release_one_last:
  assumes ok: "rc_ok h (add_mset q R)" and "q < length h" "h ! q = Some n" "ref_count n = 1"
    and run: "release_all h [Some q] = Inr h'"
  shows "h' ! q = None"
proof -
  have "release_all (h[q := None]) (rev (members n)) = Inr h'"
    using assms by (simp add: NonAtomic_Release_def)
  moreover have "rc_ok (h[q := None]) (ptrs (rev (members n)) + R)" by (rule rc_ok_delete[OF assms(1-4)])
  ultimately have "kept (h[q := None]) h'" using release_all_ok by (metis Inr_inject)
  then show ?thesis using assms(2) unfolding kept_def
    by (metis length_list_update nth_list_update_eq option.distinct(1) option.exhaust)
qed

section \<open>Every call refines the call on trees\<close>

text \<open>The relation after a call that constructed \<open>p\<close> and gave the old value of \<open>x\<close> up.\<close>

lemma sp_rep_assign:
  assumes rep: "sp_rep h vars vals" and "kept h h'" and ok: "rc_ok h' (ptrs [p] + var_ptrs (vars(x := None)))"
    and p: "denotes h p t \<or> denotes h' p t"
  shows "sp_rep h' (vars(x \<mapsto> p)) (vals(x \<mapsto> t))"
proof (rule sp_rep_step[OF rep \<open>kept h h'\<close>])
  have fin: "finite (dom vars)" by (rule sp_repD(1)[OF rep])
  show "rc_ok h' (var_ptrs (vars(x \<mapsto> p)))" unfolding var_ptrs_set[OF fin] by (rule ok)
  show "finite (dom (vars(x \<mapsto> p)))" using fin by simp
qed (use p in auto)

lemma release_ok:
  assumes rep: "sp_rep h vars vals" and x: "vars x = Some this"
  obtains h' where "SharedPtr_ReleaseCurrent h this = Inr (h', None)" "rc_ok h' (var_ptrs (vars(x := None)))" "kept h h'"
proof -
  have "rc_ok h (ptrs [this] + var_ptrs (vars(x := None)))"
    using sp_repD(2)[OF rep] unfolding var_ptrs_remove[of vars x this, OF sp_repD(1)[OF rep] x] .
  from release_all_ok[OF this] show thesis using that by (auto simp: SharedPtr_ReleaseCurrent_def)
qed

lemma sp_rep_release:
  assumes rep: "sp_rep h vars vals" and "kept h h'" "rc_ok h' (var_ptrs (vars(x := None)))"
  shows "sp_rep h' (vars(x := None)) (vals(x := None))"
  by (rule sp_rep_step[OF assms]) (use sp_repD(1)[OF rep] in auto)

text \<open>The second read of the source of a copy assignment.\<close>

lemma copy_assign_reread:
  assumes rep: "sp_rep h vars vals" and x: "vars x = Some this" and l: "l \<noteq> Var x" and read: "read_loc h vars l = Inr p"
    and not_sole: "\<And>i. l = Member x i \<Longrightarrow> \<not> sole_owner h vars x"
    and h1: "SharedPtr_Retain h p = Inr h1" "rc_ok h1 (ptrs [p] + var_ptrs vars)" "kept h h1" "length h1 = length h"
      "\<forall>q. (h1 ! q = None) = (h ! q = None)"
    and h2: "release_all h1 [this] = Inr h2" "rc_ok h2 (ptrs [p] + var_ptrs (vars(x := None)))" "kept h1 h2"
  shows "read_loc h2 vars l = Inr p"
proof (cases l)
  case (Var y)
  then show ?thesis using read by simp
next
  case (Member y i)
  then obtain q n where q: "vars y = Some (Some q)" "q < length h" "h ! q = Some n" "i < length (members n)" "members n ! i = p"
    using read by (auto split: option.splits if_splits)
  have "h2 ! q \<noteq> None \<and> q < length h2"
  proof (cases "y = x")
    case False
    then have "q \<in># var_ptrs (vars(x := None))"
      using var_ptrs_holds[of "vars(x := None)" y q] q(1) sp_repD(1)[OF rep] by simp
    then show ?thesis using rc_okD(1)[OF h2(2), of q] by simp
  next
    case True
    then have this: "this = Some q" using x q(1) by simp
    have "ref_count n \<noteq> 1" using not_sole[of i] Member True q by (simp add: sole_owner_def)
    then have "1 < ref_count n" using rc_okD(3)[OF sp_repD(2)[OF rep] q(2,3)] by simp
    then have "1 < count (var_ptrs vars + inner h) q" using rc_okD(2)[OF sp_repD(2)[OF rep] q(2,3)] by simp
    moreover obtain n1 where n1: "q < length h1" "h1 ! q = Some n1"
      using q(2,3) h1(4,5) by (metis not_None_eq)
    moreover have "inner h1 = inner h"
      using h1(1) by (auto simp: SharedPtr_Retain_def live_def inner_update(2) split: option.splits if_splits)
    ultimately have "1 < ref_count n1" using rc_okD(2)[OF h1(2) n1] by simp
    from release_one_shared[OF n1 this] h2(1) this n1 show ?thesis using \<open>this = Some q\<close> by auto
  qed
  then obtain n2 where "q < length h2" "h2 ! q = Some n2" "members n2 = members n"
    using kept_live[OF kept_trans[OF h1(3) h2(3)] q(2,3)] by metis
  then show ?thesis using Member q by simp
qed

lemma copy_assign_ok:
  assumes rep: "sp_rep h vars vals" and x: "vars x = Some this" and l: "l \<noteq> Var x"
    and read: "read_loc h vars l = Inr p" "denotes h p t"
    and not_sole: "\<And>i. l = Member x i \<Longrightarrow> \<not> sole_owner h vars x"
  shows "\<exists>h'. SharedPtr_copy_assign h vars x l = Inr (h', vars(x \<mapsto> p)) \<and> sp_rep h' (vars(x \<mapsto> p)) (vals(x \<mapsto> t))"
proof -
  obtain h1 where h1: "SharedPtr_Retain h p = Inr h1" "rc_ok h1 (ptrs [p] + var_ptrs vars)" "kept h h1"
      "length h1 = length h" "\<forall>q. (h1 ! q = None) = (h ! q = None)"
    by (rule Retain_ok[OF sp_repD(2)[OF rep] denotes_live[OF read(2)]])
  have "rc_ok h1 (ptrs [this] + (ptrs [p] + var_ptrs (vars(x := None))))"
    using h1(2) unfolding var_ptrs_remove[of vars x this, OF sp_repD(1)[OF rep] x] by (simp add: ac_simps)
  from release_all_ok[OF this] obtain h2 where
    h2: "release_all h1 [this] = Inr h2" "rc_ok h2 (ptrs [p] + var_ptrs (vars(x := None)))" "kept h1 h2" by blast
  have "SharedPtr_copy_assign h vars x l = Inr (h2, vars(x \<mapsto> p))"
    using copy_assign_reread[OF rep x l read(1) not_sole h1 h2] read(1) h1(1) h2(1) x l
    by (simp add: SharedPtr_copy_assign_def SharedPtr_ReleaseCurrent_def)
  then show ?thesis using sp_rep_assign[OF rep kept_trans[OF h1(3) h2(3)] h2(2)] read(2) by blast
qed

lemma copy_assign_sole:
  assumes rep: "sp_rep h vars vals" and sole: "sole_owner h vars x" and read: "read_loc h vars (Member x i) = Inr p" "denotes h p t"
  shows "SharedPtr_copy_assign h vars x (Member x i) = Inl Undefined_Behaviour"
proof -
  from read(1) sole obtain q n where q: "vars x = Some (Some q)" "q < length h" "h ! q = Some n" "members n ! i = p"
      "i < length (members n)" "ref_count n = 1"
    by (auto simp: sole_owner_def split: option.splits if_splits)
  obtain h1 where h1: "SharedPtr_Retain h p = Inr h1" "rc_ok h1 (ptrs [p] + var_ptrs vars)" "length h1 = length h"
    by (rule Retain_ok[OF sp_repD(2)[OF rep] denotes_live[OF read(2)]])
  have ok: "rc_ok h1 (add_mset q (ptrs [p] + var_ptrs (vars(x := None))))"
    using h1(2) unfolding var_ptrs_remove[of vars x "Some q", OF sp_repD(1)[OF rep] q(1)] by (simp add: ac_simps)
  have "p \<noteq> Some q"
    using rc_okD(4)[OF sp_repD(2)[OF rep] q(2,3), of q] q(4,5) by (auto simp: set_ptrs in_set_conv_nth)
  then have same: "h1 ! q = Some n"
    using h1(1) q(3) by (auto simp: SharedPtr_Retain_def split: option.splits if_splits)
  from release_all_ok[of h1 "[Some q]"] ok obtain h2 where h2: "release_all h1 [Some q] = Inr h2" by fastforce
  have "h2 ! q = None" by (rule release_one_last[OF ok _ same q(6) h2]) (simp add: h1(3) q(2))
  then show ?thesis
    using h1(1) h2 q(1) read(1) by (simp add: SharedPtr_copy_assign_def SharedPtr_ReleaseCurrent_def)
qed

text \<open>The one call that is not safe: a variable assigned from a member of the node only it holds.\<close>

fun unsafe_call :: "'a node_heap \<times> 'r vars \<Rightarrow> ('r, 'a) sp_call \<Rightarrow> bool" where
  "unsafe_call (h, vars) (Sp_Copy_Assign x (Member y i)) \<longleftrightarrow> y = x \<and> sole_owner h vars x"
| "unsafe_call s c \<longleftrightarrow> False"

lemma sp_step_refines:
  assumes rep: "sp_rep h vars vals" and safe: "\<not> unsafe_call (h, vars) c"
  shows "case tree_step vals c of
      Inl e \<Rightarrow> sp_step (h, vars) c = Inl e
    | Inr vals' \<Rightarrow> \<exists>h' vars'. sp_step (h, vars) c = Inr (h', vars') \<and> sp_rep h' vars' vals'"
proof (cases c)
  case (Sp_New x a ls)
  show ?thesis
  proof (cases "vals x = None \<and> (\<exists>ts. tree_locs vals ls = Inr ts)")
    case True
    then obtain ts where ts: "tree_locs vals ls = Inr ts" by blast
    then obtain ps where ps: "read_locs h vars ls = Inr ps" "list_all2 (denotes h) ps ts"
      using read_locs_tree[OF rep, of ls] by auto
    obtain h' where h': "new_node h a ps = Inr (h', Some (length h))" "rc_ok h' (add_mset (length h) (var_ptrs vars))"
        "kept h h'" "denotes h' (Some (length h)) (Tree_Node a ts)"
      by (rule new_node_ok[OF sp_repD(2)[OF rep] ps(2)])
    have x: "vars x = None" using True sp_repD(4)[OF rep] by simp
    have "sp_rep h' (vars(x \<mapsto> Some (length h))) (vals(x \<mapsto> Tree_Node a ts))"
      by (rule sp_rep_assign[OF rep h'(3)]) (use h' x in \<open>simp_all add: var_ptrs_absent\<close>)
    then show ?thesis using Sp_New True ts ps(1) h'(1) x by simp
  next
    case False
    then show ?thesis using Sp_New sp_repD(4)[OF rep, of x] read_locs_tree[OF rep, of ls]
      by (cases "tree_locs vals ls") auto
  qed
next
  case (Sp_Copy x l)
  show ?thesis
  proof (cases "vals x = None \<and> (\<exists>t. tree_loc vals l = Inr t)")
    case True
    then obtain t where t: "tree_loc vals l = Inr t" by blast
    then obtain p where p: "read_loc h vars l = Inr p" "denotes h p t" using read_loc_tree[OF rep, of l] by auto
    obtain h' where h': "SharedPtr_Retain h p = Inr h'" "rc_ok h' (ptrs [p] + var_ptrs vars)" "kept h h'"
      by (rule Retain_ok[OF sp_repD(2)[OF rep] denotes_live[OF p(2)]])
    have x: "vars x = None" using True sp_repD(4)[OF rep] by simp
    have "sp_rep h' (vars(x \<mapsto> p)) (vals(x \<mapsto> t))"
      by (rule sp_rep_assign[OF rep h'(3)]) (use h' x p in \<open>simp_all add: var_ptrs_absent\<close>)
    then show ?thesis using Sp_Copy True t p(1) h'(1) x by (simp add: SharedPtr_copy_construct_def)
  next
    case False
    then show ?thesis using Sp_Copy sp_repD(4)[OF rep, of x] read_loc_tree[OF rep, of l]
      by (cases "tree_loc vals l") auto
  qed
next
  case (Sp_Move x y)
  show ?thesis
  proof (cases "vals x = None \<and> vals y \<noteq> None")
    case True
    then obtain t p where y: "vals y = Some t" "vars y = Some p" "denotes h p t" and x: "vars x = None"
      using sp_repD(4)[OF rep, of y] sp_repD(4)[OF rep, of x] sp_repD(5)[OF rep, of y] by fastforce
    have "x \<noteq> y" using True by auto
    have fin: "finite (dom vars)" by (rule sp_repD(1)[OF rep])
    have "var_ptrs (vars(x \<mapsto> p, y \<mapsto> None)) = ptrs [None] + var_ptrs (vars(x \<mapsto> p, y := None))"
      using var_ptrs_set[of "vars(x \<mapsto> p)" y None] fin by simp
    also have "vars(x \<mapsto> p, y := None) = (vars(y := None))(x \<mapsto> p)" using \<open>x \<noteq> y\<close> by (rule fun_upd_twist)
    also have "var_ptrs ((vars(y := None))(x \<mapsto> p)) = ptrs [p] + var_ptrs ((vars(y := None))(x := None))"
      by (rule var_ptrs_set) (simp add: fin)
    also have "(vars(y := None))(x := None) = vars(y := None)" using x \<open>x \<noteq> y\<close> by (simp add: fun_eq_iff)
    finally have "var_ptrs (vars(x \<mapsto> p, y \<mapsto> None)) = var_ptrs vars"
      unfolding var_ptrs_remove[OF fin y(2)] by (simp only: ptrs_simps add_0)
    then have "sp_rep h (vars(x \<mapsto> p, y \<mapsto> None)) (vals(x \<mapsto> t, y \<mapsto> Tree_Nil))"
      by (intro sp_rep_step[OF rep kept_refl]) (use sp_repD(2)[OF rep] fin y in auto)
    then show ?thesis using Sp_Move True y x by (simp add: SharedPtr_move_construct_def)
  qed (use Sp_Move sp_repD(4)[OF rep, of x] sp_repD(4)[OF rep, of y] in \<open>auto split: option.split\<close>)
next
  case (Sp_Copy_Assign x l)
  show ?thesis
  proof (cases "vals x \<noteq> None \<and> (\<exists>t. tree_loc vals l = Inr t)")
    case True
    then obtain t where t: "tree_loc vals l = Inr t" by blast
    then obtain p where p: "read_loc h vars l = Inr p" "denotes h p t" using read_loc_tree[OF rep, of l] by auto
    obtain this where x: "vars x = Some this" using True sp_repD(4)[OF rep, of x] by auto
    show ?thesis
    proof (cases "l = Var x")
      case True
      then have "vals(x \<mapsto> t) = vals" using t by (auto split: option.splits)
      then show ?thesis using Sp_Copy_Assign True x t rep \<open>vals x \<noteq> None \<and> _\<close> by (simp add: SharedPtr_copy_assign_def)
    next
      case False
      have sole: "\<And>i. l = Member x i \<Longrightarrow> \<not> sole_owner h vars x" using safe Sp_Copy_Assign by simp
      have "\<exists>h'. SharedPtr_copy_assign h vars x l = Inr (h', vars(x \<mapsto> p)) \<and> sp_rep h' (vars(x \<mapsto> p)) (vals(x \<mapsto> t))"
        by (rule copy_assign_ok[OF rep x False p]) (rule sole)
      then show ?thesis using True t x by (auto simp: Sp_Copy_Assign)
    qed
  next
    case False
    then show ?thesis using Sp_Copy_Assign sp_repD(4)[OF rep, of x] read_loc_tree[OF rep, of l]
      by (cases "tree_loc vals l") (auto simp: SharedPtr_copy_assign_def)
  qed
next
  case (Sp_Move_Assign x y)
  show ?thesis
  proof (cases "vals x \<noteq> None \<and> vals y \<noteq> None")
    case True
    then obtain this tx p t where y: "vars x = Some this" "vals x = Some tx" "vars y = Some p" "vals y = Some t" "denotes h p t"
      using sp_repD(4)[OF rep, of y] sp_repD(4)[OF rep, of x] sp_repD(5)[OF rep, of y] by fastforce
    show ?thesis
    proof (cases "x = y")
      case False
      obtain h' where h': "SharedPtr_ReleaseCurrent h this = Inr (h', None)" "rc_ok h' (var_ptrs (vars(x := None)))" "kept h h'"
        by (rule release_ok[OF rep y(1)])
      have rep': "sp_rep h' (vars(x := None)) (vals(x := None))" by (rule sp_rep_release[OF rep h'(3,2)])
      have fin: "finite (dom (vars(x := None)))" by (rule sp_repD(1)[OF rep'])
      obtain t' where t': "denotes h' p t'" "t' = t" using sp_repD(5)[OF rep', of y p] y False by auto
      have "var_ptrs (vars(x \<mapsto> p, y \<mapsto> None)) = var_ptrs ((vars(x := None))(y := None, x \<mapsto> p))"
        using var_ptrs_set[of "vars(x \<mapsto> p)" y None] fin False by (simp add: fun_upd_twist[of x y])
      also have "\<dots> = ptrs [p] + var_ptrs ((vars(x := None))(y := None, x := None))"
        by (rule var_ptrs_set) (use fin in simp)
      also have "(vars(x := None))(y := None, x := None) = (vars(x := None))(y := None)" by (auto simp: fun_eq_iff)
      also have "ptrs [p] + var_ptrs ((vars(x := None))(y := None)) = var_ptrs (vars(x := None))"
        using var_ptrs_remove[OF fin, of y p] y False by simp
      finally have "var_ptrs (vars(x \<mapsto> p, y \<mapsto> None)) = var_ptrs (vars(x := None))" .
      then have "sp_rep h' (vars(x \<mapsto> p, y \<mapsto> None)) (vals(x \<mapsto> t, y \<mapsto> Tree_Nil))"
        by (intro sp_rep_step[OF rep']) (use h'(2) fin t' in auto)
      then show ?thesis using Sp_Move_Assign y h'(1) False by (simp add: SharedPtr_move_assign_def)
    qed (use Sp_Move_Assign y rep in simp)
  qed (use Sp_Move_Assign sp_repD(4)[OF rep, of x] sp_repD(4)[OF rep, of y] in \<open>auto split: option.split\<close>)
next
  case (Sp_Null_Assign x)
  show ?thesis
  proof (cases "vars x")
    case (Some this)
    obtain h' where h': "SharedPtr_ReleaseCurrent h this = Inr (h', None)" "rc_ok h' (var_ptrs (vars(x := None)))" "kept h h'"
      by (rule release_ok[OF rep Some])
    have "sp_rep h' (vars(x \<mapsto> None)) (vals(x \<mapsto> Tree_Nil))"
      by (rule sp_rep_assign[OF rep h'(3)]) (use h'(2) in simp_all)
    then show ?thesis using Sp_Null_Assign Some h'(1) sp_repD(4)[OF rep, of x] by (simp add: SharedPtr_null_assign_def)
  qed (use Sp_Null_Assign sp_repD(4)[OF rep, of x] in simp)
next
  case (Sp_Destroy x)
  show ?thesis
  proof (cases "vars x")
    case (Some this)
    obtain h' where h': "SharedPtr_ReleaseCurrent h this = Inr (h', None)" "rc_ok h' (var_ptrs (vars(x := None)))" "kept h h'"
      by (rule release_ok[OF rep Some])
    then show ?thesis using Sp_Destroy Some sp_repD(4)[OF rep, of x] sp_rep_release[OF rep h'(3,2)]
      by (simp add: SharedPtr_destroy_def)
  qed (use Sp_Destroy sp_repD(4)[OF rep, of x] in simp)
qed

section \<open>Whole programs\<close>

text \<open>A run stops at the first unsafe call, which \<open>Inl None\<close> reports.\<close>

fun sp_run :: "'a node_heap \<times> 'r vars \<Rightarrow> ('r, 'a) sp_call list \<Rightarrow> exn option + ('a node_heap \<times> 'r vars)" where
  "sp_run s [] = Inr s"
| "sp_run s (c # cs) =
     (if unsafe_call s c then Inl None
      else case sp_step s c of Inl e \<Rightarrow> Inl (Some e) | Inr s' \<Rightarrow> sp_run s' cs)"

lemma sp_run_refines:
  assumes "sp_rep h vars vals"
  shows "sp_run (h, vars) cs = Inl None \<or>
    (case foldE tree_step vals cs of
      Inl e \<Rightarrow> sp_run (h, vars) cs = Inl (Some e)
    | Inr vals' \<Rightarrow> \<exists>h' vars'. sp_run (h, vars) cs = Inr (h', vars') \<and> sp_rep h' vars' vals')"
  using assms
proof (induction cs arbitrary: h vars vals)
  case (Cons c cs)
  show ?case
  proof (cases "unsafe_call (h, vars) c")
    case False
    note one = sp_step_refines[OF Cons.prems False]
    show ?thesis
    proof (cases "tree_step vals c")
      case (Inl e)
      then show ?thesis using one False by simp
    next
      case (Inr vals')
      then obtain h' vars' where "sp_step (h, vars) c = Inr (h', vars')" "sp_rep h' vars' vals'" using one by auto
      then show ?thesis using Cons.IH[of h' vars' vals'] Inr False by (simp split: sum.splits)
    qed
  qed simp
qed simp

lemma sp_rep_empty: "sp_rep [] Map.empty Map.empty"
  by (simp add: sp_rep_def rc_ok_def var_ptrs_def)

lemma sp_rep_no_leak:
  assumes "sp_rep h vars Map.empty"
  shows "h = replicate (length h) None"
proof -
  have "vars = Map.empty" using sp_repD(4)[OF assms] by (auto simp: fun_eq_iff)
  then show ?thesis using rc_ok_empty sp_repD(2)[OF assms] by (simp add: var_ptrs_def)
qed

text \<open>C16: A program of \<open>SharedPtr\<close> calls over nodes that are written once, starting from an empty
  heap, behaves as the same calls on tree values, as long as it never assigns a variable from a
  member of the node that variable alone owns: it is undefined only where the program itself is
  (an object used before its construction or after its destruction, a null dereference), else
  every variable points to a tree of live nodes equal to its value, no node is deleted twice or
  read after its deletion, and when no variable is left every node has been deleted.\<close>

theorem SharedPtr_programs_are_tree_programs:
  fixes cs :: "('r, 'a) sp_call list"
  assumes "sp_run ([], Map.empty) cs \<noteq> Inl None"
  shows "case foldE tree_step Map.empty cs of
      Inl e \<Rightarrow> sp_run ([], Map.empty) cs = Inl (Some e)
    | Inr vals \<Rightarrow> \<exists>h vars. sp_run ([], Map.empty) cs = Inr (h, vars) \<and>
        (\<forall>x. rel_option (denotes h) (vars x) (vals x)) \<and>
        (vals = Map.empty \<longrightarrow> h = replicate (length h) None)"
proof (cases "foldE tree_step Map.empty cs")
  case (Inl e)
  then show ?thesis using sp_run_refines[OF sp_rep_empty, of cs] assms by simp
next
  case (Inr vals)
  then obtain h vars where run: "sp_run ([], Map.empty) cs = Inr (h, vars)" "sp_rep h vars vals"
    using sp_run_refines[OF sp_rep_empty, of cs] assms by auto
  have "vals = Map.empty \<longrightarrow> h = replicate (length h) None" using sp_rep_no_leak run(2) by auto
  then show ?thesis using run sp_repD(3)[OF run(2)] Inr by simp
qed

text \<open>Two lists that share a tail: the tail survives its first owner and is freed with the second.\<close>

definition shared_tail_calls :: "(nat, nat) sp_call list" where
  "shared_tail_calls =
     [Sp_New 0 7 [], Sp_New 1 8 [Var 0], Sp_New 2 9 [Var 0], Sp_Destroy 0, Sp_Destroy 1,
      Sp_Copy 3 (Member 2 0), Sp_Destroy 2, Sp_Destroy 3]"

lemma SharedPtr_programs_are_tree_programs_witness:
  "\<exists>h vars. sp_run ([], Map.empty) shared_tail_calls = Inr (h, vars) \<and> h = replicate (length h) None"
proof -
  have run: "sp_run ([], Map.empty) shared_tail_calls \<noteq> Inl None"
    by (simp add: shared_tail_calls_def new_node_def SharedPtr_Adopt_def kInitialRefCount_def SharedPtr_Retain_def
        live_def NonAtomic_Retain_def NonAtomic_Release_def SharedPtr_destroy_def SharedPtr_ReleaseCurrent_def
        SharedPtr_copy_construct_def)
  have "foldE tree_step Map.empty shared_tail_calls = Inr Map.empty"
    by (simp add: shared_tail_calls_def)
  then show ?thesis using SharedPtr_programs_are_tree_programs[OF run] by auto
qed

text \<open>C17: The unsafe call is undefined: \<open>p = p->next\<close>, where \<open>p\<close> is the only owner of its node,
  reads the member after \<open>ReleaseCurrent\<close> has deleted the node.\<close>

theorem SharedPtr_assign_own_member:
  assumes "foldE sp_step ([], Map.empty) cs = Inr (h, vars)" and "sp_run ([], Map.empty) cs \<noteq> Inl None"
    and "sole_owner h vars x" and "read_loc h vars (Member x i) = Inr p"
  shows "sp_step (h, vars) (Sp_Copy_Assign x (Member x i)) = Inl Undefined_Behaviour"
proof -
  have steps: "sp_run s cs = Inr s'" if "foldE sp_step s cs = Inr s'" "sp_run s cs \<noteq> Inl None" for s s'
    using that by (induction cs arbitrary: s) (auto split: if_splits)
  have run: "sp_run ([], Map.empty) cs = Inr (h, vars)" by (rule steps[OF assms(1,2)])
  then obtain vals where "sp_rep h vars vals"
    using sp_run_refines[OF sp_rep_empty, of cs] by (auto split: sum.splits)
  then obtain t where "denotes h p t"
    using read_loc_tree[of h vars vals "Member x i"] assms(4) by (cases "tree_loc vals (Member x i)") auto
  from copy_assign_sole[OF \<open>sp_rep h vars vals\<close> assms(3,4) this] show ?thesis
    using assms(4) by (auto split: option.splits)
qed

lemma SharedPtr_assign_own_member_witness:
  "foldE sp_step ([], Map.empty) [Sp_New (0::nat) (7::nat) [], Sp_New 1 8 [Var 0], Sp_Destroy 0, Sp_Copy_Assign 1 (Member 1 0)]
    = Inl Undefined_Behaviour"
proof -
  let ?cs = "[Sp_New (0::nat) (7::nat) [], Sp_New 1 8 [Var 0], Sp_Destroy 0]"
  let ?h = "[Some \<lparr>ref_count = 1, contents = 7, members = []\<rparr>, Some \<lparr>ref_count = 1, contents = 8::nat, members = [Some 0]\<rparr>]"
  let ?vars = "[1 \<mapsto> Some 1] :: nat vars"
  note defs = new_node_def SharedPtr_Adopt_def kInitialRefCount_def SharedPtr_Retain_def
      live_def NonAtomic_Retain_def NonAtomic_Release_def SharedPtr_destroy_def SharedPtr_ReleaseCurrent_def
  have "(([0 \<mapsto> Some 0, 1 \<mapsto> Some 1] :: nat vars)(0 := None)) = ?vars" by (auto simp: fun_eq_iff)
  then have run: "foldE sp_step ([], Map.empty) ?cs = Inr (?h, ?vars)" "sp_run ([], Map.empty) ?cs \<noteq> Inl None"
    by (simp_all add: defs)
  have "sp_step (?h, ?vars) (Sp_Copy_Assign 1 (Member 1 0)) = Inl Undefined_Behaviour"
    by (rule SharedPtr_assign_own_member[OF run, of 1 0 "Some 0"]) (simp_all add: sole_owner_def)
  then have "foldE sp_step ([], Map.empty) (?cs @ [Sp_Copy_Assign 1 (Member 1 0)]) = Inl Undefined_Behaviour"
    unfolding foldE_append run(1) by (simp only: bindE_simps foldE.simps)
  then show ?thesis unfolding append.simps .
qed

end
