(* ===== verification/Vyukov_Queue.thy ===== *)
theory Vyukov_Queue
  imports Cpp_Prelude
begin

unbundle bit_operations_syntax

text \<open>
  \<open>VyukovBoundedQueueCore\<close> (sharded_vyukov_queue.h), the bounded multi-producer multi-consumer
  queue.  Every load, store and compare-exchange of the code is one step of a thread; a schedule
  interleaves the steps of any number of threads (the model is sequentially consistent).  The
  theory proves that every schedule of fewer than \<open>2 ^ 62\<close> steps behaves as a bounded FIFO
  queue, and that no two threads touch the data of a cell at once.
\<close>

section \<open>State\<close>

(* sharded_vyukov_queue.h:79-82 cell_t *)
record 'a cell_t =
  sequence :: "64 word"
  data :: 'a

(* sharded_vyukov_queue.h:88-91 VyukovBoundedQueueCore *)
record 'a vyukov =
  buffer :: "'a cell_t list"
  buffer_mask :: "64 word"
  enqueue_pos :: "64 word"
  dequeue_pos :: "64 word"

text \<open>The constructor; \<open>d\<close> is the default value of the element type.\<close>

(* sharded_vyukov_queue.h:18-26 VyukovBoundedQueueCore *)
definition VyukovCore_new :: "'a \<Rightarrow> nat \<Rightarrow> 'a vyukov" where
  "VyukovCore_new d buffer_size =
     \<lparr>buffer = map (\<lambda>i. \<lparr>sequence = of_nat i, data = d\<rparr>) [0..<buffer_size],
      buffer_mask = of_nat buffer_size - 1, enqueue_pos = 0, dequeue_pos = 0\<rparr>"

text \<open>Where a thread is in \<open>Enqueue\<close> or \<open>Dequeue\<close>, with its local \<open>pos\<close>.\<close>

datatype 'p enq_pc = E_Load | E_Seq 'p | E_Cas 'p | E_Write 'p | E_Publish 'p | E_Return bool

datatype ('p, 'a) deq_pc = D_Load | D_Seq 'p | D_Cas 'p | D_Read 'p | D_Release 'p 'a | D_Return "'a option"

datatype ('p, 'a) vy_thread = Idle | Enqueueing 'a "'p enq_pc" | Dequeueing "('p, 'a) deq_pc"

definition cell_index :: "'a vyukov \<Rightarrow> 64 word \<Rightarrow> nat" where
  "cell_index q pos = unat (pos AND buffer_mask q)"

text \<open>
  One atomic action of \<open>Enqueue(data)\<close>.  A compare-exchange that fails, by interference or
  spuriously (\<open>weak\<close>), loads the current value into \<open>pos\<close>.
\<close>

(* sharded_vyukov_queue.h:28-51 Enqueue *)
fun Enqueue_step :: "'a vyukov \<Rightarrow> 'a \<Rightarrow> bool \<Rightarrow> 64 word enq_pc \<Rightarrow> 'a vyukov \<times> 64 word enq_pc" where
  "Enqueue_step q v weak E_Load = (q, E_Seq (enqueue_pos q))"
| "Enqueue_step q v weak (E_Seq pos) =
     (let seq = sequence (buffer q ! cell_index q pos);
          dif = sint seq - sint pos
      in if dif = 0 then (q, E_Cas pos) else if dif < 0 then (q, E_Return False) else (q, E_Load))"
| "Enqueue_step q v weak (E_Cas pos) =
     (if weak \<or> enqueue_pos q \<noteq> pos then (q, E_Seq (enqueue_pos q))
      else (q\<lparr>enqueue_pos := pos + 1\<rparr>, E_Write pos))"
| "Enqueue_step q v weak (E_Write pos) =
     (let i = cell_index q pos in (q\<lparr>buffer := (buffer q)[i := (buffer q ! i)\<lparr>data := v\<rparr>]\<rparr>, E_Publish pos))"
| "Enqueue_step q v weak (E_Publish pos) =
     (let i = cell_index q pos in (q\<lparr>buffer := (buffer q)[i := (buffer q ! i)\<lparr>sequence := pos + 1\<rparr>]\<rparr>, E_Return True))"
| "Enqueue_step q v weak (E_Return b) = (q, E_Return b)"

(* sharded_vyukov_queue.h:53-76 Dequeue *)
fun Dequeue_step :: "'a vyukov \<Rightarrow> bool \<Rightarrow> (64 word, 'a) deq_pc \<Rightarrow> 'a vyukov \<times> (64 word, 'a) deq_pc" where
  "Dequeue_step q weak D_Load = (q, D_Seq (dequeue_pos q))"
| "Dequeue_step q weak (D_Seq pos) =
     (let seq = sequence (buffer q ! cell_index q pos);
          dif = sint seq - sint (pos + 1)
      in if dif = 0 then (q, D_Cas pos) else if dif < 0 then (q, D_Return None) else (q, D_Load))"
| "Dequeue_step q weak (D_Cas pos) =
     (if weak \<or> dequeue_pos q \<noteq> pos then (q, D_Seq (dequeue_pos q))
      else (q\<lparr>dequeue_pos := pos + 1\<rparr>, D_Read pos))"
| "Dequeue_step q weak (D_Read pos) = (q, D_Release pos (data (buffer q ! cell_index q pos)))"
| "Dequeue_step q weak (D_Release pos v) =
     (let i = cell_index q pos in
      (q\<lparr>buffer := (buffer q)[i := (buffer q ! i)\<lparr>sequence := pos + buffer_mask q + 1\<rparr>]\<rparr>, D_Return (Some v)))"
| "Dequeue_step q weak (D_Return r) = (q, D_Return r)"

section \<open>Schedules\<close>

text \<open>A thread that is in no call may begin one; a step moves a thread that is in a call.\<close>

datatype ('t, 'a) vy_event = Begin_Enqueue 't 'a | Begin_Dequeue 't | Step 't bool

type_synonym ('t, 'a) vy_system = "'a vyukov \<times> ('t \<Rightarrow> (64 word, 'a) vy_thread)"

fun idle :: "('p, 'a) vy_thread \<Rightarrow> bool" where
  "idle Idle = True"
| "idle (Enqueueing v pc) = (case pc of E_Return b \<Rightarrow> True | _ \<Rightarrow> False)"
| "idle (Dequeueing pc) = (case pc of D_Return r \<Rightarrow> True | _ \<Rightarrow> False)"

fun vy_thread_step :: "'a vyukov \<Rightarrow> bool \<Rightarrow> (64 word, 'a) vy_thread \<Rightarrow> 'a vyukov \<times> (64 word, 'a) vy_thread" where
  "vy_thread_step q weak Idle = (q, Idle)"
| "vy_thread_step q weak (Enqueueing v pc) = (let (q, pc) = Enqueue_step q v weak pc in (q, Enqueueing v pc))"
| "vy_thread_step q weak (Dequeueing pc) = (let (q, pc) = Dequeue_step q weak pc in (q, Dequeueing pc))"

fun vy_step :: "('t, 'a) vy_system \<Rightarrow> ('t, 'a) vy_event \<Rightarrow> ('t, 'a) vy_system" where
  "vy_step (q, th) (Begin_Enqueue t v) = (q, if idle (th t) then th(t := Enqueueing v E_Load) else th)"
| "vy_step (q, th) (Begin_Dequeue t) = (q, if idle (th t) then th(t := Dequeueing D_Load) else th)"
| "vy_step (q, th) (Step t weak) = (let (q, pc) = vy_thread_step q weak (th t) in (q, th(t := pc)))"

section \<open>What an observer sees\<close>

text \<open>The effects of a step of a thread: a position claimed, a call finished, a call refused.\<close>

datatype ('t, 'a) vy_act =
    Silent
  | Enq_Claimed 't 'a | Enq_Finished 't | Enq_Refused 't
  | Deq_Claimed 't | Deq_Finished 't 'a | Deq_Refused 't

fun observe :: "'t \<Rightarrow> ('p, 'a) vy_thread \<Rightarrow> ('p, 'a) vy_thread \<Rightarrow> ('t, 'a) vy_act" where
  "observe t (Enqueueing v (E_Cas p)) (Enqueueing w (E_Write r)) = Enq_Claimed t v"
| "observe t (Enqueueing v (E_Publish p)) (Enqueueing w (E_Return b)) = Enq_Finished t"
| "observe t (Enqueueing v (E_Seq p)) (Enqueueing w (E_Return b)) = Enq_Refused t"
| "observe t (Dequeueing (D_Cas p)) (Dequeueing (D_Read r)) = Deq_Claimed t"
| "observe t (Dequeueing (D_Release p v)) (Dequeueing (D_Return (Some w))) = Deq_Finished t w"
| "observe t (Dequeueing (D_Seq p)) (Dequeueing (D_Return r)) = Deq_Refused t"
| "observe t a b = Silent"

fun event_thread :: "('t, 'a) vy_event \<Rightarrow> 't" where
  "event_thread (Begin_Enqueue t v) = t"
| "event_thread (Begin_Dequeue t) = t"
| "event_thread (Step t weak) = t"

definition vy_act :: "('t, 'a) vy_system \<Rightarrow> ('t, 'a) vy_event \<Rightarrow> ('t, 'a) vy_act" where
  "vy_act s e = observe (event_thread e) (snd s (event_thread e)) (snd (vy_step s e) (event_thread e))"

fun vy_run :: "('t, 'a) vy_system \<Rightarrow> ('t, 'a) vy_event list \<Rightarrow> ('t, 'a) vy_act list \<times> ('t, 'a) vy_system" where
  "vy_run s [] = ([], s)"
| "vy_run s (e # es) = (let (as, s') = vy_run (vy_step s e) es in (vy_act s e # as, s'))"

section \<open>The specification: a bounded FIFO queue\<close>

text \<open>
  An entry is a value, the thread that enqueues it and whether that call has finished; \<open>taken\<close>
  is what a thread in the middle of \<open>Dequeue\<close> has taken.  \<open>None\<close> is an action the queue does not
  allow.  A call to \<open>Enqueue\<close> may be refused only when the queue is full, or a thread that took
  an element is still in \<open>Dequeue\<close>; \<open>Dequeue\<close> only when the queue is empty or its first element
  is still being enqueued.
\<close>

type_synonym ('t, 'a) fifo = "('t \<times> 'a \<times> bool) list \<times> ('t \<Rightarrow> 'a option)"

definition finish_entry :: "'t \<Rightarrow> ('t \<times> 'a \<times> bool) list \<Rightarrow> ('t \<times> 'a \<times> bool) list" where
  "finish_entry t items = map (\<lambda>(u, v, ready). (u, v, ready \<or> u = t)) items"

fun fifo_step :: "nat \<Rightarrow> ('t, 'a) fifo \<Rightarrow> ('t, 'a) vy_act \<Rightarrow> ('t, 'a) fifo option" where
  "fifo_step n s Silent = Some s"
| "fifo_step n (items, taken) (Enq_Claimed t v) =
     (if length items < n then Some (items @ [(t, v, False)], taken) else None)"
| "fifo_step n (items, taken) (Enq_Finished t) =
     (if \<exists>v. (t, v, False) \<in> set items then Some (finish_entry t items, taken) else None)"
| "fifo_step n (items, taken) (Enq_Refused t) =
     (if length items = n \<or> (\<exists>u. taken u \<noteq> None) then Some (items, taken) else None)"
| "fifo_step n (items, taken) (Deq_Claimed t) =
     (case items of (u, v, True) # rest \<Rightarrow> if taken t = None then Some (rest, taken(t \<mapsto> v)) else None | _ \<Rightarrow> None)"
| "fifo_step n (items, taken) (Deq_Finished t v) =
     (if taken t = Some v then Some (items, taken(t := None)) else None)"
| "fifo_step n (items, taken) (Deq_Refused t) =
     (case items of (u, v, True) # rest \<Rightarrow> None | _ \<Rightarrow> Some (items, taken))"

fun fifo_run :: "nat \<Rightarrow> ('t, 'a) fifo \<Rightarrow> ('t, 'a) vy_act list \<Rightarrow> ('t, 'a) fifo option" where
  "fifo_run n s [] = Some s"
| "fifo_run n s (a # as) = Option.bind (fifo_step n s a) (\<lambda>s'. fifo_run n s' as)"

section \<open>The same machine on natural numbers\<close>

text \<open>
  As long as no position reaches \<open>2 ^ 62\<close> the words do not wrap and their signed differences are
  the differences of numbers: a step of the code is a step of a machine on natural numbers.
\<close>

record 'a nat_queue =
  tail_at :: nat
  head_at :: nat
  seq_of :: "nat \<Rightarrow> nat"
  data_of :: "nat \<Rightarrow> 'a"

definition abs_queue :: "'a vyukov \<Rightarrow> 'a nat_queue" where
  "abs_queue q = \<lparr>tail_at = unat (enqueue_pos q), head_at = unat (dequeue_pos q),
     seq_of = (\<lambda>i. unat (sequence (buffer q ! i))), data_of = (\<lambda>i. data (buffer q ! i))\<rparr>"

fun nat_enqueue :: "nat \<Rightarrow> 'a nat_queue \<Rightarrow> 'a \<Rightarrow> bool \<Rightarrow> nat enq_pc \<Rightarrow> 'a nat_queue \<times> nat enq_pc" where
  "nat_enqueue n q v weak E_Load = (q, E_Seq (tail_at q))"
| "nat_enqueue n q v weak (E_Seq p) =
     (q, if seq_of q (p mod n) = p then E_Cas p else if seq_of q (p mod n) < p then E_Return False else E_Load)"
| "nat_enqueue n q v weak (E_Cas p) =
     (if weak \<or> tail_at q \<noteq> p then (q, E_Seq (tail_at q)) else (q\<lparr>tail_at := Suc p\<rparr>, E_Write p))"
| "nat_enqueue n q v weak (E_Write p) = (q\<lparr>data_of := (data_of q)(p mod n := v)\<rparr>, E_Publish p)"
| "nat_enqueue n q v weak (E_Publish p) = (q\<lparr>seq_of := (seq_of q)(p mod n := Suc p)\<rparr>, E_Return True)"
| "nat_enqueue n q v weak (E_Return b) = (q, E_Return b)"

fun nat_dequeue :: "nat \<Rightarrow> 'a nat_queue \<Rightarrow> bool \<Rightarrow> (nat, 'a) deq_pc \<Rightarrow> 'a nat_queue \<times> (nat, 'a) deq_pc" where
  "nat_dequeue n q weak D_Load = (q, D_Seq (head_at q))"
| "nat_dequeue n q weak (D_Seq p) =
     (q, if seq_of q (p mod n) = Suc p then D_Cas p else if seq_of q (p mod n) < Suc p then D_Return None else D_Load)"
| "nat_dequeue n q weak (D_Cas p) =
     (if weak \<or> head_at q \<noteq> p then (q, D_Seq (head_at q)) else (q\<lparr>head_at := Suc p\<rparr>, D_Read p))"
| "nat_dequeue n q weak (D_Read p) = (q, D_Release p (data_of q (p mod n)))"
| "nat_dequeue n q weak (D_Release p v) = (q\<lparr>seq_of := (seq_of q)(p mod n := p + n)\<rparr>, D_Return (Some v))"
| "nat_dequeue n q weak (D_Return r) = (q, D_Return r)"

lemma unat_succ_small: "unat (w :: 64 word) < 2 ^ 63 \<Longrightarrow> unat (w + 1) = Suc (unat w)"
  by (simp add: unat_word_ariths)

lemma unat_mask_mod: "unat (w AND (of_nat (2 ^ k) - 1) :: 64 word) = unat w mod 2 ^ k"
proof -
  have "w AND (of_nat (2 ^ k) - 1) = take_bit k w"
    by (simp add: take_bit_eq_mask mask_eq_exp_minus_1)
  then have "unat (w AND (of_nat (2 ^ k) - 1)) = unat (take_bit k w)" by (rule arg_cong)
  also have "\<dots> = unat w mod 2 ^ k" unfolding unsigned_take_bit_eq by (rule take_bit_eq_mod)
  finally show ?thesis .
qed

text \<open>What makes a word the number it stands for: the buffer has its size, the positions are small.\<close>

definition sized :: "nat \<Rightarrow> 'a vyukov \<Rightarrow> bool" where
  "sized k q \<longleftrightarrow> length (buffer q) = 2 ^ k \<and> buffer_mask q = of_nat (2 ^ k) - 1"

definition small :: "'a vyukov \<Rightarrow> bool" where
  "small q \<longleftrightarrow> unat (enqueue_pos q) < 2 ^ 62 \<and> unat (dequeue_pos q) < 2 ^ 62 \<and>
     (\<forall>i < length (buffer q). unat (sequence (buffer q ! i)) < 2 ^ 63)"

fun small_enq :: "64 word enq_pc \<Rightarrow> bool" where
  "small_enq (E_Seq p) = (unat p < 2 ^ 62)"
| "small_enq (E_Cas p) = (unat p < 2 ^ 62)"
| "small_enq (E_Write p) = (unat p < 2 ^ 62)"
| "small_enq (E_Publish p) = (unat p < 2 ^ 62)"
| "small_enq pc = True"

fun small_deq :: "(64 word, 'a) deq_pc \<Rightarrow> bool" where
  "small_deq (D_Seq p) = (unat p < 2 ^ 62)"
| "small_deq (D_Cas p) = (unat p < 2 ^ 62)"
| "small_deq (D_Read p) = (unat p < 2 ^ 62)"
| "small_deq (D_Release p v) = (unat p < 2 ^ 62)"
| "small_deq pc = True"

lemma cell_index_mod: "sized k q \<Longrightarrow> cell_index q p = unat p mod 2 ^ k"
  by (simp only: sized_def cell_index_def unat_mask_mod)

lemma cell_index_less: "sized k q \<Longrightarrow> cell_index q p < length (buffer q)"
  by (simp add: cell_index_mod sized_def)

lemma sint_diff_small:
  assumes "unat (a :: 64 word) < 2 ^ 63" "unat (b :: 64 word) < 2 ^ 63"
  shows "sint a - sint b = 0 \<longleftrightarrow> unat a = unat b" "sint a - sint b < 0 \<longleftrightarrow> unat a < unat b"
  unfolding sint_small[OF assms(1)] sint_small[OF assms(2)] by linarith+

lemma less_62_63: "n < 2 ^ 62 \<Longrightarrow> n < 2 ^ 63" "n < 2 ^ 62 \<Longrightarrow> Suc n < 2 ^ 63" for n :: nat
  by simp_all

lemma abs_queue_simps [simp]:
  "tail_at (abs_queue q) = unat (enqueue_pos q)" "head_at (abs_queue q) = unat (dequeue_pos q)"
  "seq_of (abs_queue q) i = unat (sequence (buffer q ! i))" "data_of (abs_queue q) i = data (buffer q ! i)"
  by (simp_all add: abs_queue_def)

lemma abs_queue_tail: "abs_queue (q\<lparr>enqueue_pos := p\<rparr>) = (abs_queue q)\<lparr>tail_at := unat p\<rparr>"
  by (simp add: abs_queue_def)

lemma abs_queue_head: "abs_queue (q\<lparr>dequeue_pos := p\<rparr>) = (abs_queue q)\<lparr>head_at := unat p\<rparr>"
  by (simp add: abs_queue_def)

lemma abs_queue_seq:
  "i < length (buffer q) \<Longrightarrow>
    abs_queue (q\<lparr>buffer := (buffer q)[i := (buffer q ! i)\<lparr>sequence := p\<rparr>]\<rparr>) =
    (abs_queue q)\<lparr>seq_of := (seq_of (abs_queue q))(i := unat p)\<rparr>"
  by (auto simp: abs_queue_def fun_eq_iff nth_list_update)

lemma abs_queue_data:
  "i < length (buffer q) \<Longrightarrow>
    abs_queue (q\<lparr>buffer := (buffer q)[i := (buffer q ! i)\<lparr>data := v\<rparr>]\<rparr>) =
    (abs_queue q)\<lparr>data_of := (data_of (abs_queue q))(i := v)\<rparr>"
  by (auto simp: abs_queue_def fun_eq_iff nth_list_update)

lemma Enqueue_step_nat:
  assumes q: "sized k q" "small q" and pc: "small_enq pc"
  shows "nat_enqueue (2 ^ k) (abs_queue q) v weak (map_enq_pc unat pc) =
    map_prod abs_queue (map_enq_pc unat) (Enqueue_step q v weak pc)"
proof (cases pc)
  case (E_Seq p)
  have "unat (sequence (buffer q ! cell_index q p)) < 2 ^ 63"
    using q cell_index_less[OF q(1), of p] by (simp only: small_def)
  moreover have "unat p < 2 ^ 63" using pc E_Seq by (simp only: small_enq.simps less_62_63)
  ultimately show ?thesis
    using sint_diff_small[of "sequence (buffer q ! cell_index q p)" p]
    by (simp add: E_Seq Let_def cell_index_mod[OF q(1)])
next
  case (E_Cas p)
  then have "unat (p + 1) = Suc (unat p)" using pc by (intro unat_succ_small) simp
  then show ?thesis using E_Cas by (simp add: abs_queue_tail word_unat_eq_iff)
next
  case (E_Write p)
  then show ?thesis using cell_index_less[OF q(1), of p]
    by (simp add: Let_def abs_queue_data cell_index_mod[OF q(1)])
next
  case (E_Publish p)
  then have "unat (p + 1) = Suc (unat p)" using pc by (intro unat_succ_small) simp
  then show ?thesis using cell_index_less[OF q(1), of p] E_Publish
    by (simp add: Let_def abs_queue_seq cell_index_mod[OF q(1)])
qed simp_all

lemma unat_release:
  assumes "buffer_mask q = of_nat (2 ^ k) - 1" "k \<le> 61" "unat (p :: 64 word) < 2 ^ 62"
  shows "unat (p + buffer_mask q + 1) = unat p + 2 ^ k"
proof -
  have eq: "p + buffer_mask q + 1 = p + of_nat (2 ^ k)" by (simp add: assms(1))
  have "(2::nat) ^ k \<le> 2 ^ 61" by (rule power_increasing) (use assms in auto)
  then have "unat (of_nat (2 ^ k) :: 64 word) = 2 ^ k" by (intro unat_of_nat_small) simp
  moreover have "unat p + 2 ^ k < 2 ^ 64" using \<open>2 ^ k \<le> 2 ^ 61\<close> assms(3) by simp
  ultimately show ?thesis unfolding eq by (subst unat_plus_if_size) (simp add: word_size)
qed

lemma Dequeue_step_nat:
  assumes q: "sized k q" "small q" and k: "k \<le> 61" and pc: "small_deq pc"
  shows "nat_dequeue (2 ^ k) (abs_queue q) weak (map_deq_pc unat id pc) =
    map_prod abs_queue (map_deq_pc unat id) (Dequeue_step q weak pc)"
proof (cases pc)
  case (D_Seq p)
  have "unat (sequence (buffer q ! cell_index q p)) < 2 ^ 63"
    using q cell_index_less[OF q(1), of p] by (simp only: small_def)
  moreover have "unat (p + 1) = Suc (unat p)" using pc D_Seq by (intro unat_succ_small) simp
  moreover have "Suc (unat p) < 2 ^ 63" using pc D_Seq by simp
  ultimately show ?thesis
    using sint_diff_small[of "sequence (buffer q ! cell_index q p)" "p + 1"]
    by (simp add: D_Seq Let_def cell_index_mod[OF q(1)])
next
  case (D_Cas p)
  then have "unat (p + 1) = Suc (unat p)" using pc by (intro unat_succ_small) simp
  then show ?thesis using D_Cas by (simp add: abs_queue_head word_unat_eq_iff)
next
  case (D_Read p)
  then show ?thesis by (simp add: cell_index_mod[OF q(1)])
next
  case (D_Release p v)
  then have "unat (p + buffer_mask q + 1) = unat p + 2 ^ k"
    using q(1) k pc by (intro unat_release) (simp_all add: sized_def)
  then show ?thesis using cell_index_less[OF q(1), of p] D_Release
    by (simp add: Let_def abs_queue_seq cell_index_mod[OF q(1)])
qed simp_all

section \<open>The invariant\<close>

lemma mod_window:
  assumes "a mod n = b mod n" "a < b + n" "b < a + n"
  shows "a = (b :: nat)"
proof -
  have "a = b" if "a mod n = b mod n" "a \<le> b" "b < a + n" for a b :: nat
  proof -
    have "n dvd b - a" using that by (metis mod_eq_dvd_iff_nat)
    moreover have "b - a < n" using that by simp
    ultimately show "a = b" using that(2) by (metis diff_is_0_eq dvd_imp_le le_antisym not_le zero_less_iff_neq_zero)
  qed
  from this[of a b] this[of b a] assms show ?thesis by (cases "a \<le> b") auto
qed

definition in_dequeue :: "('p, 'a) vy_thread \<Rightarrow> 'p \<Rightarrow> bool" where
  "in_dequeue th p \<longleftrightarrow> th = Dequeueing (D_Read p) \<or> (\<exists>v. th = Dequeueing (D_Release p v))"

lemma in_dequeue_simps [simp]:
  "\<not> in_dequeue Idle p" "\<not> in_dequeue (Enqueueing v pc) p"
  "in_dequeue (Dequeueing (D_Read r)) p \<longleftrightarrow> r = p" "in_dequeue (Dequeueing (D_Release r v)) p \<longleftrightarrow> r = p"
  "\<not> in_dequeue (Dequeueing D_Load) p" "\<not> in_dequeue (Dequeueing (D_Seq r)) p"
  "\<not> in_dequeue (Dequeueing (D_Cas r)) p" "\<not> in_dequeue (Dequeueing (D_Return x)) p"
  by (auto simp: in_dequeue_def)

text \<open>Where a claimed position stands: written and published, or in the hands of its thread.\<close>

fun entry_ok :: "nat \<Rightarrow> 'a nat_queue \<Rightarrow> ('t \<Rightarrow> (nat, 'a) vy_thread) \<Rightarrow> nat \<Rightarrow> 't \<times> 'a \<times> bool \<Rightarrow> bool" where
  "entry_ok n Q T p (t, v, True) \<longleftrightarrow> seq_of Q (p mod n) = Suc p \<and> data_of Q (p mod n) = v"
| "entry_ok n Q T p (t, v, False) \<longleftrightarrow> seq_of Q (p mod n) = p \<and>
     (T t = Enqueueing v (E_Write p) \<or> T t = Enqueueing v (E_Publish p) \<and> data_of Q (p mod n) = v)"

fun thread_ok :: "nat \<Rightarrow> 'a nat_queue \<Rightarrow> ('t \<times> 'a \<times> bool) list \<Rightarrow> 'a option \<Rightarrow> 't \<Rightarrow> (nat, 'a) vy_thread \<Rightarrow> bool" where
  "thread_ok n Q items tk t (Enqueueing v (E_Seq p)) \<longleftrightarrow> tk = None \<and> p \<le> tail_at Q"
| "thread_ok n Q items tk t (Enqueueing v (E_Cas p)) \<longleftrightarrow> tk = None \<and>
     (p < tail_at Q \<or> p = tail_at Q \<and> seq_of Q (p mod n) = p)"
| "thread_ok n Q items tk t (Enqueueing v (E_Write p)) \<longleftrightarrow> tk = None \<and>
     head_at Q \<le> p \<and> p < tail_at Q \<and> items ! (p - head_at Q) = (t, v, False)"
| "thread_ok n Q items tk t (Enqueueing v (E_Publish p)) \<longleftrightarrow> tk = None \<and>
     head_at Q \<le> p \<and> p < tail_at Q \<and> items ! (p - head_at Q) = (t, v, False)"
| "thread_ok n Q items tk t (Dequeueing (D_Seq p)) \<longleftrightarrow> tk = None \<and> p \<le> head_at Q"
| "thread_ok n Q items tk t (Dequeueing (D_Cas p)) \<longleftrightarrow> tk = None \<and>
     (p < head_at Q \<or> p = head_at Q \<and> p < tail_at Q \<and> seq_of Q (p mod n) = Suc p)"
| "thread_ok n Q items tk t (Dequeueing (D_Read p)) \<longleftrightarrow> p < head_at Q \<and> tail_at Q \<le> p + n \<and>
     seq_of Q (p mod n) = Suc p \<and> tk = Some (data_of Q (p mod n))"
| "thread_ok n Q items tk t (Dequeueing (D_Release p v)) \<longleftrightarrow> p < head_at Q \<and> tail_at Q \<le> p + n \<and>
     seq_of Q (p mod n) = Suc p \<and> tk = Some v"
| "thread_ok n Q items tk t th \<longleftrightarrow> tk = None"

text \<open>The entries from the head to the tail, the free cells after it, and the order of the cells.\<close>

definition vy_inv :: "nat \<Rightarrow> 'a nat_queue \<Rightarrow> ('t \<Rightarrow> (nat, 'a) vy_thread) \<Rightarrow> ('t, 'a) fifo \<Rightarrow> bool" where
  "vy_inv n Q T s \<longleftrightarrow> (case s of (items, taken) \<Rightarrow>
     head_at Q + length items = tail_at Q \<and> length items \<le> n \<and>
     (\<forall>j < length items. entry_ok n Q T (head_at Q + j) (items ! j)) \<and>
     (\<forall>r. tail_at Q \<le> r \<longrightarrow> r < head_at Q + n \<longrightarrow>
        seq_of Q (r mod n) = r \<or> (\<exists>t p. r = p + n \<and> in_dequeue (T t) p)) \<and>
     (\<forall>t. thread_ok n Q items (taken t) t (T t)) \<and>
     (\<forall>t u p. in_dequeue (T t) p \<longrightarrow> in_dequeue (T u) p \<longrightarrow> t = u) \<and>
     (\<forall>p < tail_at Q. p \<le> seq_of Q (p mod n)) \<and>
     (\<forall>p < head_at Q. Suc p \<le> seq_of Q (p mod n)) \<and>
     (\<forall>i < n. seq_of Q i \<le> tail_at Q + n))"

lemma vy_invI:
  assumes "head_at Q + length items = tail_at Q" "length items \<le> n"
    and "\<And>j. j < length items \<Longrightarrow> entry_ok n Q T (head_at Q + j) (items ! j)"
    and "\<And>r. tail_at Q \<le> r \<Longrightarrow> r < head_at Q + n \<Longrightarrow>
        seq_of Q (r mod n) = r \<or> (\<exists>t p. r = p + n \<and> in_dequeue (T t) p)"
    and "\<And>t. thread_ok n Q items (taken t) t (T t)"
    and "\<And>t u p. in_dequeue (T t) p \<Longrightarrow> in_dequeue (T u) p \<Longrightarrow> t = u"
    and "\<And>p. p < tail_at Q \<Longrightarrow> p \<le> seq_of Q (p mod n)"
    and "\<And>p. p < head_at Q \<Longrightarrow> Suc p \<le> seq_of Q (p mod n)"
    and "\<And>i. i < n \<Longrightarrow> seq_of Q i \<le> tail_at Q + n"
  shows "vy_inv n Q T (items, taken)"
  using assms unfolding vy_inv_def by simp

lemma vy_invD:
  assumes "vy_inv n Q T (items, taken)"
  shows "head_at Q + length items = tail_at Q" "length items \<le> n"
    "j < length items \<Longrightarrow> entry_ok n Q T (head_at Q + j) (items ! j)"
    "tail_at Q \<le> r \<Longrightarrow> r < head_at Q + n \<Longrightarrow> seq_of Q (r mod n) = r \<or> (\<exists>t p. r = p + n \<and> in_dequeue (T t) p)"
    "thread_ok n Q items (taken t) t (T t)"
    "in_dequeue (T t) p \<Longrightarrow> in_dequeue (T u) p \<Longrightarrow> t = u"
    "p < tail_at Q \<Longrightarrow> p \<le> seq_of Q (p mod n)"
    "p < head_at Q \<Longrightarrow> Suc p \<le> seq_of Q (p mod n)"
    "i < n \<Longrightarrow> seq_of Q i \<le> tail_at Q + n"
  using assms unfolding vy_inv_def prod.case by blast+

text \<open>An entry is affected by another thread only through the cell of its position.\<close>

lemma entry_ok_other:
  assumes "entry_ok n Q T p e" "seq_of Q' (p mod n) = seq_of Q (p mod n)" "data_of Q' (p mod n) = data_of Q (p mod n)"
    and "\<And>v. e = (t, v, False) \<Longrightarrow> T' t = T t" "\<And>u. u \<noteq> t \<Longrightarrow> T' u = T u"
  shows "entry_ok n Q' T' p e"
proof -
  obtain u v b where e: "e = (u, v, b)" by (cases e)
  show ?thesis using assms unfolding e by (cases b; cases "u = t") auto
qed

lemma in_dequeue_taken: "thread_ok n Q items tk t th \<Longrightarrow> in_dequeue th p \<Longrightarrow> tk \<noteq> None"
  by (auto simp: in_dequeue_def)

lemma in_dequeueD:
  assumes "thread_ok n Q items tk t th" "in_dequeue th p"
  shows "p < head_at Q" "tail_at Q \<le> p + n" "seq_of Q (p mod n) = Suc p"
  using assms by (auto simp: in_dequeue_def)

text \<open>A thread that holds no cell moves between states that hold none.\<close>

fun holds_cell :: "('p, 'a) vy_thread \<Rightarrow> bool" where
  "holds_cell (Enqueueing v (E_Write p)) = True"
| "holds_cell (Enqueueing v (E_Publish p)) = True"
| "holds_cell (Dequeueing (D_Read p)) = True"
| "holds_cell (Dequeueing (D_Release p v)) = True"
| "holds_cell th = False"

lemma not_holding: "\<not> holds_cell th \<Longrightarrow> \<not> in_dequeue th p"
  by (auto simp: in_dequeue_def)

lemma vy_inv_silent:
  assumes inv: "vy_inv n Q T (items, taken)" and old: "\<not> holds_cell (T t)" and new: "\<not> holds_cell th"
    and ok: "thread_ok n Q items None t th"
  shows "vy_inv n Q (T(t := th)) (items, taken)"
proof (rule vy_invI)
  note D = vy_invD[OF inv]
  have tk: "taken t = None" using D(5)[of t] old by (cases "(n, Q, items, taken t, t, T t)" rule: thread_ok.cases) auto
  show "entry_ok n Q (T(t := th)) (head_at Q + j) (items ! j)" if "j < length items" for j
  proof (rule entry_ok_other[where t = t])
    show "entry_ok n Q T (head_at Q + j) (items ! j)" by (rule D(3)[OF that])
    show "(T(t := th)) t = T t" if "items ! j = (t, v, False)" for v
      using D(3)[OF \<open>j < length items\<close>] old that by auto
  qed auto
  show "seq_of Q (r mod n) = r \<or> (\<exists>u p. r = p + n \<and> in_dequeue ((T(t := th)) u) p)"
    if "tail_at Q \<le> r" "r < head_at Q + n" for r
    using D(4)[OF that] not_holding[OF old] by fastforce
  show "thread_ok n Q items (taken u) u ((T(t := th)) u)" for u
    using D(5)[of u] ok tk by (cases "u = t") auto
  show "u = w" if "in_dequeue ((T(t := th)) u) p" "in_dequeue ((T(t := th)) w) p" for u w p
    using D(6)[of u p w] that not_holding[OF new] by (auto split: if_splits)
qed (use vy_invD[OF inv] in auto)

section \<open>Claiming, writing and publishing\<close>

lemma free_or_dequeue:
  assumes "s = r \<or> (\<exists>u p. r = p + n \<and> in_dequeue (T u) p)" "\<And>p. \<not> in_dequeue (T t) p"
  shows "s = r \<or> (\<exists>u p. r = p + n \<and> in_dequeue ((T(t := th)) u) p)"
  using assms by (metis fun_upd_other)

lemma vy_inv_full:
  assumes inv: "vy_inv n Q T (items, taken)" and "2 \<le> n" and free: "seq_of Q (tail_at Q mod n) = tail_at Q"
  shows "length items < n"
proof (rule ccontr)
  note D = vy_invD[OF inv]
  assume "\<not> length items < n"
  then have full: "length items = n" using D(2) by simp
  then have "entry_ok n Q T (head_at Q) (items ! 0)" using D(3)[of 0] assms(2) by simp
  then have "seq_of Q (head_at Q mod n) \<le> Suc (head_at Q)"
    by (cases "items ! 0"; cases "snd (snd (items ! 0))") auto
  moreover have "tail_at Q mod n = head_at Q mod n" using D(1) full by (metis mod_add_self2)
  ultimately show False using free D(1) full assms(2) by simp
qed

lemma vy_inv_claim:
  assumes inv: "vy_inv n Q T (items, taken)" and n: "2 \<le> n"
    and t: "T t = Enqueueing v (E_Cas (tail_at Q))"
  shows "vy_inv n (Q\<lparr>tail_at := Suc (tail_at Q)\<rparr>) (T(t := Enqueueing v (E_Write (tail_at Q)))) (items @ [(t, v, False)], taken)"
    (is "vy_inv n ?Q ?T _")
proof (rule vy_invI)
  note D = vy_invD[OF inv]
  have free: "seq_of Q (tail_at Q mod n) = tail_at Q" and tk: "taken t = None" using D(5)[of t] t by auto
  have room: "length items < n" by (rule vy_inv_full[OF inv n free])
  show "head_at ?Q + length (items @ [(t, v, False)]) = tail_at ?Q" "length (items @ [(t, v, False)]) \<le> n"
    using D(1) room by simp_all
  show "entry_ok n ?Q ?T (head_at ?Q + j) ((items @ [(t, v, False)]) ! j)" if j: "j < length (items @ [(t, v, False)])" for j
  proof (cases "j = length items")
    case True
    then show ?thesis using D(1) free by simp
  next
    case False
    then have j: "j < length items" using j by simp
    have "entry_ok n ?Q ?T (head_at Q + j) (items ! j)"
    proof (rule entry_ok_other[where t = t, OF D(3)[OF j]])
      show "?T t = T t" if "items ! j = (t, w, False)" for w using D(3)[OF j] t that by auto
    qed auto
    then show ?thesis using j by (simp add: nth_append)
  qed
  show "seq_of ?Q (r mod n) = r \<or> (\<exists>u p. r = p + n \<and> in_dequeue (?T u) p)"
    if "tail_at ?Q \<le> r" "r < head_at ?Q + n" for r
  proof -
    have "tail_at Q \<le> r" "r < head_at Q + n" using that by simp_all
    from free_or_dequeue[OF D(4)[OF this], where t = t] t show ?thesis by simp
  qed
  show "thread_ok n ?Q (items @ [(t, v, False)]) (taken u) u (?T u)" for u
  proof (cases "u = t")
    case True
    then show ?thesis using tk D(1)[symmetric] room by (simp add: nth_append)
  next
    case False
    have "tail_at Q \<noteq> p + n" if "in_dequeue (T u) p" for p
    proof
      assume eq: "tail_at Q = p + n"
      have "seq_of Q (p mod n) = Suc p" by (rule in_dequeueD[OF D(5) that])
      then show False using free n unfolding eq by simp
    qed
    then have tight: "Suc (tail_at Q) \<le> p + n" if "in_dequeue (T u) p" for p
      using in_dequeueD(2)[OF D(5) that] that by (metis Suc_leI le_neq_implies_less)
    have at: "(items @ [(t, v, False)]) ! (p - head_at Q) = items ! (p - head_at Q)"
      if "head_at Q \<le> p" "p < tail_at Q" for p
      using that D(1) by (auto simp: nth_append)
    show ?thesis using D(5)[of u] tight at False
      by (cases "(n, Q, items, taken u, u, T u)" rule: thread_ok.cases) auto
  qed
  show "u = w" if "in_dequeue (?T u) p" "in_dequeue (?T w) p" for u w p
    using D(6)[of u p w] that by (auto split: if_splits)
  show "p \<le> seq_of ?Q (p mod n)" if "p < tail_at ?Q" for p
    using D(7)[of p] free that by (cases "p = tail_at Q") auto
  show "seq_of ?Q i \<le> tail_at ?Q + n" if "i < n" for i using D(9)[OF that] by simp
qed (use vy_invD(8)[OF inv] in simp_all)

text \<open>The cells of different claimed or held positions are different.\<close>

lemma window_cells:
  assumes inv: "vy_inv n Q T (items, taken)" and p: "head_at Q \<le> p" "p < tail_at Q"
  shows "r \<noteq> p \<Longrightarrow> head_at Q \<le> r \<Longrightarrow> r < tail_at Q \<Longrightarrow> r mod n \<noteq> p mod n"
    and "in_dequeue (T u) r \<Longrightarrow> r mod n \<noteq> p mod n"
  using mod_window[of r n p] vy_invD(1,2)[OF inv] p in_dequeueD[OF vy_invD(5)[OF inv, of u], of r] by fastforce+

lemma vy_inv_write:
  assumes inv: "vy_inv n Q T (items, taken)" and t: "T t = Enqueueing v (E_Write p)"
  shows "vy_inv n (Q\<lparr>data_of := (data_of Q)(p mod n := v)\<rparr>) (T(t := Enqueueing v (E_Publish p))) (items, taken)"
    (is "vy_inv n ?Q ?T _")
proof (rule vy_invI)
  note D = vy_invD[OF inv]
  have p: "head_at Q \<le> p" "p < tail_at Q" "items ! (p - head_at Q) = (t, v, False)" and tk: "taken t = None"
    using D(5)[of t] t by auto
  note W = window_cells[OF inv p(1,2)]
  show "entry_ok n ?Q ?T (head_at ?Q + j) (items ! j)" if j: "j < length items" for j
  proof (cases "head_at Q + j = p")
    case True
    then show ?thesis using p(3) D(3)[OF j] by auto
  next
    case False
    have "entry_ok n ?Q ?T (head_at Q + j) (items ! j)"
    proof (rule entry_ok_other[where t = t, OF D(3)[OF j]])
      show "?T t = T t" if "items ! j = (t, w, False)" for w using D(3)[OF j] t that False by auto
    qed (use W(1)[OF False] j D(1) in auto)
    then show ?thesis by simp
  qed
  show "seq_of ?Q (r mod n) = r \<or> (\<exists>u p. r = p + n \<and> in_dequeue (?T u) p)"
    if "tail_at ?Q \<le> r" "r < head_at ?Q + n" for r
    using free_or_dequeue[OF D(4)[of r], where t = t] that t by simp
  show "thread_ok n ?Q items (taken u) u (?T u)" for u
  proof (cases "u = t")
    case True
    then show ?thesis using p tk by simp
  next
    case False
    then show ?thesis using D(5)[of u] W(2)[of u]
      by (cases "(n, Q, items, taken u, u, T u)" rule: thread_ok.cases) auto
  qed
  show "u = w" if "in_dequeue (?T u) p" "in_dequeue (?T w) p" for u w p
    using D(6)[of u p w] that by (auto split: if_splits)
qed (use vy_invD[OF inv] in simp_all)

lemma finish_entry_nth:
  "j < length items \<Longrightarrow> items ! j = (u, v, b) \<Longrightarrow> finish_entry t items ! j = (u, v, b \<or> u = t)"
  by (simp add: finish_entry_def)

lemma length_finish_entry [simp]: "length (finish_entry t items) = length items"
  by (simp add: finish_entry_def)

lemma vy_inv_publish:
  assumes inv: "vy_inv n Q T (items, taken)" and t: "T t = Enqueueing v (E_Publish p)"
  shows "vy_inv n (Q\<lparr>seq_of := (seq_of Q)(p mod n := Suc p)\<rparr>) (T(t := Enqueueing v (E_Return True))) (finish_entry t items, taken)"
    (is "vy_inv n ?Q ?T _")
proof (rule vy_invI)
  note D = vy_invD[OF inv]
  have p: "head_at Q \<le> p" "p < tail_at Q" "items ! (p - head_at Q) = (t, v, False)" and tk: "taken t = None"
    using D(5)[of t] t by auto
  note W = window_cells[OF inv p(1,2)]
  have here: "entry_ok n Q T p (t, v, False)" using D(3)[of "p - head_at Q"] p D(1) by simp
  then have seq: "seq_of Q (p mod n) = p" and dat: "data_of Q (p mod n) = v" using t by auto
  show "entry_ok n ?Q ?T (head_at ?Q + j) (finish_entry t items ! j)" if j: "j < length (finish_entry t items)" for j
  proof -
    have j: "j < length items" using j by simp
    obtain u w b where e: "items ! j = (u, w, b)" by (cases "items ! j")
    show ?thesis
    proof (cases "head_at Q + j = p")
      case True
      then have "items ! j = (t, v, False)" using p(3) by auto
      then have "finish_entry t items ! j = (t, v, True)" using finish_entry_nth[OF j, of t v False t] by simp
      then show ?thesis using dat True by simp
    next
      case False
      have "\<not> (u = t \<and> \<not> b)" using D(3)[OF j] e t False by (cases b) auto
      then have "finish_entry t items ! j = (u, w, b)" using finish_entry_nth[OF j e, of t] by auto
      moreover have "entry_ok n ?Q ?T (head_at Q + j) (u, w, b)"
      proof (rule entry_ok_other[where t = t, OF D(3)[OF j, unfolded e]])
        show "?T t = T t" if "(u, w, b) = (t, x, False)" for x using \<open>\<not> (u = t \<and> \<not> b)\<close> that by simp
      qed (use W(1)[OF False] j D(1) in auto)
      ultimately show ?thesis by simp
    qed
  qed
  show "seq_of ?Q (r mod n) = r \<or> (\<exists>u p. r = p + n \<and> in_dequeue (?T u) p)"
    if "tail_at ?Q \<le> r" "r < head_at ?Q + n" for r
  proof -
    have r: "tail_at Q \<le> r" "r < head_at Q + n" using that by simp_all
    then have "r mod n \<noteq> p mod n" using mod_window[of r n p] p(1,2) by fastforce
    then show ?thesis using free_or_dequeue[OF D(4)[OF r], where t = t] t by simp
  qed
  have at: "finish_entry t items ! (r - head_at Q) = (u, w, False)"
    if "u \<noteq> t" "head_at Q \<le> r" "r < tail_at Q" "items ! (r - head_at Q) = (u, w, False)" for r u w
    using finish_entry_nth[of "r - head_at Q" items u w False t] that D(1) by auto
  have cas: "tail_at Q mod n \<noteq> p mod n" if "seq_of Q (tail_at Q mod n) = tail_at Q"
    using that seq p(2) by auto
  have deq: "head_at Q mod n \<noteq> p mod n" if "seq_of Q (head_at Q mod n) = Suc (head_at Q)" "head_at Q < tail_at Q"
    using that seq W(1)[of "head_at Q"] by (cases "p = head_at Q") auto
  show "thread_ok n ?Q (finish_entry t items) (taken u) u (?T u)" for u
  proof (cases "u = t")
    case True
    then show ?thesis using tk by simp
  next
    case False
    then show ?thesis using D(5)[of u] W(2)[of u] at[OF False] cas deq
      by (cases "(n, Q, items, taken u, u, T u)" rule: thread_ok.cases) auto
  qed
  show "u = w" if "in_dequeue (?T u) r" "in_dequeue (?T w) r" for u w r
    using D(6)[of u r w] that by (auto split: if_splits)
  show "r \<le> seq_of ?Q (r mod n)" if "r < tail_at ?Q" for r using D(7)[of r] that seq by auto
  show "Suc r \<le> seq_of ?Q (r mod n)" if "r < head_at ?Q" for r using D(8)[of r] that seq by auto
  show "seq_of ?Q i \<le> tail_at ?Q + n" if "i < n" for i using D(9)[OF that] p(2) by simp
qed (use vy_invD(1,2)[OF inv] in simp_all)

section \<open>Taking and releasing\<close>

lemma vy_inv_take:
  assumes inv: "vy_inv n Q T (items, taken)" and n: "2 \<le> n"
    and t: "T t = Dequeueing (D_Cas (head_at Q))"
  obtains u v rest where "items = (u, v, True) # rest" "taken t = None"
    "vy_inv n (Q\<lparr>head_at := Suc (head_at Q)\<rparr>) (T(t := Dequeueing (D_Read (head_at Q)))) (rest, taken(t \<mapsto> v))"
proof -
  note D = vy_invD[OF inv]
  let ?h = "head_at Q"
  have tk: "taken t = None" and h: "?h < tail_at Q" "seq_of Q (?h mod n) = Suc ?h" using D(5)[of t] t by auto
  then obtain e rest where "items = e # rest" using D(1) by (cases items) auto
  moreover obtain u v b where "e = (u, v, b)" by (cases e)
  ultimately have items: "items = (u, v, b) # rest" by simp
  have "entry_ok n Q T ?h (u, v, b)" using D(3)[of 0] items by simp
  then have b: "b" and v: "data_of Q (?h mod n) = v" using h(2) by (cases b; simp)+
  let ?Q = "Q\<lparr>head_at := Suc ?h\<rparr>" and ?T = "T(t := Dequeueing (D_Read ?h))"
  have "vy_inv n ?Q ?T (rest, taken(t \<mapsto> v))"
  proof (rule vy_invI)
    show "head_at ?Q + length rest = tail_at ?Q" "length rest \<le> n" using D(1,2) items by simp_all
    show "entry_ok n ?Q ?T (head_at ?Q + j) (rest ! j)" if j: "j < length rest" for j
    proof -
      have e: "entry_ok n Q T (?h + Suc j) (rest ! j)" using D(3)[of "Suc j"] items j by simp
      have "entry_ok n ?Q ?T (?h + Suc j) (rest ! j)"
      proof (rule entry_ok_other[where t = t, OF e])
        show "?T t = T t" if "rest ! j = (t, w, False)" for w using e t that by auto
      qed auto
      then show ?thesis by simp
    qed
    show "seq_of ?Q (r mod n) = r \<or> (\<exists>u p. r = p + n \<and> in_dequeue (?T u) p)"
      if "tail_at ?Q \<le> r" "r < head_at ?Q + n" for r
    proof (cases "r = ?h + n")
      case True
      then show ?thesis by (intro disjI2 exI[of _ t] exI[of _ ?h]) simp
    next
      case False
      then have "tail_at Q \<le> r" "r < ?h + n" using that by simp_all
      from free_or_dequeue[OF D(4)[OF this], where t = t] t show ?thesis by simp
    qed
    have at: "?h \<noteq> p \<and> rest ! (p - Suc ?h) = items ! (p - ?h)"
      if e: "items ! (p - ?h) = (w, x, False)" and le: "?h \<le> p" for p w x
    proof -
      have "p \<noteq> ?h" using e items b by auto
      then obtain j where "p = ?h + Suc j" using le less_imp_Suc_add[of ?h p] by auto
      then show ?thesis using items by simp
    qed
    show "thread_ok n ?Q rest ((taken(t \<mapsto> v)) u) u (?T u)" for u
    proof (cases "u = t")
      case True
      then show ?thesis using h v D(1,2) by simp
    next
      case False
      then show ?thesis using D(5)[of u] at
        by (cases "(n, Q, items, taken u, u, T u)" rule: thread_ok.cases) (auto simp: Suc_le_eq le_less)
    qed
    show "u = w" if "in_dequeue (?T u) p" "in_dequeue (?T w) p" for u w p
      using D(6)[of u p w] that in_dequeueD(1)[OF D(5), of u p] in_dequeueD(1)[OF D(5), of w p]
      by (auto split: if_splits)
    show "Suc p \<le> seq_of ?Q (p mod n)" if "p < head_at ?Q" for p
      using D(8)[of p] h(2) that by (cases "p = ?h") auto
  qed (use D(7,9) in simp_all)
  then show thesis using that[of u v rest] items b tk by simp
qed

lemma vy_inv_read:
  assumes inv: "vy_inv n Q T (items, taken)" and t: "T t = Dequeueing (D_Read p)"
  shows "vy_inv n Q (T(t := Dequeueing (D_Release p (data_of Q (p mod n))))) (items, taken)"
    (is "vy_inv n Q ?T _")
proof (rule vy_invI)
  note D = vy_invD[OF inv]
  have same: "in_dequeue (?T u) r \<longleftrightarrow> in_dequeue (T u) r" for u r using t by simp
  show "entry_ok n Q ?T (head_at Q + j) (items ! j)" if j: "j < length items" for j
  proof (rule entry_ok_other[where t = t, OF D(3)[OF j]])
    show "?T t = T t" if "items ! j = (t, w, False)" for w using D(3)[OF j] t that by auto
  qed auto
  show "thread_ok n Q items (taken u) u (?T u)" for u using D(5)[of u] D(5)[of t] t by (cases "u = t") auto
  show "seq_of Q (r mod n) = r \<or> (\<exists>u p. r = p + n \<and> in_dequeue (?T u) p)"
    if "tail_at Q \<le> r" "r < head_at Q + n" for r unfolding same by (rule D(4)[OF that])
  show "u = w" if "in_dequeue (?T u) p" "in_dequeue (?T w) p" for u w p
    using that unfolding same by (rule D(6))
qed (use vy_invD[OF inv] in simp_all)

lemma vy_inv_release:
  assumes inv: "vy_inv n Q T (items, taken)" and n: "2 \<le> n" and t: "T t = Dequeueing (D_Release p v)"
  shows "vy_inv n (Q\<lparr>seq_of := (seq_of Q)(p mod n := p + n)\<rparr>) (T(t := Dequeueing (D_Return (Some v)))) (items, taken(t := None))"
    (is "vy_inv n ?Q ?T _")
proof (rule vy_invI)
  note D = vy_invD[OF inv]
  have p: "p < head_at Q" "tail_at Q \<le> p + n" "seq_of Q (p mod n) = Suc p" using D(5)[of t] t by auto
  have live: "r mod n \<noteq> p mod n" if "head_at Q \<le> r" "r < tail_at Q" for r
    using mod_window[of r n p] p that by fastforce
  show "entry_ok n ?Q ?T (head_at ?Q + j) (items ! j)" if j: "j < length items" for j
  proof -
    have "entry_ok n ?Q ?T (head_at Q + j) (items ! j)"
    proof (rule entry_ok_other[where t = t, OF D(3)[OF j]])
      show "?T t = T t" if "items ! j = (t, w, False)" for w using D(3)[OF j] t that by auto
    qed (use live j D(1) in auto)
    then show ?thesis by simp
  qed
  show "seq_of ?Q (r mod n) = r \<or> (\<exists>u q. r = q + n \<and> in_dequeue (?T u) q)"
    if r: "tail_at ?Q \<le> r" "r < head_at ?Q + n" for r
  proof (cases "r = p + n")
    case False
    have "r mod n \<noteq> (p + n) mod n"
    proof
      assume eq: "r mod n = (p + n) mod n"
      have "r = p + n" by (rule mod_window[OF eq]) (use r p D(1) in simp_all)
      then show False using False by simp
    qed
    then have seq: "seq_of ?Q (r mod n) = seq_of Q (r mod n)" by simp
    from r have "tail_at Q \<le> r" "r < head_at Q + n" by simp_all
    from D(4)[OF this] show ?thesis
    proof (elim disjE exE conjE)
      fix u q assume q: "r = q + n" "in_dequeue (T u) q"
      then have "u \<noteq> t" using t False by auto
      then show ?thesis using q by (intro disjI2 exI[of _ u] exI[of _ q]) simp
    qed (use seq in simp)
  qed simp
  have other: "r mod n \<noteq> p mod n" if u: "u \<noteq> t" "in_dequeue (T u) r" for u r
  proof
    assume eq: "r mod n = p mod n"
    note R = in_dequeueD[OF D(5) u(2)]
    have "r = p" by (rule mod_window[OF eq]) (use p R D(1) in linarith)+
    then show False using D(6)[of u p t] u t by simp
  qed
  have cas: "seq_of ?Q (tail_at Q mod n) = tail_at Q" if "seq_of Q (tail_at Q mod n) = tail_at Q"
  proof (cases "tail_at Q mod n = p mod n")
    case True
    then have "tail_at Q = Suc p" using that p(3) by simp
    then have "p = tail_at Q" using mod_window[of p n "tail_at Q"] True n by simp
    then show ?thesis using \<open>tail_at Q = Suc p\<close> by simp
  qed (use that in simp)
  show "thread_ok n ?Q items ((taken(t := None)) u) u (?T u)" for u
  proof (cases "u = t")
    case False
    then show ?thesis using D(5)[of u] cas live[of "head_at Q"] other[of u]
      by (cases "(n, Q, items, taken u, u, T u)" rule: thread_ok.cases) auto
  qed simp
  show "u = w" if "in_dequeue (?T u) q" "in_dequeue (?T w) q" for u w q
    using D(6)[of u q w] that by (auto split: if_splits)
  show "r \<le> seq_of ?Q (r mod n)" if "r < tail_at ?Q" for r using D(7)[of r] that p by auto
  show "Suc r \<le> seq_of ?Q (r mod n)" if "r < head_at ?Q" for r using D(8)[of r] that p n by auto
  show "seq_of ?Q i \<le> tail_at ?Q + n" if "i < n" for i using D(9)[OF that] p(1) D(1) by simp
qed (use vy_invD(1,2)[OF inv] in simp_all)

section \<open>Every step refines the FIFO queue\<close>

lemma nat_enqueue_fifo:
  assumes inv: "vy_inv n Q T (items, taken)" and n: "2 \<le> n" and t: "T t = Enqueueing v pc"
    and step: "nat_enqueue n Q v weak pc = (Q', pc')"
  shows "\<exists>s'. fifo_step n (items, taken) (observe t (T t) (Enqueueing v pc')) = Some s' \<and>
    vy_inv n Q' (T(t := Enqueueing v pc')) s' \<and> tail_at Q' \<le> Suc (tail_at Q)"
proof -
  note D = vy_invD[OF inv]
  note ok = D(5)[of t, unfolded t]
  show ?thesis
  proof (cases pc)
    case E_Load
    have "vy_inv n Q (T(t := Enqueueing v (E_Seq (tail_at Q)))) (items, taken)"
      by (rule vy_inv_silent[OF inv]) (use t E_Load ok in auto)
    then show ?thesis using E_Load step t by auto
  next
    case (E_Seq p)
    have quiet: "vy_inv n Q (T(t := Enqueueing v pc')) (items, taken)"
      if "pc' = E_Cas p \<and> seq_of Q (p mod n) = p \<or> pc' = E_Return False \<or> pc' = E_Load"
      by (rule vy_inv_silent[OF inv]) (use that t E_Seq ok in auto)
    consider "seq_of Q (p mod n) = p" | "seq_of Q (p mod n) < p" | "seq_of Q (p mod n) > p" by linarith
    then show ?thesis
    proof cases
      case 2
      have p: "p = tail_at Q" using ok E_Seq 2 D(7)[of p] by (cases "p < tail_at Q") auto
      have "length items = n \<or> (\<exists>u. taken u \<noteq> None)"
      proof (cases "tail_at Q < head_at Q + n")
        case True
        then obtain u r where "in_dequeue (T u) r" using D(4)[of "tail_at Q"] 2 p by auto
        then show ?thesis using in_dequeue_taken[OF D(5)] by blast
      qed (use D(1,2) in simp)
      then show ?thesis using 2 E_Seq step t quiet by auto
    qed (use E_Seq step t quiet in auto)
  next
    case (E_Cas p)
    show ?thesis
    proof (cases "weak \<or> tail_at Q \<noteq> p")
      case True
      have "vy_inv n Q (T(t := Enqueueing v (E_Seq (tail_at Q)))) (items, taken)"
        by (rule vy_inv_silent[OF inv]) (use t E_Cas ok in auto)
      then show ?thesis using E_Cas True step t by auto
    next
      case False
      then show ?thesis
        using E_Cas step t vy_inv_claim[OF inv n, of t v] vy_inv_full[OF inv n] ok by auto
    qed
  next
    case (E_Write p)
    then show ?thesis using step t vy_inv_write[OF inv, of t v p] by auto
  next
    case (E_Publish p)
    have "(t, v, False) \<in> set items"
      using ok E_Publish D(1) nth_mem[of "p - head_at Q" items] by auto
    then show ?thesis using E_Publish step t vy_inv_publish[OF inv, of t v p] by auto
  next
    case (E_Return b)
    then have "T(t := Enqueueing v pc') = T" using step t by auto
    then show ?thesis using E_Return step t inv by auto
  qed
qed

lemma nat_dequeue_fifo:
  assumes inv: "vy_inv n Q T (items, taken)" and n: "2 \<le> n" and t: "T t = Dequeueing pc"
    and step: "nat_dequeue n Q weak pc = (Q', pc')"
  shows "\<exists>s'. fifo_step n (items, taken) (observe t (T t) (Dequeueing pc')) = Some s' \<and>
    vy_inv n Q' (T(t := Dequeueing pc')) s' \<and> tail_at Q' \<le> Suc (tail_at Q)"
proof -
  note D = vy_invD[OF inv]
  note ok = D(5)[of t, unfolded t]
  show ?thesis
  proof (cases pc)
    case D_Load
    have "vy_inv n Q (T(t := Dequeueing (D_Seq (head_at Q)))) (items, taken)"
      by (rule vy_inv_silent[OF inv]) (use t D_Load ok in auto)
    then show ?thesis using D_Load step t by auto
  next
    case (D_Seq p)
    have low: "seq_of Q (p mod n) < Suc p \<Longrightarrow> p = head_at Q"
      using ok D_Seq D(8)[of p] by (cases "p < head_at Q") auto
    have quiet: "vy_inv n Q (T(t := Dequeueing pc')) (items, taken)"
      if "pc' = D_Cas p \<and> seq_of Q (p mod n) = Suc p \<or> pc' = D_Return None \<or> pc' = D_Load"
    proof (rule vy_inv_silent[OF inv])
      have "p < tail_at Q" if p: "p = head_at Q" and seq: "seq_of Q (p mod n) = Suc p"
      proof (rule ccontr)
        assume "\<not> p < tail_at Q"
        then have "tail_at Q = p" "p < head_at Q + n" using D(1) p n by auto
        then obtain r u where r: "p = r + n" "in_dequeue (T u) r" using D(4)[of p] seq by auto
        then have "seq_of Q (r mod n) = Suc r" using in_dequeueD(3)[OF D(5)] by blast
        then show False using seq r(1) n by simp
      qed
      then show "thread_ok n Q items None t (Dequeueing pc')" using that ok D_Seq by (auto simp: le_less)
    qed (use that t D_Seq in auto)
    consider "seq_of Q (p mod n) = Suc p" | "seq_of Q (p mod n) < Suc p" | "seq_of Q (p mod n) > Suc p" by linarith
    then show ?thesis
    proof cases
      case 2
      have "case items of (u, v, True) # rest \<Rightarrow> False | _ \<Rightarrow> True"
        using D(3)[of 0] low[OF 2] 2 by (auto split: list.split prod.split bool.split)
      then have "fifo_step n (items, taken) (Deq_Refused t) = Some (items, taken)"
        by (auto split: list.splits prod.splits bool.splits)
      then show ?thesis using 2 D_Seq step t quiet by auto
    qed (use D_Seq step t quiet in auto)
  next
    case (D_Cas p)
    show ?thesis
    proof (cases "weak \<or> head_at Q \<noteq> p")
      case True
      have "vy_inv n Q (T(t := Dequeueing (D_Seq (head_at Q)))) (items, taken)"
        by (rule vy_inv_silent[OF inv]) (use t D_Cas ok in auto)
      then show ?thesis using D_Cas True step t by auto
    next
      case False
      then have "T t = Dequeueing (D_Cas (head_at Q))" using D_Cas t by simp
      then obtain u v rest where "items = (u, v, True) # rest" "taken t = None"
          "vy_inv n (Q\<lparr>head_at := Suc (head_at Q)\<rparr>) (T(t := Dequeueing (D_Read (head_at Q)))) (rest, taken(t \<mapsto> v))"
        by (rule vy_inv_take[OF inv n])
      then show ?thesis using D_Cas False step t by auto
    qed
  next
    case (D_Read p)
    then show ?thesis using step t vy_inv_read[OF inv, of t p] by auto
  next
    case (D_Release p v)
    then show ?thesis using step t ok vy_inv_release[OF inv n, of t p v] by auto
  next
    case (D_Return r)
    then have "T(t := Dequeueing pc') = T" using step t by auto
    then show ?thesis using D_Return step t inv by (cases r) auto
  qed
qed

text \<open>The relation of the words of the code to the queue it implements.\<close>

definition vy_rel :: "nat \<Rightarrow> ('t, 'a) vy_system \<Rightarrow> ('t, 'a) fifo \<Rightarrow> bool" where
  "vy_rel k s f \<longleftrightarrow> sized k (fst s) \<and> vy_inv (2 ^ k) (abs_queue (fst s)) (\<lambda>t. map_vy_thread unat id (snd s t)) f"

lemma observe_map: "observe t (map_vy_thread f id a) (map_vy_thread f id b) = observe t a b"
  by (cases "(t, a, b)" rule: observe.cases) auto

lemma idle_map: "idle (map_vy_thread f id a) = idle a"
  by (cases a rule: idle.cases) (auto split: enq_pc.split deq_pc.split)

lemma two_power_le: "k \<le> 61 \<Longrightarrow> (2::nat) ^ k \<le> 2 ^ 61"
  by (rule power_increasing) auto

lemma vy_rel_small:
  assumes rel: "vy_rel k (q, th) (items, taken)" and k: "k \<le> 61" and b: "unat (enqueue_pos q) < 2 ^ 62"
  shows "small q" and "th t = Enqueueing v pc \<Longrightarrow> small_enq pc" and "th t = Dequeueing pd \<Longrightarrow> small_deq pd"
proof -
  have sized: "sized k q" and inv: "vy_inv (2 ^ k) (abs_queue q) (\<lambda>t. map_vy_thread unat id (th t)) (items, taken)"
    using rel by (simp_all add: vy_rel_def)
  note D = vy_invD[OF inv]
  have head: "unat (dequeue_pos q) \<le> unat (enqueue_pos q)" using D(1) by simp
  have "unat (sequence (buffer q ! i)) < 2 ^ 63" if "i < length (buffer q)" for i
    using D(9)[of i] that sized two_power_le[OF k] b by (simp add: sized_def)
  then show "small q" using head b by (simp add: small_def)
  show "small_enq pc" if "th t = Enqueueing v pc" using D(5)[of t] that b head by (cases pc) auto
  show "small_deq pd" if "th t = Dequeueing pd" using D(5)[of t] that b head by (cases pd) auto
qed

lemma Enqueue_step_sized: "sized k q \<Longrightarrow> sized k (fst (Enqueue_step q v weak pc))"
  by (cases pc) (auto simp: sized_def Let_def)

lemma Dequeue_step_sized: "sized k q \<Longrightarrow> sized k (fst (Dequeue_step q weak pc))"
  by (cases pc) (auto simp: sized_def Let_def)

lemma vy_rel_step:
  assumes rel: "vy_rel k s f" and k: "1 \<le> k" "k \<le> 61" and b: "unat (enqueue_pos (fst s)) < 2 ^ 62"
  shows "\<exists>f'. fifo_step (2 ^ k) f (vy_act s e) = Some f' \<and> vy_rel k (vy_step s e) f' \<and>
    unat (enqueue_pos (fst (vy_step s e))) \<le> Suc (unat (enqueue_pos (fst s)))"
proof -
  obtain q th where s: "s = (q, th)" by (cases s)
  obtain items taken where f: "f = (items, taken)" by (cases f)
  let ?T = "\<lambda>t. map_vy_thread unat id (th t)"
  have sized: "sized k q" and inv: "vy_inv (2 ^ k) (abs_queue q) ?T (items, taken)"
    using rel by (simp_all add: vy_rel_def s f)
  have n: "2 \<le> (2::nat) ^ k" using k(1) power_increasing[of 1 k "2::nat"] by simp
  note small = vy_rel_small[OF rel[unfolded s f] k(2) b[unfolded s fst_conv]]
  have upd: "(\<lambda>u. map_vy_thread unat id ((th(t := x)) u)) = ?T(t := map_vy_thread unat id x)" for t x
    by (auto simp: fun_eq_iff)
  have start: "\<exists>f'. fifo_step (2 ^ k) f (vy_act s e) = Some f' \<and> vy_rel k (vy_step s e) f' \<and>
      unat (enqueue_pos (fst (vy_step s e))) \<le> Suc (unat (enqueue_pos (fst s)))"
    if e: "event_thread e = t" "vy_step s e = (q, if idle (th t) then th(t := x) else th)"
      and x: "\<And>a. observe t a x = Silent" "thread_ok (2 ^ k) (abs_queue q) items None t (map_vy_thread unat id x)"
        "\<not> holds_cell (map_vy_thread unat id x)" for t x
  proof (cases "idle (th t)")
    case True
    then have "\<not> holds_cell (?T t)"
      using idle_map[of unat "th t"] by (cases "?T t" rule: holds_cell.cases) auto
    from vy_inv_silent[OF inv this x(3,2)] have "vy_rel k (q, th(t := x)) f"
      using sized by (simp only: vy_rel_def fst_conv snd_conv upd f simp_thms)
    then show ?thesis using e x(1) True by (simp add: vy_act_def s)
  next
    case False
    have "observe t (th t) (th t) = Silent" by (cases "(t, th t, th t)" rule: observe.cases) auto
    then show ?thesis using e False rel by (simp add: vy_act_def s)
  qed
  show ?thesis
  proof (cases e)
    case (Begin_Enqueue t v)
    show ?thesis by (rule start[of t "Enqueueing v E_Load"]) (simp_all add: Begin_Enqueue s)
  next
    case (Begin_Dequeue t)
    show ?thesis by (rule start[of t "Dequeueing D_Load"]) (simp_all add: Begin_Dequeue s)
  next
    case (Step t weak)
    show ?thesis
    proof (cases "th t")
      case Idle
      then have "th(t := Idle) = th" by auto
      then show ?thesis using Idle Step rel by (simp add: vy_act_def s)
    next
      case (Enqueueing v pc)
      obtain q' pc' where st: "Enqueue_step q v weak pc = (q', pc')" by force
      have "nat_enqueue (2 ^ k) (abs_queue q) v weak (map_enq_pc unat pc) = (abs_queue q', map_enq_pc unat pc')"
        using Enqueue_step_nat[OF sized small(1) small(2)[OF Enqueueing], of v weak] st by simp
      from nat_enqueue_fifo[OF inv n _ this, of t] Enqueueing obtain f' where
        f': "fifo_step (2 ^ k) (items, taken) (observe t (?T t) (Enqueueing v (map_enq_pc unat pc'))) = Some f'"
          "vy_inv (2 ^ k) (abs_queue q') (?T(t := Enqueueing v (map_enq_pc unat pc'))) f'"
          "unat (enqueue_pos q') \<le> Suc (unat (enqueue_pos q))" by auto
      have after: "Enqueueing v (map_enq_pc unat pc') = map_vy_thread unat id (Enqueueing v pc')" by simp
      have "vy_rel k (q', th(t := Enqueueing v pc')) f'"
        using f'(2) Enqueue_step_sized[OF sized, of v weak pc] st
        unfolding vy_rel_def fst_conv snd_conv upd after by simp
      moreover have "vy_act s e = observe t (th t) (Enqueueing v pc')"
        using Step Enqueueing st by (simp add: vy_act_def s)
      moreover have "vy_step s e = (q', th(t := Enqueueing v pc'))" using Step Enqueueing st by (simp add: s)
      ultimately show ?thesis using f'(1,3) unfolding after observe_map by (simp add: s f)
    next
      case (Dequeueing pc)
      obtain q' pc' where st: "Dequeue_step q weak pc = (q', pc')" by force
      have "nat_dequeue (2 ^ k) (abs_queue q) weak (map_deq_pc unat id pc) = (abs_queue q', map_deq_pc unat id pc')"
        using Dequeue_step_nat[OF sized small(1) k(2) small(3)[OF Dequeueing], of weak] st by simp
      from nat_dequeue_fifo[OF inv n _ this, of t] Dequeueing obtain f' where
        f': "fifo_step (2 ^ k) (items, taken) (observe t (?T t) (Dequeueing (map_deq_pc unat id pc'))) = Some f'"
          "vy_inv (2 ^ k) (abs_queue q') (?T(t := Dequeueing (map_deq_pc unat id pc'))) f'"
          "unat (enqueue_pos q') \<le> Suc (unat (enqueue_pos q))" by auto
      have after: "Dequeueing (map_deq_pc unat id pc') = map_vy_thread unat id (Dequeueing pc')" by simp
      have "vy_rel k (q', th(t := Dequeueing pc')) f'"
        using f'(2) Dequeue_step_sized[OF sized, of weak pc] st
        unfolding vy_rel_def fst_conv snd_conv upd after by simp
      moreover have "vy_act s e = observe t (th t) (Dequeueing pc')"
        using Step Dequeueing st by (simp add: vy_act_def s)
      moreover have "vy_step s e = (q', th(t := Dequeueing pc'))" using Step Dequeueing st by (simp add: s)
      ultimately show ?thesis using f'(1,3) unfolding after observe_map by (simp add: s f)
    qed
  qed
qed

lemma vy_rel_run:
  assumes "vy_rel k s f" "1 \<le> k" "k \<le> 61" "unat (enqueue_pos (fst s)) + length es \<le> 2 ^ 62"
  shows "\<exists>f'. fifo_run (2 ^ k) f (fst (vy_run s es)) = Some f' \<and> vy_rel k (snd (vy_run s es)) f' \<and>
    unat (enqueue_pos (fst (snd (vy_run s es)))) \<le> unat (enqueue_pos (fst s)) + length es"
  using assms(1,4)
proof (induction es arbitrary: s f)
  case (Cons e es)
  have "unat (enqueue_pos (fst s)) < 2 ^ 62" using Cons.prems(2) by simp
  from vy_rel_step[OF Cons.prems(1) assms(2,3) this, of e] obtain f' where
    f': "fifo_step (2 ^ k) f (vy_act s e) = Some f'" "vy_rel k (vy_step s e) f'"
      "unat (enqueue_pos (fst (vy_step s e))) \<le> Suc (unat (enqueue_pos (fst s)))" by blast
  then have "unat (enqueue_pos (fst (vy_step s e))) + length es \<le> 2 ^ 62" using Cons.prems(2) by simp
  from Cons.IH[OF f'(2) this] f' show ?case by (auto simp: case_prod_unfold Let_def)
qed simp

lemma vy_rel_new:
  assumes "1 \<le> k" "k \<le> 61"
  shows "vy_rel k (VyukovCore_new d (2 ^ k), \<lambda>_. Idle) ([], Map.empty)"
proof -
  let ?q = "VyukovCore_new d (2 ^ k)"
  have seq: "unat (sequence (buffer ?q ! i)) = i" if "i < 2 ^ k" for i
  proof -
    have "i < 2 ^ LENGTH(64)" using that two_power_le[OF assms(2)] by simp
    then show ?thesis using that by (simp add: VyukovCore_new_def unat_of_nat_small)
  qed
  have "vy_inv (2 ^ k) (abs_queue ?q) (\<lambda>t. map_vy_thread unat id Idle) ([], Map.empty)"
    by (rule vy_invI) (use seq in \<open>simp_all add: abs_queue_def VyukovCore_new_def less_imp_le\<close>)
  then show ?thesis by (simp add: vy_rel_def sized_def VyukovCore_new_def)
qed

section \<open>The queue under every schedule\<close>

definition vy_reached :: "'a \<Rightarrow> nat \<Rightarrow> ('t, 'a) vy_event list \<Rightarrow> ('t, 'a) vy_system" where
  "vy_reached d k es = snd (vy_run (VyukovCore_new d (2 ^ k), \<lambda>_. Idle) es)"

lemma vy_reached_rel:
  assumes "1 \<le> k" "k \<le> 61" "length es \<le> 2 ^ 62"
  obtains items taken where "vy_rel k (vy_reached d k es) (items, taken)"
    "unat (enqueue_pos (fst (vy_reached d k es))) \<le> length es"
proof -
  have "unat (enqueue_pos (VyukovCore_new d (2 ^ k))) = 0" by (simp add: VyukovCore_new_def)
  with vy_rel_run[OF vy_rel_new[OF assms(1,2)] assms(1,2), of d es] assms(3) show thesis
    using that by (auto simp: vy_reached_def)
qed


text \<open>The state that asks thread \<open>t\<close> to read or write the data of a cell next.\<close>

fun data_access :: "'a vyukov \<Rightarrow> (64 word, 'a) vy_thread \<Rightarrow> nat option" where
  "data_access q (Enqueueing v (E_Write p)) = Some (cell_index q p)"
| "data_access q (Dequeueing (D_Read p)) = Some (cell_index q p)"
| "data_access q th = None"

lemma data_access_disjoint:
  assumes inv: "vy_inv n Q T (items, taken)" and "t \<noteq> u"
    and t: "T t = Enqueueing v (E_Write p) \<or> T t = Dequeueing (D_Read p)"
    and u: "T u = Enqueueing w (E_Write r) \<or> T u = Dequeueing (D_Read r)"
  shows "p mod n \<noteq> r mod n"
  using t u
proof (elim disjE)
  note D = vy_invD[OF inv]
  {
    assume t: "T t = Enqueueing v (E_Write p)" and u: "T u = Enqueueing w (E_Write r)"
    have P: "head_at Q \<le> p" "p < tail_at Q" "items ! (p - head_at Q) = (t, v, False)" using D(5)[of t] t by auto
    have R: "head_at Q \<le> r" "r < tail_at Q" "items ! (r - head_at Q) = (u, w, False)" using D(5)[of u] u by auto
    have "p \<noteq> r" using P(3) R(3) \<open>t \<noteq> u\<close> by auto
    then show ?thesis by (rule window_cells(1)[OF inv R(1,2) _ P(1,2)])
  next
    assume t: "T t = Enqueueing v (E_Write p)" and u: "T u = Dequeueing (D_Read r)"
    have "head_at Q \<le> p" "p < tail_at Q" using D(5)[of t] t by auto
    then show ?thesis using window_cells(2)[OF inv, of p u r] u by simp
  next
    assume t: "T t = Dequeueing (D_Read p)" and u: "T u = Enqueueing w (E_Write r)"
    have "head_at Q \<le> r" "r < tail_at Q" using D(5)[of u] u by auto
    then show ?thesis using window_cells(2)[OF inv, of r t p] t by simp
  next
    assume t: "T t = Dequeueing (D_Read p)" and u: "T u = Dequeueing (D_Read r)"
    have P: "p < head_at Q" "tail_at Q \<le> p + n" using D(5)[of t] t by auto
    have R: "r < head_at Q" "tail_at Q \<le> r + n" using D(5)[of u] u by auto
    show ?thesis
    proof
      assume eq: "p mod n = r mod n"
      have "p = r" by (rule mod_window[OF eq]) (use P R D(1) in linarith)+
      then show False using D(6)[of t p u] t u \<open>t \<noteq> u\<close> by simp
    qed
  }
qed

text \<open>C19: The data of a cell is not atomic, and need not be: at no time are two threads about to
  read or write the data of the same cell.\<close>

theorem Vyukov_no_data_race:
  assumes "1 \<le> k" and "k \<le> 61" and "length es \<le> 2 ^ 62" and "t \<noteq> u"
    and "data_access (fst (vy_reached d k es)) (snd (vy_reached d k es) t) = Some i"
  shows "data_access (fst (vy_reached d k es)) (snd (vy_reached d k es) u) \<noteq> Some i"
proof
  assume u: "data_access (fst (vy_reached d k es)) (snd (vy_reached d k es) u) = Some i"
  obtain q th where s: "vy_reached d k es = (q, th)" by (cases "vy_reached d k es")
  obtain items taken where rel: "vy_rel k (q, th) (items, taken)"
    using vy_reached_rel[OF assms(1-3), of d] s by metis
  let ?T = "\<lambda>t. map_vy_thread unat id (th t)"
  have inv: "vy_inv (2 ^ k) (abs_queue q) ?T (items, taken)" and sized: "sized k q"
    using rel by (simp_all add: vy_rel_def)
  have access: "\<exists>v (p :: 64 word). (?T x = Enqueueing v (E_Write (unat p)) \<or> ?T x = Dequeueing (D_Read (unat p))) \<and> i = unat p mod 2 ^ k"
    if "data_access q (th x) = Some i" for x
  proof -
    from that obtain p where "(\<exists>v. th x = Enqueueing v (E_Write p)) \<or> th x = Dequeueing (D_Read p)" "i = cell_index q p"
      by (cases "(q, th x)" rule: data_access.cases) auto
    then obtain v where "?T x = Enqueueing v (E_Write (unat p)) \<or> ?T x = Dequeueing (D_Read (unat p))"
      by auto
    moreover have "i = unat p mod 2 ^ k" using \<open>i = cell_index q p\<close> by (simp only: cell_index_mod[OF sized])
    ultimately show ?thesis by blast
  qed
  from access[of t] access[of u] assms(5) u s data_access_disjoint[OF inv assms(4)] show False
    by fastforce
qed

section \<open>A thread that runs alone returns\<close>

fun enq_rank :: "nat \<Rightarrow> nat enq_pc \<Rightarrow> nat" where
  "enq_rank e (E_Return b) = 0"
| "enq_rank e (E_Publish p) = 1"
| "enq_rank e (E_Write p) = 2"
| "enq_rank e (E_Cas p) = (if p = e then 3 else 5)"
| "enq_rank e (E_Seq p) = (if p = e then 4 else 6)"
| "enq_rank e E_Load = 5"

fun deq_rank :: "nat \<Rightarrow> (nat, 'a) deq_pc \<Rightarrow> nat" where
  "deq_rank d (D_Return r) = 0"
| "deq_rank d (D_Release p v) = 1"
| "deq_rank d (D_Read p) = 2"
| "deq_rank d (D_Cas p) = (if p = d then 3 else 5)"
| "deq_rank d (D_Seq p) = (if p = d then 4 else 6)"
| "deq_rank d D_Load = 5"

fun vy_rank :: "'a nat_queue \<Rightarrow> (nat, 'a) vy_thread \<Rightarrow> nat" where
  "vy_rank Q Idle = 0"
| "vy_rank Q (Enqueueing v pc) = enq_rank (tail_at Q) pc"
| "vy_rank Q (Dequeueing pc) = deq_rank (head_at Q) pc"

lemma vy_rank_zero: "vy_rank Q th = 0 \<longleftrightarrow> idle th"
proof (cases th)
  case (Enqueueing v pc)
  then show ?thesis by (cases pc) auto
next
  case (Dequeueing pc)
  then show ?thesis by (cases pc) auto
qed simp

lemma vy_rank_le: "vy_rank Q th \<le> 6"
proof (cases th)
  case (Enqueueing v pc)
  then show ?thesis by (cases pc) auto
next
  case (Dequeueing pc)
  then show ?thesis by (cases pc) auto
qed simp

text \<open>The cell of the next position to claim is never ahead of it.\<close>

lemma tail_cell_bound:
  assumes inv: "vy_inv n Q T (items, taken)" and n: "2 \<le> n"
  shows "seq_of Q (tail_at Q mod n) \<le> tail_at Q"
proof -
  note D = vy_invD[OF inv]
  show ?thesis
  proof (cases "tail_at Q < head_at Q + n")
    case True
    from D(4)[OF order_refl True] show ?thesis
    proof (elim disjE exE conjE)
      fix u p assume "tail_at Q = p + n" "in_dequeue (T u) p"
      then show ?thesis using in_dequeueD(3)[OF D(5), of u p] n by simp
    qed simp
  next
    case False
    then have full: "tail_at Q = head_at Q + n" "0 < length items" using D(1,2) n by auto
    have "entry_ok n Q T (head_at Q) (items ! 0)" using D(3)[of 0] full(2) by simp
    then have "seq_of Q (head_at Q mod n) \<le> Suc (head_at Q)"
      by (cases "items ! 0"; cases "snd (snd (items ! 0))") auto
    then show ?thesis using full n by simp
  qed
qed

lemma head_cell_bound:
  assumes inv: "vy_inv n Q T (items, taken)" and n: "2 \<le> n"
  shows "seq_of Q (head_at Q mod n) \<le> Suc (head_at Q)"
proof -
  note D = vy_invD[OF inv]
  show ?thesis
  proof (cases "items = []")
    case True
    then have "tail_at Q = head_at Q" using D(1) by simp
    then show ?thesis using tail_cell_bound[OF inv n] by simp
  next
    case False
    then have "entry_ok n Q T (head_at Q) (items ! 0)" using D(3)[of 0] by simp
    then show ?thesis by (cases "items ! 0"; cases "snd (snd (items ! 0))") auto
  qed
qed

lemma nat_enqueue_rank:
  assumes inv: "vy_inv n Q T (items, taken)" and n: "2 \<le> n" and t: "T t = Enqueueing v pc"
    and step: "nat_enqueue n Q v False pc = (Q', pc')"
  shows "enq_rank (tail_at Q') pc' \<le> enq_rank (tail_at Q) pc - 1"
  using step vy_invD(5)[OF inv, of t] vy_invD(7)[OF inv] tail_cell_bound[OF inv n] t
  by (cases pc) (auto split: if_splits)

lemma nat_dequeue_rank:
  assumes inv: "vy_inv n Q T (items, taken)" and n: "2 \<le> n" and t: "T t = Dequeueing pc"
    and step: "nat_dequeue n Q False pc = (Q', pc')"
  shows "deq_rank (head_at Q') pc' \<le> deq_rank (head_at Q) pc - 1"
  using step vy_invD(5)[OF inv, of t] vy_invD(8)[OF inv] head_cell_bound[OF inv n] t
  by (cases pc) (auto split: if_splits)

lemma vy_rank_step:
  assumes rel: "vy_rel k (q, th) f" and k: "1 \<le> k" "k \<le> 61" and b: "unat (enqueue_pos q) < 2 ^ 62"
    and step: "vy_step (q, th) (Step t False) = (q', th')"
  shows "vy_rank (abs_queue q') (map_vy_thread unat id (th' t)) \<le> vy_rank (abs_queue q) (map_vy_thread unat id (th t)) - 1"
proof -
  obtain items taken where f: "f = (items, taken)" by (cases f)
  let ?T = "\<lambda>t. map_vy_thread unat id (th t)"
  have sized: "sized k q" and inv: "vy_inv (2 ^ k) (abs_queue q) ?T (items, taken)"
    using rel by (simp_all add: vy_rel_def f)
  have n: "2 \<le> (2::nat) ^ k" using k(1) power_increasing[of 1 k "2::nat"] by simp
  note small = vy_rel_small[OF rel[unfolded f] k(2) b]
  show ?thesis
  proof (cases "th t")
    case Idle
    then show ?thesis using step by auto
  next
    case (Enqueueing v pc)
    obtain pc' where st: "Enqueue_step q v False pc = (q', pc')" and th': "th' t = Enqueueing v pc'"
      using step Enqueueing by (cases "Enqueue_step q v False pc") auto
    have "nat_enqueue (2 ^ k) (abs_queue q) v False (map_enq_pc unat pc) = (abs_queue q', map_enq_pc unat pc')"
      using Enqueue_step_nat[OF sized small(1) small(2)[OF Enqueueing], of v False] st by simp
    from nat_enqueue_rank[OF inv n _ this, of t] show ?thesis using Enqueueing th' by simp
  next
    case (Dequeueing pc)
    obtain pc' where st: "Dequeue_step q False pc = (q', pc')" and th': "th' t = Dequeueing pc'"
      using step Dequeueing by (cases "Dequeue_step q False pc") auto
    have "nat_dequeue (2 ^ k) (abs_queue q) False (map_deq_pc unat id pc) = (abs_queue q', map_deq_pc unat id pc')"
      using Dequeue_step_nat[OF sized small(1) k(2) small(3)[OF Dequeueing], of False] st by simp
    from nat_dequeue_rank[OF inv n _ this, of t] show ?thesis using Dequeueing th' by simp
  qed
qed

lemma vy_rank_run:
  assumes "vy_rel k s f" "1 \<le> k" "k \<le> 61" "unat (enqueue_pos (fst s)) + m \<le> 2 ^ 62"
  shows "vy_rank (abs_queue (fst (snd (vy_run s (replicate m (Step t False))))))
      (map_vy_thread unat id (snd (snd (vy_run s (replicate m (Step t False)))) t))
    \<le> vy_rank (abs_queue (fst s)) (map_vy_thread unat id (snd s t)) - m"
  using assms(1,4)
proof (induction m arbitrary: s f)
  case (Suc m)
  have b: "unat (enqueue_pos (fst s)) < 2 ^ 62" using Suc.prems(2) by simp
  from vy_rel_step[OF Suc.prems(1) assms(2,3) b, of "Step t False"] obtain f' where
    f': "vy_rel k (vy_step s (Step t False)) f'"
      "unat (enqueue_pos (fst (vy_step s (Step t False)))) \<le> Suc (unat (enqueue_pos (fst s)))" by blast
  have one: "vy_rank (abs_queue (fst (vy_step s (Step t False)))) (map_vy_thread unat id (snd (vy_step s (Step t False)) t))
      \<le> vy_rank (abs_queue (fst s)) (map_vy_thread unat id (snd s t)) - 1"
    using vy_rank_step[of k "fst s" "snd s" f t] Suc.prems(1) assms(2,3) b
    by (cases "vy_step s (Step t False)") simp
  from Suc.IH[OF f'(1)] f'(2) Suc.prems(2) one show ?case
    by (auto simp: case_prod_unfold Let_def id_def)
qed simp

text \<open>C20: A thread that runs alone returns: after any schedule, six steps of one thread without
  interference and without a spurious failure of a compare-exchange bring its call to an end.\<close>

theorem Vyukov_solo_returns:
  assumes "1 \<le> k" and "k \<le> 61" and "length es + 6 \<le> 2 ^ 62"
  shows "idle (snd (snd (vy_run (vy_reached d k es) (replicate 6 (Step t False)))) t)"
proof -
  have "length es \<le> 2 ^ 62" using assms(3) by simp
  then obtain items taken where rel: "vy_rel k (vy_reached d k es) (items, taken)"
    "unat (enqueue_pos (fst (vy_reached d k es))) \<le> length es"
    by (rule vy_reached_rel[OF assms(1,2)])
  have "unat (enqueue_pos (fst (vy_reached d k es))) + 6 \<le> 2 ^ 62" using rel(2) assms(3) by simp
  note rank = vy_rank_run[OF rel(1) assms(1,2) this, of t]
  have "vy_rank (abs_queue (fst (vy_reached d k es))) (map_vy_thread unat id (snd (vy_reached d k es) t)) - 6 = 0"
    using vy_rank_le by simp
  with rank have "vy_rank (abs_queue (fst (snd (vy_run (vy_reached d k es) (replicate 6 (Step t False))))))
      (map_vy_thread unat id (snd (snd (vy_run (vy_reached d k es) (replicate 6 (Step t False)))) t)) = 0" by simp
  then show ?thesis unfolding vy_rank_zero idle_map .
qed

section \<open>Examples\<close>

text \<open>Two producers interleaved on a queue of two cells, then a third call that is refused.\<close>

definition two_producers :: "(nat, nat) vy_event list" where
  "two_producers = [Begin_Enqueue 0 7, Begin_Enqueue 1 8, Step 0 False, Step 1 False, Step 0 False, Step 1 False,
     Step 1 False, Step 0 False]"


lemma two_producers_race_free:
  "data_access (fst (vy_reached (0::nat) 1 (two_producers @ [Step 0 False, Step 0 False])))
     (snd (vy_reached 0 1 (two_producers @ [Step 0 False, Step 0 False])) 0) = Some 1"
  by (simp add: vy_reached_def two_producers_def VyukovCore_new_def cell_index_def Let_def)

lemma Vyukov_no_data_race_witness:
  "data_access (fst (vy_reached (0::nat) 1 (two_producers @ [Step 0 False, Step 0 False])))
     (snd (vy_reached 0 1 (two_producers @ [Step 0 False, Step 0 False])) 1) \<noteq> Some 1"
  by (rule Vyukov_no_data_race[OF _ _ _ _ two_producers_race_free]) (simp_all add: two_producers_def)

lemma Vyukov_solo_returns_witness:
  "idle (snd (snd (vy_run (vy_reached (0::nat) 1 two_producers) (replicate 6 (Step 0 False)))) 0)"
  by (rule Vyukov_solo_returns) (simp_all add: two_producers_def)

end
