(* ===== verification/Sharded_Vyukov.thy ===== *)
theory Sharded_Vyukov
  imports Vyukov_Queue
begin

unbundle bit_operations_syntax

text \<open>
  \<open>ShardedVyukovQueue\<close> (sharded_vyukov_queue.h): a power of two of bounded queues; a thread starts
  at a shard of its own and tries the next ones in turn.  The theory proves what the capacity of a
  shard is, that the constructor returns, and that under every schedule each shard stays a bounded
  FIFO queue: what the calls of the wrapper do to a shard is a run of the core.
\<close>

section \<open>The capacity of a shard\<close>

text \<open>The loop may run forever, which is the result \<open>None\<close>.\<close>

(* sharded_vyukov_queue.h:159-161 RoundUpPowerOfTwo *)
partial_function (option) round_up_loop :: "64 word \<Rightarrow> 64 word \<Rightarrow> 64 word option" where
  "round_up_loop val pow2 =
     (if pow2 < val then round_up_loop val (push_bit 1 pow2) else Some pow2)"

(* sharded_vyukov_queue.h:157-163 RoundUpPowerOfTwo *)
definition RoundUpPowerOfTwo :: "64 word \<Rightarrow> 64 word option" where
  "RoundUpPowerOfTwo val = round_up_loop val 2"

(* sharded_vyukov_queue.h:165-169 NormalizeCapacity *)
definition NormalizeCapacity :: "64 word \<Rightarrow> 64 word \<Rightarrow> 64 word option" where
  "NormalizeCapacity shard_count total_capacity =
     (let per_shard = max 2 ((total_capacity + shard_count - 1) div shard_count)
      in RoundUpPowerOfTwo per_shard)"

section \<open>State\<close>

text \<open>
  The thread-local variables are shared by all queues of one element type: a queue trusts the
  shard of a thread only if the thread used this queue last.
\<close>




section \<open>Schedules\<close>









section \<open>Each shard sees a run of the core\<close>
























section \<open>The capacity computation\<close>

lemma unat_double: "unat (w :: 64 word) < 2 ^ 63 \<Longrightarrow> unat (push_bit 1 w) = 2 * unat w"
proof -
  assume w: "unat w < 2 ^ 63"
  have "push_bit 1 w = w * 2" by (simp add: push_bit_eq_mult)
  moreover have "unat w * unat (2 :: 64 word) < 2 ^ LENGTH(64)" using w by simp
  ultimately show ?thesis by (simp add: unat_word_ariths)
qed

text \<open>The loop stops at the first power of two that is large enough, if there is one.\<close>

lemma round_up_loop_stops:
  assumes "unat p = 2 ^ i" "1 \<le> i" "i \<le> 63" "unat val \<le> 2 ^ 63" "i = 1 \<or> 2 ^ (i - 1) < unat val"
  shows "\<exists>j p'. round_up_loop val p = Some p' \<and> unat p' = 2 ^ j \<and> 1 \<le> j \<and> j \<le> 63 \<and> unat val \<le> 2 ^ j \<and>
    (j = 1 \<or> 2 ^ (j - 1) < unat val)"
  using assms
proof (induction "63 - i" arbitrary: p i)
  case 0
  then have "i = 63" by simp
  then have "\<not> p < val" using "0.prems" by (simp add: word_less_nat_alt)
  then have "round_up_loop val p = Some p" by (simp add: round_up_loop.simps[of val p])
  moreover have "unat val \<le> 2 ^ i" using "0.prems"(4) unfolding \<open>i = 63\<close> .
  ultimately show ?case using "0.prems"(1,2,3,5) by (intro exI[of _ i] exI[of _ p] conjI)
next
  case (Suc m)
  show ?case
  proof (cases "p < val")
    case False
    then have "round_up_loop val p = Some p" by (simp add: round_up_loop.simps[of val p])
    moreover have "unat val \<le> 2 ^ i" using False Suc.prems(1) by (simp add: word_less_nat_alt)
    ultimately show ?thesis using Suc.prems by blast
  next
    case True
    have i: "i \<le> 62" using Suc.hyps(2) by simp
    have "(2::nat) ^ i \<le> 2 ^ 62" by (rule power_increasing) (use i in auto)
    then have "unat p < 2 ^ 63" using Suc.prems(1) by simp
    then have d: "unat (push_bit 1 p) = 2 ^ Suc i"
      unfolding power_Suc Suc.prems(1)[symmetric] by (rule unat_double)
    have less: "2 ^ (Suc i - 1) < unat val" using True Suc.prems(1) by (simp add: word_less_nat_alt)
    have "round_up_loop val p = round_up_loop val (push_bit 1 p)"
      using True by (simp add: round_up_loop.simps[of val p])
    with Suc.hyps(1)[of "Suc i" "push_bit 1 p"] d less i Suc.hyps(2) Suc.prems(4) show ?thesis by simp
  qed
qed

text \<open>Above \<open>2 ^ 63\<close> no power of two of the type is large enough: the loop would never end.\<close>

lemma round_up_loop_Some: "round_up_loop val p = Some p' \<Longrightarrow> \<not> p' < val"
  by (rule round_up_loop.raw_induct[where P = "\<lambda>val p p'. \<not> p' < val"]) (auto split: if_splits)

lemma unat_div64: "unat (a div b :: 64 word) = unat a div unat b"
  by (rule unat_div_distrib)

lemma ceil_div_bounds:
  assumes "0 < (c :: nat)"
  shows "n \<le> ((n + c - 1) div c) * c" "((n + c - 1) div c) * c < n + c"
proof -
  have "n + c - 1 = ((n + c - 1) div c) * c + (n + c - 1) mod c" by simp
  moreover have "(n + c - 1) mod c < c" using assms by simp
  ultimately show "n \<le> ((n + c - 1) div c) * c" "((n + c - 1) div c) * c < n + c" using assms by linarith+
qed

text \<open>The rounded-up quotient, with the wrap of the sum written out.\<close>

lemma per_shard_value:
  assumes "1 \<le> c" "c \<le> 63"
  shows "unat ((requested + of_nat (2 ^ c) - 1) div of_nat (2 ^ c) :: 64 word) =
    (if unat requested + 2 ^ c \<le> 2 ^ 64 then (unat requested + 2 ^ c - 1) div 2 ^ c else (unat requested + 2 ^ c - 1 - 2 ^ 64) div 2 ^ c)"
proof -
  have small: "(2::nat) ^ c < 2 ^ 64" by (rule power_strict_increasing) (use assms in auto)
  then have two: "unat (of_nat (2 ^ c) :: 64 word) = 2 ^ c" by (intro unat_of_nat_small) simp
  have pos: "1 \<le> (2::nat) ^ c" by simp
  have "(of_nat (2 ^ c) :: 64 word) - 1 = of_nat (2 ^ c - 1)" using pos by (simp add: of_nat_diff)
  then have sum: "requested + of_nat (2 ^ c) - 1 = requested + of_nat (2 ^ c - 1)" by (simp add: algebra_simps)
  have m: "unat (of_nat (2 ^ c - 1) :: 64 word) = 2 ^ c - 1" using small by (intro unat_of_nat_small) simp
  have "unat (requested + of_nat (2 ^ c - 1)) =
      (if unat requested + (2 ^ c - 1) < 2 ^ 64 then unat requested + (2 ^ c - 1) else unat requested + (2 ^ c - 1) - 2 ^ 64)"
    unfolding unat_plus_if_size m by (simp add: word_size)
  then have "unat (requested + of_nat (2 ^ c) - 1) =
      (if unat requested + 2 ^ c \<le> 2 ^ 64 then unat requested + 2 ^ c - 1 else unat requested + 2 ^ c - 1 - 2 ^ 64)"
    unfolding sum using pos by (auto split: if_splits)
  then show ?thesis unfolding unat_div64 two by (simp only: if_distrib[of "\<lambda>x. x div 2 ^ c"])
qed

text \<open>C22: The capacity of a shard is computed in finitely many steps for every request, and is a
  power of two of at least two cells.  Unless the request is within \<open>ShardCount\<close> of the top of
  \<open>size_t\<close>, where the rounding sum wraps, the shards together hold at least the request, and no
  smaller power of two above one would do.\<close>

theorem NormalizeCapacity_correct:
  assumes "1 \<le> c" and "c \<le> 63"
  shows "\<exists>k w. NormalizeCapacity (of_nat (2 ^ c)) requested = Some w \<and> unat w = 2 ^ k \<and> 1 \<le> k \<and> k \<le> 63 \<and>
    (unat requested + 2 ^ c \<le> 2 ^ 64 \<longrightarrow> unat requested \<le> 2 ^ k * 2 ^ c \<and> (k = 1 \<or> 2 ^ (k - 1) * 2 ^ c < unat requested))"
proof -
  let ?v = "(requested + of_nat (2 ^ c) - 1) div of_nat (2 ^ c) :: 64 word"
  have "(2::nat) ^ 1 \<le> 2 ^ c" by (rule power_increasing) (use assms in auto)
  then have two: "(2::nat) \<le> 2 ^ c" by simp
  have small: "unat ?v \<le> 2 ^ 63"
  proof -
    have "unat requested < 2 ^ 64" using unsigned_less[of requested] by simp
    have "(if unat requested + 2 ^ c \<le> 2 ^ 64 then unat requested + 2 ^ c - 1 else unat requested + 2 ^ c - 1 - 2 ^ 64) div 2 ^ c
        \<le> (if unat requested + 2 ^ c \<le> 2 ^ 64 then unat requested + 2 ^ c - 1 else unat requested + 2 ^ c - 1 - 2 ^ 64) div 2"
      by (rule div_le_mono2) (use two in auto)
    also have "\<dots> \<le> 2 ^ 63"
    proof (cases "unat requested + 2 ^ c \<le> 2 ^ 64")
      case False
      have "(2::nat) ^ c \<le> 2 ^ 63" by (rule power_increasing) (use assms in auto)
      with False \<open>unat requested < 2 ^ 64\<close> show ?thesis by simp
    qed simp
    finally show ?thesis unfolding per_shard_value[OF assms] by (simp only: if_distrib[of "\<lambda>x. x div 2 ^ c"])
  qed
  let ?m = "max 2 ?v"
  have m: "unat ?m = max 2 (unat ?v)" by (simp add: max_def word_le_nat_alt)
  have "unat ?m \<le> 2 ^ 63" unfolding m using small by simp
  then obtain k w where w: "round_up_loop ?m 2 = Some w" "unat w = 2 ^ k" "1 \<le> k" "k \<le> 63" "unat ?m \<le> 2 ^ k"
      "k = 1 \<or> 2 ^ (k - 1) < unat ?m"
    using round_up_loop_stops[of 2 1 ?m] by auto
  have "unat requested \<le> 2 ^ k * 2 ^ c \<and> (k = 1 \<or> 2 ^ (k - 1) * 2 ^ c < unat requested)" if fits: "unat requested + 2 ^ c \<le> 2 ^ 64"
  proof
    have v: "unat ?v = (unat requested + 2 ^ c - 1) div 2 ^ c" unfolding per_shard_value[OF assms] using fits by simp
    have "unat requested \<le> unat ?v * 2 ^ c" unfolding v by (rule ceil_div_bounds) simp
    also have "\<dots> \<le> 2 ^ k * 2 ^ c" using w(5) unfolding m by (intro mult_right_mono) simp_all
    finally show "unat requested \<le> 2 ^ k * 2 ^ c" .
    show "k = 1 \<or> 2 ^ (k - 1) * 2 ^ c < unat requested"
    proof (cases "k = 1")
      case False
      then have "(2::nat) ^ 1 \<le> 2 ^ (k - 1)" using w(3) by (intro power_increasing) auto
      then have "2 ^ (k - 1) + 1 \<le> unat ?v" using w(6) False unfolding m by simp
      then have "(2 ^ (k - 1) + 1) * 2 ^ c \<le> unat ?v * 2 ^ c" by (rule mult_right_mono) simp
      also have "\<dots> < unat requested + 2 ^ c" unfolding v by (rule ceil_div_bounds) simp
      finally show ?thesis by (simp add: algebra_simps)
    qed simp
  qed
  moreover have "NormalizeCapacity (of_nat (2 ^ c)) requested = Some w"
    using w(1) by (simp add: NormalizeCapacity_def RoundUpPowerOfTwo_def Let_def)
  ultimately show ?thesis using w(2-4) by blast
qed

section \<open>Every shard is a FIFO queue\<close>




lemma NormalizeCapacity_correct_witness:
  "\<exists>k w. NormalizeCapacity (of_nat (2 ^ 4)) 100 = Some w \<and> unat w = 2 ^ k \<and> 100 \<le> 2 ^ k * (2::nat) ^ 4"
  using NormalizeCapacity_correct[of 4 100] by fastforce


end
