(* ===== verification/Range_Tree.thy ===== *)
theory Range_Tree
  imports Cpp_Prelude
begin

text \<open>
  \<open>RangeTree\<close> (range_tree.h) with the \<open>Interval\<close> it is asked about (edge_polygon.h).  The theory
  proves that a query returns exactly the values of the interval, in order and without
  duplicates, and that the tree has the least height its size allows.
\<close>

section \<open>Intervals\<close>

(* edge_polygon.h:9-10 Interval *)
record interval =
  start_at :: int
  end_at :: int

(* edge_polygon.h:12-12 Interval *)
definition Interval_new :: "int \<Rightarrow> int \<Rightarrow> interval" where
  "Interval_new s e = \<lparr>start_at = min s e, end_at = max s e\<rparr>"

(* edge_polygon.h:14-16 Intersects *)
definition Interval_Intersects :: "interval \<Rightarrow> interval \<Rightarrow> bool" where
  "Interval_Intersects this other \<longleftrightarrow> \<not> (end_at this < start_at other \<or> end_at other < start_at this)"

(* edge_polygon.h:18-20 Contains *)
definition Interval_Contains :: "interval \<Rightarrow> int \<Rightarrow> bool" where
  "Interval_Contains this val \<longleftrightarrow> start_at this \<le> val \<and> val \<le> end_at this"

text \<open>The difference of two \<open>int\<close> values may overflow, which is undefined.\<close>

(* edge_polygon.h:22-24 Length *)
definition Interval_Length :: "interval \<Rightarrow> int res" where
  "Interval_Length this =
     (let d = end_at this - start_at this in
      if - (2 ^ 31) \<le> d \<and> d < 2 ^ 31 then Inr d else Inl Undefined_Behaviour)"

lemma Interval_new_Contains: "Interval_Contains (Interval_new s e) v \<longleftrightarrow> min s e \<le> v \<and> v \<le> max s e"
  by (simp add: Interval_Contains_def Interval_new_def)

text \<open>Two intervals intersect when they share a value.\<close>

lemma Interval_Intersects_iff:
  "Interval_Intersects (Interval_new a b) (Interval_new c d) \<longleftrightarrow>
    (\<exists>v. Interval_Contains (Interval_new a b) v \<and> Interval_Contains (Interval_new c d) v)"
proof
  assume meet: "Interval_Intersects (Interval_new a b) (Interval_new c d)"
  show "\<exists>v. Interval_Contains (Interval_new a b) v \<and> Interval_Contains (Interval_new c d) v"
    by (rule exI[of _ "max (min a b) (min c d)"])
      (use meet in \<open>auto simp: Interval_Contains_def Interval_Intersects_def Interval_new_def\<close>)
qed (auto simp: Interval_Contains_def Interval_Intersects_def Interval_new_def)

section \<open>The tree\<close>

(* range_tree.h:10-18 RangeTree::Node *)
datatype range_node = Null | Range_Node int range_node range_node

(* range_tree.h:17-17 IsLeaf *)
fun Range_IsLeaf :: "range_node \<Rightarrow> bool" where
  "Range_IsLeaf (Range_Node v l r) \<longleftrightarrow> l = Null \<and> r = Null"
| "Range_IsLeaf Null = False"

text \<open>The iterators \<open>begin\<close> and \<open>end\<close> are indices into the vector.\<close>

(* range_tree.h:22-32 BuildTree *)
function Range_BuildTree :: "int list \<Rightarrow> nat \<Rightarrow> nat \<Rightarrow> range_node" where
  "Range_BuildTree values first stop =
     (if first \<ge> stop then Null
      else let mid = first + (stop - first) div 2
           in Range_Node (values ! mid) (Range_BuildTree values first mid) (Range_BuildTree values (mid + 1) stop))"
  by pat_completeness auto
termination Range_BuildTree
  by (relation "measure (\<lambda>(values, first, stop). stop - first)") auto

declare Range_BuildTree.simps [simp del]

text \<open>\<open>std::sort\<close>, then \<open>std::unique\<close>, which keeps one of equal neighbours.\<close>

(* range_tree.h:66-70 Build *)
definition RangeTree_Build :: "int list \<Rightarrow> int list \<times> range_node" where
  "RangeTree_Build values =
     (let values = remdups_adj (sort values)
      in (values, Range_BuildTree values 0 (length values)))"

(* range_tree.h:34-46 FindSplitNode *)
fun Range_FindSplitNode :: "range_node \<Rightarrow> interval \<Rightarrow> range_node" where
  "Range_FindSplitNode Null i = Null"
| "Range_FindSplitNode (Range_Node v l r) i =
     (if Range_IsLeaf (Range_Node v l r) then Range_Node v l r
      else if v > end_at i then Range_FindSplitNode l i
      else if v < start_at i then Range_FindSplitNode r i
      else Range_Node v l r)"

(* range_tree.h:48-61 CollectValues *)
fun Range_CollectValues :: "range_node \<Rightarrow> interval \<Rightarrow> int list \<Rightarrow> int list" where
  "Range_CollectValues Null i result = result"
| "Range_CollectValues (Range_Node v l r) i result =
     (let result = (if l \<noteq> Null then Range_CollectValues l i result else result);
          result = (if Interval_Contains i v then result @ [v] else result)
      in if r \<noteq> Null then Range_CollectValues r i result else result)"

(* range_tree.h:85-92 Query *)
definition RangeTree_Query :: "range_node \<Rightarrow> interval \<Rightarrow> int list" where
  "RangeTree_Query root i =
     (let split_node = Range_FindSplitNode root i
      in if split_node \<noteq> Null then Range_CollectValues split_node i [] else [])"

(* range_tree.h:94-102 Size *)
fun RangeTree_Size :: "range_node \<Rightarrow> nat" where
  "RangeTree_Size Null = 0"
| "RangeTree_Size (Range_Node v l r) = 1 + RangeTree_Size l + RangeTree_Size r"

text \<open>The values \<open>Display\<close> prints.\<close>

(* range_tree.h:72-83 Display *)
fun RangeTree_Display :: "range_node \<Rightarrow> int list" where
  "RangeTree_Display Null = []"
| "RangeTree_Display (Range_Node v l r) = v # RangeTree_Display l @ RangeTree_Display r"

section \<open>Correctness\<close>

fun range_inorder :: "range_node \<Rightarrow> int list" where
  "range_inorder Null = []"
| "range_inorder (Range_Node v l r) = range_inorder l @ v # range_inorder r"

fun range_height :: "range_node \<Rightarrow> nat" where
  "range_height Null = 0"
| "range_height (Range_Node v l r) = 1 + max (range_height l) (range_height r)"

lemma Range_CollectValues_filter:
  "Range_CollectValues t i result = result @ filter (Interval_Contains i) (range_inorder t)"
  by (induction t arbitrary: result) (auto simp: Let_def)

lemma FindSplitNode_filter:
  "sorted (range_inorder t) \<Longrightarrow>
    filter (Interval_Contains i) (range_inorder (Range_FindSplitNode t i)) = filter (Interval_Contains i) (range_inorder t)"
proof (induction t)
  case (Range_Node v l r)
  have l: "sorted (range_inorder l)" "\<forall>x \<in> set (range_inorder l). x \<le> v"
    and r: "sorted (range_inorder r)" "\<forall>x \<in> set (range_inorder r). v \<le> x"
    using Range_Node.prems by (auto simp: sorted_append)
  have "filter (Interval_Contains i) (range_inorder r) = [] \<and> \<not> Interval_Contains i v" if "v > end_at i"
    using that r(2) by (auto simp: filter_empty_conv Interval_Contains_def)
  moreover have "filter (Interval_Contains i) (range_inorder l) = [] \<and> \<not> Interval_Contains i v" if "v < start_at i"
    using that l(2) by (fastforce simp: filter_empty_conv Interval_Contains_def)
  ultimately show ?case using Range_Node.IH(1)[OF l(1)] Range_Node.IH(2)[OF r(1)] by auto
qed simp

lemma drop_split:
  assumes "lo \<le> m" "m \<le> length xs"
  shows "drop lo xs = drop lo (take m xs) @ drop m xs"
proof -
  have "drop lo xs = drop lo (take m xs @ drop m xs)" by simp
  also have "\<dots> = drop lo (take m xs) @ drop m xs" unfolding drop_append using assms by simp
  finally show ?thesis .
qed

lemma Range_BuildTree_inorder:
  "stop \<le> length vs \<Longrightarrow> range_inorder (Range_BuildTree vs first stop) = drop first (take stop vs)"
proof (induction vs first stop rule: Range_BuildTree.induct)
  case (1 vals lo hi)
  show ?case
  proof (cases "lo \<ge> hi")
    case False
    let ?mid = "lo + (hi - lo) div 2"
    have mid: "lo \<le> ?mid" "?mid < hi" using False by auto
    then have "drop lo (take hi vals) = drop lo (take ?mid vals) @ drop ?mid (take hi vals)"
      using "1.prems" drop_split[of lo ?mid "take hi vals"] by (simp add: min_absorb1)
    moreover have "drop ?mid (take hi vals) = vals ! ?mid # drop (Suc ?mid) (take hi vals)"
      using mid "1.prems" by (subst Cons_nth_drop_Suc[symmetric]) simp_all
    ultimately show ?thesis
      using "1.IH"[OF False refl] "1.prems" mid False
      by (simp add: Range_BuildTree.simps[of vals lo hi] Let_def)
  qed (simp add: Range_BuildTree.simps[of vals lo hi])
qed

text \<open>The tree has as many nodes as the slice, and the least height for that number.\<close>

lemma Range_BuildTree_size: "RangeTree_Size (Range_BuildTree vs first stop) = stop - first"
proof (induction vs first stop rule: Range_BuildTree.induct)
  case (1 vals lo hi)
  show ?case
  proof (cases "lo \<ge> hi")
    case False
    then have d: "0 < hi - lo" by simp
    from "1.IH"[OF False refl] False halves[OF d] show ?thesis
      by (simp add: Range_BuildTree.simps[of vals lo hi] Let_def)
  qed (simp add: Range_BuildTree.simps[of vals lo hi])
qed

lemma Range_BuildTree_height: "least_height (stop - first) (range_height (Range_BuildTree vs first stop))"
proof (induction vs first stop rule: Range_BuildTree.induct)
  case (1 vals lo hi)
  show ?case
  proof (cases "lo \<ge> hi")
    case False
    let ?mid = "lo + (hi - lo) div 2"
    have d: "0 < hi - lo" using False by simp
    have sizes: "?mid - lo = (hi - lo) div 2" "hi - (?mid + 1) = (hi - lo - 1) div 2" using halves(1)[OF d] by simp_all
    from least_height_node[OF d] "1.IH"[OF False refl, unfolded sizes] show ?thesis
      using False by (simp add: Range_BuildTree.simps[of vals lo hi] Let_def)
  qed (simp add: Range_BuildTree.simps[of vals lo hi])
qed

lemma distinct_remdups_adj_sorted: "sorted vs \<Longrightarrow> distinct (remdups_adj vs)"
  by (induction vs rule: remdups_adj.induct) auto

lemma set_remdups_adj_sort: "sorted (remdups_adj (sort vs))" "distinct (remdups_adj (sort vs))" "set (remdups_adj (sort vs)) = set vs"
  by (simp_all add: sorted_remdups_adj distinct_remdups_adj_sorted)

lemma Build_values: "remdups_adj (sort vs) = sorted_list_of_set (set vs)"
  by (rule sorted_distinct_set_unique) (simp_all add: set_remdups_adj_sort sorted_remdups_adj)

lemma RangeTree_Build_inorder:
  "range_inorder (snd (RangeTree_Build vs)) = sorted_list_of_set (set vs)"
  using Range_BuildTree_inorder[of "length (remdups_adj (sort vs))" "remdups_adj (sort vs)" 0]
  by (simp add: RangeTree_Build_def Let_def Build_values)

text \<open>C40: A query of the tree built from any values returns the values that lie in the interval, in
  increasing order and each once.\<close>

theorem RangeTree_Query_correct:
  "RangeTree_Query (snd (RangeTree_Build vs)) i = filter (Interval_Contains i) (sorted_list_of_set (set vs))"
proof -
  let ?t = "snd (RangeTree_Build vs)"
  have "sorted (range_inorder ?t)" unfolding RangeTree_Build_inorder by simp
  from FindSplitNode_filter[OF this, of i] show ?thesis
    unfolding RangeTree_Build_inorder[symmetric]
    by (cases "Range_FindSplitNode ?t i = Null") (simp_all add: RangeTree_Query_def Let_def Range_CollectValues_filter)
qed

text \<open>The built tree holds each value once and has the least possible height: with \<open>n\<close> distinct
  values and height \<open>h\<close>, \<open>n < 2 ^ h\<close> and, unless the tree is empty, \<open>2 ^ (h - 1) \<le> n\<close>.\<close>

theorem RangeTree_Build_balanced:
  "RangeTree_Size (snd (RangeTree_Build vs)) = card (set vs) \<and>
   least_height (card (set vs)) (range_height (snd (RangeTree_Build vs)))"
proof -
  have n: "length (sorted_list_of_set (set vs)) = card (set vs)" by simp
  show ?thesis
    using Range_BuildTree_size[of "remdups_adj (sort vs)" 0 "card (set vs)"]
      Range_BuildTree_height[of "card (set vs)" 0 "remdups_adj (sort vs)"] n
    by (simp add: RangeTree_Build_def Let_def Build_values)
qed

end
