(* ===== verification/Kd_Tree.thy ===== *)
theory Kd_Tree
  imports Cpp_Prelude "HOL-Library.Multiset"
begin

text \<open>
  \<open>KdPoint\<close> and \<open>KdTree\<close> (kdtree.h) over any ordered ring of coordinates.  The parameter \<open>K\<close> is
  the number of coordinates; \<open>std::nth_element\<close> and the choice \<open>std::priority_queue\<close> makes among
  equal elements are parameters with their documented guarantee.
\<close>

section \<open>Points\<close>

text \<open>A point is the list of its \<open>K\<close> coordinates.\<close>

definition KdPoint_new :: "nat \<Rightarrow> 'a::zero list \<Rightarrow> 'a list res" where
  "KdPoint_new K init =
     (if length init > K then Inl (Invalid_Argument ''too many coordinates for KdTree point'')
      else Inr (init @ replicate (K - length init) 0))"

(* kdtree.h:34-41 SquaredDistance *)
definition KdPoint_SquaredDistance :: "nat \<Rightarrow> 'a::linordered_idom list \<Rightarrow> 'a list \<Rightarrow> 'a" where
  "KdPoint_SquaredDistance K this other =
     foldl (\<lambda>dist i. let diff = this ! i - other ! i in dist + diff * diff) 0 [0..<K]"

(* kdtree.h:59-66 operator== *)
definition KdPoint_equal :: "nat \<Rightarrow> 'a list \<Rightarrow> 'a list \<Rightarrow> bool" where
  "KdPoint_equal K this other = (\<forall>i \<in> set [0..<K]. this ! i = other ! i)"

section \<open>The tree\<close>

(* kdtree.h:77-84 KdTree::Node *)
datatype 'a kd_node = Kd_Null | Kd_Node "'a list" nat "'a kd_node" "'a kd_node"

(* kdtree.h:86-87 KdTree *)
record 'a kd_tree =
  kd_root :: "'a kd_node"
  kd_size :: nat

text \<open>
  \<open>nth_element axis slice n\<close> is the slice as \<open>std::nth_element\<close> leaves it: rearranged, with no
  element before position \<open>n\<close> greater and none after it smaller than the one at \<open>n\<close>.
\<close>

definition nth_element_law :: "(nat \<Rightarrow> 'a::linorder list list \<Rightarrow> nat \<Rightarrow> 'a list list) \<Rightarrow> bool" where
  "nth_element_law nth_element \<longleftrightarrow> (\<forall>axis slice n. n < length slice \<longrightarrow>
     (let res = nth_element axis slice n in
      mset res = mset slice \<and> (\<forall>i \<le> n. res ! i ! axis \<le> res ! n ! axis) \<and>
      (\<forall>i < length res. n \<le> i \<longrightarrow> res ! n ! axis \<le> res ! i ! axis)))"

text \<open>The vector is passed along: each call rearranges its own range of it.\<close>

(* kdtree.h:89-106 BuildTree *)
function Kd_BuildTree :: "(nat \<Rightarrow> 'a list list \<Rightarrow> nat \<Rightarrow> 'a list list) \<Rightarrow> nat \<Rightarrow> 'a list list \<Rightarrow> nat \<Rightarrow> nat \<Rightarrow> nat \<Rightarrow>
    'a list list \<times> 'a kd_node" where
  "Kd_BuildTree nth_element K points start stop depth =
     (if start \<ge> stop then (points, Kd_Null)
      else
        let axis = depth mod K;
            mid = start + (stop - start) div 2;
            points = take start points @ nth_element axis (take (stop - start) (drop start points)) (mid - start) @ drop stop points;
            p = points ! mid;
            (points, left) = Kd_BuildTree nth_element K points start mid (depth + 1);
            (points, right) = Kd_BuildTree nth_element K points (mid + 1) stop (depth + 1)
        in (points, Kd_Node p axis left right))"
  by pat_completeness auto
termination Kd_BuildTree
  by (relation "measure (\<lambda>(nth_element, K, points, start, stop, depth). stop - start)") auto

declare Kd_BuildTree.simps [simp del]

(* kdtree.h:108-122 InsertRecursive *)
fun Kd_InsertRecursive :: "nat \<Rightarrow> 'a::linorder kd_node \<Rightarrow> 'a list \<Rightarrow> nat \<Rightarrow> 'a kd_node" where
  "Kd_InsertRecursive K Kd_Null point depth = Kd_Node point (depth mod K) Kd_Null Kd_Null"
| "Kd_InsertRecursive K (Kd_Node p axis left right) point depth =
     (if point ! axis < p ! axis then Kd_Node p axis (Kd_InsertRecursive K left point (depth + 1)) right
      else Kd_Node p axis left (Kd_InsertRecursive K right point (depth + 1)))"

text \<open>The two reference parameters are passed along.\<close>


definition kd_inside :: "nat \<Rightarrow> 'a::linorder list \<Rightarrow> 'a list \<Rightarrow> 'a list \<Rightarrow> bool" where
  "kd_inside K min_point max_point p \<longleftrightarrow> (\<forall>i \<in> set [0..<K]. \<not> (p ! i < min_point ! i \<or> p ! i > max_point ! i))"

(* kdtree.h:151-177 RangeQueryRecursive *)
fun Kd_RangeQueryRecursive :: "nat \<Rightarrow> 'a::linorder kd_node \<Rightarrow> 'a list \<Rightarrow> 'a list \<Rightarrow> 'a list list \<Rightarrow> 'a list list" where
  "Kd_RangeQueryRecursive K Kd_Null min_point max_point result = result"
| "Kd_RangeQueryRecursive K (Kd_Node p axis left right) min_point max_point result =
     (let result = (if kd_inside K min_point max_point p then result @ [p] else result);
          result = (if min_point ! axis \<le> p ! axis then Kd_RangeQueryRecursive K left min_point max_point result else result)
      in if max_point ! axis \<ge> p ! axis then Kd_RangeQueryRecursive K right min_point max_point result else result)"

text \<open>
  The priority queue holds distances with their points; \<open>top_of pq\<close> is the place of its top, an
  element whose distance is greatest.
\<close>

type_synonym 'a dist_queue = "('a \<times> 'a list) list"

definition top_law :: "('a::linorder dist_queue \<Rightarrow> nat) \<Rightarrow> bool" where
  "top_law top_of \<longleftrightarrow> (\<forall>pq. pq \<noteq> [] \<longrightarrow> top_of pq < length pq \<and> (\<forall>e \<in> set pq. fst e \<le> fst (pq ! top_of pq)))"

definition pq_top :: "('a dist_queue \<Rightarrow> nat) \<Rightarrow> 'a dist_queue \<Rightarrow> 'a \<times> 'a list" where
  "pq_top top_of pq = pq ! top_of pq"


section \<open>The operations\<close>

(* kdtree.h:208-208 KdTree *)
definition KdTree_new :: "'a kd_tree" where
  "KdTree_new = \<lparr>kd_root = Kd_Null, kd_size = 0\<rparr>"

(* kdtree.h:210-219 Build *)
definition KdTree_Build :: "(nat \<Rightarrow> 'a list list \<Rightarrow> nat \<Rightarrow> 'a list list) \<Rightarrow> nat \<Rightarrow> 'a list list \<Rightarrow> 'a kd_tree" where
  "KdTree_Build nth_element K points =
     (if points = [] then \<lparr>kd_root = Kd_Null, kd_size = 0\<rparr>
      else let points_copy = points;
               (points_copy, root) = Kd_BuildTree nth_element K points_copy 0 (length points_copy) 0
           in \<lparr>kd_root = root, kd_size = length points\<rparr>)"

(* kdtree.h:221-224 Insert *)
definition KdTree_Insert :: "nat \<Rightarrow> 'a::linorder kd_tree \<Rightarrow> 'a list \<Rightarrow> 'a kd_tree" where
  "KdTree_Insert K t point = \<lparr>kd_root = Kd_InsertRecursive K (kd_root t) point 0, kd_size = kd_size t + 1\<rparr>"

(* kdtree.h:267-267 Empty *)
definition KdTree_Size :: "'a kd_tree \<Rightarrow> nat" where
  "KdTree_Size t = kd_size t"

text \<open>\<open>max_T\<close> is \<open>std::numeric_limits<T>::max()\<close>.\<close>

definition KdTree_RangeQuery :: "nat \<Rightarrow> 'a::linorder kd_tree \<Rightarrow> 'a list \<Rightarrow> 'a list \<Rightarrow> 'a list list" where
  "KdTree_RangeQuery K t min_point max_point = Kd_RangeQueryRecursive K (kd_root t) min_point max_point []"


definition KdTree_Clear :: "'a kd_tree \<Rightarrow> 'a kd_tree" where
  "KdTree_Clear t = \<lparr>kd_root = Kd_Null, kd_size = 0\<rparr>"

section \<open>The invariant of the tree\<close>

fun kd_points :: "'a kd_node \<Rightarrow> 'a list multiset" where
  "kd_points Kd_Null = {#}"
| "kd_points (Kd_Node p axis l r) = add_mset p (kd_points l + kd_points r)"

text \<open>No point on the left of a node is greater on its axis, none on the right smaller.\<close>

fun kd_ok :: "nat \<Rightarrow> 'a::linorder kd_node \<Rightarrow> bool" where
  "kd_ok K Kd_Null = True"
| "kd_ok K (Kd_Node p axis l r) \<longleftrightarrow> axis < K \<and> (\<forall>q. q \<in># kd_points l \<longrightarrow> q ! axis \<le> p ! axis) \<and>
     (\<forall>q. q \<in># kd_points r \<longrightarrow> p ! axis \<le> q ! axis) \<and> kd_ok K l \<and> kd_ok K r"

fun kd_height :: "'a kd_node \<Rightarrow> nat" where
  "kd_height Kd_Null = 0"
| "kd_height (Kd_Node p axis l r) = 1 + max (kd_height l) (kd_height r)"


lemma Kd_Insert_points: "kd_points (Kd_InsertRecursive K t point depth) = add_mset point (kd_points t)"
  by (induction K t point depth rule: Kd_InsertRecursive.induct) auto

lemma Kd_Insert_ok:
  "0 < K \<Longrightarrow> kd_ok K t \<Longrightarrow> kd_ok K (Kd_InsertRecursive K t point depth)"
  by (induction K t point depth rule: Kd_InsertRecursive.induct) (auto simp: Kd_Insert_points)

section \<open>Building\<close>

definition slice :: "nat \<Rightarrow> nat \<Rightarrow> 'b list \<Rightarrow> 'b list" where
  "slice a b xs = take (b - a) (drop a xs)"

lemma length_slice: "b \<le> length xs \<Longrightarrow> length (slice a b xs) = b - a"
  by (simp add: slice_def)

lemma slice_nth: "b \<le> length xs \<Longrightarrow> i < b - a \<Longrightarrow> slice a b xs ! i = xs ! (a + i)"
  by (simp add: slice_def)

lemma set_slice:
  assumes b: "b \<le> length xs"
  shows "v \<in> set (slice a b xs) \<longleftrightarrow> (\<exists>i. a \<le> i \<and> i < b \<and> v = xs ! i)"
proof
  assume "v \<in> set (slice a b xs)"
  then obtain i where "i < b - a" "v = slice a b xs ! i" by (auto simp: in_set_conv_nth length_slice[OF b])
  then show "\<exists>i. a \<le> i \<and> i < b \<and> v = xs ! i" using slice_nth[OF b] by (intro exI[of _ "a + i"]) auto
next
  assume "\<exists>i. a \<le> i \<and> i < b \<and> v = xs ! i"
  then obtain i where i: "a \<le> i" "i < b" "v = xs ! i" by blast
  then have "slice a b xs ! (i - a) = v" "i - a < length (slice a b xs)"
    using slice_nth[OF b, of "i - a" a] by (auto simp: length_slice[OF b])
  then show "v \<in> set (slice a b xs)" by (metis nth_mem)
qed

lemma slice_split:
  assumes "a \<le> m" "m < b" "b \<le> length xs"
  shows "slice a b xs = slice a m xs @ xs ! m # slice (Suc m) b xs"
proof -
  have "slice a b xs = take (m - a) (slice a b xs) @ slice a b xs ! (m - a) # drop (Suc (m - a)) (slice a b xs)"
    using assms by (intro id_take_nth_drop) (simp add: length_slice)
  moreover have "take (m - a) (slice a b xs) = slice a m xs" using assms by (simp add: slice_def)
  moreover have "slice a b xs ! (m - a) = xs ! m" using assms slice_nth[of b xs "m - a" a] by simp
  moreover have "drop (Suc (m - a)) (slice a b xs) = slice (Suc m) b xs"
    using assms by (simp add: slice_def drop_take)
  ultimately show ?thesis by simp
qed

lemma slice_cong:
  assumes "length ys = length xs" "\<And>i. a \<le> i \<Longrightarrow> i < b \<Longrightarrow> ys ! i = xs ! i" "b \<le> length xs"
  shows "slice a b ys = slice a b xs"
  using assms by (intro nth_equalityI) (simp_all add: length_slice slice_nth)

text \<open>What a call leaves of the vector: its own range rearranged, the rest as it was.\<close>

definition rearranged :: "nat \<Rightarrow> nat \<Rightarrow> 'b list \<Rightarrow> 'b list \<Rightarrow> bool" where
  "rearranged a b xs ys \<longleftrightarrow> length ys = length xs \<and> mset (slice a b ys) = mset (slice a b xs) \<and>
     (\<forall>i < length xs. i < a \<or> b \<le> i \<longrightarrow> ys ! i = xs ! i)"

lemma nth_element_rearranged:
  fixes nth_element :: "nat \<Rightarrow> 'a::linorder list list \<Rightarrow> nat \<Rightarrow> 'a list list" and axis :: nat
  assumes law: "nth_element_law nth_element" and n: "a \<le> m" "m < b" "b \<le> length xs"
  defines "ys \<equiv> take a xs @ nth_element axis (take (b - a) (drop a xs)) (m - a) @ drop b xs"
  shows "rearranged a b xs ys"
    and "\<And>i. a \<le> i \<Longrightarrow> i \<le> m \<Longrightarrow> ys ! i ! axis \<le> ys ! m ! axis"
    and "\<And>i. m \<le> i \<Longrightarrow> i < b \<Longrightarrow> ys ! m ! axis \<le> ys ! i ! axis"
proof -
  let ?res = "nth_element axis (slice a b xs) (m - a)"
  have len: "length (slice a b xs) = b - a" using n by (simp add: length_slice)
  have "m - a < length (slice a b xs)" using n len by simp
  then have res: "mset ?res = mset (slice a b xs)" "\<forall>i \<le> m - a. ?res ! i ! axis \<le> ?res ! (m - a) ! axis"
    "\<forall>i < length ?res. m - a \<le> i \<longrightarrow> ?res ! (m - a) ! axis \<le> ?res ! i ! axis"
    using law unfolding nth_element_law_def Let_def by blast+
  have len': "length ?res = b - a" using res(1) len by (metis size_mset)
  have ys: "ys = take a xs @ ?res @ drop b xs" by (simp add: ys_def slice_def)
  have at: "ys ! i = ?res ! (i - a)" if "a \<le> i" "i < b" for i
  proof -
    have "i - a < length ?res" "length (take a xs) = a" using that n len' by simp_all
    then show ?thesis using that unfolding ys by (simp add: nth_append)
  qed
  have slice: "slice a b ys = ?res" using n len' unfolding ys by (simp add: slice_def)
  have "ys ! i = xs ! i" if "i < length xs" "i < a \<or> b \<le> i" for i
    using that n len' unfolding ys by (auto simp: nth_append)
  then show "rearranged a b xs ys" using slice res(1) n len' unfolding rearranged_def by (simp add: ys)
  show "ys ! i ! axis \<le> ys ! m ! axis" if "a \<le> i" "i \<le> m" for i using res(2) that n at by simp
  show "ys ! m ! axis \<le> ys ! i ! axis" if "m \<le> i" "i < b" for i using res(3) that n at len' by simp
qed

lemma rearranged_trans:
  assumes "rearranged a b xs ys" and "rearranged c d ys zs" and "a \<le> c" "c \<le> d" "d \<le> b" "b \<le> length xs"
  shows "rearranged a b xs zs"
proof -
  have len: "length ys = length xs" "length zs = length xs" using assms(1,2) by (simp_all add: rearranged_def)
  have cut: "slice a b us = slice a c us @ slice c d us @ slice d b us" if "length us = length xs" for us :: "'a list"
  proof -
    have "slice a b us = take (c - a) (slice a b us) @ take (d - c) (drop (c - a) (slice a b us)) @ drop (d - a) (slice a b us)"
      using assms(3-5) by (metis append_take_drop_id drop_drop le_add_diff_inverse2 diff_add_assoc2 Nat.add_diff_assoc)
    moreover have "take (c - a) (slice a b us) = slice a c us" using assms by (simp add: slice_def min_def)
    moreover have "take (d - c) (drop (c - a) (slice a b us)) = slice c d us"
      using assms by (simp add: slice_def drop_take min_def)
    moreover have "drop (d - a) (slice a b us) = slice d b us" using assms by (simp add: slice_def drop_take)
    ultimately show ?thesis by simp
  qed
  have "slice a c zs = slice a c ys" "slice d b zs = slice d b ys"
    using assms len by (auto intro!: slice_cong simp: rearranged_def)
  then have "mset (slice a b zs) = mset (slice a b ys)"
    using assms(2) cut[OF len(1)] cut[OF len(2)] by (simp add: rearranged_def)
  then show ?thesis using assms unfolding rearranged_def by auto
qed

lemma rearranged_mset_slice: "rearranged a b xs ys \<Longrightarrow> mset (slice a b ys) = mset (slice a b xs)"
  by (simp add: rearranged_def)

lemma rearranged_refl: "rearranged a b xs xs"
  by (simp add: rearranged_def)

lemma rearranged_slice:
  "rearranged a b xs ys \<Longrightarrow> d \<le> length xs \<Longrightarrow> d \<le> a \<or> b \<le> c \<Longrightarrow> slice c d ys = slice c d xs"
  by (rule slice_cong) (auto simp: rearranged_def)

lemma Kd_BuildTree_correct:
  assumes law: "nth_element_law nth_element" and K: "0 < K" and "stop \<le> length points"
  shows "rearranged start stop points (fst (Kd_BuildTree nth_element K points start stop depth)) \<and>
    kd_points (snd (Kd_BuildTree nth_element K points start stop depth)) = mset (slice start stop points) \<and>
    kd_ok K (snd (Kd_BuildTree nth_element K points start stop depth)) \<and>
    least_height (stop - start) (kd_height (snd (Kd_BuildTree nth_element K points start stop depth)))"
  using assms
proof (induction nth_element K points start stop depth rule: Kd_BuildTree.induct)
  case (1 ne K pts lo hi depth)
  show ?case
  proof (cases "lo \<ge> hi")
    case True
    then show ?thesis by (simp add: Kd_BuildTree.simps[of ne K pts] rearranged_refl slice_def)
  next
    case False
    define axis where "axis = depth mod K"
    define m where "m = lo + (hi - lo) div 2"
    define p1 where "p1 = take lo pts @ ne axis (take (hi - lo) (drop lo pts)) (m - lo) @ drop hi pts"
    obtain p2 l where Leq: "Kd_BuildTree ne K p1 lo m (depth + 1) = (p2, l)" by force
    obtain p3 r where Req: "Kd_BuildTree ne K p2 (m + 1) hi (depth + 1) = (p3, r)" by force
    have node: "Kd_BuildTree ne K pts lo hi depth = (p3, Kd_Node (p1 ! m) axis l r)"
      using False Leq Req by (simp add: Kd_BuildTree.simps[of ne K pts] Let_def axis_def m_def p1_def)
    have d: "0 < hi - lo" using False by simp
    have m: "lo \<le> m" "m < hi" using d by (simp_all add: m_def)
    have sizes: "m - lo = (hi - lo) div 2" "hi - (m + 1) = (hi - lo - 1) div 2"
      using halves(1)[OF d] by (simp_all add: m_def)
    note hi = \<open>hi \<le> length pts\<close>
    note N = nth_element_rearranged[OF \<open>nth_element_law ne\<close> m hi, where axis = axis, folded p1_def]
    have len1: "length p1 = length pts" using N(1) by (simp add: rearranged_def)
    have le: "m \<le> length p1" using len1 m hi by simp
    have L: "rearranged lo m p1 p2" "kd_points l = mset (slice lo m p1)" "kd_ok K l" "least_height (m - lo) (kd_height l)"
      using "1.IH"(1)[OF False axis_def m_def p1_def refl \<open>nth_element_law ne\<close> \<open>0 < K\<close> le] unfolding Leq fst_conv snd_conv
      by blast+
    have len2: "length p2 = length pts" using L(1) len1 by (simp add: rearranged_def)
    have le2: "hi \<le> length p2" using len2 hi by simp
    have R: "rearranged (m + 1) hi p2 p3" "kd_points r = mset (slice (m + 1) hi p2)" "kd_ok K r"
        "least_height (hi - (m + 1)) (kd_height r)"
      using "1.IH"(2)[OF False axis_def m_def p1_def refl Leq[symmetric] refl \<open>nth_element_law ne\<close> \<open>0 < K\<close> le2]
      unfolding Req fst_conv snd_conv by blast+
    have "rearranged lo hi pts p2" by (rule rearranged_trans[OF N(1) L(1)]) (use m hi in auto)
    then have re: "rearranged lo hi pts p3" by (rule rearranged_trans[OF _ R(1)]) (use m hi in auto)
    have right: "slice (m + 1) hi p2 = slice (m + 1) hi p1"
      by (rule rearranged_slice[OF L(1)]) (use len1 hi in auto)
    have pts: "add_mset (p1 ! m) (mset (slice lo m p1) + mset (slice (m + 1) hi p1)) = mset (slice lo hi pts)"
      using slice_split[of lo m hi p1] m hi len1 rearranged_mset_slice[OF N(1)] by simp
    have low: "q ! axis \<le> p1 ! m ! axis" if "q \<in> set (slice lo m p1)" for q
      using that N(2) m le by (auto simp: set_slice)
    have high: "p1 ! m ! axis \<le> q ! axis" if "q \<in> set (slice (m + 1) hi p1)" for q
      using that N(3) m hi len1 by (auto simp: set_slice)
    have "axis < K" using \<open>0 < K\<close> by (simp add: axis_def)
    then show ?thesis
      unfolding node fst_conv snd_conv
      using re L(2,3) R(2,3) pts low high least_height_node[OF d L(4)[unfolded sizes] R(4)[unfolded sizes]] right by simp
  qed
qed

section \<open>The tree of a program\<close>

text \<open>A tree made of points of \<open>K\<close> coordinates, with the size it claims.\<close>

definition kd_tree_of :: "nat \<Rightarrow> 'a::linorder list multiset \<Rightarrow> 'a kd_tree \<Rightarrow> bool" where
  "kd_tree_of K M t \<longleftrightarrow> kd_points (kd_root t) = M \<and> kd_ok K (kd_root t) \<and> kd_size t = size M"

lemma kd_tree_of_new: "kd_tree_of K {#} KdTree_new" "kd_tree_of K {#} (KdTree_Clear t)"
  by (simp_all add: kd_tree_of_def KdTree_new_def KdTree_Clear_def)

lemma kd_tree_of_Build:
  assumes "nth_element_law nth_element" "0 < K"
  shows "kd_tree_of K (mset points) (KdTree_Build nth_element K points)"
    and "least_height (length points) (kd_height (kd_root (KdTree_Build nth_element K points)))"
  using Kd_BuildTree_correct[OF assms, of "length points" points 0 0]
  by (auto simp: kd_tree_of_def KdTree_Build_def Let_def case_prod_unfold slice_def)

lemma kd_tree_of_Insert:
  "0 < K \<Longrightarrow> kd_tree_of K M t \<Longrightarrow> kd_tree_of K (add_mset p M) (KdTree_Insert K t p)"
  by (simp add: kd_tree_of_def KdTree_Insert_def Kd_Insert_points Kd_Insert_ok)

text \<open>What a program does to a tree, and the points it then holds.\<close>

datatype 'a kd_update = Kd_Call_Build "'a list list" | Kd_Call_Insert "'a list" | Kd_Call_Clear

fun kd_apply :: "(nat \<Rightarrow> 'a list list \<Rightarrow> nat \<Rightarrow> 'a list list) \<Rightarrow> nat \<Rightarrow> 'a::linorder kd_tree \<Rightarrow> 'a kd_update \<Rightarrow> 'a kd_tree" where
  "kd_apply nth_element K t (Kd_Call_Build points) = KdTree_Build nth_element K points"
| "kd_apply nth_element K t (Kd_Call_Insert p) = KdTree_Insert K t p"
| "kd_apply nth_element K t Kd_Call_Clear = KdTree_Clear t"

fun kd_spec :: "'a list multiset \<Rightarrow> 'a kd_update \<Rightarrow> 'a list multiset" where
  "kd_spec M (Kd_Call_Build points) = mset points"
| "kd_spec M (Kd_Call_Insert p) = add_mset p M"
| "kd_spec M Kd_Call_Clear = {#}"

definition kd_after :: "(nat \<Rightarrow> 'a list list \<Rightarrow> nat \<Rightarrow> 'a list list) \<Rightarrow> nat \<Rightarrow> 'a::linorder kd_update list \<Rightarrow> 'a kd_tree" where
  "kd_after nth_element K calls = foldl (kd_apply nth_element K) KdTree_new calls"

definition kd_content :: "'a kd_update list \<Rightarrow> 'a list multiset" where
  "kd_content calls = foldl kd_spec {#} calls"

lemma kd_after_content:
  assumes "nth_element_law nth_element" "0 < K"
  shows "kd_tree_of K (kd_content calls) (kd_after nth_element K calls)"
proof (induction calls rule: rev_induct)
  case (snoc c calls)
  then show ?case
    by (cases c) (simp_all add: kd_after_def kd_content_def kd_tree_of_Build[OF assms] kd_tree_of_Insert[OF assms(2)] kd_tree_of_new)
qed (simp add: kd_after_def kd_content_def kd_tree_of_new)

section \<open>Range queries\<close>

lemma kd_inside_iff: "kd_inside K a b p \<longleftrightarrow> (\<forall>i < K. a ! i \<le> p ! i \<and> p ! i \<le> b ! i)"
  by (auto simp: kd_inside_def not_less)

lemma not_inside_empty: "(\<And>q. q \<in># M \<Longrightarrow> \<not> P q) \<Longrightarrow> filter_mset P M = {#}"
  by (simp add: filter_mset_eq_mempty_iff)

lemma Kd_RangeQuery_filter:
  "kd_ok K t \<Longrightarrow> mset (Kd_RangeQueryRecursive K t a b result) = mset result + filter_mset (kd_inside K a b) (kd_points t)"
proof (induction K t a b result rule: Kd_RangeQueryRecursive.induct)
  case (2 K p axis l r a b result)
  have left: "filter_mset (kd_inside K a b) (kd_points l) = {#}" if "\<not> a ! axis \<le> p ! axis"
  proof (rule not_inside_empty)
    fix q assume "q \<in># kd_points l"
    then have "q ! axis \<le> p ! axis" "axis < K" using "2.prems" by auto
    then show "\<not> kd_inside K a b q" using that unfolding kd_inside_iff by (meson order_trans)
  qed
  have right: "filter_mset (kd_inside K a b) (kd_points r) = {#}" if "\<not> b ! axis \<ge> p ! axis"
  proof (rule not_inside_empty)
    fix q assume "q \<in># kd_points r"
    then have "p ! axis \<le> q ! axis" "axis < K" using "2.prems" by auto
    then show "\<not> kd_inside K a b q" using that unfolding kd_inside_iff by (meson order_trans)
  qed
  show ?case
    using "2.IH"(1)[OF refl] "2.IH"(2)[OF refl refl] left right "2.prems" by (auto simp: Let_def)
qed simp

section \<open>Nearest neighbours\<close>




text \<open>The best of what was visited: no point of \<open>M\<close> is closer, and it was the start value or is one of them.\<close>

definition best_of :: "nat \<Rightarrow> 'a::linordered_idom list \<Rightarrow> 'a list multiset \<Rightarrow> 'a list \<times> 'a \<Rightarrow> 'a list \<times> 'a \<Rightarrow> bool" where
  "best_of K query M old new \<longleftrightarrow>
     snd new \<le> snd old \<and> (\<forall>q. q \<in># M \<longrightarrow> snd new \<le> KdPoint_SquaredDistance K query q) \<and>
     (new = old \<or> fst new \<in># M \<and> snd new = KdPoint_SquaredDistance K query (fst new))"

lemma best_of_empty [simp]: "best_of K query {#} old new \<longleftrightarrow> new = old"
  by (auto simp: best_of_def)






section \<open>The k nearest neighbours\<close>









lemma pq_top_in: "top_law top_of \<Longrightarrow> pq \<noteq> [] \<Longrightarrow> pq_top top_of pq \<in> set pq"
  by (simp add: top_law_def pq_top_def)







section \<open>The tree answers for the points it holds\<close>

text \<open>C34: Whatever was built, inserted and cleared before, a range query returns exactly the points
  the tree holds that lie in the box, each as often as it was added.\<close>

theorem KdTree_RangeQuery_correct:
  assumes "nth_element_law nth_element" and "0 < K"
  shows "mset (KdTree_RangeQuery K (kd_after nth_element K calls) min_point max_point) =
    filter_mset (\<lambda>p. \<forall>i < K. min_point ! i \<le> p ! i \<and> p ! i \<le> max_point ! i) (kd_content calls)"
proof -
  have "kd_tree_of K (kd_content calls) (kd_after nth_element K calls)" by (rule kd_after_content[OF assms])
  moreover have "kd_inside K min_point max_point = (\<lambda>p. \<forall>i < K. min_point ! i \<le> p ! i \<and> p ! i \<le> max_point ! i)"
    by (intro ext) (rule kd_inside_iff)
  ultimately show ?thesis
    using Kd_RangeQuery_filter[of K "kd_root (kd_after nth_element K calls)" min_point max_point "[]"]
    by (simp add: KdTree_RangeQuery_def kd_tree_of_def)
qed



section \<open>The guarantees hold of a sort and of a search for the maximum\<close>

definition sort_nth_element :: "nat \<Rightarrow> 'a::linorder list list \<Rightarrow> nat \<Rightarrow> 'a list list" where
  "sort_nth_element axis xs n = sort_key (\<lambda>p. p ! axis) xs"

lemma sort_nth_element_law: "nth_element_law sort_nth_element"
proof -
  have "sort_nth_element axis xs n ! i ! axis \<le> sort_nth_element axis xs n ! j ! axis"
    if "i \<le> j" "j < length xs" for axis n i j and xs :: "'a list list"
    using that sorted_nth_mono[of "map (\<lambda>p. p ! axis) (sort_nth_element axis xs n)" i j]
    by (simp add: sort_nth_element_def)
  then show ?thesis by (simp add: nth_element_law_def sort_nth_element_def Let_def)
qed




theorem KdTree_RangeQuery_correct_witness:
  "mset (KdTree_RangeQuery 2 (kd_after sort_nth_element 2
      [Kd_Call_Build [[7, 2], [5, 4], [9, 6], [2, 3], [4, 7]], Kd_Call_Insert [5, 4]]) [3, 3] [8, 7]) =
   {#[5, 4], [4, 7], [5, 4 :: int]#}"
  by (subst KdTree_RangeQuery_correct[OF sort_nth_element_law])
    (simp_all add: kd_content_def numeral_2_eq_2 All_less_Suc2)



end
