(* ===== verification/Atomic_Queue.thy ===== *)
theory Atomic_Queue
  imports Cpp_Prelude
begin

text \<open>
  What the unbounded concurrent queues promise.  A queue is a machine whose steps are the atomic
  actions of its threads; each step may have undefined behaviour (\<open>None\<close>), or leads to a state
  and is seen as an action.  The specification is an atomic FIFO queue: every call takes effect at
  one moment between its invocation and its return.  The locale \<open>lock_step\<close> is the interface: a
  relation that every step keeps, from which the behaviour of all schedules follows.
\<close>

text \<open>The type \<open>int\<close> of the elements.\<close>

type_synonym cpp_int = "32 word"

section \<open>Runs\<close>

fun run_steps :: "('s \<Rightarrow> 'e \<Rightarrow> ('s \<times> 'a) option) \<Rightarrow> 's \<Rightarrow> 'e list \<Rightarrow> ('a list \<times> 's) option" where
  "run_steps step s [] = Some ([], s)"
| "run_steps step s (e # es) =
     Option.bind (step s e) (\<lambda>(s', a). Option.bind (run_steps step s' es) (\<lambda>(as, s''). Some (a # as, s'')))"

fun run_spec :: "('f \<Rightarrow> 'a \<Rightarrow> 'f option) \<Rightarrow> 'f \<Rightarrow> 'a list \<Rightarrow> 'f option" where
  "run_spec spec f [] = Some f"
| "run_spec spec f (a # as) = Option.bind (spec f a) (\<lambda>f'. run_spec spec f' as)"

locale lock_step =
  fixes step :: "'s \<Rightarrow> 'e \<Rightarrow> ('s \<times> 'a) option"
    and spec :: "'f \<Rightarrow> 'a \<Rightarrow> 'f option"
    and rel :: "'s \<Rightarrow> 'f \<Rightarrow> bool"
  assumes rel_step: "rel s f \<Longrightarrow> \<exists>s' a f'. step s e = Some (s', a) \<and> spec f a = Some f' \<and> rel s' f'"
begin

lemma rel_run:
  "rel s f \<Longrightarrow> \<exists>s' as f'. run_steps step s es = Some (as, s') \<and> run_spec spec f as = Some f' \<and> rel s' f'"
proof (induction es arbitrary: s f)
  case (Cons e es)
  from rel_step[OF Cons.prems, of e] obtain s' a f' where
    one: "step s e = Some (s', a)" "spec f a = Some f'" "rel s' f'" by blast
  from Cons.IH[OF one(3)] obtain s'' as f'' where
    "run_steps step s' es = Some (as, s'')" "run_spec spec f' as = Some f''" "rel s'' f''" by blast
  with one show ?case by (intro exI[of _ s''] exI[of _ "a # as"] exI[of _ f'']) simp
qed simp

lemma run_accepted:
  assumes "rel s f"
  shows "\<exists>as s'. run_steps step s es = Some (as, s') \<and> run_spec spec f as \<noteq> None"
  using rel_run[OF assms, of es] by auto

lemma run_reaches:
  assumes "rel s f" "run_steps step s es = Some (as, s')"
  obtains f' where "run_spec spec f as = Some f'" "rel s' f'"
  using rel_run[OF assms(1), of es] assms(2) by auto

end

section \<open>The atomic queue\<close>

datatype ('t, 'v) queue_act =
    Tau
  | Call_Enq 't 'v | Did_Enq 't 'v | Ret_Enq 't
  | Call_Deq 't | Did_Deq 't 'v | Ret_Deq 't "'v option"

text \<open>
  Where a call stands: an \<open>Enqueue\<close> before or after it took effect, a \<open>Dequeue\<close> that has taken
  nothing yet, with the note whether the queue has been empty since it began, or that has taken an
  element.
\<close>

datatype 'v queue_call = No_Call | Enq_Call 'v bool | Deq_Call bool | Deq_Took 'v

fun note_empty :: "'v list \<Rightarrow> 'v queue_call \<Rightarrow> 'v queue_call" where
  "note_empty items (Deq_Call seen) = Deq_Call (seen \<or> items = [])"
| "note_empty items c = c"

text \<open>\<open>Dequeue\<close> may return nothing only if the queue was empty at some moment of the call.\<close>

fun atomic_queue :: "'v list \<times> ('t \<Rightarrow> 'v queue_call) \<Rightarrow> ('t, 'v) queue_act \<Rightarrow> ('v list \<times> ('t \<Rightarrow> 'v queue_call)) option" where
  "atomic_queue f Tau = Some f"
| "atomic_queue (items, calls) (Call_Enq t v) =
     (if calls t = No_Call then Some (items, calls(t := Enq_Call v False)) else None)"
| "atomic_queue (items, calls) (Did_Enq t v) =
     (if calls t = Enq_Call v False then Some (items @ [v], calls(t := Enq_Call v True)) else None)"
| "atomic_queue (items, calls) (Ret_Enq t) =
     (case calls t of Enq_Call v True \<Rightarrow> Some (items, calls(t := No_Call)) | _ \<Rightarrow> None)"
| "atomic_queue (items, calls) (Call_Deq t) =
     (if calls t = No_Call then Some (items, calls(t := Deq_Call (items = []))) else None)"
| "atomic_queue (items, calls) (Did_Deq t v) =
     (case (items, calls t) of
        (w # rest, Deq_Call b) \<Rightarrow> if w = v then Some (rest, (note_empty rest \<circ> calls)(t := Deq_Took v)) else None
      | _ \<Rightarrow> None)"
| "atomic_queue (items, calls) (Ret_Deq t r) =
     (case (r, calls t) of
        (Some v, Deq_Took w) \<Rightarrow> if v = w then Some (items, calls(t := No_Call)) else None
      | (None, Deq_Call True) \<Rightarrow> Some (items, calls(t := No_Call))
      | _ \<Rightarrow> None)"

text \<open>Elements leave in the order in which they entered, none is lost and none comes twice.\<close>

fun entered :: "('t, 'v) queue_act list \<Rightarrow> 'v list" where
  "entered [] = []"
| "entered (Did_Enq t v # as) = v # entered as"
| "entered (a # as) = entered as"

fun left_queue :: "('t, 'v) queue_act list \<Rightarrow> 'v list" where
  "left_queue [] = []"
| "left_queue (Did_Deq t v # as) = v # left_queue as"
| "left_queue (a # as) = left_queue as"

lemma atomic_queue_fifo:
  "run_spec atomic_queue (items, calls) as = Some (items', calls') \<Longrightarrow> items @ entered as = left_queue as @ items'"
proof (induction as arbitrary: items calls)
  case (Cons a as)
  from Cons.prems show ?case
    by (cases a) (auto dest!: Cons.IH split: if_splits list.splits option.splits queue_call.splits bool.splits simp: bind_eq_Some_conv)
qed simp

section \<open>Chains of nodes\<close>

text \<open>
  \<open>nx p\<close> is \<open>None\<close> when no node is at \<open>p\<close>, otherwise the \<open>next\<close> pointer of the node.  A chain ends
  in a node whose \<open>next\<close> is null.
\<close>

fun chained :: "('p \<Rightarrow> 'p option option) \<Rightarrow> 'p list \<Rightarrow> bool" where
  "chained nx [] \<longleftrightarrow> False"
| "chained nx [p] \<longleftrightarrow> nx p = Some None"
| "chained nx (p # q # ps) \<longleftrightarrow> nx p = Some (Some q) \<and> chained nx (q # ps)"

lemma chained_Cons: "chained nx (p # ps) \<longleftrightarrow>
    (case ps of [] \<Rightarrow> nx p = Some None | q # qs \<Rightarrow> nx p = Some (Some q) \<and> chained nx ps)"
  by (cases ps) auto

lemma chained_nonempty: "chained nx ps \<Longrightarrow> ps \<noteq> []"
  by auto

lemma chained_suffix: "chained nx (ps @ qs) \<Longrightarrow> qs \<noteq> [] \<Longrightarrow> chained nx qs"
proof (induction ps)
  case (Cons p ps)
  then show ?case by (cases "ps @ qs") auto
qed simp

lemma chained_unique: "chained nx (p # ps) \<Longrightarrow> chained nx (p # qs) \<Longrightarrow> ps = qs"
proof (induction ps arbitrary: p qs)
  case Nil
  then show ?case by (cases qs) auto
next
  case (Cons r ps)
  then show ?case by (cases qs) auto
qed

lemma chained_distinct: "chained nx ps \<Longrightarrow> distinct ps"
proof (induction ps)
  case (Cons p ps)
  have "p \<notin> set ps"
  proof
    assume "p \<in> set ps"
    then obtain us vs where ps: "ps = us @ p # vs" by (auto simp: in_set_conv_decomp)
    have "chained nx (p # vs)" using chained_suffix[of nx "p # us" "p # vs"] Cons.prems ps by simp
    then have "vs = ps" using chained_unique[OF _ Cons.prems] by blast
    then show False using ps by simp
  qed
  moreover have "distinct ps" using Cons by (cases ps) auto
  ultimately show ?case by simp
qed simp

lemma chained_alloc: "chained nx ps \<Longrightarrow> p \<in> set ps \<Longrightarrow> nx p \<noteq> None"
  by (induction ps rule: induct_list012) auto

lemma chained_cong: "(\<And>p. p \<in> set ps \<Longrightarrow> nx' p = nx p) \<Longrightarrow> chained nx' ps = chained nx ps"
  by (induction ps rule: induct_list012) auto

lemma chained_last: "chained nx ps \<Longrightarrow> nx (last ps) = Some None"
  by (induction ps rule: induct_list012) auto

lemma chained_last_iff: "chained nx ps \<Longrightarrow> p \<in> set ps \<Longrightarrow> nx p = Some None \<longleftrightarrow> p = last ps"
  by (induction ps rule: induct_list012) (auto split: if_splits dest: chained_distinct)

lemma chained_next: "chained nx ps \<Longrightarrow> p \<in> set ps \<Longrightarrow> nx p = Some (Some q) \<Longrightarrow> q \<in> set ps"
  by (induction ps rule: induct_list012) auto

lemma chained_snoc:
  "chained nx ps \<Longrightarrow> nx' (last ps) = Some (Some n) \<Longrightarrow> nx' n = Some None \<Longrightarrow>
    (\<And>p. p \<in> set ps \<Longrightarrow> p \<noteq> last ps \<Longrightarrow> nx' p = nx p) \<Longrightarrow> chained nx' (ps @ [n])"
proof (induction ps rule: induct_list012)
  case (3 x y zs)
  have "x \<noteq> last (y # zs)" using chained_distinct[OF "3.prems"(1)] by (auto split: if_splits)
  then show ?case using 3 by (auto split: if_splits)
qed auto

section \<open>Nodes that a thread holds for itself\<close>

text \<open>
  \<open>own t\<close> is the node only thread \<open>t\<close> knows.  \<open>C\<close> are the nodes of the list and \<open>D\<close> all nodes of
  the heap: each is in the list or has one owner.
\<close>

definition owned_apart :: "('t \<rightharpoonup> 'p) \<Rightarrow> 'p set \<Rightarrow> 'p set \<Rightarrow> bool" where
  "owned_apart own C D \<longleftrightarrow> (\<forall>t u n. own t = Some n \<and> own u = Some n \<longrightarrow> t = u) \<and>
     (\<forall>t n. own t = Some n \<longrightarrow> n \<notin> C) \<and> D = C \<union> ran own"

lemma owned_apartD:
  assumes "owned_apart own C D"
  shows "\<And>t u n. own t = Some n \<Longrightarrow> own u = Some n \<Longrightarrow> t = u" "\<And>t n. own t = Some n \<Longrightarrow> n \<notin> C"
    "\<And>t n. own t = Some n \<Longrightarrow> n \<in> D" "C \<subseteq> D"
    "\<And>n. n \<in> D \<Longrightarrow> n \<notin> C \<Longrightarrow> \<exists>t. own t = Some n"
  using assms unfolding owned_apart_def by (blast | auto simp: ran_def)+

lemma ran_release:
  assumes "owned_apart own C D" "own t = Some n"
  shows "ran (own(t := None)) = ran own - {n}"
proof -
  have only: "own u = Some n \<longleftrightarrow> u = t" for u using owned_apartD(1)[OF assms(1)] assms(2) by metis
  show ?thesis
  proof (intro set_eqI iffI)
    fix x assume "x \<in> ran own - {n}"
    then obtain u where "own u = Some x" "u \<noteq> t" unfolding ran_def using assms(2) by force
    then show "x \<in> ran (own(t := None))" by (intro ranI[of _ u]) simp
  qed (use only in \<open>auto simp: ran_def split: if_splits\<close>)
qed

lemma owned_apart_gain:
  "owned_apart own C D \<Longrightarrow> own t = None \<Longrightarrow> a \<notin> D \<Longrightarrow> owned_apart (own(t \<mapsto> a)) C (insert a D)"
  unfolding owned_apart_def by (simp add: ran_map_upd) (metis ranI UnI2)

lemma owned_apart_link:
  assumes "owned_apart own C D" "own t = Some n"
  shows "owned_apart (own(t := None)) (insert n C) D"
proof -
  have "ran (own(t := None)) = ran own - {n}" by (rule ran_release[OF assms])
  moreover have "n \<in> ran own" using assms(2) by (rule ranI[of own t])
  ultimately show ?thesis using assms unfolding owned_apart_def by auto
qed

lemma owned_apart_unlink:
  "owned_apart own C D \<Longrightarrow> own t = None \<Longrightarrow> n \<in> C \<Longrightarrow> owned_apart (own(t \<mapsto> n)) (C - {n}) D"
  unfolding owned_apart_def by (auto simp: ran_map_upd)

lemma owned_apart_drop:
  assumes "owned_apart own C D" "own t = Some n"
  shows "owned_apart (own(t := None)) C (D - {n})"
proof -
  have "ran (own(t := None)) = ran own - {n}" by (rule ran_release[OF assms])
  moreover have "n \<notin> C" using assms by (simp add: owned_apart_def)
  ultimately show ?thesis using assms unfolding owned_apart_def by (simp add: Un_Diff)
qed

lemma comp_fun_upd: "f \<circ> (th(t := pc)) = (f \<circ> th)(t := f pc)"
  by (rule fun_upd_comp)

text \<open>An empty queue has been seen empty by every call that is under way.\<close>

definition empty_noted :: "'v list \<Rightarrow> ('t \<Rightarrow> 'v queue_call) \<Rightarrow> bool" where
  "empty_noted items calls \<longleftrightarrow> (items = [] \<longrightarrow> (\<forall>t. calls t \<noteq> Deq_Call False))"

lemma empty_noted_upd:
  "empty_noted items calls \<Longrightarrow> (items = [] \<Longrightarrow> c \<noteq> Deq_Call False) \<Longrightarrow> empty_noted items (calls(t := c))"
  by (simp add: empty_noted_def)

lemma note_empty_other: "note_empty items c = Deq_Call b \<Longrightarrow> \<exists>b'. c = Deq_Call b'"
  by (cases c) auto

lemma empty_noted_taken:
  fixes calls :: "'t \<Rightarrow> 'v queue_call"
  shows "empty_noted rest ((note_empty rest \<circ> calls)(t := Deq_Took v))"
proof -
  have "note_empty [] c \<noteq> Deq_Call False" for c :: "'v queue_call" by (cases c) auto
  then show ?thesis unfolding empty_noted_def by auto
qed


section \<open>The order of the nodes of a chain\<close>

definition before :: "'p list \<Rightarrow> 'p \<Rightarrow> 'p \<Rightarrow> bool" where
  "before xs p q \<longleftrightarrow> (\<exists>i j. i \<le> j \<and> j < length xs \<and> xs ! i = p \<and> xs ! j = q)"

lemma before_in: "before xs p q \<Longrightarrow> p \<in> set xs \<and> q \<in> set xs"
  by (auto simp: before_def)

lemma before_refl: "p \<in> set xs \<Longrightarrow> before xs p p"
  by (auto simp: before_def in_set_conv_nth)

lemma before_snoc: "before xs p q \<Longrightarrow> before (xs @ [n]) p q"
  unfolding before_def by (metis (no_types, lifting) butlast_snoc le_less_trans length_append less_SucI length_Cons list.size(3)
      nth_append add_Suc_right add_0_right)

lemma before_trans: "distinct xs \<Longrightarrow> before xs p q \<Longrightarrow> before xs q r \<Longrightarrow> before xs p r"
  unfolding before_def by (metis le_less_trans le_trans nth_eq_iff_index_eq)

lemma before_last: "distinct xs \<Longrightarrow> before xs (last xs) q \<Longrightarrow> q = last xs"
proof -
  assume "distinct xs" "before xs (last xs) q"
  then obtain i j where ij: "i \<le> j" "j < length xs" "xs ! i = last xs" "xs ! j = q" by (auto simp: before_def)
  then have "xs \<noteq> []" by auto
  then have "xs ! i = xs ! (length xs - 1)" using ij by (simp add: last_conv_nth)
  then have "i = length xs - 1" using \<open>distinct xs\<close> ij by (simp add: nth_eq_iff_index_eq)
  then show ?thesis using ij \<open>xs \<noteq> []\<close> by (simp add: last_conv_nth) (metis le_antisym less_imp_diff_less Suc_pred length_greater_0_conv less_Suc_eq_le)
qed

lemma chained_nth:
  "chained nx xs \<Longrightarrow> i < length xs \<Longrightarrow> nx (xs ! i) = Some (if Suc i < length xs then Some (xs ! Suc i) else None)"
proof (induction xs arbitrary: i rule: induct_list012)
  case (3 x y zs)
  then show ?case by (cases i) auto
qed auto

lemma before_next:
  assumes "chained nx xs" "p \<in> set xs" "nx p = Some (Some r)"
  shows "before xs p r"
proof -
  obtain i where i: "i < length xs" "xs ! i = p" using assms(2) by (auto simp: in_set_conv_nth)
  then have "Suc i < length xs" "xs ! Suc i = r" using chained_nth[OF assms(1) i(1)] assms(3) by (auto split: if_splits)
  then show ?thesis using i unfolding before_def by (intro exI[of _ i] exI[of _ "Suc i"]) simp
qed

lemma next_before:
  assumes "chained nx xs" "before xs p q" "p \<noteq> q"
  obtains r where "nx p = Some (Some r)" "before xs r q"
proof -
  obtain i j where ij: "i \<le> j" "j < length xs" "xs ! i = p" "xs ! j = q" using assms(2) by (auto simp: before_def)
  then have "Suc i \<le> j" using assms(3) by (metis Suc_leI le_neq_implies_less)
  then have "nx p = Some (Some (xs ! Suc i))" "before xs (xs ! Suc i) q"
    using chained_nth[OF assms(1), of i] ij unfolding before_def by auto
  then show ?thesis by (rule that)
qed

end
