(* ===== verification/Two_Lock_Queue.thy ===== *)
theory Two_Lock_Queue
  imports Atomic_Queue
begin

text \<open>
  \<open>TwoLockQueue\<close> (two_lock_queue.h): a linked list with a dummy node, one lock for the enqueuers and
  one for the dequeuers.  The heap maps addresses to nodes; \<open>new\<close> may return any free address, and an
  access to a node that is not there is undefined behaviour.  Every access to shared memory and
  every lock operation is one step of a thread; an enqueuer and a dequeuer meet at the \<open>next\<close> pointer
  of the dummy node.
\<close>

section \<open>State\<close>

(* two_lock_queue.h:22-26 Node *)
record tl_node =
  value_of :: cpp_int
  next_of :: "nat option"

(* two_lock_queue.h:28-31 TwoLockQueue *)
record 't two_lock =
  tl_heap :: "nat \<rightharpoonup> tl_node"
  tl_head :: nat
  head_lock :: "'t option"
  tl_tail :: nat
  tail_lock :: "'t option"

(* two_lock_queue.h:34-38 TwoLockQueue *)
definition TwoLock_new :: "nat \<Rightarrow> 't two_lock" where
  "TwoLock_new node = \<lparr>tl_heap = [node \<mapsto> \<lparr>value_of = 0, next_of = None\<rparr>],
     tl_head = node, head_lock = None, tl_tail = node, tail_lock = None\<rparr>"

text \<open>The destructor follows the list; \<open>None\<close> is the use of a node that is not there.\<close>

(* two_lock_queue.h:40-47 ~TwoLockQueue *)
partial_function (option) TwoLock_destroy :: "(nat \<rightharpoonup> tl_node) \<Rightarrow> nat option \<Rightarrow> (nat \<rightharpoonup> tl_node) option" where
  "TwoLock_destroy heap node =
     (case node of
        None \<Rightarrow> Some heap
      | Some p \<Rightarrow> Option.bind (heap p) (\<lambda>d. TwoLock_destroy (heap(p := None)) (next_of d)))"

declare TwoLock_destroy.simps [code]

text \<open>Where a thread is: the next action, with its local variables.\<close>

datatype tl_thread =
    TL_Idle
  | TE_New cpp_int | TE_Lock cpp_int nat | TE_Store cpp_int nat | TE_Tail nat | TE_Unlock
  | TD_Lock | TD_Head | TD_Next nat | TD_Value nat nat | TD_Set nat nat cpp_int
  | TD_Unlock "(nat \<times> cpp_int) option" | TD_Delete nat cpp_int

text \<open>
  The argument \<open>a\<close> is the address \<open>new\<close> returns; a schedule that offers a used one leaves the thread
  where it is, as does a lock that is held.
\<close>

(* two_lock_queue.h:49-54 Enqueue *)
fun TwoLock_Enqueue_step :: "'t \<Rightarrow> nat \<Rightarrow> 't two_lock \<Rightarrow> tl_thread \<Rightarrow> ('t two_lock \<times> tl_thread \<times> ('t, cpp_int) queue_act) option" where
  "TwoLock_Enqueue_step t a q (TE_New v) =
     Some (if tl_heap q a = None then (q\<lparr>tl_heap := (tl_heap q)(a \<mapsto> \<lparr>value_of = v, next_of = None\<rparr>)\<rparr>, TE_Lock v a, Tau)
           else (q, TE_New v, Tau))"
| "TwoLock_Enqueue_step t a q (TE_Lock v node) =
     Some (if tail_lock q = None then (q\<lparr>tail_lock := Some t\<rparr>, TE_Store v node, Tau) else (q, TE_Lock v node, Tau))"
| "TwoLock_Enqueue_step t a q (TE_Store v node) =
     Option.bind (tl_heap q (tl_tail q)) (\<lambda>d.
       Some (q\<lparr>tl_heap := (tl_heap q)(tl_tail q \<mapsto> d\<lparr>next_of := Some node\<rparr>)\<rparr>, TE_Tail node, Did_Enq t v))"
| "TwoLock_Enqueue_step t a q (TE_Tail node) = Some (q\<lparr>tl_tail := node\<rparr>, TE_Unlock, Tau)"
| "TwoLock_Enqueue_step t a q TE_Unlock = Some (q\<lparr>tail_lock := None\<rparr>, TL_Idle, Ret_Enq t)"
| "TwoLock_Enqueue_step t a q pc = Some (q, pc, Tau)"

(* two_lock_queue.h:56-70 Dequeue *)
fun TwoLock_Dequeue_step :: "'t \<Rightarrow> 't two_lock \<Rightarrow> tl_thread \<Rightarrow> ('t two_lock \<times> tl_thread \<times> ('t, cpp_int) queue_act) option" where
  "TwoLock_Dequeue_step t q TD_Lock =
     Some (if head_lock q = None then (q\<lparr>head_lock := Some t\<rparr>, TD_Head, Tau) else (q, TD_Lock, Tau))"
| "TwoLock_Dequeue_step t q TD_Head = Some (q, TD_Next (tl_head q), Tau)"
| "TwoLock_Dequeue_step t q (TD_Next node) =
     Option.bind (tl_heap q node) (\<lambda>d.
       case next_of d of None \<Rightarrow> Some (q, TD_Unlock None, Tau) | Some new_head \<Rightarrow> Some (q, TD_Value node new_head, Tau))"
| "TwoLock_Dequeue_step t q (TD_Value node new_head) =
     Option.bind (tl_heap q new_head) (\<lambda>d. Some (q, TD_Set node new_head (value_of d), Tau))"
| "TwoLock_Dequeue_step t q (TD_Set node new_head v) = Some (q\<lparr>tl_head := new_head\<rparr>, TD_Unlock (Some (node, v)), Did_Deq t v)"
| "TwoLock_Dequeue_step t q (TD_Unlock None) = Some (q\<lparr>head_lock := None\<rparr>, TL_Idle, Ret_Deq t None)"
| "TwoLock_Dequeue_step t q (TD_Unlock (Some (node, v))) = Some (q\<lparr>head_lock := None\<rparr>, TD_Delete node v, Tau)"
| "TwoLock_Dequeue_step t q (TD_Delete node v) =
     Option.bind (tl_heap q node) (\<lambda>d. Some (q\<lparr>tl_heap := (tl_heap q)(node := None)\<rparr>, TL_Idle, Ret_Deq t (Some v)))"
| "TwoLock_Dequeue_step t q pc = Some (q, pc, Tau)"

section \<open>Schedules\<close>

datatype ('t, 'v) queue_event = Do_Enqueue 't 'v | Do_Dequeue 't | Do_Step 't nat

fun enqueueing :: "tl_thread \<Rightarrow> bool" where
  "enqueueing (TE_New v) = True"
| "enqueueing (TE_Lock v n) = True"
| "enqueueing (TE_Store v n) = True"
| "enqueueing (TE_Tail n) = True"
| "enqueueing TE_Unlock = True"
| "enqueueing pc = False"

definition tl_thread_step :: "'t \<Rightarrow> nat \<Rightarrow> 't two_lock \<Rightarrow> tl_thread \<Rightarrow> ('t two_lock \<times> tl_thread \<times> ('t, cpp_int) queue_act) option" where
  "tl_thread_step t a q pc = (if enqueueing pc then TwoLock_Enqueue_step t a q pc else TwoLock_Dequeue_step t q pc)"

type_synonym 't tl_system = "'t two_lock \<times> ('t \<Rightarrow> tl_thread)"

fun tl_step :: "'t tl_system \<Rightarrow> ('t, cpp_int) queue_event \<Rightarrow> ('t tl_system \<times> ('t, cpp_int) queue_act) option" where
  "tl_step (q, th) (Do_Enqueue t v) =
     Some (if th t = TL_Idle then ((q, th(t := TE_New v)), Call_Enq t v) else ((q, th), Tau))"
| "tl_step (q, th) (Do_Dequeue t) =
     Some (if th t = TL_Idle then ((q, th(t := TD_Lock)), Call_Deq t) else ((q, th), Tau))"
| "tl_step (q, th) (Do_Step t a) =
     Option.bind (tl_thread_step t a q (th t)) (\<lambda>(q', pc, act). Some ((q', th(t := pc)), act))"

section \<open>The invariant\<close>

definition tl_nx :: "(nat \<rightharpoonup> tl_node) \<Rightarrow> nat \<Rightarrow> nat option option" where
  "tl_nx h p = map_option next_of (h p)"

definition tl_value :: "(nat \<rightharpoonup> tl_node) \<Rightarrow> nat \<Rightarrow> cpp_int" where
  "tl_value h p = (case h p of Some d \<Rightarrow> value_of d | None \<Rightarrow> 0)"

text \<open>The node a thread holds outside the list: new and not yet linked, or taken out and not yet deleted.\<close>

fun tl_owned :: "tl_thread \<Rightarrow> nat option" where
  "tl_owned (TE_Lock v n) = Some n"
| "tl_owned (TE_Store v n) = Some n"
| "tl_owned (TD_Unlock (Some (n, v))) = Some n"
| "tl_owned (TD_Delete n v) = Some n"
| "tl_owned pc = None"

fun holds_tail :: "tl_thread \<Rightarrow> bool" where
  "holds_tail (TE_Store v n) = True"
| "holds_tail (TE_Tail n) = True"
| "holds_tail TE_Unlock = True"
| "holds_tail pc = False"

fun holds_head :: "tl_thread \<Rightarrow> bool" where
  "holds_head TD_Head = True"
| "holds_head (TD_Next n) = True"
| "holds_head (TD_Value n m) = True"
| "holds_head (TD_Set n m v) = True"
| "holds_head (TD_Unlock r) = True"
| "holds_head pc = False"

fun tl_thread_ok :: "'t two_lock \<Rightarrow> nat list \<Rightarrow> cpp_int queue_call \<Rightarrow> tl_thread \<Rightarrow> bool" where
  "tl_thread_ok q ns c TL_Idle \<longleftrightarrow> c = No_Call"
| "tl_thread_ok q ns c (TE_New v) \<longleftrightarrow> c = Enq_Call v False"
| "tl_thread_ok q ns c (TE_Lock v n) \<longleftrightarrow> c = Enq_Call v False \<and> tl_heap q n = Some \<lparr>value_of = v, next_of = None\<rparr>"
| "tl_thread_ok q ns c (TE_Store v n) \<longleftrightarrow> c = Enq_Call v False \<and> tl_heap q n = Some \<lparr>value_of = v, next_of = None\<rparr>"
| "tl_thread_ok q ns c (TE_Tail n) \<longleftrightarrow> (\<exists>v. c = Enq_Call v True) \<and> last (tl_head q # ns) = n"
| "tl_thread_ok q ns c TE_Unlock \<longleftrightarrow> (\<exists>v. c = Enq_Call v True)"
| "tl_thread_ok q ns c TD_Lock \<longleftrightarrow> (\<exists>b. c = Deq_Call b)"
| "tl_thread_ok q ns c TD_Head \<longleftrightarrow> (\<exists>b. c = Deq_Call b)"
| "tl_thread_ok q ns c (TD_Next n) \<longleftrightarrow> (\<exists>b. c = Deq_Call b) \<and> n = tl_head q"
| "tl_thread_ok q ns c (TD_Value n m) \<longleftrightarrow> (\<exists>b. c = Deq_Call b) \<and> n = tl_head q \<and> (\<exists>ms. ns = m # ms)"
| "tl_thread_ok q ns c (TD_Set n m v) \<longleftrightarrow> (\<exists>b. c = Deq_Call b) \<and> n = tl_head q \<and> (\<exists>ms. ns = m # ms) \<and> v = tl_value (tl_heap q) m"
| "tl_thread_ok q ns c (TD_Unlock None) \<longleftrightarrow> c = Deq_Call True"
| "tl_thread_ok q ns c (TD_Unlock (Some (n, v))) \<longleftrightarrow> c = Deq_Took v"
| "tl_thread_ok q ns c (TD_Delete n v) \<longleftrightarrow> c = Deq_Took v"

text \<open>
  The list: the dummy node and the nodes \<open>ns\<close> with the elements.  The tail pointer is at the last
  node, except while the enqueuer that linked it holds the tail lock.
\<close>

definition tl_list_ok :: "'t two_lock \<Rightarrow> (nat \<Rightarrow> bool) \<Rightarrow> nat list \<Rightarrow> cpp_int list \<Rightarrow> bool" where
  "tl_list_ok q linked ns items \<longleftrightarrow>
     chained (tl_nx (tl_heap q)) (tl_head q # ns) \<and> items = map (tl_value (tl_heap q)) ns \<and>
     ((\<forall>n. \<not> linked n) \<longrightarrow> tl_tail q = last (tl_head q # ns))"

definition tail_linked :: "('t \<Rightarrow> tl_thread) \<Rightarrow> nat \<Rightarrow> bool" where
  "tail_linked th n \<longleftrightarrow> (\<exists>t. th t = TE_Tail n)"

definition tl_ok :: "'t two_lock \<Rightarrow> ('t \<Rightarrow> tl_thread) \<Rightarrow> nat list \<Rightarrow> cpp_int list \<Rightarrow> ('t \<Rightarrow> cpp_int queue_call) \<Rightarrow> bool" where
  "tl_ok q th ns items calls \<longleftrightarrow>
     tl_list_ok q (tail_linked th) ns items \<and> empty_noted items calls \<and>
     (\<forall>t. tl_thread_ok q ns (calls t) (th t)) \<and>
     owned_apart (tl_owned \<circ> th) (set (tl_head q # ns)) (dom (tl_heap q)) \<and>
     (\<forall>t. tail_lock q = Some t \<longleftrightarrow> holds_tail (th t)) \<and> (\<forall>t. head_lock q = Some t \<longleftrightarrow> holds_head (th t))"

definition tl_rel :: "'t tl_system \<Rightarrow> cpp_int list \<times> ('t \<Rightarrow> cpp_int queue_call) \<Rightarrow> bool" where
  "tl_rel s f \<longleftrightarrow> (\<exists>ns. tl_ok (fst s) (snd s) ns (fst f) (snd f))"

lemma tl_okD:
  assumes "tl_ok q th ns items calls"
  shows "tl_list_ok q (tail_linked th) ns items" "empty_noted items calls"
    "\<And>t. tl_thread_ok q ns (calls t) (th t)"
    "owned_apart (tl_owned \<circ> th) (set (tl_head q # ns)) (dom (tl_heap q))"
    "\<And>t. tail_lock q = Some t \<longleftrightarrow> holds_tail (th t)" "\<And>t. head_lock q = Some t \<longleftrightarrow> holds_head (th t)"
  using assms unfolding tl_ok_def by blast+

lemma tail_linked_upd:
  "(\<And>n. th t \<noteq> TE_Tail n) \<Longrightarrow> (\<And>n. pc \<noteq> TE_Tail n) \<Longrightarrow> tail_linked (th(t := pc)) = tail_linked th"
  unfolding tail_linked_def by (intro ext) (metis fun_upd_apply)

text \<open>A step that leaves the shared state and what the thread holds as they are.\<close>

lemma tl_ok_silent:
  assumes ok: "tl_ok q th ns items calls" and pc: "tl_thread_ok q ns c pc"
    and same: "tl_owned pc = tl_owned (th t)" "holds_tail pc = holds_tail (th t)" "holds_head pc = holds_head (th t)"
    and tail: "\<And>n. th t = TE_Tail n \<longleftrightarrow> pc = TE_Tail n"
    and noted: "items = [] \<Longrightarrow> c \<noteq> Deq_Call False"
  shows "tl_ok q (th(t := pc)) ns items (calls(t := c))"
proof -
  note D = tl_okD[OF ok]
  have own: "tl_owned \<circ> th(t := pc) = tl_owned \<circ> th" using same by (auto simp: fun_eq_iff)
  have link: "tail_linked (th(t := pc)) = tail_linked th" 
    unfolding tail_linked_def by (intro ext) (metis tail fun_upd_apply)
  show ?thesis unfolding tl_ok_def own link
    using D pc same noted by (auto intro: empty_noted_upd)
qed


text \<open>How the assertions of the other threads survive a change of the shared state.\<close>

lemma tl_thread_ok_frame:
  assumes "tl_thread_ok q ns c pc" and "tl_head q' = tl_head q"
    and "\<And>n. tl_owned pc = Some n \<Longrightarrow> tl_heap q' n = tl_heap q n"
    and "\<And>n. n \<in> set ns \<Longrightarrow> tl_value (tl_heap q') n = tl_value (tl_heap q) n"
  shows "tl_thread_ok q' ns c pc"
  using assms by (cases "(q, ns, c, pc)" rule: tl_thread_ok.cases) auto

lemma tl_list_ok_frame:
  assumes "tl_list_ok q linked ns items" and "tl_head q' = tl_head q" and "tl_tail q' = tl_tail q"
    and "\<And>n. n \<in> set (tl_head q # ns) \<Longrightarrow> tl_heap q' n = tl_heap q n"
  shows "tl_list_ok q' linked ns items"
  using assms chained_cong[of "tl_head q # ns" "tl_nx (tl_heap q')" "tl_nx (tl_heap q)"]
  by (auto simp: tl_list_ok_def tl_nx_def tl_value_def)

lemma tl_okI:
  assumes "tl_list_ok q (tail_linked th) ns items" "empty_noted items calls"
    "owned_apart (tl_owned \<circ> th) (set (tl_head q # ns)) (dom (tl_heap q))"
    "\<And>u. tl_thread_ok q ns (calls u) (th u)"
    "\<And>u. tail_lock q = Some u \<longleftrightarrow> holds_tail (th u)" "\<And>u. head_lock q = Some u \<longleftrightarrow> holds_head (th u)"
  shows "tl_ok q th ns items calls"
  using assms unfolding tl_ok_def by blast

lemma tl_ok_new:
  assumes ok: "tl_ok q th ns items calls" and t: "th t = TE_New v" and a: "tl_heap q a = None"
  shows "tl_ok (q\<lparr>tl_heap := (tl_heap q)(a \<mapsto> \<lparr>value_of = v, next_of = None\<rparr>)\<rparr>) (th(t := TE_Lock v a)) ns items calls"
    (is "tl_ok ?q ?th ns items calls")
proof (rule tl_okI)
  note D = tl_okD[OF ok]
  have fresh: "a \<notin> dom (tl_heap q)" using a by blast
  have used: "n \<noteq> a" if "n \<in> set (tl_head q # ns)" for n using owned_apartD(4)[OF D(4)] that fresh by blast
  have link: "tail_linked ?th = tail_linked th" by (rule tail_linked_upd) (simp_all add: t)
  show "tl_list_ok ?q (tail_linked ?th) ns items"
    unfolding link by (rule tl_list_ok_frame[OF D(1)]) (use used in auto)
  show "owned_apart (tl_owned \<circ> ?th) (set (tl_head ?q # ns)) (dom (tl_heap ?q))"
    using owned_apart_gain[OF D(4), of t a] t fresh unfolding comp_fun_upd by simp
  show "tl_thread_ok ?q ns (calls u) (?th u)" for u
  proof (cases "u = t")
    case False
    have "tl_thread_ok ?q ns (calls u) (th u)"
      by (rule tl_thread_ok_frame[OF D(3)])
        (use used fresh owned_apartD(3)[OF D(4), of u] in \<open>auto simp: tl_value_def\<close>)
    then show ?thesis using False by simp
  qed (use D(3)[of t] t in simp)
qed (use tl_okD[OF ok] t in auto)

lemma tl_ok_tail_locked:
  assumes ok: "tl_ok q th ns items calls" and t: "th t = TE_Lock v n" and free: "tail_lock q = None"
  shows "tl_ok (q\<lparr>tail_lock := Some t\<rparr>) (th(t := TE_Store v n)) ns items calls"
    (is "tl_ok ?q ?th ns items calls")
proof (rule tl_okI)
  note D = tl_okD[OF ok]
  have link: "tail_linked ?th = tail_linked th" by (rule tail_linked_upd) (simp_all add: t)
  have own: "tl_owned \<circ> ?th = tl_owned \<circ> th" using t by (auto simp: fun_eq_iff)
  show "tl_list_ok ?q (tail_linked ?th) ns items"
    unfolding link by (rule tl_list_ok_frame[OF D(1)]) auto
  show "owned_apart (tl_owned \<circ> ?th) (set (tl_head ?q # ns)) (dom (tl_heap ?q))"
    using D(4) unfolding own by simp
  show "tl_thread_ok ?q ns (calls u) (?th u)" for u
    using tl_thread_ok_frame[OF D(3)[of u], of ?q] D(3)[of t] t by auto
  show "tail_lock ?q = Some u \<longleftrightarrow> holds_tail (?th u)" for u using D(5)[of u] free by auto
qed (use tl_okD[OF ok] t in auto)

lemma tl_ok_tail_unlocked:
  assumes ok: "tl_ok q th ns items calls" and t: "th t = TE_Unlock"
  shows "tl_ok (q\<lparr>tail_lock := None\<rparr>) (th(t := TL_Idle)) ns items (calls(t := No_Call))"
    (is "tl_ok ?q ?th ns items ?calls")
proof (rule tl_okI)
  note D = tl_okD[OF ok]
  have link: "tail_linked ?th = tail_linked th" by (rule tail_linked_upd) (simp_all add: t)
  have own: "tl_owned \<circ> ?th = tl_owned \<circ> th" using t by (auto simp: fun_eq_iff)
  show "tl_list_ok ?q (tail_linked ?th) ns items"
    unfolding link by (rule tl_list_ok_frame[OF D(1)]) auto
  show "owned_apart (tl_owned \<circ> ?th) (set (tl_head ?q # ns)) (dom (tl_heap ?q))"
    using D(4) unfolding own by simp
  show "tl_thread_ok ?q ns (?calls u) (?th u)" for u
    using tl_thread_ok_frame[OF D(3)[of u], of ?q] by auto
  show "tail_lock ?q = Some u \<longleftrightarrow> holds_tail (?th u)" for u using D(5)[of u] D(5)[of t] t by auto
qed (use tl_okD[OF ok] t in \<open>auto intro: empty_noted_upd\<close>)

lemma tl_ok_linked:
  assumes ok: "tl_ok q th ns items calls" and t: "th t = TE_Store v n" and d: "tl_heap q (tl_tail q) = Some d"
  shows "tl_ok (q\<lparr>tl_heap := (tl_heap q)(tl_tail q \<mapsto> d\<lparr>next_of := Some n\<rparr>)\<rparr>) (th(t := TE_Tail n)) (ns @ [n])
    (items @ [v]) (calls(t := Enq_Call v True))"
    (is "tl_ok ?q ?th _ _ ?calls")
proof (rule tl_okI)
  note D = tl_okD[OF ok]
  have lock: "u = t" if "holds_tail (th u)" for u
    using D(5)[of t] D(5)[of u] that t by simp
  have "\<not> tail_linked th m" for m
  proof
    assume "tail_linked th m"
    then obtain u where "th u = TE_Tail m" unfolding tail_linked_def by blast
    then show False using lock[of u] t by simp
  qed
  then have tail: "tl_tail q = last (tl_head q # ns)" using D(1) by (simp add: tl_list_ok_def)
  have n: "tl_heap q n = Some \<lparr>value_of = v, next_of = None\<rparr>" "n \<notin> set (tl_head q # ns)"
    using D(3)[of t] owned_apartD(2)[OF D(4), of t n] t by simp_all
  have chain: "chained (tl_nx (tl_heap q)) (tl_head q # ns)" using D(1) by (simp add: tl_list_ok_def)
  have in_chain: "tl_tail q \<in> set (tl_head q # ns)" unfolding tail by (rule last_in_set) simp
  have "chained (tl_nx (tl_heap ?q)) ((tl_head q # ns) @ [n])"
    by (rule chained_snoc[OF chain]) (use n tail in_chain in \<open>auto simp: tl_nx_def\<close>)
  moreover have same: "tl_value (tl_heap ?q) m = tl_value (tl_heap q) m" for m
    using d by (simp add: tl_value_def)
  moreover have "tl_value (tl_heap q) n = v" using n by (simp add: tl_value_def)
  moreover have "tail_linked ?th n" unfolding tail_linked_def by (rule exI[of _ t]) simp
  ultimately show "tl_list_ok ?q (tail_linked ?th) (ns @ [n]) (items @ [v])"
    using D(1) unfolding tl_list_ok_def by auto
  show "tl_thread_ok ?q (ns @ [n]) (?calls u) (?th u)" for u
  proof (cases "u = t")
    case False
    have "tl_thread_ok ?q ns (calls u) (th u)"
      by (rule tl_thread_ok_frame[OF D(3)[of u]]) (use same in_chain owned_apartD(2)[OF D(4), of u] in auto)
    moreover have "\<not> holds_tail (th u)" using lock False by blast
    ultimately show ?thesis using False by (cases "th u" rule: tl_owned.cases) auto
  qed simp
  have "set (tl_head q # ns @ [n]) = insert n (set (tl_head q # ns))" "dom (tl_heap ?q) = dom (tl_heap q)"
    using d by auto
  then show "owned_apart (tl_owned \<circ> ?th) (set (tl_head ?q # ns @ [n])) (dom (tl_heap ?q))"
    using owned_apart_link[OF D(4), of t n] t unfolding comp_fun_upd by simp
  show "empty_noted (items @ [v]) ?calls" by (simp add: empty_noted_def)
qed (use tl_okD[OF ok] t in auto)

lemma tl_ok_tail_moved:
  assumes ok: "tl_ok q th ns items calls" and t: "th t = TE_Tail n"
  shows "tl_ok (q\<lparr>tl_tail := n\<rparr>) (th(t := TE_Unlock)) ns items calls"
    (is "tl_ok ?q ?th ns items calls")
proof (rule tl_okI)
  note D = tl_okD[OF ok]
  have own: "tl_owned \<circ> ?th = tl_owned \<circ> th" using t by (auto simp: fun_eq_iff)
  show "tl_list_ok ?q (tail_linked ?th) ns items"
    using D(1) D(3)[of t] t by (simp add: tl_list_ok_def)
  show "owned_apart (tl_owned \<circ> ?th) (set (tl_head ?q # ns)) (dom (tl_heap ?q))"
    using D(4) unfolding own by simp
  show "tl_thread_ok ?q ns (calls u) (?th u)" for u
    using tl_thread_ok_frame[OF D(3)[of u], of ?q] D(3)[of t] t by auto
  show "tail_lock ?q = Some u \<longleftrightarrow> holds_tail (?th u)" for u using D(5)[of u] t by auto
qed (use tl_okD[OF ok] t in auto)


lemma tl_ok_head_locked:
  assumes ok: "tl_ok q th ns items calls" and t: "th t = TD_Lock" and free: "head_lock q = None"
  shows "tl_ok (q\<lparr>head_lock := Some t\<rparr>) (th(t := TD_Head)) ns items calls"
    (is "tl_ok ?q ?th ns items calls")
proof (rule tl_okI)
  note D = tl_okD[OF ok]
  have link: "tail_linked ?th = tail_linked th" by (rule tail_linked_upd) (simp_all add: t)
  have own: "tl_owned \<circ> ?th = tl_owned \<circ> th" using t by (auto simp: fun_eq_iff)
  show "tl_list_ok ?q (tail_linked ?th) ns items"
    unfolding link by (rule tl_list_ok_frame[OF D(1)]) auto
  show "owned_apart (tl_owned \<circ> ?th) (set (tl_head ?q # ns)) (dom (tl_heap ?q))"
    using D(4) unfolding own by simp
  show "tl_thread_ok ?q ns (calls u) (?th u)" for u
    using tl_thread_ok_frame[OF D(3)[of u], of ?q] D(3)[of t] t by auto
  show "head_lock ?q = Some u \<longleftrightarrow> holds_head (?th u)" for u using D(6)[of u] free by auto
qed (use tl_okD[OF ok] t in auto)

lemma tl_ok_head_unlocked:
  assumes ok: "tl_ok q th ns items calls" and t: "th t = TD_Unlock r"
    and pc: "pc = (case r of None \<Rightarrow> TL_Idle | Some (n, v) \<Rightarrow> TD_Delete n v)"
    and c: "c = (case r of None \<Rightarrow> No_Call | Some (n, v) \<Rightarrow> Deq_Took v)"
  shows "tl_ok (q\<lparr>head_lock := None\<rparr>) (th(t := pc)) ns items (calls(t := c))"
    (is "tl_ok ?q ?th ns items ?calls")
proof (rule tl_okI)
  note D = tl_okD[OF ok]
  have link: "tail_linked ?th = tail_linked th" by (rule tail_linked_upd) (simp_all add: t pc split: option.splits)
  have own: "tl_owned \<circ> ?th = tl_owned \<circ> th" using t by (auto simp: fun_eq_iff pc split: option.splits)
  show "tl_list_ok ?q (tail_linked ?th) ns items"
    unfolding link by (rule tl_list_ok_frame[OF D(1)]) auto
  show "owned_apart (tl_owned \<circ> ?th) (set (tl_head ?q # ns)) (dom (tl_heap ?q))"
    using D(4) unfolding own by simp
  show "tl_thread_ok ?q ns (?calls u) (?th u)" for u
    using tl_thread_ok_frame[OF D(3)[of u], of ?q] by (auto simp: pc c split: option.splits)
  show "head_lock ?q = Some u \<longleftrightarrow> holds_head (?th u)" for u
    using D(6)[of u] D(6)[of t] t by (auto simp: pc split: option.splits)
qed (use tl_okD[OF ok] t pc c in \<open>auto intro!: empty_noted_upd split: option.splits\<close>)

lemma tl_ok_taken:
  assumes ok: "tl_ok q th ns items calls" and t: "th t = TD_Set n m v"
  shows "\<exists>ms rest b. ns = m # ms \<and> items = v # rest \<and> calls t = Deq_Call b \<and>
    tl_ok (q\<lparr>tl_head := m\<rparr>) (th(t := TD_Unlock (Some (n, v)))) ms rest ((note_empty rest \<circ> calls)(t := Deq_Took v))"
proof -
  note D = tl_okD[OF ok]
  from D(3)[of t] t obtain b ms where
    call: "calls t = Deq_Call b" and n: "n = tl_head q" and ns: "ns = m # ms" and v: "v = tl_value (tl_heap q) m" by auto
  obtain rest where items: "items = v # rest" "rest = map (tl_value (tl_heap q)) ms"
    using D(1) ns v by (simp add: tl_list_ok_def)
  have lock: "u = t" if "holds_head (th u)" for u using D(6)[of t] D(6)[of u] that t by simp
  have chain: "chained (tl_nx (tl_heap q)) (tl_head q # m # ms)" using D(1) ns by (simp add: tl_list_ok_def)
  have "distinct (tl_head q # m # ms)" by (rule chained_distinct[OF chain])
  then have cut: "set (tl_head q # ns) - {tl_head q} = set (m # ms)" using ns by auto
  let ?q = "q\<lparr>tl_head := m\<rparr>" and ?th = "th(t := TD_Unlock (Some (n, v)))"
    and ?calls = "(note_empty rest \<circ> calls)(t := Deq_Took v)"
  have link: "tail_linked ?th = tail_linked th" by (rule tail_linked_upd) (simp_all add: t)
  have "tl_ok ?q ?th ms rest ?calls"
  proof (rule tl_okI)
    show "tl_list_ok ?q (tail_linked ?th) ms rest"
      using D(1) ns items unfolding link tl_list_ok_def by simp
    show "empty_noted rest ?calls" by (rule empty_noted_taken)
    show "owned_apart (tl_owned \<circ> ?th) (set (tl_head ?q # ms)) (dom (tl_heap ?q))"
      using owned_apart_unlink[OF D(4), of t "tl_head q"] t n unfolding comp_fun_upd cut by simp
    show "tl_thread_ok ?q ms (?calls u) (?th u)" for u
    proof (cases "u = t")
      case False
      then have "\<not> holds_head (th u)" using lock by blast
      then show ?thesis using False D(3)[of u] ns by (cases "th u" rule: holds_head.cases) auto
    qed simp
  qed (use D t in auto)
  then show ?thesis using call ns items(1) by blast
qed

lemma tl_ok_deleted:
  assumes ok: "tl_ok q th ns items calls" and t: "th t = TD_Delete n v"
  shows "tl_ok (q\<lparr>tl_heap := (tl_heap q)(n := None)\<rparr>) (th(t := TL_Idle)) ns items (calls(t := No_Call))"
    (is "tl_ok ?q ?th ns items ?calls")
proof (rule tl_okI)
  note D = tl_okD[OF ok]
  have own: "(tl_owned \<circ> th) t = Some n" using t by simp
  have used: "m \<noteq> n" if "m \<in> set (tl_head q # ns)" for m using owned_apartD(2)[OF D(4) own] that by blast
  have link: "tail_linked ?th = tail_linked th" by (rule tail_linked_upd) (simp_all add: t)
  show "tl_list_ok ?q (tail_linked ?th) ns items"
    unfolding link by (rule tl_list_ok_frame[OF D(1)]) (use used in auto)
  show "owned_apart (tl_owned \<circ> ?th) (set (tl_head ?q # ns)) (dom (tl_heap ?q))"
    using owned_apart_drop[of "tl_owned \<circ> th" _ _ t n, OF D(4) own] unfolding comp_fun_upd by simp
  show "tl_thread_ok ?q ns (?calls u) (?th u)" for u
  proof (cases "u = t")
    case False
    then have other: "tl_owned (th u) \<noteq> Some n" using owned_apartD(1)[OF D(4) own, of u] by auto
    have "tl_thread_ok ?q ns (calls u) (th u)"
      by (rule tl_thread_ok_frame[OF D(3)]) (use used other in \<open>auto simp: tl_value_def\<close>)
    then show ?thesis using False by simp
  qed simp
qed (use tl_okD[OF ok] t in \<open>auto intro: empty_noted_upd\<close>)

section \<open>Every step keeps the invariant\<close>

lemma tl_head_node:
  assumes "tl_ok q th ns items calls"
  obtains d where "tl_heap q (tl_head q) = Some d" "next_of d = (case ns of [] \<Rightarrow> None | m # ms \<Rightarrow> Some m)"
  using tl_okD(1)[OF assms] by (cases ns) (auto simp: tl_list_ok_def tl_nx_def)

lemma tl_enqueue_keeps:
  assumes ok: "tl_ok q th ns items calls" and pc: "enqueueing (th t)"
  shows "\<exists>q' pc' act f'. TwoLock_Enqueue_step t a q (th t) = Some (q', pc', act) \<and>
    atomic_queue (items, calls) act = Some f' \<and> tl_rel (q', th(t := pc')) f'"
proof -
  note D = tl_okD[OF ok]
  have same: "tl_ok q (th(t := th t)) ns items calls" using ok by simp
  show ?thesis
  proof (cases "th t" rule: enqueueing.cases)
    case (1 v)
    then show ?thesis using tl_ok_new[OF ok 1, of a] same by (cases "tl_heap q a = None") (auto simp: tl_rel_def)
  next
    case (2 v n)
    then show ?thesis using tl_ok_tail_locked[OF ok 2] same by (cases "tail_lock q = None") (auto simp: tl_rel_def)
  next
    case (3 v n)
    have "\<not> tail_linked th m" for m
      using D(5)[of t] D(5) 3 unfolding tail_linked_def
      by (metis holds_tail.simps(1,2) option.inject tl_thread.distinct tl_thread.simps)
    then have "tl_tail q = last (tl_head q # ns)" using D(1) by (simp add: tl_list_ok_def)
    then have "tl_tail q \<in> set (tl_head q # ns)" by (metis last_in_set list.distinct(1))
    then obtain d where d: "tl_heap q (tl_tail q) = Some d" using owned_apartD(4)[OF D(4)] by blast
    have "calls t = Enq_Call v False" using D(3)[of t] 3 by simp
    then show ?thesis using tl_ok_linked[OF ok 3 d] 3 d by (auto simp: tl_rel_def)
  next
    case (4 n)
    then show ?thesis using tl_ok_tail_moved[OF ok 4] by (auto simp: tl_rel_def)
  next
    case 5
    then obtain v where "calls t = Enq_Call v True" using D(3)[of t] by auto
    then show ?thesis using tl_ok_tail_unlocked[OF ok 5] 5 by (auto simp: tl_rel_def)
  qed (use pc in simp_all)
qed

lemma tl_dequeue_keeps:
  assumes ok: "tl_ok q th ns items calls" and pc: "\<not> enqueueing (th t)"
  shows "\<exists>q' pc' act f'. TwoLock_Dequeue_step t q (th t) = Some (q', pc', act) \<and>
    atomic_queue (items, calls) act = Some f' \<and> tl_rel (q', th(t := pc')) f'"
proof -
  note D = tl_okD[OF ok]
  have same: "tl_ok q (th(t := th t)) ns items calls" using ok by simp
  have silent: "tl_ok q (th(t := pc)) ns items calls"
    if "tl_thread_ok q ns (calls t) pc" "tl_owned pc = tl_owned (th t)" "holds_tail pc = holds_tail (th t)"
      "holds_head pc = holds_head (th t)" "\<not> holds_tail pc" for pc
    using tl_ok_silent[OF ok that(1-4)] that(3,5) D(2) by (fastforce simp: empty_noted_def)
  show ?thesis
  proof (cases "th t")
    case TD_Lock
    then show ?thesis using tl_ok_head_locked[OF ok TD_Lock] same by (cases "head_lock q = None") (auto simp: tl_rel_def)
  next
    case TD_Head
    then show ?thesis using silent[of "TD_Next (tl_head q)"] D(3)[of t] by (auto simp: tl_rel_def)
  next
    case (TD_Next n)
    obtain d where d: "tl_heap q (tl_head q) = Some d" "next_of d = (case ns of [] \<Rightarrow> None | m # ms \<Rightarrow> Some m)"
      by (rule tl_head_node[OF ok])
    obtain b where b: "calls t = Deq_Call b" "n = tl_head q" using D(3)[of t] TD_Next by auto
    show ?thesis
    proof (cases ns)
      case Nil
      then have "items = []" using D(1) by (simp add: tl_list_ok_def)
      then have "calls t = Deq_Call True" using b D(2) by (cases b) (auto simp: empty_noted_def)
      then show ?thesis using silent[of "TD_Unlock None"] TD_Next b d Nil by (auto simp: tl_rel_def)
    next
      case (Cons m ms)
      then show ?thesis using silent[of "TD_Value n m"] TD_Next b d by (auto simp: tl_rel_def)
    qed
  next
    case (TD_Value n m)
    then obtain b ms where b: "calls t = Deq_Call b" "n = tl_head q" "ns = m # ms" using D(3)[of t] by auto
    then obtain d where d: "tl_heap q m = Some d" using owned_apartD(4)[OF D(4)] by auto
    then have "tl_value (tl_heap q) m = value_of d" by (simp add: tl_value_def)
    then show ?thesis using silent[of "TD_Set n m (value_of d)"] TD_Value b d by (auto simp: tl_rel_def)
  next
    case (TD_Set n m v)
    then show ?thesis using tl_ok_taken[OF ok TD_Set] by (fastforce simp: tl_rel_def)
  next
    case (TD_Unlock r)
    show ?thesis
    proof (cases r)
      case None
      then have "calls t = Deq_Call True" using D(3)[of t] TD_Unlock by simp
      then show ?thesis using tl_ok_head_unlocked[OF ok TD_Unlock refl refl] TD_Unlock None by (auto simp: tl_rel_def)
    next
      case (Some p)
      obtain n v where p: "p = (n, v)" by force
      then have "calls(t := Deq_Took v) = calls" using D(3)[of t] TD_Unlock Some by (auto simp: fun_eq_iff)
      then show ?thesis using tl_ok_head_unlocked[OF ok TD_Unlock refl refl] TD_Unlock Some p by (auto simp: tl_rel_def)
    qed
  next
    case (TD_Delete n v)
    then have "n \<in> dom (tl_heap q)" using owned_apartD(3)[OF D(4), of t n] by simp
    moreover have "calls t = Deq_Took v" using D(3)[of t] TD_Delete by simp
    ultimately show ?thesis using tl_ok_deleted[OF ok TD_Delete] TD_Delete by (auto simp: tl_rel_def)
  qed (use pc same in \<open>auto simp: tl_rel_def\<close>)
qed


lemma tl_rel_step:
  assumes "tl_rel s f"
  shows "\<exists>s' act f'. tl_step s e = Some (s', act) \<and> atomic_queue f act = Some f' \<and> tl_rel s' f'"
proof -
  obtain q th items calls ns where s: "s = (q, th)" "f = (items, calls)" and ok: "tl_ok q th ns items calls"
    using assms by (cases s; cases f) (auto simp: tl_rel_def)
  note D = tl_okD[OF ok]
  show ?thesis
  proof (cases e)
    case (Do_Enqueue t v)
    have "tl_ok q (th(t := TE_New v)) ns items (calls(t := Enq_Call v False))" if "th t = TL_Idle"
      by (rule tl_ok_silent[OF ok]) (use that in auto)
    then show ?thesis using ok D(3)[of t] Do_Enqueue s by (cases "th t = TL_Idle") (auto simp: tl_rel_def)
  next
    case (Do_Dequeue t)
    have "tl_ok q (th(t := TD_Lock)) ns items (calls(t := Deq_Call (items = [])))" if "th t = TL_Idle"
      by (rule tl_ok_silent[OF ok]) (use that in auto)
    then show ?thesis using ok D(3)[of t] Do_Dequeue s by (cases "th t = TL_Idle") (auto simp: tl_rel_def)
  next
    case (Do_Step t a)
    show ?thesis
      using tl_enqueue_keeps[OF ok, of t a] tl_dequeue_keeps[OF ok, of t] s Do_Step
      by (cases "enqueueing (th t)") (fastforce simp: tl_thread_step_def)+
  qed
qed

interpretation tlq: lock_step tl_step atomic_queue tl_rel
  by unfold_locales (rule tl_rel_step)

lemma tl_rel_new: "tl_rel (TwoLock_new node, \<lambda>_. TL_Idle) ([], \<lambda>_. No_Call)"
proof -
  have "tl_ok (TwoLock_new node) (\<lambda>_. TL_Idle) [] [] (\<lambda>_. No_Call)"
    by (rule tl_okI) (auto simp: TwoLock_new_def tl_list_ok_def tl_nx_def empty_noted_def owned_apart_def ran_def)
  then show ?thesis unfolding tl_rel_def by auto
qed

section \<open>The queue under every schedule\<close>

text \<open>C26: Under every schedule of the atomic steps of any threads, whatever addresses \<open>new\<close> returns,
  the two-lock queue never uses a node that was deleted or not yet made, and behaves as an atomic
  FIFO queue: every call takes effect at one moment between its invocation and its return, elements
  leave in the order in which they entered, and \<open>Dequeue\<close> returns false only if the queue was empty
  at some moment of the call.\<close>

theorem TwoLockQueue_refines_atomic_queue:
  "\<exists>as s. run_steps tl_step (TwoLock_new node, \<lambda>_. TL_Idle) es = Some (as, s) \<and>
     run_spec atomic_queue ([], \<lambda>_. No_Call) as \<noteq> None"
  by (rule tlq.run_accepted[OF tl_rel_new])

text \<open>What the next step of a thread reads (\<open>False\<close>), or writes or deletes (\<open>True\<close>).  The atomic
  store and load of \<open>next\<close> do not conflict with each other and count as reads of the node.\<close>

datatype tl_place = Head_Pointer | Tail_Pointer | Node_At nat

fun tl_access :: "'t two_lock \<Rightarrow> tl_thread \<Rightarrow> (tl_place \<times> bool) set" where
  "tl_access q (TE_Store v n) = {(Tail_Pointer, False), (Node_At (tl_tail q), False)}"
| "tl_access q (TE_Tail n) = {(Tail_Pointer, True)}"
| "tl_access q TD_Head = {(Head_Pointer, False)}"
| "tl_access q (TD_Next n) = {(Node_At n, False)}"
| "tl_access q (TD_Value n m) = {(Node_At m, False)}"
| "tl_access q (TD_Set n m v) = {(Head_Pointer, True)}"
| "tl_access q (TD_Delete n v) = {(Node_At n, True)}"
| "tl_access q pc = {}"

lemma tl_access_head: "(Head_Pointer, b) \<in> tl_access q pc \<Longrightarrow> holds_head pc"
  by (cases pc) auto

lemma tl_access_tail: "(Tail_Pointer, b) \<in> tl_access q pc \<Longrightarrow> holds_tail pc"
  by (cases pc) auto

lemma tl_access_node:
  assumes ok: "tl_ok q th ns items calls" and u: "(Node_At n, b) \<in> tl_access q (th u)"
  shows "n \<in> set (tl_head q # ns) \<or> tl_owned (th u) = Some n"
proof (cases "th u")
  case (TE_Store v m)
  note D = tl_okD[OF ok]
  have "\<not> tail_linked th k" for k
    using D(5)[of u] D(5) TE_Store unfolding tail_linked_def
    by (metis holds_tail.simps(1,2) option.inject tl_thread.distinct tl_thread.simps)
  then have "tl_tail q = last (tl_head q # ns)" using D(1) by (simp add: tl_list_ok_def)
  then have "tl_tail q \<in> set (tl_head q # ns)" by (metis last_in_set list.distinct(1))
  then show ?thesis using u TE_Store by simp
qed (use u tl_okD(3)[OF ok, of u] in auto)

text \<open>C27: The pointers and the values of the nodes are not atomic, and need not be: at no time is one
  thread about to write or delete what another is about to access.\<close>

theorem TwoLockQueue_no_data_race:
  assumes "run_steps tl_step (TwoLock_new node, \<lambda>_. TL_Idle) es = Some (as, q, th)" and "t \<noteq> u"
    and "(p, True) \<in> tl_access q (th t)"
  shows "(p, b) \<notin> tl_access q (th u)"
proof
  assume u: "(p, b) \<in> tl_access q (th u)"
  obtain f where "tl_rel (q, th) f" by (rule tlq.run_reaches[OF tl_rel_new assms(1)])
  then obtain ns where ok: "tl_ok q th ns (fst f) (snd f)" by (auto simp: tl_rel_def)
  note D = tl_okD[OF ok]
  show False
  proof (cases p)
    case Head_Pointer
    then have "holds_head (th t)" "holds_head (th u)" using assms(3) u tl_access_head by blast+
    then show False using D(6) assms(2) by (metis option.inject)
  next
    case Tail_Pointer
    then have "holds_tail (th t)" "holds_tail (th u)" using assms(3) u tl_access_tail by blast+
    then show False using D(5) assms(2) by (metis option.inject)
  next
    case (Node_At n)
    then have own: "(tl_owned \<circ> th) t = Some n" using assms(3) by (cases "(q, th t)" rule: tl_access.cases) auto
    then have "n \<notin> set (tl_head q # ns)" by (rule owned_apartD(2)[OF D(4)])
    then have "(tl_owned \<circ> th) u = Some n" using tl_access_node[OF ok] u Node_At by auto
    then show False using owned_apartD(1)[OF D(4) own] assms(2) by blast
  qed
qed

section \<open>The destructor\<close>

lemma TwoLock_destroy_chain:
  "chained (tl_nx h) (p # ns) \<Longrightarrow> dom h = set (p # ns) \<Longrightarrow> TwoLock_destroy h (Some p) = Some Map.empty"
proof (induction ns arbitrary: h p)
  case Nil
  then obtain d where "h p = Some d" "next_of d = None" by (auto simp: tl_nx_def)
  moreover have "h(p := None) = Map.empty" using Nil(2) by (auto simp: fun_eq_iff dom_def)
  ultimately show ?case by (simp add: TwoLock_destroy.simps)
next
  case (Cons m ns)
  obtain d where d: "h p = Some d" "next_of d = Some m" using Cons.prems(1) by (auto simp: tl_nx_def)
  have "p \<notin> set (m # ns)" using chained_distinct[OF Cons.prems(1)] by simp
  have "chained (tl_nx (h(p := None))) (m # ns) = chained (tl_nx h) (m # ns)"
    by (rule chained_cong) (use \<open>p \<notin> set (m # ns)\<close> in \<open>auto simp: tl_nx_def\<close>)
  then have "chained (tl_nx (h(p := None))) (m # ns)" using Cons.prems(1) by simp
  moreover have "dom (h(p := None)) = set (m # ns)" using Cons.prems(2) \<open>p \<notin> set (m # ns)\<close> by auto
  ultimately have "TwoLock_destroy (h(p := None)) (Some m) = Some Map.empty" by (rule Cons.IH)
  then show ?case using d by (subst TwoLock_destroy.simps) simp
qed

text \<open>When no thread is in a call, the nodes left are the dummy and one for each element that
  entered and has not left, and the destructor ends and deletes each of them once: nothing leaks.\<close>

theorem TwoLockQueue_destroyed:
  assumes "run_steps tl_step (TwoLock_new node, \<lambda>_. TL_Idle) es = Some (as, q, th)" and "\<forall>t. th t = TL_Idle"
  shows "card (dom (tl_heap q)) + length (left_queue as) = Suc (length (entered as)) \<and>
    TwoLock_destroy (tl_heap q) (Some (tl_head q)) = Some Map.empty"
proof -
  obtain f where f: "run_spec atomic_queue ([], \<lambda>_. No_Call) as = Some f" "tl_rel (q, th) f"
    by (rule tlq.run_reaches[OF tl_rel_new assms(1)])
  obtain items calls where split: "f = (items, calls)" by force
  with f(2) obtain ns where ok: "tl_ok q th ns items calls" by (auto simp: tl_rel_def)
  note D = tl_okD[OF ok]
  have "ran (tl_owned \<circ> th) = {}" using assms(2) by (auto simp: ran_def)
  then have dom: "dom (tl_heap q) = set (tl_head q # ns)" using D(4) by (simp add: owned_apart_def)
  have chain: "chained (tl_nx (tl_heap q)) (tl_head q # ns)" and items: "length items = length ns"
    using D(1) by (simp_all add: tl_list_ok_def)
  have "card (dom (tl_heap q)) = Suc (length items)"
    unfolding dom items using distinct_card[OF chained_distinct[OF chain]] by simp
  moreover have "length (entered as) = length (left_queue as) + length items"
    using arg_cong[where f = length, OF atomic_queue_fifo[of "[]" "\<lambda>_. No_Call" as items calls]] f(1) split by simp
  ultimately show ?thesis using TwoLock_destroy_chain[OF chain dom] by simp
qed

section \<open>Examples\<close>

text \<open>Thread 1 dequeues the dummy node while thread 0, which linked the next, has not moved the tail.\<close>

definition tl_overlap :: "(nat, cpp_int) queue_event list" where
  "tl_overlap = [Do_Enqueue 0 7, Do_Dequeue 1, Do_Step 0 5, Do_Step 0 0, Do_Step 0 0,
     Do_Step 1 0, Do_Step 1 0, Do_Step 1 0, Do_Step 1 0, Do_Step 1 0, Do_Step 1 0]"


lemma tl_overlap_run:
  "\<exists>q th. run_steps tl_step (TwoLock_new 3, \<lambda>_. TL_Idle) tl_overlap =
     Some ([Call_Enq 0 7, Call_Deq 1, Tau, Tau, Did_Enq 0 7, Tau, Tau, Tau, Tau, Did_Deq 1 7, Tau], q, th) \<and>
     th 0 = TE_Tail 5 \<and> th 1 = TD_Delete 3 7"
  by (simp add: tl_overlap_def TwoLock_new_def tl_thread_step_def)

theorem TwoLockQueue_no_data_race_witness:
  "\<exists>q th as. run_steps tl_step (TwoLock_new 3, \<lambda>_. TL_Idle) tl_overlap = Some (as, q, th) \<and>
     (Node_At 3, True) \<in> tl_access q (th 1) \<and> (Node_At 3, False) \<notin> tl_access q (th 0)"
proof -
  obtain as q th where run: "run_steps tl_step (TwoLock_new 3, \<lambda>_. TL_Idle) tl_overlap = Some (as, q, th)"
    and th: "th 1 = TD_Delete 3 7" using tl_overlap_run by blast
  have "(Node_At 3, True) \<in> tl_access q (th 1)" using th by simp
  then show ?thesis using TwoLockQueue_no_data_race[OF run, of 1 0] run by auto
qed

theorem TwoLockQueue_destroyed_witness:
  "\<exists>as q th. run_steps tl_step (TwoLock_new 3, \<lambda>_. TL_Idle)
       (tl_overlap @ [Do_Step 1 0, Do_Step 0 0, Do_Step 0 0, Do_Enqueue 0 8, Do_Step 0 3, Do_Step 0 0, Do_Step 0 0, Do_Step 0 0, Do_Step 0 0]) =
     Some (as, q, th) \<and> TwoLock_destroy (tl_heap q) (Some (tl_head q)) = Some Map.empty \<and> card (dom (tl_heap q)) = 2"
proof -
  let ?es = "tl_overlap @ [Do_Step 1 0, Do_Step 0 0, Do_Step 0 0, Do_Enqueue 0 8, Do_Step 0 3, Do_Step 0 0, Do_Step 0 0, Do_Step 0 0, Do_Step 0 0]"
  obtain as q th where run: "run_steps tl_step (TwoLock_new 3, \<lambda>_. TL_Idle) ?es = Some (as, q, th)"
    and idle: "\<forall>t. th t = TL_Idle" and count: "length (entered as) = 2" "length (left_queue as) = 1"
    by (simp add: tl_overlap_def TwoLock_new_def tl_thread_step_def)
  from TwoLockQueue_destroyed[OF run idle] count run show ?thesis by auto
qed

end
