(* ===== verification/Lock_Free_Queue.thy ===== *)
theory Lock_Free_Queue
  imports Atomic_Queue
begin

text \<open>
  \<open>LockFreeQueue\<close> (lock_free_queue.h): the queue of Michael and Scott with counted pointers.  Nodes
  that have left the queue are kept on a list of retired nodes until the destructor.  Each load,
  store and compare-exchange is one step of a thread; \<open>new\<close> may return any free address; an access
  through a null pointer or to a node that is not there is undefined behaviour.
  \<open>ContentionBackoff\<close> only delays a thread and is left out.
\<close>

section \<open>State\<close>

(* lock_free_queue.h:23-31 CountedPointer *)
record counted =
  ptr :: "nat option"
  ptr_count :: "64 word"

(* lock_free_queue.h:33-38 Node *)
record lf_node =
  lf_value :: cpp_int
  lf_next :: counted
  gc_next :: "nat option"

(* lock_free_queue.h:51-53 LockFreeQueue *)
record lock_free =
  lf_heap :: "nat \<rightharpoonup> lf_node"
  lf_head :: counted
  lf_tail :: counted
  retired_head :: "nat option"

(* lock_free_queue.h:34-34 Node *)
definition lf_node_new :: "cpp_int \<Rightarrow> lf_node" where
  "lf_node_new v = \<lparr>lf_value = v, lf_next = \<lparr>ptr = None, ptr_count = 1\<rparr>, gc_next = None\<rparr>"

(* lock_free_queue.h:56-62 LockFreeQueue *)
definition LockFree_new :: "nat \<Rightarrow> lock_free" where
  "LockFree_new node =
     (let pointer = \<lparr>ptr = Some node, ptr_count = 2\<rparr>
      in \<lparr>lf_heap = [node \<mapsto> lf_node_new 0], lf_head = pointer, lf_tail = pointer, retired_head = None\<rparr>)"

text \<open>An access to the node a pointer refers to.\<close>

definition node_at :: "lock_free \<Rightarrow> nat option \<Rightarrow> lf_node option" where
  "node_at q p = Option.bind p (lf_heap q)"

definition set_node :: "lock_free \<Rightarrow> nat \<Rightarrow> lf_node \<Rightarrow> lock_free" where
  "set_node q p d = q\<lparr>lf_heap := (lf_heap q)(p \<mapsto> d)\<rparr>"

lemma set_node_fields [simp]:
  "lf_heap (set_node q p d) = (lf_heap q)(p \<mapsto> d)" "lf_head (set_node q p d) = lf_head q"
  "lf_tail (set_node q p d) = lf_tail q" "retired_head (set_node q p d) = retired_head q"
  by (simp_all add: set_node_def)

text \<open>
  \<open>CompareExchange\<close> on a counted pointer: whether it succeeds.  \<open>weak\<close> is a spurious failure.  The
  value it loads into \<open>expected\<close> is overwritten by the next round of the loop before it is used.
\<close>

(* lock_free_queue.h:78-83 CompareExchange *)
definition LockFree_CompareExchange :: "bool \<Rightarrow> counted \<Rightarrow> counted \<Rightarrow> bool" where
  "LockFree_CompareExchange weak target expected \<longleftrightarrow> \<not> weak \<and> target = expected"

text \<open>Where a thread is: the next action, with its local variables.\<close>

datatype lf_thread =
    LF_Idle
  | LE_New cpp_int | LE_Tail cpp_int nat | LE_Next cpp_int nat counted | LE_Check cpp_int nat counted counted
  | LE_Link cpp_int nat counted counted | LE_Help cpp_int nat counted counted | LE_Swing nat counted
  | LD_Head | LD_Tail counted | LD_Next counted counted | LD_Check counted counted counted
  | LD_Help counted counted | LD_Value counted counted | LD_Swing counted counted cpp_int
  | LR_Load "nat option" cpp_int | LR_Set "nat option" "nat option" cpp_int | LR_Cas "nat option" "nat option" cpp_int

type_synonym 't lf_result = "(lock_free \<times> lf_thread \<times> ('t, cpp_int) queue_act) option"

(* lock_free_queue.h:93-118 Enqueue *)
fun LockFree_Enqueue_step :: "'t \<Rightarrow> nat \<Rightarrow> bool \<Rightarrow> lock_free \<Rightarrow> lf_thread \<Rightarrow> 't lf_result" where
  "LockFree_Enqueue_step t a weak q (LE_New v) =
     Some (if lf_heap q a = None then (set_node q a (lf_node_new v), LE_Tail v a, Tau) else (q, LE_New v, Tau))"
| "LockFree_Enqueue_step t a weak q (LE_Tail v node) = Some (q, LE_Next v node (lf_tail q), Tau)"
| "LockFree_Enqueue_step t a weak q (LE_Next v node tail) =
     Option.bind (node_at q (ptr tail)) (\<lambda>d. Some (q, LE_Check v node tail (lf_next d), Tau))"
| "LockFree_Enqueue_step t a weak q (LE_Check v node tail nx) =
     Some (q, if tail = lf_tail q then (if ptr nx = None then LE_Link v node tail nx else LE_Help v node tail nx)
              else LE_Tail v node, Tau)"
| "LockFree_Enqueue_step t a weak q (LE_Link v node tail nx) =
     Option.bind (ptr tail) (\<lambda>p. Option.bind (lf_heap q p) (\<lambda>d.
       Some (if LockFree_CompareExchange weak (lf_next d) nx
             then (set_node q p (d\<lparr>lf_next := \<lparr>ptr = Some node, ptr_count = ptr_count nx + 1\<rparr>\<rparr>), LE_Swing node tail, Did_Enq t v)
             else (q, LE_Tail v node, Tau))))"
| "LockFree_Enqueue_step t a weak q (LE_Help v node tail nx) =
     Some (if LockFree_CompareExchange weak (lf_tail q) tail then q\<lparr>lf_tail := \<lparr>ptr = ptr nx, ptr_count = ptr_count tail + 1\<rparr>\<rparr> else q,
           LE_Tail v node, Tau)"
| "LockFree_Enqueue_step t a weak q (LE_Swing node tail) =
     Some (if LockFree_CompareExchange weak (lf_tail q) tail then q\<lparr>lf_tail := \<lparr>ptr = Some node, ptr_count = ptr_count tail + 1\<rparr>\<rparr> else q,
           LF_Idle, Ret_Enq t)"
| "LockFree_Enqueue_step t a weak q pc = Some (q, pc, Tau)"

text \<open>A failing compare-exchange loads the head of the retired list.\<close>

(* lock_free_queue.h:85-91 RetireNode *)
fun LockFree_RetireNode_step :: "'t \<Rightarrow> bool \<Rightarrow> lock_free \<Rightarrow> lf_thread \<Rightarrow> 't lf_result" where
  "LockFree_RetireNode_step t weak q (LR_Load node v) = Some (q, LR_Set node (retired_head q) v, Tau)"
| "LockFree_RetireNode_step t weak q (LR_Set node retired v) =
     Option.bind node (\<lambda>p. Option.bind (lf_heap q p) (\<lambda>d.
       Some (set_node q p (d\<lparr>gc_next := retired\<rparr>), LR_Cas node retired v, Tau)))"
| "LockFree_RetireNode_step t weak q (LR_Cas node retired v) =
     Some (if \<not> weak \<and> retired_head q = retired then (q\<lparr>retired_head := node\<rparr>, LF_Idle, Ret_Deq t (Some v))
           else (q, LR_Set node (retired_head q) v, Tau))"
| "LockFree_RetireNode_step t weak q pc = Some (q, pc, Tau)"

(* lock_free_queue.h:120-149 Dequeue *)
fun LockFree_Dequeue_step :: "'t \<Rightarrow> bool \<Rightarrow> lock_free \<Rightarrow> lf_thread \<Rightarrow> 't lf_result" where
  "LockFree_Dequeue_step t weak q LD_Head = Some (q, LD_Tail (lf_head q), Tau)"
| "LockFree_Dequeue_step t weak q (LD_Tail head) = Some (q, LD_Next head (lf_tail q), Tau)"
| "LockFree_Dequeue_step t weak q (LD_Next head tail) =
     Option.bind (node_at q (ptr head)) (\<lambda>d. Some (q, LD_Check head tail (lf_next d), Tau))"
| "LockFree_Dequeue_step t weak q (LD_Check head tail nx) =
     Some (if head = lf_head q
           then (if ptr head = ptr tail
                 then (if ptr nx = None then (q, LF_Idle, Ret_Deq t None) else (q, LD_Help tail nx, Tau))
                 else (q, LD_Value head nx, Tau))
           else (q, LD_Head, Tau))"
| "LockFree_Dequeue_step t weak q (LD_Help tail nx) =
     Some (if LockFree_CompareExchange weak (lf_tail q) tail then q\<lparr>lf_tail := \<lparr>ptr = ptr nx, ptr_count = ptr_count tail + 1\<rparr>\<rparr> else q,
           LD_Head, Tau)"
| "LockFree_Dequeue_step t weak q (LD_Value head nx) =
     Option.bind (node_at q (ptr nx)) (\<lambda>d. Some (q, LD_Swing head nx (lf_value d), Tau))"
| "LockFree_Dequeue_step t weak q (LD_Swing head nx v) =
     Some (if LockFree_CompareExchange weak (lf_head q) head
           then (q\<lparr>lf_head := \<lparr>ptr = ptr nx, ptr_count = ptr_count head + 1\<rparr>\<rparr>, LR_Load (ptr head) v, Did_Deq t v)
           else (q, LD_Head, Tau))"
| "LockFree_Dequeue_step t weak q pc = LockFree_RetireNode_step t weak q pc"

text \<open>The destructor, for a queue no thread uses: the nodes of the queue, then the retired ones.\<close>

partial_function (option) lf_delete_active :: "(nat \<rightharpoonup> lf_node) \<Rightarrow> nat option \<Rightarrow> (nat \<rightharpoonup> lf_node) option" where
  "lf_delete_active heap active =
     (case active of
        None \<Rightarrow> Some heap
      | Some p \<Rightarrow> Option.bind (heap p) (\<lambda>d. lf_delete_active (heap(p := None)) (ptr (lf_next d))))"

partial_function (option) lf_delete_retired :: "(nat \<rightharpoonup> lf_node) \<Rightarrow> nat option \<Rightarrow> (nat \<rightharpoonup> lf_node) option" where
  "lf_delete_retired heap retired =
     (case retired of
        None \<Rightarrow> Some heap
      | Some p \<Rightarrow> Option.bind (heap p) (\<lambda>d. lf_delete_retired (heap(p := None)) (gc_next d)))"

(* lock_free_queue.h:151-168 DestroyNodes *)
definition LockFree_DestroyNodes :: "lock_free \<Rightarrow> lock_free option" where
  "LockFree_DestroyNodes q =
     Option.bind (lf_delete_active (lf_heap q) (ptr (lf_head q))) (\<lambda>heap.
     Option.bind (lf_delete_retired heap (retired_head q)) (\<lambda>heap.
       Some \<lparr>lf_heap = heap, lf_head = \<lparr>ptr = None, ptr_count = 0\<rparr>, lf_tail = \<lparr>ptr = None, ptr_count = 0\<rparr>,
         retired_head = None\<rparr>))"

section \<open>Schedules\<close>

datatype 't lf_event = LF_Enqueue 't cpp_int | LF_Dequeue 't | LF_Step 't nat bool

fun lf_enqueueing :: "lf_thread \<Rightarrow> bool" where
  "lf_enqueueing (LE_New v) = True"
| "lf_enqueueing (LE_Tail v n) = True"
| "lf_enqueueing (LE_Next v n tp) = True"
| "lf_enqueueing (LE_Check v n tp nx) = True"
| "lf_enqueueing (LE_Link v n tp nx) = True"
| "lf_enqueueing (LE_Help v n tp nx) = True"
| "lf_enqueueing (LE_Swing n tp) = True"
| "lf_enqueueing pc = False"

definition lf_thread_step :: "'t \<Rightarrow> nat \<Rightarrow> bool \<Rightarrow> lock_free \<Rightarrow> lf_thread \<Rightarrow> 't lf_result" where
  "lf_thread_step t a weak q pc =
     (if lf_enqueueing pc then LockFree_Enqueue_step t a weak q pc else LockFree_Dequeue_step t weak q pc)"

type_synonym 't lf_system = "lock_free \<times> ('t \<Rightarrow> lf_thread)"

fun lf_step :: "'t lf_system \<Rightarrow> 't lf_event \<Rightarrow> ('t lf_system \<times> ('t, cpp_int) queue_act) option" where
  "lf_step (q, th) (LF_Enqueue t v) =
     Some (if th t = LF_Idle then ((q, th(t := LE_New v)), Call_Enq t v) else ((q, th), Tau))"
| "lf_step (q, th) (LF_Dequeue t) =
     Some (if th t = LF_Idle then ((q, th(t := LD_Head)), Call_Deq t) else ((q, th), Tau))"
| "lf_step (q, th) (LF_Step t a weak) =
     Option.bind (lf_thread_step t a weak q (th t)) (\<lambda>(q', pc, act). Some ((q', th(t := pc)), act))"

section \<open>The invariant\<close>

definition lf_nx :: "lock_free \<Rightarrow> nat \<Rightarrow> nat option option" where
  "lf_nx q p = map_option (\<lambda>d. ptr (lf_next d)) (lf_heap q p)"

definition lf_val :: "lock_free \<Rightarrow> nat \<Rightarrow> cpp_int" where
  "lf_val q p = (case lf_heap q p of Some d \<Rightarrow> lf_value d | None \<Rightarrow> 0)"

text \<open>The node an enqueuer has made and not yet linked, and the node a dequeuer has taken out and not
  yet put on the retired list.\<close>

fun lf_made :: "lf_thread \<Rightarrow> nat option" where
  "lf_made (LE_Tail v n) = Some n"
| "lf_made (LE_Next v n tp) = Some n"
| "lf_made (LE_Check v n tp nx) = Some n"
| "lf_made (LE_Link v n tp nx) = Some n"
| "lf_made (LE_Help v n tp nx) = Some n"
| "lf_made pc = None"

fun lf_retiring :: "lf_thread \<Rightarrow> nat option" where
  "lf_retiring (LR_Load n v) = n"
| "lf_retiring (LR_Set n r v) = n"
| "lf_retiring (LR_Cas n r v) = n"
| "lf_retiring pc = None"

text \<open>
  \<open>all\<close> are the nodes that were ever linked, in their order.  Pointers only move forward along it: what a
  thread has read from \<open>head_\<close> or \<open>tail_\<close> is not after what is there now.
\<close>

definition lf_seen :: "nat list \<Rightarrow> counted \<Rightarrow> counted \<Rightarrow> bool" where
  "lf_seen all old new \<longleftrightarrow> (\<exists>p n. ptr old = Some p \<and> ptr new = Some n \<and> before all p n)"

definition lf_successor :: "lock_free \<Rightarrow> counted \<Rightarrow> nat option \<Rightarrow> bool" where
  "lf_successor q c m \<longleftrightarrow> (\<exists>p n. ptr c = Some p \<and> m = Some n \<and> lf_nx q p = Some (Some n))"

fun lf_thread_ok :: "lock_free \<Rightarrow> nat list \<Rightarrow> cpp_int queue_call \<Rightarrow> lf_thread \<Rightarrow> bool" where
  "lf_thread_ok q all c LF_Idle \<longleftrightarrow> c = No_Call"
| "lf_thread_ok q all c (LE_New v) \<longleftrightarrow> c = Enq_Call v False"
| "lf_thread_ok q all c (LE_Tail v n) \<longleftrightarrow> c = Enq_Call v False \<and> lf_heap q n = Some (lf_node_new v)"
| "lf_thread_ok q all c (LE_Next v n tp) \<longleftrightarrow> c = Enq_Call v False \<and> lf_heap q n = Some (lf_node_new v) \<and>
     lf_seen all tp (lf_tail q)"
| "lf_thread_ok q all c (LE_Check v n tp nx) \<longleftrightarrow> c = Enq_Call v False \<and> lf_heap q n = Some (lf_node_new v) \<and>
     lf_seen all tp (lf_tail q) \<and> (ptr nx \<noteq> None \<longrightarrow> lf_successor q tp (ptr nx))"
| "lf_thread_ok q all c (LE_Link v n tp nx) \<longleftrightarrow> c = Enq_Call v False \<and> lf_heap q n = Some (lf_node_new v) \<and>
     lf_seen all tp (lf_tail q) \<and> ptr nx = None"
| "lf_thread_ok q all c (LE_Help v n tp nx) \<longleftrightarrow> c = Enq_Call v False \<and> lf_heap q n = Some (lf_node_new v) \<and>
     lf_successor q tp (ptr nx)"
| "lf_thread_ok q all c (LE_Swing n tp) \<longleftrightarrow> (\<exists>v. c = Enq_Call v True) \<and> lf_successor q tp (Some n)"
| "lf_thread_ok q all c LD_Head \<longleftrightarrow> (\<exists>b. c = Deq_Call b)"
| "lf_thread_ok q all c (LD_Tail h) \<longleftrightarrow> (\<exists>b. c = Deq_Call b) \<and> lf_seen all h (lf_head q)"
| "lf_thread_ok q all c (LD_Next h tp) \<longleftrightarrow> (\<exists>b. c = Deq_Call b) \<and> lf_seen all h (lf_head q) \<and>
     lf_seen all h tp \<and> lf_seen all tp (lf_tail q)"
| "lf_thread_ok q all c (LD_Check h tp nx) \<longleftrightarrow> (\<exists>b. c = Deq_Call b) \<and> lf_seen all h (lf_head q) \<and>
     lf_seen all h tp \<and> lf_seen all tp (lf_tail q) \<and>
     (if ptr nx = None then c = Deq_Call True \<and> ptr h = ptr tp else lf_successor q h (ptr nx))"
| "lf_thread_ok q all c (LD_Help tp nx) \<longleftrightarrow> (\<exists>b. c = Deq_Call b) \<and> lf_successor q tp (ptr nx)"
| "lf_thread_ok q all c (LD_Value h nx) \<longleftrightarrow> (\<exists>b. c = Deq_Call b) \<and> lf_successor q h (ptr nx) \<and> lf_seen all nx (lf_tail q)"
| "lf_thread_ok q all c (LD_Swing h nx v) \<longleftrightarrow> (\<exists>b. c = Deq_Call b) \<and> lf_successor q h (ptr nx) \<and> lf_seen all nx (lf_tail q) \<and>
     (\<forall>m. ptr nx = Some m \<longrightarrow> v = lf_val q m)"
| "lf_thread_ok q all c (LR_Load n v) \<longleftrightarrow> c = Deq_Took v \<and> n \<noteq> None"
| "lf_thread_ok q all c (LR_Set n r v) \<longleftrightarrow> c = Deq_Took v \<and> n \<noteq> None"
| "lf_thread_ok q all c (LR_Cas n r v) \<longleftrightarrow> c = Deq_Took v \<and> (\<exists>p d. n = Some p \<and> lf_heap q p = Some d \<and> gc_next d = r)"

text \<open>The retired list, linked by \<open>gc_next\<close>.\<close>

fun retired_list :: "(nat \<rightharpoonup> lf_node) \<Rightarrow> nat option \<Rightarrow> nat list \<Rightarrow> bool" where
  "retired_list h r [] \<longleftrightarrow> r = None"
| "retired_list h r (p # ps) \<longleftrightarrow> r = Some p \<and> (\<exists>d. h p = Some d \<and> retired_list h (gc_next d) ps)"

text \<open>
  \<open>dead\<close> are the nodes that have left the queue, \<open>h\<close> is the dummy node, \<open>ns\<close> are the nodes with the
  elements, \<open>rs\<close> is the retired list.
\<close>

definition lf_ok :: "lock_free \<Rightarrow> ('t \<Rightarrow> lf_thread) \<Rightarrow> nat list \<Rightarrow> nat \<Rightarrow> nat list \<Rightarrow> nat list \<Rightarrow>
    cpp_int list \<Rightarrow> ('t \<Rightarrow> cpp_int queue_call) \<Rightarrow> bool" where
  "lf_ok q th dead h ns rs items calls \<longleftrightarrow>
     ptr (lf_head q) = Some h \<and> chained (lf_nx q) (dead @ h # ns) \<and> items = map (lf_val q) ns \<and>
     lf_seen (dead @ h # ns) (lf_head q) (lf_tail q) \<and>
     (\<forall>t. lf_thread_ok q (dead @ h # ns) (calls t) (th t)) \<and>
     owned_apart (lf_made \<circ> th) (set (dead @ h # ns)) (dom (lf_heap q)) \<and>
     empty_noted items calls \<and> retired_list (lf_heap q) (retired_head q) rs \<and> distinct rs \<and>
     owned_apart (lf_retiring \<circ> th) (set rs) (set dead)"

definition lf_rel :: "'t lf_system \<Rightarrow> cpp_int list \<times> ('t \<Rightarrow> cpp_int queue_call) \<Rightarrow> bool" where
  "lf_rel s f \<longleftrightarrow> (\<exists>dead h ns rs. lf_ok (fst s) (snd s) dead h ns rs (fst f) (snd f))"

lemma lf_okD:
  assumes "lf_ok q th dead h ns rs items calls"
  shows "ptr (lf_head q) = Some h" "chained (lf_nx q) (dead @ h # ns)" "items = map (lf_val q) ns"
    "lf_seen (dead @ h # ns) (lf_head q) (lf_tail q)"
    "\<And>t. lf_thread_ok q (dead @ h # ns) (calls t) (th t)"
    "owned_apart (lf_made \<circ> th) (set (dead @ h # ns)) (dom (lf_heap q))"
    "empty_noted items calls" "retired_list (lf_heap q) (retired_head q) rs" "distinct rs"
    "owned_apart (lf_retiring \<circ> th) (set rs) (set dead)" "distinct (dead @ h # ns)"
  using assms unfolding lf_ok_def by (blast | intro chained_distinct)+

lemma lf_okI:
  assumes "ptr (lf_head q) = Some h" "chained (lf_nx q) (dead @ h # ns)" "items = map (lf_val q) ns"
    "lf_seen (dead @ h # ns) (lf_head q) (lf_tail q)"
    "\<And>t. lf_thread_ok q (dead @ h # ns) (calls t) (th t)"
    "owned_apart (lf_made \<circ> th) (set (dead @ h # ns)) (dom (lf_heap q))"
    "empty_noted items calls" "retired_list (lf_heap q) (retired_head q) rs" "distinct rs"
    "owned_apart (lf_retiring \<circ> th) (set rs) (set dead)"
  shows "lf_ok q th dead h ns rs items calls"
  using assms unfolding lf_ok_def by blast

lemma lf_seen_refl: "ptr c = Some p \<Longrightarrow> p \<in> set all \<Longrightarrow> lf_seen all c c"
  by (simp add: lf_seen_def before_refl)

lemma lf_seen_trans: "distinct all \<Longrightarrow> lf_seen all a b \<Longrightarrow> lf_seen all b c \<Longrightarrow> lf_seen all a c"
  unfolding lf_seen_def using before_trans by fastforce

text \<open>How the assertions survive a step of another thread.\<close>

lemma lf_successor_frame:
  "lf_successor q c m \<Longrightarrow> (\<And>p n. lf_nx q p = Some (Some n) \<Longrightarrow> lf_nx q' p = Some (Some n)) \<Longrightarrow> lf_successor q' c m"
  by (auto simp: lf_successor_def)

lemma lf_thread_ok_frame:
  assumes ok: "lf_thread_ok q all c pc"
    and grow: "\<And>p n. before all p n \<Longrightarrow> before all' p n" "\<And>p n. lf_nx q p = Some (Some n) \<Longrightarrow> lf_nx q' p = Some (Some n)"
    and fwd: "\<And>x. lf_seen all x (lf_head q) \<Longrightarrow> lf_seen all' x (lf_head q')"
      "\<And>x. lf_seen all x (lf_tail q) \<Longrightarrow> lf_seen all' x (lf_tail q')"
    and made: "\<And>n. lf_made pc = Some n \<Longrightarrow> lf_heap q' n = lf_heap q n"
    and ret: "\<And>n. lf_retiring pc = Some n \<Longrightarrow> map_option gc_next (lf_heap q' n) = map_option gc_next (lf_heap q n)"
    and val: "\<And>n. n \<in> set all \<Longrightarrow> lf_val q' n = lf_val q n"
  shows "lf_thread_ok q' all' c pc"
proof -
  have seen: "lf_seen all' x y" if "lf_seen all x y" for x y using that grow(1) unfolding lf_seen_def by blast
  have succ: "lf_successor q' x m" if "lf_successor q x m" for x m using lf_successor_frame[OF that grow(2)] by blast
  have at: "m \<in> set all" if "lf_seen all nx y" "ptr nx = Some m" for nx y m
    using that before_in unfolding lf_seen_def by fastforce
  show ?thesis
  proof (cases "(q, all, c, pc)" rule: lf_thread_ok.cases)
    case (15 q all c h nx v)
    then show ?thesis using ok fwd(2) succ val at by auto
  next
    case (18 q all c n r v)
    then obtain p d where "n = Some p" "lf_heap q p = Some d" "gc_next d = r" "c = Deq_Took v" using ok by auto
    then show ?thesis using 18 ret[of p] by auto
  qed (use ok fwd made seen succ in \<open>auto split: if_splits\<close>)
qed

section \<open>Each kind of step keeps the invariant\<close>

text \<open>A thread that only learns something.\<close>

lemma lf_ok_move:
  assumes ok: "lf_ok q th dead h ns rs items calls"
    and pc: "lf_thread_ok q (dead @ h # ns) c pc" "lf_made pc = lf_made (th t)" "lf_retiring pc = lf_retiring (th t)"
    and noted: "items = [] \<Longrightarrow> c \<noteq> Deq_Call False"
  shows "lf_ok q (th(t := pc)) dead h ns rs items (calls(t := c))"
proof (rule lf_okI)
  note D = lf_okD[OF ok]
  have "lf_made \<circ> th(t := pc) = lf_made \<circ> th" "lf_retiring \<circ> th(t := pc) = lf_retiring \<circ> th"
    using pc(2,3) by (auto simp: fun_eq_iff)
  then show "owned_apart (lf_made \<circ> th(t := pc)) (set (dead @ h # ns)) (dom (lf_heap q))"
    "owned_apart (lf_retiring \<circ> th(t := pc)) (set rs) (set dead)" using D(6,10) by simp_all
  show "lf_thread_ok q (dead @ h # ns) ((calls(t := c)) u) ((th(t := pc)) u)" for u using D(5)[of u] pc(1) by simp
  show "empty_noted items (calls(t := c))" by (rule empty_noted_upd[OF D(7) noted])
qed (use lf_okD[OF ok] in auto)

text \<open>The tail pointer moves to the successor of its node.\<close>

lemma lf_ok_tail_moved:
  assumes ok: "lf_ok q th dead h ns rs items calls" and succ: "lf_successor q (lf_tail q) m" and new: "ptr c = m"
  shows "lf_ok (q\<lparr>lf_tail := c\<rparr>) th dead h ns rs items calls" (is "lf_ok ?q _ _ _ _ _ _ _")
proof (rule lf_okI)
  note D = lf_okD[OF ok]
  let ?all = "dead @ h # ns"
  have nx: "lf_nx ?q = lf_nx q" "lf_val ?q = lf_val q" by (auto simp: lf_nx_def lf_val_def fun_eq_iff)
  obtain p n where p: "ptr (lf_tail q) = Some p" "m = Some n" "lf_nx q p = Some (Some n)"
    using succ unfolding lf_successor_def by blast
  have "p \<in> set ?all" using D(4) p(1) before_in unfolding lf_seen_def by fastforce
  then have step: "lf_seen ?all (lf_tail q) c" using before_next[OF D(2) _ p(3)] p new by (auto simp: lf_seen_def)
  then have seen: "lf_seen ?all x c" if "lf_seen ?all x (lf_tail q)" for x using lf_seen_trans[OF D(11) that] by blast
  show "lf_seen ?all (lf_head ?q) (lf_tail ?q)" using seen[OF D(4)] by simp
  show "lf_thread_ok ?q ?all (calls u) (th u)" for u
    by (rule lf_thread_ok_frame[OF D(5)]) (use nx seen in simp_all)
  show "chained (lf_nx ?q) ?all" "items = map (lf_val ?q) ns" using D(2,3) nx by simp_all
qed (use lf_okD[OF ok] in auto)

lemma retired_list_frame:
  "retired_list h r ps \<Longrightarrow> (\<And>p. p \<in> set ps \<Longrightarrow> map_option gc_next (h' p) = map_option gc_next (h p)) \<Longrightarrow> retired_list h' r ps"
proof (induction h r ps rule: retired_list.induct)
  case (2 h r p ps)
  then obtain d where "r = Some p" "h p = Some d" "retired_list h (gc_next d) ps" by auto
  moreover from this obtain d' where "h' p = Some d'" "gc_next d' = gc_next d" using "2.prems"(2)[of p] by auto
  moreover have "retired_list h' (gc_next d) ps" using "2.IH" "2.prems"(2) calculation(2,3) by simp
  ultimately show ?case by simp
qed simp

lemma lf_ok_dead_heap:
  assumes "lf_ok q th dead h ns rs items calls"
  shows "set rs \<subseteq> set dead" "set (dead @ h # ns) \<subseteq> dom (lf_heap q)"
  using owned_apartD(4)[OF lf_okD(10)[OF assms]] owned_apartD(4)[OF lf_okD(6)[OF assms]] by auto

lemma lf_ok_made:
  assumes ok: "lf_ok q th dead h ns rs items calls" and t: "th t = LE_New v" and a: "lf_heap q a = None"
  shows "lf_ok (set_node q a (lf_node_new v)) (th(t := LE_Tail v a)) dead h ns rs items calls"
    (is "lf_ok ?q ?th _ _ _ _ _ _")
proof (rule lf_okI)
  note D = lf_okD[OF ok]
  let ?all = "dead @ h # ns"
  have fresh: "a \<notin> dom (lf_heap q)" using a by blast
  have used: "n \<noteq> a" if "n \<in> set ?all" for n using lf_ok_dead_heap(2)[OF ok] that fresh by blast
  have nx: "lf_nx ?q p = lf_nx q p" "lf_val ?q p = lf_val q p" if "p \<noteq> a" for p
    using that by (simp_all add: lf_nx_def lf_val_def)
  have keep: "lf_nx ?q p = Some (Some n)" if "lf_nx q p = Some (Some n)" for p n
    using that a by (auto simp: lf_nx_def)
  show "chained (lf_nx ?q) ?all" using D(2) chained_cong[of ?all "lf_nx ?q" "lf_nx q"] nx used by blast
  show "items = map (lf_val ?q) ns" using D(3) nx used by simp
  show "lf_seen ?all (lf_head ?q) (lf_tail ?q)" using D(4) by simp
  have "lf_retiring \<circ> ?th = lf_retiring \<circ> th" using t by (auto simp: fun_eq_iff)
  then show "owned_apart (lf_retiring \<circ> ?th) (set rs) (set dead)" using D(10) by simp
  show "owned_apart (lf_made \<circ> ?th) (set ?all) (dom (lf_heap ?q))"
    using owned_apart_gain[OF D(6), of t a] t fresh unfolding comp_fun_upd by simp
  show "lf_thread_ok ?q ?all (calls u) (?th u)" for u
  proof (cases "u = t")
    case False
    have ret: "n \<noteq> a" if "lf_retiring (th u) = Some n" for n
      using owned_apartD(3)[OF D(10), of u n] that used by auto
    have made: "n \<noteq> a" if "lf_made (th u) = Some n" for n
      using owned_apartD(3)[OF D(6), of u n] that fresh by auto
    have "lf_thread_ok ?q ?all (calls u) (th u)"
      by (rule lf_thread_ok_frame[OF D(5)]) (use keep nx used ret made in auto)
    then show ?thesis using False by simp
  qed (use D(5)[of t] t in simp)
  show "retired_list (lf_heap ?q) (retired_head ?q) rs"
    unfolding set_node_fields by (rule retired_list_frame[OF D(8)]) (use used lf_ok_dead_heap(1)[OF ok] in auto)
qed (use lf_okD[OF ok] in auto)


lemma lf_node_exists:
  assumes "lf_ok q th dead h ns rs items calls" and "p \<in> set (dead @ h # ns)"
  obtains d where "lf_heap q p = Some d"
  using lf_ok_dead_heap(2)[OF assms(1)] assms(2) by blast

lemma lf_ok_linked:
  assumes ok: "lf_ok q th dead h ns rs items calls" and t: "th t = LE_Link v n tp nx"
    and d: "ptr tp = Some p" "lf_heap q p = Some d" "lf_next d = nx" and c: "ptr c = Some n"
  shows "lf_ok (set_node q p (d\<lparr>lf_next := c\<rparr>)) (th(t := LE_Swing n tp)) dead h (ns @ [n]) rs (items @ [v])
    (calls(t := Enq_Call v True))" (is "lf_ok ?q ?th _ _ _ _ _ ?calls")
proof (rule lf_okI)
  note D = lf_okD[OF ok]
  let ?all = "dead @ h # ns"
  have T: "lf_heap q n = Some (lf_node_new v)" "lf_seen ?all tp (lf_tail q)" "ptr nx = None" using D(5)[of t] t by simp_all
  have p: "p \<in> set ?all" using T(2) d(1) before_in unfolding lf_seen_def by fastforce
  have "lf_nx q p = Some None" using d T(3) by (simp add: lf_nx_def)
  then have last: "p = last ?all" using chained_last_iff[OF D(2) p] by simp
  have n: "n \<notin> set ?all" using owned_apartD(2)[OF D(6), of t n] t by simp
  have np: "n \<noteq> p" using n p by blast
  have nx: "lf_nx ?q x = lf_nx q x" if "x \<noteq> p" for x using that by (simp add: lf_nx_def)
  have nxp: "lf_nx ?q p = Some (Some n)" using c by (simp add: lf_nx_def)
  have val: "lf_val ?q x = lf_val q x" for x using d(2) by (simp add: lf_val_def)
  have keep: "lf_nx ?q x = Some (Some y)" if "lf_nx q x = Some (Some y)" for x y
    using that nx \<open>lf_nx q p = Some None\<close> by (cases "x = p") auto
  have chain: "chained (lf_nx ?q) (?all @ [n])"
  proof (rule chained_snoc[OF D(2)])
    show "lf_nx ?q (last ?all) = Some (Some n)" using nxp last by simp
    have "lf_nx q n = Some None" using T(1) by (simp add: lf_nx_def lf_node_new_def)
    then show "lf_nx ?q n = Some None" using nx[OF np] by simp
    show "lf_nx ?q x = lf_nx q x" if "x \<noteq> last ?all" for x using nx that last by simp
  qed
  then show "chained (lf_nx ?q) (dead @ h # ns @ [n])" by simp
  have grow: "before (dead @ h # ns @ [n]) x y" if "before ?all x y" for x y using before_snoc[OF that, of n] by simp
  then have seen: "lf_seen (dead @ h # ns @ [n]) x y" if "lf_seen ?all x y" for x y using that unfolding lf_seen_def by blast
  show "lf_seen (dead @ h # ns @ [n]) (lf_head ?q) (lf_tail ?q)" using seen[OF D(4)] by simp
  have "lf_val q n = v" using T(1) by (simp add: lf_val_def lf_node_new_def)
  then show "items @ [v] = map (lf_val ?q) (ns @ [n])" using D(3) val by simp
  have "lf_retiring \<circ> ?th = lf_retiring \<circ> th" using t by (auto simp: fun_eq_iff)
  then show "owned_apart (lf_retiring \<circ> ?th) (set rs) (set dead)" using D(10) by simp
  have "set (dead @ h # ns @ [n]) = insert n (set ?all)" "dom (lf_heap ?q) = dom (lf_heap q)" using d(2) by auto
  then show "owned_apart (lf_made \<circ> ?th) (set (dead @ h # ns @ [n])) (dom (lf_heap ?q))"
    using owned_apart_link[OF D(6), of t n] t unfolding comp_fun_upd by simp
  have gc: "map_option gc_next (lf_heap ?q x) = map_option gc_next (lf_heap q x)" for x using d(2) by simp
  show "lf_thread_ok ?q (dead @ h # ns @ [n]) (?calls u) (?th u)" for u
  proof (cases "u = t")
    case False
    have made: "m \<noteq> p" if "lf_made (th u) = Some m" for m
      using owned_apartD(2)[OF D(6), of u m] that p by auto
    have "lf_thread_ok ?q (dead @ h # ns @ [n]) (calls u) (th u)"
      by (rule lf_thread_ok_frame[OF D(5)]) (use keep grow seen val gc made in auto)
    then show ?thesis using False by simp
  next
    case True
    have "lf_successor ?q tp (Some n)" using d(1) nxp by (simp add: lf_successor_def)
    then show ?thesis using True by simp
  qed
  show "retired_list (lf_heap ?q) (retired_head ?q) rs"
    unfolding set_node_fields by (rule retired_list_frame[OF D(8)]) (use gc in simp)
  show "empty_noted (items @ [v]) ?calls" by (simp add: empty_noted_def)
qed (use lf_okD[OF ok] in auto)

lemma lf_ok_taken:
  assumes ok: "lf_ok q th dead h ns rs items calls" and t: "th t = LD_Swing hp nx v" and hp: "lf_head q = hp" and c: "ptr c = ptr nx"
  shows "\<exists>m ms rest b. ns = m # ms \<and> items = v # rest \<and> calls t = Deq_Call b \<and>
    lf_ok (q\<lparr>lf_head := c\<rparr>) (th(t := LR_Load (ptr hp) v)) (dead @ [h]) m ms rs rest ((note_empty rest \<circ> calls)(t := Deq_Took v))"
proof -
  note D = lf_okD[OF ok]
  let ?all = "dead @ h # ns"
  obtain b m where call: "calls t = Deq_Call b" and m: "ptr nx = Some m" "lf_nx q h = Some (Some m)" "v = lf_val q m"
    and tail: "lf_seen ?all nx (lf_tail q)"
    using D(5)[of t] t hp D(1) by (auto simp: lf_successor_def)
  have "chained (lf_nx q) (h # ns)" by (rule chained_suffix[OF D(2)]) simp
  with m(2) obtain ms where ns: "ns = m # ms" by (cases ns) auto
  obtain rest where items: "items = v # rest" "rest = map (lf_val q) ms" using D(3) ns m(3) by simp
  let ?q = "q\<lparr>lf_head := c\<rparr>" and ?th = "th(t := LR_Load (ptr hp) v)" and ?calls = "(note_empty rest \<circ> calls)(t := Deq_Took v)"
  have nx: "lf_nx ?q = lf_nx q" "lf_val ?q = lf_val q" by (auto simp: lf_nx_def lf_val_def fun_eq_iff)
  have step: "lf_seen ?all (lf_head q) c"
    using before_next[OF D(2) _ m(2)] D(1) m(1) c by (simp add: lf_seen_def)
  have "lf_ok ?q ?th (dead @ [h]) m ms rs rest ?calls"
  proof (rule lf_okI)
    show "ptr (lf_head ?q) = Some m" using c m(1) by simp
    show "chained (lf_nx ?q) ((dead @ [h]) @ m # ms)" using D(2) ns nx by simp
    show "rest = map (lf_val ?q) ms" using items nx by simp
    have "lf_seen ?all c (lf_tail q)" using tail c by (simp add: lf_seen_def)
    then show "lf_seen ((dead @ [h]) @ m # ms) (lf_head ?q) (lf_tail ?q)" using ns by simp
    have "lf_made \<circ> ?th = lf_made \<circ> th" using t by (auto simp: fun_eq_iff)
    then show "owned_apart (lf_made \<circ> ?th) (set ((dead @ [h]) @ m # ms)) (dom (lf_heap ?q))" using D(6) ns by simp
    have fresh: "h \<notin> set dead" using D(11) by simp
    show "owned_apart (lf_retiring \<circ> ?th) (set rs) (set (dead @ [h]))"
      using owned_apart_gain[OF D(10), of t h] t fresh hp D(1) unfolding comp_fun_upd by simp
    show "empty_noted rest ?calls" by (rule empty_noted_taken)
    show "lf_thread_ok ?q ((dead @ [h]) @ m # ms) (?calls u) (?th u)" for u
    proof (cases "u = t")
      case False
      have "lf_thread_ok ?q ?all (calls u) (th u)"
        by (rule lf_thread_ok_frame[OF D(5)]) (use nx lf_seen_trans[OF D(11) _ step] in simp_all)
      then have "lf_thread_ok ?q ?all (note_empty rest (calls u)) (th u)"
        by (cases "(q, ?all, calls u, th u)" rule: lf_thread_ok.cases) auto
      then show ?thesis using False ns by simp
    qed (use hp D(1) in simp)
  qed (use D in auto)
  then show ?thesis using call ns items(1) by blast
qed


lemma lf_ok_gc_set:
  assumes ok: "lf_ok q th dead h ns rs items calls" and t: "th t = LR_Set (Some p) r v" and d: "lf_heap q p = Some d"
  shows "lf_ok (set_node q p (d\<lparr>gc_next := r\<rparr>)) (th(t := LR_Cas (Some p) r v)) dead h ns rs items calls"
    (is "lf_ok ?q ?th _ _ _ _ _ _")
proof (rule lf_okI)
  note D = lf_okD[OF ok]
  let ?all = "dead @ h # ns"
  have own: "(lf_retiring \<circ> th) t = Some p" using t by simp
  have p: "p \<in> set dead" "p \<notin> set rs" using owned_apartD(2,3)[OF D(10) own] by simp_all
  have nx: "lf_nx ?q = lf_nx q" "lf_val ?q = lf_val q" using d by (auto simp: lf_nx_def lf_val_def set_node_def fun_eq_iff)
  show "chained (lf_nx ?q) ?all" "items = map (lf_val ?q) ns" using D(2,3) nx by simp_all
  have "lf_made \<circ> ?th = lf_made \<circ> th" "lf_retiring \<circ> ?th = lf_retiring \<circ> th" "dom (lf_heap ?q) = dom (lf_heap q)"
    using t d by (auto simp: fun_eq_iff)
  then show "owned_apart (lf_made \<circ> ?th) (set ?all) (dom (lf_heap ?q))"
    "owned_apart (lf_retiring \<circ> ?th) (set rs) (set dead)" using D(6,10) by simp_all
  show "lf_thread_ok ?q ?all (calls u) (?th u)" for u
  proof (cases "u = t")
    case False
    have other: "lf_retiring (th u) \<noteq> Some p" using owned_apartD(1)[OF D(10) own, of u] False by auto
    have made: "m \<noteq> p" if "lf_made (th u) = Some m" for m
      using owned_apartD(2)[OF D(6), of u m] that p by auto
    have "lf_thread_ok ?q ?all (calls u) (th u)"
      by (rule lf_thread_ok_frame[OF D(5)]) (use nx other made in auto)
    then show ?thesis using False by simp
  qed (use D(5)[of t] t in simp)
  show "retired_list (lf_heap ?q) (retired_head ?q) rs"
    unfolding set_node_fields by (rule retired_list_frame[OF D(8)]) (use p in auto)
qed (use lf_okD[OF ok] in auto)

lemma lf_ok_retired:
  assumes ok: "lf_ok q th dead h ns rs items calls" and t: "th t = LR_Cas (Some p) r v" and r: "retired_head q = r"
  shows "lf_ok (q\<lparr>retired_head := Some p\<rparr>) (th(t := LF_Idle)) dead h ns (p # rs) items (calls(t := No_Call))"
    (is "lf_ok ?q ?th _ _ _ _ _ ?calls")
proof (rule lf_okI)
  note D = lf_okD[OF ok]
  let ?all = "dead @ h # ns"
  have own: "(lf_retiring \<circ> th) t = Some p" using t by simp
  have p: "p \<in> set dead" "p \<notin> set rs" using owned_apartD(2,3)[OF D(10) own] by simp_all
  have nx: "lf_nx ?q = lf_nx q" "lf_val ?q = lf_val q" by (auto simp: lf_nx_def lf_val_def fun_eq_iff)
  show "chained (lf_nx ?q) ?all" "items = map (lf_val ?q) ns" using D(2,3) nx by simp_all
  have "lf_made \<circ> ?th = lf_made \<circ> th" using t by (auto simp: fun_eq_iff)
  then show "owned_apart (lf_made \<circ> ?th) (set ?all) (dom (lf_heap ?q))" using D(6) by simp
  show "owned_apart (lf_retiring \<circ> ?th) (set (p # rs)) (set dead)"
    using owned_apart_link[of "lf_retiring \<circ> th" _ _ t p, OF D(10) own] unfolding comp_fun_upd by simp
  show "lf_thread_ok ?q ?all (?calls u) (?th u)" for u
  proof (cases "u = t")
    case False
    have "lf_thread_ok ?q ?all (calls u) (th u)"
      by (rule lf_thread_ok_frame[OF D(5)]) (use nx in simp_all)
    then show ?thesis using False by simp
  qed simp
  obtain d where "lf_heap q p = Some d" "gc_next d = r" using D(5)[of t] t by auto
  then show "retired_list (lf_heap ?q) (retired_head ?q) (p # rs)" using D(8) r by simp
  show "distinct (p # rs)" using D(9) p by simp
  show "empty_noted items ?calls" by (rule empty_noted_upd[OF D(7)]) simp
qed (use lf_okD[OF ok] in auto)

section \<open>Every step keeps the invariant\<close>

lemma lf_seen_node:
  assumes "lf_ok q th dead h ns rs items calls" and "lf_seen (dead @ h # ns) x y"
  obtains p d where "ptr x = Some p" "p \<in> set (dead @ h # ns)" "lf_heap q p = Some d" "lf_nx q p = Some (ptr (lf_next d))"
proof -
  obtain p where p: "ptr x = Some p" "p \<in> set (dead @ h # ns)"
    using assms(2) before_in unfolding lf_seen_def by fastforce
  obtain d where "lf_heap q p = Some d" by (rule lf_node_exists[OF assms(1) p(2)])
  then show ?thesis by (intro that[OF p]) (simp_all add: lf_nx_def)
qed

text \<open>Reading the \<open>next\<close> pointer of a node that has been seen.\<close>

lemma lf_next_read:
  assumes "ptr x = Some p" "lf_nx q p = Some (ptr (lf_next d))" "ptr (lf_next d) \<noteq> None"
  shows "lf_successor q x (ptr (lf_next d))"
  using assms by (auto simp: lf_successor_def)

lemma lf_same: "lf_ok q th dead h ns rs items calls \<Longrightarrow> lf_ok q (th(t := th t)) dead h ns rs items (calls(t := calls t))"
  by simp

lemma lf_enqueue_keeps:
  assumes ok: "lf_ok q th dead h ns rs items calls" and pc: "lf_enqueueing (th t)"
  shows "\<exists>q' pc' act f'. LockFree_Enqueue_step t a weak q (th t) = Some (q', pc', act) \<and>
    atomic_queue (items, calls) act = Some f' \<and> lf_rel (q', th(t := pc')) f'"
proof -
  note D = lf_okD[OF ok]
  let ?all = "dead @ h # ns"
  have move: "lf_ok q (th(t := pc)) dead h ns rs items calls"
    if "lf_thread_ok q ?all (calls t) pc" "lf_made pc = lf_made (th t)" "lf_retiring pc = lf_retiring (th t)" for pc
    using lf_ok_move[OF ok that] D(7) unfolding empty_noted_def by simp
  have goal: ?thesis
    if "LockFree_Enqueue_step t a weak q (th t) = Some (q', pc', act)" "atomic_queue (items, calls) act = Some (items', calls')"
      "lf_ok q' (th(t := pc')) dead' h' ns' rs' items' calls'" for q' pc' act items' calls' dead' h' ns' rs'
    using that unfolding lf_rel_def by auto
  show ?thesis
  proof (cases "th t" rule: lf_enqueueing.cases)
    case (1 v)
    show ?thesis
    proof (cases "lf_heap q a = None")
      case True
      then show ?thesis using 1 by (intro goal[OF _ _ lf_ok_made[OF ok 1 True]]) (simp_all+)
    next
      case False
      then show ?thesis using 1 D(5)[of t] by (intro goal[OF _ _ move[of "LE_New v"]]) (simp_all+)
    qed
  next
    case (2 v n)
    have "lf_seen ?all (lf_tail q) (lf_tail q)"
      using D(4) before_in lf_seen_refl unfolding lf_seen_def by fastforce
    then show ?thesis using 2 D(5)[of t] by (intro goal[OF _ _ move[of "LE_Next v n (lf_tail q)"]]) (simp_all+)
  next
    case (3 v n tp)
    then have "lf_seen ?all tp (lf_tail q)" using D(5)[of t] by simp
    then obtain p d where p: "ptr tp = Some p" "lf_heap q p = Some d" "lf_nx q p = Some (ptr (lf_next d))"
      by (rule lf_seen_node[OF ok]) auto
    then show ?thesis using 3 D(5)[of t] lf_next_read[OF p(1,3)]
      by (intro goal[OF _ _ move[of "LE_Check v n tp (lf_next d)"]]) ((simp_all add: node_at_def)+)
  next
    case (4 v n tp nx)
    let ?pc = "if tp = lf_tail q then (if ptr nx = None then LE_Link v n tp nx else LE_Help v n tp nx) else LE_Tail v n"
    have "lf_ok q (th(t := ?pc)) dead h ns rs items calls" by (rule move) (use 4 D(5)[of t] in auto)
    then show ?thesis using 4 by (intro goal) (simp_all+)
  next
    case (5 v n tp nx)
    then have "lf_seen ?all tp (lf_tail q)" using D(5)[of t] by simp
    then obtain p d where p: "ptr tp = Some p" "lf_heap q p = Some d" by (rule lf_seen_node[OF ok]) auto
    show ?thesis
    proof (cases "LockFree_CompareExchange weak (lf_next d) nx")
      case True
      then have "lf_next d = nx" by (simp add: LockFree_CompareExchange_def)
      from lf_ok_linked[OF ok 5 p this, of "\<lparr>ptr = Some n, ptr_count = ptr_count nx + 1\<rparr>"]
      show ?thesis using 5 p True D(5)[of t] by (intro goal) (simp_all+)
    next
      case False
      then show ?thesis using 5 p D(5)[of t] by (intro goal[OF _ _ move[of "LE_Tail v n"]]) (simp_all+)
    qed
  next
    case (6 v n tp nx)
    have moved: "lf_ok q (th(t := LE_Tail v n)) dead h ns rs items calls" using 6 D(5)[of t] by (intro move) simp_all
    show ?thesis
    proof (cases "LockFree_CompareExchange weak (lf_tail q) tp")
      case True
      then have "lf_successor q (lf_tail q) (ptr nx)" using 6 D(5)[of t] by (simp add: LockFree_CompareExchange_def)
      from lf_ok_tail_moved[OF moved this, of "\<lparr>ptr = ptr nx, ptr_count = ptr_count tp + 1\<rparr>"]
      show ?thesis using 6 True by (intro goal) (simp_all+)
    next
      case False
      then show ?thesis using 6 by (intro goal[OF _ _ moved]) (simp_all+)
    qed
  next
    case (7 n tp)
    obtain v where call: "calls t = Enq_Call v True" using 7 D(5)[of t] by auto
    have moved: "lf_ok q (th(t := LF_Idle)) dead h ns rs items (calls(t := No_Call))"
      using 7 by (intro lf_ok_move[OF ok]) simp_all
    show ?thesis
    proof (cases "LockFree_CompareExchange weak (lf_tail q) tp")
      case True
      then have "lf_successor q (lf_tail q) (Some n)" using 7 D(5)[of t] by (simp add: LockFree_CompareExchange_def)
      from lf_ok_tail_moved[OF moved this, of "\<lparr>ptr = Some n, ptr_count = ptr_count tp + 1\<rparr>"]
      show ?thesis using 7 True call by (intro goal) (simp_all+)
    next
      case False
      then show ?thesis using 7 call by (intro goal[OF _ _ moved]) (simp_all+)
    qed
  qed (use pc in simp_all)
qed


lemma lf_dequeue_keeps:
  assumes ok: "lf_ok q th dead h ns rs items calls" and pc: "\<not> lf_enqueueing (th t)"
  shows "\<exists>q' pc' act f'. LockFree_Dequeue_step t weak q (th t) = Some (q', pc', act) \<and>
    atomic_queue (items, calls) act = Some f' \<and> lf_rel (q', th(t := pc')) f'"
proof -
  note D = lf_okD[OF ok]
  let ?all = "dead @ h # ns"
  have move: "lf_ok q (th(t := pc)) dead h ns rs items calls"
    if "lf_thread_ok q ?all (calls t) pc" "lf_made pc = lf_made (th t)" "lf_retiring pc = lf_retiring (th t)" for pc
    using lf_ok_move[OF ok that] D(7) unfolding empty_noted_def by simp
  have goal: ?thesis
    if "LockFree_Dequeue_step t weak q (th t) = Some (q', pc', act)" "atomic_queue (items, calls) act = Some (items', calls')"
      "lf_ok q' (th(t := pc')) dead' h' ns' rs' items' calls'" for q' pc' act items' calls' dead' h' ns' rs'
    using that unfolding lf_rel_def by auto
  have head: "lf_seen ?all (lf_head q) (lf_head q)" using D(1) lf_seen_refl by simp
  show ?thesis
  proof (cases "th t")
    case LF_Idle
    then show ?thesis using D(5)[of t] by (intro goal[OF _ _ move[of LF_Idle]]) (simp_all+)
  next
    case LD_Head
    then show ?thesis using D(5)[of t] head by (intro goal[OF _ _ move[of "LD_Tail (lf_head q)"]]) (simp_all+)
  next
    case (LD_Tail hp)
    have "lf_seen ?all hp (lf_tail q)" using lf_seen_trans[OF D(11) _ D(4)] LD_Tail D(5)[of t] by simp
    moreover have "lf_seen ?all (lf_tail q) (lf_tail q)"
      using D(4) before_in lf_seen_refl unfolding lf_seen_def by fastforce
    ultimately show ?thesis using LD_Tail D(5)[of t] by (intro goal[OF _ _ move[of "LD_Next hp (lf_tail q)"]]) (simp_all+)
  next
    case (LD_Next hp tp)
    then have T: "lf_seen ?all hp (lf_head q)" "lf_seen ?all hp tp" "lf_seen ?all tp (lf_tail q)" "\<exists>b. calls t = Deq_Call b"
      using D(5)[of t] by simp_all
    obtain p d where p: "ptr hp = Some p" "p \<in> set ?all" "lf_heap q p = Some d" "lf_nx q p = Some (ptr (lf_next d))"
      by (rule lf_seen_node[OF ok T(1)])
    have "calls t = Deq_Call True \<and> ptr hp = ptr tp" if "ptr (lf_next d) = None"
    proof -
      have last: "p = last ?all" using chained_last_iff[OF D(2) p(2)] p(4) that by simp
      have "h = p" using T(1) p(1) D(1) before_last[OF D(11)] last by (fastforce simp: lf_seen_def)
      moreover have "distinct (h # ns)" using D(11) by simp
      ultimately have "ns = []" using last by (cases ns rule: rev_cases) auto
      then have "items = []" using D(3) by simp
      then have "calls t = Deq_Call True" using T(4) D(7) unfolding empty_noted_def by (metis (full_types))
      moreover have "ptr hp = ptr tp" using T(2) p(1) before_last[OF D(11)] last by (fastforce simp: lf_seen_def)
      ultimately show ?thesis by blast
    qed
    then have "lf_ok q (th(t := LD_Check hp tp (lf_next d))) dead h ns rs items calls"
      using T LD_Next lf_next_read[OF p(1,4)] by (intro move) auto
    then show ?thesis using LD_Next p by (intro goal) ((simp_all add: node_at_def)+)
  next
    case (LD_Check hp tp nx)
    then have T: "lf_seen ?all hp (lf_head q)" "lf_seen ?all hp tp" "lf_seen ?all tp (lf_tail q)" "\<exists>b. calls t = Deq_Call b"
      "ptr nx = None \<Longrightarrow> calls t = Deq_Call True \<and> ptr hp = ptr tp" "ptr nx \<noteq> None \<Longrightarrow> lf_successor q hp (ptr nx)"
      using D(5)[of t] by (simp_all split: if_splits)
    show ?thesis
    proof (cases "hp = lf_head q \<and> ptr hp = ptr tp \<and> ptr nx = None")
      case True
      have "lf_ok q (th(t := LF_Idle)) dead h ns rs items (calls(t := No_Call))"
        using LD_Check by (intro lf_ok_move[OF ok]) simp_all
      then show ?thesis using LD_Check True T(5) by (intro goal) (simp_all+)
    next
      case False
      let ?pc = "if hp = lf_head q then (if ptr hp = ptr tp then LD_Help tp nx else LD_Value hp nx) else LD_Head"
      have "lf_successor q tp (ptr nx)" if "ptr nx \<noteq> None" "ptr hp = ptr tp"
        using T(6)[OF that(1)] that(2) by (simp add: lf_successor_def)
      moreover have "lf_seen ?all nx (lf_tail q)" if some: "ptr nx \<noteq> None" and apart: "ptr hp \<noteq> ptr tp"
      proof -
        obtain p t' where pt: "ptr hp = Some p" "ptr tp = Some t'" "before ?all p t'" "p \<noteq> t'"
          using T(2) apart by (auto simp: lf_seen_def)
        obtain r where r: "lf_nx q p = Some (Some r)" "before ?all r t'" by (rule next_before[OF D(2) pt(3,4)])
        then have "lf_seen ?all nx tp" using T(6)[OF some] pt by (auto simp: lf_successor_def lf_seen_def)
        then show ?thesis by (rule lf_seen_trans[OF D(11) _ T(3)])
      qed
      ultimately have "lf_ok q (th(t := ?pc)) dead h ns rs items calls"
        using LD_Check T False by (intro move) auto
      then show ?thesis using LD_Check False by (intro goal) (auto split: if_splits)
    qed
  next
    case (LD_Help tp nx)
    have moved: "lf_ok q (th(t := LD_Head)) dead h ns rs items calls" using LD_Help D(5)[of t] by (intro move) simp_all
    show ?thesis
    proof (cases "LockFree_CompareExchange weak (lf_tail q) tp")
      case True
      then have "lf_successor q (lf_tail q) (ptr nx)" using LD_Help D(5)[of t] by (simp add: LockFree_CompareExchange_def)
      from lf_ok_tail_moved[OF moved this, of "\<lparr>ptr = ptr nx, ptr_count = ptr_count tp + 1\<rparr>"]
      show ?thesis using LD_Help True by (intro goal) (simp_all+)
    next
      case False
      then show ?thesis using LD_Help by (intro goal[OF _ _ moved]) (simp_all+)
    qed
  next
    case (LD_Value hp nx)
    then have T: "\<exists>b. calls t = Deq_Call b" "lf_successor q hp (ptr nx)" "lf_seen ?all nx (lf_tail q)" using D(5)[of t] by simp_all
    obtain p d where p: "ptr nx = Some p" "lf_heap q p = Some d" using T(3) by (rule lf_seen_node[OF ok]) auto
    then have "lf_ok q (th(t := LD_Swing hp nx (lf_value d))) dead h ns rs items calls"
      using T LD_Value by (intro move) (auto simp: lf_val_def)
    then show ?thesis using LD_Value p by (intro goal) ((simp_all add: node_at_def)+)
  next
    case (LD_Swing hp nx v)
    show ?thesis
    proof (cases "LockFree_CompareExchange weak (lf_head q) hp")
      case True
      then have "lf_head q = hp" by (simp add: LockFree_CompareExchange_def)
      from lf_ok_taken[OF ok LD_Swing this, of "\<lparr>ptr = ptr nx, ptr_count = ptr_count hp + 1\<rparr>"]
      show ?thesis using LD_Swing True unfolding lf_rel_def by fastforce
    next
      case False
      then show ?thesis using LD_Swing D(5)[of t] by (intro goal[OF _ _ move[of LD_Head]]) (simp_all+)
    qed
  next
    case (LR_Load n v)
    then show ?thesis using D(5)[of t] by (intro goal[OF _ _ move[of "LR_Set n (retired_head q) v"]]) (simp_all+)
  next
    case (LR_Set n r v)
    then obtain p where n: "n = Some p" using D(5)[of t] by auto
    have "p \<in> set dead" using owned_apartD(3)[OF D(10), of t p] LR_Set n by simp
    then obtain d where d: "lf_heap q p = Some d" using lf_node_exists[OF ok, of p] by auto
    from lf_ok_gc_set[OF ok LR_Set[unfolded n] d] show ?thesis using LR_Set n d by (intro goal) (simp_all+)
  next
    case (LR_Cas n r v)
    then obtain p where n: "n = Some p" and call: "calls t = Deq_Took v" using D(5)[of t] by auto
    show ?thesis
    proof (cases "\<not> weak \<and> retired_head q = r")
      case True
      from lf_ok_retired[OF ok LR_Cas[unfolded n]] True show ?thesis using LR_Cas n call by (intro goal) (simp_all+)
    next
      case False
      then show ?thesis using LR_Cas n call by (intro goal[OF _ _ move[of "LR_Set n (retired_head q) v"]]) (simp_all+)
    qed
  qed (use pc in simp_all)
qed


lemma lf_rel_step:
  assumes "lf_rel s f"
  shows "\<exists>s' act f'. lf_step s e = Some (s', act) \<and> atomic_queue f act = Some f' \<and> lf_rel s' f'"
proof -
  obtain q th items calls dead h ns rs where s: "s = (q, th)" "f = (items, calls)" and ok: "lf_ok q th dead h ns rs items calls"
    using assms by (cases s; cases f) (auto simp: lf_rel_def)
  note D = lf_okD[OF ok]
  show ?thesis
  proof (cases e)
    case (LF_Enqueue t v)
    have "lf_ok q (th(t := LE_New v)) dead h ns rs items (calls(t := Enq_Call v False))" if "th t = LF_Idle"
      by (rule lf_ok_move[OF ok]) (use that in auto)
    then show ?thesis using ok D(5)[of t] LF_Enqueue s unfolding lf_rel_def by (cases "th t = LF_Idle") fastforce+
  next
    case (LF_Dequeue t)
    have "lf_ok q (th(t := LD_Head)) dead h ns rs items (calls(t := Deq_Call (items = [])))" if "th t = LF_Idle"
      by (rule lf_ok_move[OF ok]) (use that in auto)
    then show ?thesis using ok D(5)[of t] LF_Dequeue s unfolding lf_rel_def by (cases "th t = LF_Idle") fastforce+
  next
    case (LF_Step t a weak)
    show ?thesis
      using lf_enqueue_keeps[OF ok, of t a weak] lf_dequeue_keeps[OF ok, of t weak] s LF_Step
      by (cases "lf_enqueueing (th t)") (fastforce simp: lf_thread_step_def)+
  qed
qed

interpretation lfq: lock_step lf_step atomic_queue lf_rel
  by unfold_locales (rule lf_rel_step)

lemma lf_rel_new: "lf_rel (LockFree_new node, \<lambda>_. LF_Idle) ([], \<lambda>_. No_Call)"
proof -
  have "lf_ok (LockFree_new node) (\<lambda>_. LF_Idle) [] node [] [] [] (\<lambda>_. No_Call)"
    by (rule lf_okI)
      (auto simp: LockFree_new_def Let_def lf_node_new_def lf_nx_def empty_noted_def owned_apart_def ran_def lf_seen_def before_def)
  then show ?thesis unfolding lf_rel_def by auto
qed

section \<open>The queue under every schedule\<close>

text \<open>C23: Under every schedule of the atomic steps of any threads, with any addresses returned by
  \<open>new\<close> and any spurious failures of a compare-exchange, the lock-free queue never follows a null
  pointer or uses a node that is not there, and behaves as an atomic FIFO queue: every call takes
  effect at one moment between its invocation and its return, elements leave in the order in which
  they entered, and \<open>Dequeue\<close> returns false only if the queue was empty at some moment of the call.\<close>

theorem LockFreeQueue_refines_atomic_queue:
  "\<exists>as s. run_steps lf_step (LockFree_new node, \<lambda>_. LF_Idle) es = Some (as, s) \<and>
     run_spec atomic_queue ([], \<lambda>_. No_Call) as \<noteq> None"
  by (rule lfq.run_accepted[OF lf_rel_new])

section \<open>The destructor\<close>

lemma lf_delete_active_chain:
  "chained (\<lambda>p. map_option (\<lambda>d. ptr (lf_next d)) (heap p)) (p # ns) \<Longrightarrow>
    lf_delete_active heap (Some p) = Some (heap |` (- set (p # ns)))"
proof (induction ns arbitrary: heap p)
  case Nil
  then obtain d where d: "heap p = Some d" "ptr (lf_next d) = None" by auto
  then show ?case by (simp add: lf_delete_active.simps restrict_map_def fun_upd_def fun_eq_iff)
next
  case (Cons m ns)
  obtain d where d: "heap p = Some d" "ptr (lf_next d) = Some m" using Cons.prems by auto
  have p: "p \<notin> set (m # ns)" using chained_distinct[OF Cons.prems] by simp
  have "chained (\<lambda>x. map_option (\<lambda>d. ptr (lf_next d)) ((heap(p := None)) x)) (m # ns) =
      chained (\<lambda>x. map_option (\<lambda>d. ptr (lf_next d)) (heap x)) (m # ns)"
    by (rule chained_cong) (use p in auto)
  then have "lf_delete_active (heap(p := None)) (Some m) = Some ((heap(p := None)) |` (- set (m # ns)))"
    using Cons.prems by (intro Cons.IH) simp
  moreover have "(heap(p := None)) |` (- set (m # ns)) = heap |` (- set (p # m # ns))"
    by (auto simp: restrict_map_def fun_eq_iff)
  ultimately show ?case using d by (subst lf_delete_active.simps) simp
qed

lemma lf_delete_retired_list:
  "retired_list heap r rs \<Longrightarrow> distinct rs \<Longrightarrow> lf_delete_retired heap r = Some (heap |` (- set rs))"
proof (induction rs arbitrary: heap r)
  case Nil
  then show ?case by (simp add: lf_delete_retired.simps)
next
  case (Cons p rs)
  then obtain d where d: "r = Some p" "heap p = Some d" "retired_list heap (gc_next d) rs" by auto
  have rest: "retired_list (heap(p := None)) (gc_next d) rs"
    by (rule retired_list_frame[OF d(3)]) (use Cons.prems in auto)
  have "lf_delete_retired (heap(p := None)) (gc_next d) = Some ((heap(p := None)) |` (- set rs))"
    by (rule Cons.IH[OF rest]) (use Cons.prems in simp)
  moreover have "(heap(p := None)) |` (- set rs) = heap |` (- set (p # rs))"
    by (auto simp: restrict_map_def fun_eq_iff)
  ultimately show ?case using d by (subst lf_delete_retired.simps) simp
qed

text \<open>C25: When no thread is in a call, the destructor ends and deletes every node that was ever made
  exactly once: the nodes still linked and those on the retired list.\<close>

theorem LockFreeQueue_destroyed:
  assumes "run_steps lf_step (LockFree_new node, \<lambda>_. LF_Idle) es = Some (as, q, th)" and "\<forall>t. th t = LF_Idle"
  shows "map_option lf_heap (LockFree_DestroyNodes q) = Some Map.empty"
proof -
  obtain f where f: "lf_rel (q, th) f" by (rule lfq.run_reaches[OF lf_rel_new assms(1)])
  then obtain dead h ns rs where ok: "lf_ok q th dead h ns rs (fst f) (snd f)" by (auto simp: lf_rel_def)
  note D = lf_okD[OF ok]
  have none: "ran (lf_made \<circ> th) = {}" "ran (lf_retiring \<circ> th) = {}" using assms(2) by (auto simp: ran_def)
  then have dom: "dom (lf_heap q) = set (dead @ h # ns)" "set dead = set rs"
    using D(6,10) by (simp_all add: owned_apart_def)
  have "chained (lf_nx q) (h # ns)" by (rule chained_suffix[OF D(2)]) simp
  then have active: "lf_delete_active (lf_heap q) (ptr (lf_head q)) = Some (lf_heap q |` (- set (h # ns)))"
    unfolding D(1) by (intro lf_delete_active_chain) (simp add: lf_nx_def[abs_def])
  have "retired_list (lf_heap q |` (- set (h # ns))) (retired_head q) rs"
    by (rule retired_list_frame[OF D(8)]) (use D(11) dom(2) in \<open>auto simp: restrict_map_def\<close>)
  note retired = lf_delete_retired_list[OF this D(9)]
  have "lf_heap q |` (- set (h # ns)) |` (- set rs) = Map.empty"
    using dom by (auto simp: restrict_map_def fun_eq_iff dom_def)
  then show ?thesis using active retired by (simp add: LockFree_DestroyNodes_def)
qed


section \<open>A thread that runs alone returns\<close>

text \<open>The tail pointer lags behind by at most one node.\<close>

definition lf_lag_ok :: "lock_free \<Rightarrow> bool" where
  "lf_lag_ok q \<longleftrightarrow> (\<exists>p. ptr (lf_tail q) = Some p \<and>
     (lf_nx q p = Some None \<or> (\<exists>m. lf_nx q p = Some (Some m) \<and> lf_nx q m = Some None)))"

definition lf_lags :: "lock_free \<Rightarrow> bool" where
  "lf_lags q \<longleftrightarrow> (\<exists>p m. ptr (lf_tail q) = Some p \<and> lf_nx q p = Some (Some m))"

text \<open>An upper bound for the steps to the end of the call, when no other thread interferes.\<close>

fun lf_rank :: "lock_free \<Rightarrow> lf_thread \<Rightarrow> nat" where
  "lf_rank q LF_Idle = 0"
| "lf_rank q (LE_New v) = (if lf_lags q then 10 else 6)"
| "lf_rank q (LE_Tail v n) = (if lf_lags q then 9 else 5)"
| "lf_rank q (LE_Next v n tp) = (if tp = lf_tail q then if lf_lags q then 8 else 4 else 11)"
| "lf_rank q (LE_Check v n tp nx) =
     (if tp \<noteq> lf_tail q then 10 else if ptr nx \<noteq> None then 7
      else if map_option lf_next (node_at q (ptr tp)) = Some nx then 3 else 11)"
| "lf_rank q (LE_Link v n tp nx) = (if map_option lf_next (node_at q (ptr tp)) = Some nx then 2 else 10)"
| "lf_rank q (LE_Help v n tp nx) = (if tp = lf_tail q then 6 else 10)"
| "lf_rank q (LE_Swing n tp) = 1"
| "lf_rank q LD_Head = (if ptr (lf_head q) \<noteq> ptr (lf_tail q) then 9 else if lf_lags q then 14 else 4)"
| "lf_rank q (LD_Tail hp) =
     (if hp \<noteq> lf_head q then 18 else if ptr hp \<noteq> ptr (lf_tail q) then 8 else if lf_lags q then 13 else 3)"
| "lf_rank q (LD_Next hp tp) =
     (if hp \<noteq> lf_head q \<or> tp \<noteq> lf_tail q then 17 else if ptr hp \<noteq> ptr tp then 7 else if lf_lags q then 12 else 2)"
| "lf_rank q (LD_Check hp tp nx) =
     (if hp \<noteq> lf_head q then 15 else if ptr hp \<noteq> ptr tp then 6 else if ptr nx = None then 1
      else if tp = lf_tail q then 11 else 16)"
| "lf_rank q (LD_Help tp nx) = (if tp = lf_tail q then 10 else 15)"
| "lf_rank q (LD_Value hp nx) = (if hp = lf_head q then 5 else 16)"
| "lf_rank q (LD_Swing hp nx v) = (if hp = lf_head q then 4 else 15)"
| "lf_rank q (LR_Load n v) = 3"
| "lf_rank q (LR_Set n r v) = (if r = retired_head q then 2 else 4)"
| "lf_rank q (LR_Cas n r v) = (if r = retired_head q then 1 else 3)"

lemma lf_rank_le: "lf_rank q pc \<le> 18"
  by (cases pc) auto

lemma lf_rank_idle: "lf_rank q pc = 0 \<longleftrightarrow> pc = LF_Idle"
  by (cases pc) auto

lemma lf_lag_cases:
  assumes "lf_lag_ok q"
  obtains p where "ptr (lf_tail q) = Some p" "lf_nx q p = Some None" "\<not> lf_lags q"
  | p m where "ptr (lf_tail q) = Some p" "lf_nx q p = Some (Some m)" "lf_nx q m = Some None" "lf_lags q"
  using assms unfolding lf_lag_ok_def lf_lags_def by fastforce

lemma lf_tail_moved_lag:
  assumes "lf_lag_ok q" "lf_successor q (lf_tail q) m" "ptr c = m"
  shows "lf_lag_ok (q\<lparr>lf_tail := c\<rparr>) \<and> \<not> lf_lags (q\<lparr>lf_tail := c\<rparr>)"
  using assms by (auto simp: lf_lag_ok_def lf_lags_def lf_successor_def lf_nx_def)

lemma lf_enqueue_rank:
  assumes ok: "lf_ok q th dead h ns rs items calls" and lag: "lf_lag_ok q" and pc: "lf_enqueueing (th t)"
    and step: "LockFree_Enqueue_step t a False q (th t) = Some (q', pc', act)"
    and room: "\<And>v. th t = LE_New v \<Longrightarrow> lf_heap q a = None"
  shows "lf_rank q' pc' \<le> lf_rank q (th t) - 1"
proof -
  note D = lf_okD[OF ok]
  let ?all = "dead @ h # ns"
  show ?thesis
  proof (cases "th t")
    case (LE_New v)
    obtain p where p: "ptr (lf_tail q) = Some p" "p \<in> set ?all" using D(4) before_in unfolding lf_seen_def by fastforce
    have "lf_heap q a = None" by (rule room[OF LE_New])
    then have "p \<noteq> a" using lf_ok_dead_heap(2)[OF ok] p(2) by blast
    then have "lf_lags q' \<longleftrightarrow> lf_lags q"
      using step LE_New room p by (auto simp: lf_lags_def lf_nx_def)
    then show ?thesis using step LE_New room by auto
  next
    case (LE_Next v n tp)
    show ?thesis
    proof (cases "tp = lf_tail q")
      case True
      from lag show ?thesis
        by (cases rule: lf_lag_cases) (use step LE_Next True in \<open>auto simp: node_at_def lf_nx_def\<close>)
    qed (use step LE_Next in \<open>auto simp: node_at_def bind_eq_Some_conv\<close>)
  next
    case (LE_Link v n tp nx)
    then show ?thesis using step
      by (auto simp: bind_eq_Some_conv node_at_def LockFree_CompareExchange_def split: if_splits)
  next
    case (LE_Help v n tp nx)
    show ?thesis
    proof (cases "tp = lf_tail q")
      case True
      then have "lf_successor q (lf_tail q) (ptr nx)" using LE_Help D(5)[of t] by simp
      from lf_tail_moved_lag[OF lag this] show ?thesis using step LE_Help True by (auto simp: LockFree_CompareExchange_def)
    qed (use step LE_Help in \<open>auto simp: LockFree_CompareExchange_def\<close>)
  next
    case (LE_Tail v n)
    then show ?thesis using step by auto
  next
    case (LE_Check v n tp nx)
    then show ?thesis using step by (auto split: if_splits)
  next
    case (LE_Swing n tp)
    then show ?thesis using step by auto
  qed (use pc in simp_all)
qed

lemma lf_dequeue_rank:
  assumes ok: "lf_ok q th dead h ns rs items calls" and lag: "lf_lag_ok q" and x: "th t = x" and pc: "\<not> lf_enqueueing x"
    and step: "LockFree_Dequeue_step t False q x = Some (q', pc', act)"
  shows "lf_rank q' pc' \<le> lf_rank q x - 1"
proof -
  note D = lf_okD[OF ok]
  show ?thesis
  proof (cases x)
    case (LD_Next hp tp)
    show ?thesis
    proof (cases "hp = lf_head q \<and> tp = lf_tail q")
      case True
      from lag show ?thesis
        by (cases rule: lf_lag_cases) (use step LD_Next True in \<open>auto simp: node_at_def lf_nx_def bind_eq_Some_conv\<close>)
    qed (use step LD_Next in \<open>auto simp: node_at_def bind_eq_Some_conv\<close>)
  next
    case (LD_Help tp nx)
    show ?thesis
    proof (cases "tp = lf_tail q")
      case True
      then have "lf_successor q (lf_tail q) (ptr nx)" using LD_Help D(5)[of t] x by simp
      from lf_tail_moved_lag[OF lag this] show ?thesis using step LD_Help True by (auto simp: LockFree_CompareExchange_def)
    qed (use step LD_Help in \<open>auto simp: LockFree_CompareExchange_def\<close>)
  qed (use step pc in \<open>auto simp: LockFree_CompareExchange_def bind_eq_Some_conv split: if_splits option.splits\<close>)
qed


lemma lf_lag_frame:
  assumes "lf_lag_ok q" "lf_tail q' = lf_tail q" "\<And>p n. lf_nx q p = Some n \<Longrightarrow> lf_nx q' p = Some n"
  shows "lf_lag_ok q'"
  using assms unfolding lf_lag_ok_def by metis

lemma lf_lag_step:
  assumes ok: "lf_ok q th dead h ns rs items calls" and lag: "lf_lag_ok q" and x: "th t = x"
    and step: "lf_thread_step t a weak q x = Some (q', pc', act)"
  shows "lf_lag_ok q'"
proof -
  note D = lf_okD[OF ok]
  let ?all = "dead @ h # ns"
  note step = step[unfolded lf_thread_step_def]
  have moved: "lf_lag_ok q'" if "lf_successor q tp m" "ptr c = m" "q' = q \<or> tp = lf_tail q \<and> q' = q\<lparr>lf_tail := c\<rparr>" for tp m c
    using that lag lf_tail_moved_lag[OF lag, of m c] by auto
  show ?thesis
  proof (cases x)
    case (LE_New v)
    show ?thesis by (rule lf_lag_frame[OF lag]) (use step LE_New in \<open>auto simp: lf_nx_def split: if_splits\<close>)
  next
    case (LE_Link v n tp nx)
    then have T: "lf_seen ?all tp (lf_tail q)" "ptr nx = None" "lf_made x = Some n" "lf_heap q n = Some (lf_node_new v)"
      using D(5)[of t] x by simp_all
    obtain p d where p: "ptr tp = Some p" "p \<in> set ?all" "lf_heap q p = Some d" "lf_nx q p = Some (ptr (lf_next d))"
      by (rule lf_seen_node[OF ok T(1)])
    show ?thesis
    proof (cases "lf_next d = nx \<and> \<not> weak")
      case True
      then have "lf_nx q p = Some None" using p T(2) by simp
      then have last: "p = last ?all" using chained_last_iff[OF D(2) p(2)] by simp
      have tail: "ptr (lf_tail q) = Some p" using T(1) p(1) before_last[OF D(11)] last by (fastforce simp: lf_seen_def)
      have "n \<notin> set ?all" using owned_apartD(2)[OF D(6), of t n] T(3) x by simp
      then have "n \<noteq> p" using p(2) by blast
      then show ?thesis using step LE_Link True p tail T(4)
        by (auto simp: LockFree_CompareExchange_def lf_lag_ok_def lf_nx_def lf_node_new_def)
    next
      case False
      then show ?thesis using step LE_Link p lag by (auto simp: LockFree_CompareExchange_def)
    qed
  next
    case (LE_Help v n tp nx)
    then have "lf_successor q tp (ptr nx)" using D(5)[of t] x by simp
    then show ?thesis by (rule moved[of _ _ "\<lparr>ptr = ptr nx, ptr_count = ptr_count tp + 1\<rparr>"])
        (use step LE_Help in \<open>auto simp: LockFree_CompareExchange_def split: if_splits\<close>)
  next
    case (LE_Swing n tp)
    then have "lf_successor q tp (Some n)" using D(5)[of t] x by simp
    then show ?thesis by (rule moved[of _ _ "\<lparr>ptr = Some n, ptr_count = ptr_count tp + 1\<rparr>"])
        (use step LE_Swing in \<open>auto simp: LockFree_CompareExchange_def split: if_splits\<close>)
  next
    case (LD_Help tp nx)
    then have "lf_successor q tp (ptr nx)" using D(5)[of t] x by simp
    then show ?thesis by (rule moved[of _ _ "\<lparr>ptr = ptr nx, ptr_count = ptr_count tp + 1\<rparr>"])
        (use step LD_Help in \<open>auto simp: LockFree_CompareExchange_def split: if_splits\<close>)
  next
    case (LD_Swing hp nx v)
    show ?thesis by (rule lf_lag_frame[OF lag]) (use step LD_Swing in \<open>auto simp: lf_nx_def split: if_splits\<close>)
  next
    case (LR_Set n r v)
    show ?thesis by (rule lf_lag_frame[OF lag]) (use step LR_Set in \<open>auto simp: lf_nx_def bind_eq_Some_conv\<close>)
  next
    case (LR_Cas n r v)
    show ?thesis by (rule lf_lag_frame[OF lag]) (use step LR_Cas in \<open>auto simp: lf_nx_def split: if_splits\<close>)
  qed (use step lag in \<open>auto simp: bind_eq_Some_conv split: if_splits\<close>)
qed

lemma lf_lag_rel_step:
  assumes "lf_rel s f \<and> lf_lag_ok (fst s)"
  shows "\<exists>s' act f'. lf_step s e = Some (s', act) \<and> atomic_queue f act = Some f' \<and> lf_rel s' f' \<and> lf_lag_ok (fst s')"
proof -
  obtain s' act f' where one: "lf_step s e = Some (s', act)" "atomic_queue f act = Some f'" "lf_rel s' f'"
    using lf_rel_step assms by blast
  obtain q th where s: "s = (q, th)" by force
  obtain dead h ns rs where ok: "lf_ok q th dead h ns rs (fst f) (snd f)" using assms s by (auto simp: lf_rel_def)
  have "lf_lag_ok (fst s')"
  proof (cases e)
    case (LF_Step t a weak)
    then obtain q' pc' where "lf_thread_step t a weak q (th t) = Some (q', pc', act)" "fst s' = q'"
      using one(1) s by (auto simp: bind_eq_Some_conv)
    then show ?thesis using lf_lag_step[OF ok _ refl, of t a weak q' pc' act] assms s by simp
  qed (use one(1) assms s in \<open>auto split: if_splits\<close>)
  with one show ?thesis by blast
qed

interpretation lfl: lock_step lf_step atomic_queue "\<lambda>s f. lf_rel s f \<and> lf_lag_ok (fst s)"
  by unfold_locales (rule lf_lag_rel_step)

lemma lf_lag_new: "lf_lag_ok (LockFree_new node)"
  by (simp add: LockFree_new_def Let_def lf_lag_ok_def lf_nx_def lf_node_new_def)

lemma lf_solo_run:
  assumes "lf_rel (q, th) f \<and> lf_lag_ok q" and "\<And>v. th t = LE_New v \<Longrightarrow> lf_heap q a = None"
  shows "\<exists>as q' th'. run_steps lf_step (q, th) (replicate m (LF_Step t a False)) = Some (as, q', th') \<and>
    lf_rank q' (th' t) \<le> lf_rank q (th t) - m"
  using assms
proof (induction m arbitrary: q th f)
  case (Suc m)
  obtain dead h ns rs where ok: "lf_ok q th dead h ns rs (fst f) (snd f)" using Suc.prems(1) by (auto simp: lf_rel_def)
  obtain s' act f' where one: "lf_step (q, th) (LF_Step t a False) = Some (s', act)" "lf_rel s' f'" "lf_lag_ok (fst s')"
    using lf_lag_rel_step[of "(q, th)" f "LF_Step t a False"] Suc.prems(1) by auto
  then obtain q' pc' where st: "lf_thread_step t a False q (th t) = Some (q', pc', act)" "s' = (q', th(t := pc'))"
    by (auto simp: bind_eq_Some_conv)
  have less: "lf_rank q' pc' \<le> lf_rank q (th t) - 1"
  proof (cases "lf_enqueueing (th t)")
    case True
    show ?thesis by (rule lf_enqueue_rank[OF ok _ True _ Suc.prems(2)]) (use st(1) True Suc.prems(1) in \<open>simp_all add: lf_thread_step_def\<close>)
  next
    case False
    show ?thesis by (rule lf_dequeue_rank[OF ok _ refl False]) (use st(1) False Suc.prems(1) in \<open>simp_all add: lf_thread_step_def\<close>)
  qed
  have "pc' \<noteq> LE_New v" for v
    using st(1) Suc.prems(2)
    by (cases "th t") (auto simp: lf_thread_step_def bind_eq_Some_conv split: if_splits option.splits)
  note fresh = this
  have "lf_rel (q', th(t := pc')) f' \<and> lf_lag_ok q'" using one(2,3) st(2) by simp
  then have "\<exists>as q'' th''. run_steps lf_step (q', th(t := pc')) (replicate m (LF_Step t a False)) = Some (as, q'', th'') \<and>
      lf_rank q'' (th'' t) \<le> lf_rank q' ((th(t := pc')) t) - m"
    by (rule Suc.IH) (use fresh in simp)
  then obtain as q'' th'' where "run_steps lf_step (q', th(t := pc')) (replicate m (LF_Step t a False)) = Some (as, q'', th'')"
    "lf_rank q'' (th'' t) \<le> lf_rank q' pc' - m"
    unfolding fun_upd_same by blast
  then show ?case using one(1) st(2) less by auto
qed simp

text \<open>C24: A thread that runs alone returns: after any schedule, eighteen steps of one thread without
  interference and without a spurious failure of a compare-exchange bring its call to an end,
  whatever the other threads have left unfinished.\<close>

theorem LockFreeQueue_solo_returns:
  assumes "run_steps lf_step (LockFree_new node, \<lambda>_. LF_Idle) es = Some (as, q, th)" and "lf_heap q a = None"
  shows "\<exists>as' q' th'. run_steps lf_step (q, th) (replicate 18 (LF_Step t a False)) = Some (as', q', th') \<and> th' t = LF_Idle"
proof -
  have "lf_rel (LockFree_new node, \<lambda>_. LF_Idle) ([], \<lambda>_. No_Call) \<and> lf_lag_ok (fst (LockFree_new node, \<lambda>_. LF_Idle))"
    using lf_rel_new lf_lag_new by simp
  then obtain f where "lf_rel (q, th) f \<and> lf_lag_ok (fst (q, th))" by (rule lfl.run_reaches[OF _ assms(1)])
  then have f: "lf_rel (q, th) f" "lf_lag_ok q" by simp_all
  from lf_solo_run[of q th f t a 18] f assms(2) obtain as' q' th' where
    "run_steps lf_step (q, th) (replicate 18 (LF_Step t a False)) = Some (as', q', th')"
    "lf_rank q' (th' t) \<le> lf_rank q (th t) - 18" by auto
  moreover have "lf_rank q (th t) - 18 = 0" using lf_rank_le[of q "th t"] by simp
  ultimately show ?thesis using lf_rank_idle[of q' "th' t"] by auto
qed


section \<open>Examples\<close>

text \<open>Thread 0 has linked its node and not moved the tail; thread 1 takes the element and retires the dummy.\<close>

definition lf_overlap :: "nat lf_event list" where
  "lf_overlap = LF_Enqueue 0 7 # LF_Step 0 5 False # replicate 4 (LF_Step 0 0 False) @ LF_Dequeue 1 # replicate 5 (LF_Step 1 0 False)"

lemma lf_overlap_run:
  "\<exists>as q th. run_steps lf_step (LockFree_new 3, \<lambda>_. LF_Idle) lf_overlap = Some (as, q, th) \<and>
     lf_heap q 8 = None \<and> ptr (lf_tail q) = Some 5 \<and> th 1 = LD_Head \<and> th 0 = LE_Swing 5 \<lparr>ptr = Some 3, ptr_count = 2\<rparr>"
  by (simp add: lf_overlap_def LockFree_new_def lf_thread_step_def Let_def lf_node_new_def node_at_def set_node_def
      LockFree_CompareExchange_def numeral_eq_Suc)

theorem LockFreeQueue_solo_returns_witness:
  "\<exists>as q th as' q' th'. run_steps lf_step (LockFree_new 3, \<lambda>_. LF_Idle) lf_overlap = Some (as, q, th) \<and>
     run_steps lf_step (q, th) (replicate 18 (LF_Step 1 8 False)) = Some (as', q', th') \<and> th' 1 = LF_Idle"
proof -
  obtain as q th where run: "run_steps lf_step (LockFree_new 3, \<lambda>_. LF_Idle) lf_overlap = Some (as, q, th)" "lf_heap q 8 = None"
    using lf_overlap_run by blast
  from LockFreeQueue_solo_returns[OF run, of 1] run(1) show ?thesis by blast
qed

theorem LockFreeQueue_destroyed_witness:
  "\<exists>as q th. run_steps lf_step (LockFree_new 3, \<lambda>_. LF_Idle)
       (LF_Enqueue 0 7 # LF_Step 0 5 False # replicate 5 (LF_Step 0 0 False) @ LF_Dequeue 1 # replicate 9 (LF_Step (1::nat) 0 False)) =
     Some (as, q, th) \<and> th 0 = LF_Idle \<and> map_option lf_heap (LockFree_DestroyNodes q) = Some Map.empty"
proof -
  let ?es = "LF_Enqueue 0 7 # LF_Step 0 5 False # replicate 5 (LF_Step 0 0 False) @ LF_Dequeue 1 # replicate 9 (LF_Step (1::nat) 0 False)"
  obtain as q th where run: "run_steps lf_step (LockFree_new 3, \<lambda>_. LF_Idle) ?es = Some (as, q, th)" and idle: "\<forall>t. th t = LF_Idle"
    by (simp add: LockFree_new_def lf_thread_step_def Let_def lf_node_new_def node_at_def set_node_def
        LockFree_CompareExchange_def numeral_eq_Suc)
  from LockFreeQueue_destroyed[OF run idle] run idle show ?thesis by blast
qed

end
