(* ===== verification/Simple_Queue.thy ===== *)
theory Simple_Queue
  imports Atomic_Queue
begin

unbundle bit_operations_syntax

text \<open>
  \<open>SimpleConcurrentQueue\<close> (simple_concurrent_queue.h): every thread that enqueues owns a producer,
  a list of blocks of 32 slots; consumers claim the next slot of a producer with a
  compare-exchange.  The model has any number of queues, each known by its instance id, and the
  thread-local variables that all of them share.  Each access to memory that several threads use is
  one step of a thread; accesses to memory only one thread uses are joined to the step before.
  \<open>None\<close> is undefined behaviour.
\<close>

section \<open>Blocks and the block index\<close>

abbreviation SC_BLOCK_SIZE :: nat where "SC_BLOCK_SIZE \<equiv> 32"
abbreviation SC_MAX_PRODUCERS :: nat where "SC_MAX_PRODUCERS \<equiv> 256"
abbreviation SEG_SHIFT :: nat where "SEG_SHIFT \<equiv> 10"
abbreviation SEG_SIZE :: nat where "SEG_SIZE \<equiv> 1024"
abbreviation MAX_SEGS :: nat where "MAX_SEGS \<equiv> 64"

text \<open>A slot of storage: no object, an object, or an object that has been moved from.\<close>

datatype 'a cell = Raw | Live 'a | Moved

(* simple_concurrent_queue.h:25-28 SimpleQueueBlock *)
record 'a sq_block =
  storage :: "'a cell list"
  committed :: "bool list"
  next_block :: "nat option"
  base_index :: "64 word"

(* simple_concurrent_queue.h:30-33 SimpleQueueBlock *)
definition SimpleQueueBlock_new :: "64 word \<Rightarrow> 'a sq_block" where
  "SimpleQueueBlock_new base =
     \<lparr>storage = replicate SC_BLOCK_SIZE Raw, committed = replicate SC_BLOCK_SIZE False, next_block = None, base_index = base\<rparr>"

text \<open>Constructing over an object, and destroying where none is, are undefined behaviour.\<close>

(* simple_concurrent_queue.h:39-41 construct *)
definition Block_construct :: "'a sq_block \<Rightarrow> nat \<Rightarrow> 'a \<Rightarrow> 'a sq_block option" where
  "Block_construct b slot v =
     (case storage b ! slot of Raw \<Rightarrow> Some (b\<lparr>storage := (storage b)[slot := Live v]\<rparr>) | _ \<Rightarrow> None)"

(* simple_concurrent_queue.h:43-47 destroy *)
definition Block_destroy :: "'a sq_block \<Rightarrow> nat \<Rightarrow> 'a sq_block option" where
  "Block_destroy b slot =
     (case storage b ! slot of Raw \<Rightarrow> None | _ \<Rightarrow> Some (b\<lparr>storage := (storage b)[slot := Raw]\<rparr>))"

text \<open>\<open>std::move\<close> out of a slot.\<close>

definition Block_move :: "'a sq_block \<Rightarrow> nat \<Rightarrow> ('a \<times> 'a sq_block) option" where
  "Block_move b slot =
     (case storage b ! slot of Live v \<Rightarrow> Some (v, b\<lparr>storage := (storage b)[slot := Moved]\<rparr>) | _ \<Rightarrow> None)"

text \<open>The two-level index: a segment is absent or has a pointer for each of its blocks.\<close>

(* simple_concurrent_queue.h:59-60 SimpleQueueBlockIndex *)
type_synonym block_index = "(nat \<Rightarrow> nat option) option list"

(* simple_concurrent_queue.h:62-66 SimpleQueueBlockIndex *)
definition BlockIndex_new :: block_index where
  "BlockIndex_new = (replicate MAX_SEGS None)[0 := Some (\<lambda>_. None)]"

definition seg_of :: "64 word \<Rightarrow> nat" where
  "seg_of block_idx = unat (drop_bit SEG_SHIFT block_idx)"

definition slot_of :: "64 word \<Rightarrow> nat" where
  "slot_of block_idx = unat (block_idx AND (of_nat SEG_SIZE - 1))"

text \<open>
  A reader cannot tell the moments within \<open>store\<close> apart: as long as the slot is not written, \<open>load\<close>
  returns null, whether or not the segment is there.
\<close>

(* simple_concurrent_queue.h:75-84 store *)
definition BlockIndex_store :: "block_index \<Rightarrow> 64 word \<Rightarrow> nat \<Rightarrow> block_index option" where
  "BlockIndex_store segments block_idx b =
     (let seg_idx = seg_of block_idx; slot = slot_of block_idx in
      if seg_idx \<ge> MAX_SEGS then None
      else let seg = (case segments ! seg_idx of None \<Rightarrow> (\<lambda>_. None) | Some seg \<Rightarrow> seg)
           in Some (segments[seg_idx := Some (seg(slot := Some b))]))"

(* simple_concurrent_queue.h:86-93 load *)
definition BlockIndex_load :: "block_index \<Rightarrow> 64 word \<Rightarrow> nat option option" where
  "BlockIndex_load segments block_idx =
     (let seg_idx = seg_of block_idx; slot = slot_of block_idx in
      if seg_idx \<ge> MAX_SEGS then None
      else case segments ! seg_idx of None \<Rightarrow> Some None | Some seg \<Rightarrow> Some (seg slot))"

section \<open>Producers and queues\<close>

(* simple_concurrent_queue.h:98-107 SimpleQueueProducer *)
record 'a sq_producer =
  tail_index :: "64 word"
  tail_block :: nat
  blocks_at :: block_index
  head_index :: "64 word"
  next_producer :: "nat option"
  sq_blocks :: "nat \<rightharpoonup> 'a sq_block"

text \<open>The first block is at address 0 of the producer's own blocks.\<close>

(* simple_concurrent_queue.h:109-113 SimpleQueueProducer *)
definition SimpleQueueProducer_new :: "'a sq_producer option" where
  "SimpleQueueProducer_new =
     Option.bind (BlockIndex_store BlockIndex_new 0 0) (\<lambda>index.
       Some \<lparr>tail_index = 0, tail_block = 0, blocks_at = index, head_index = 0, next_producer = None,
         sq_blocks = [0 \<mapsto> SimpleQueueBlock_new 0]\<rparr>)"

(* simple_concurrent_queue.h:234-236 SimpleConcurrentQueue *)
record sc_queue =
  producer_list_head :: "nat option"
  producer_count :: int

(* simple_concurrent_queue.h:150-151 SimpleConcurrentQueue *)
definition SimpleConcurrentQueue_new :: sc_queue where
  "SimpleConcurrentQueue_new = \<lparr>producer_list_head = None, producer_count = 0\<rparr>"

record 'a sc_shared =
  producers :: "nat \<rightharpoonup> 'a sq_producer"
  queues :: "nat \<Rightarrow> sc_queue"

definition set_producer :: "'a sc_shared \<Rightarrow> nat \<Rightarrow> 'a sq_producer \<Rightarrow> 'a sc_shared" where
  "set_producer s p P = s\<lparr>producers := (producers s)(p \<mapsto> P)\<rparr>"

definition set_queue :: "'a sc_shared \<Rightarrow> nat \<Rightarrow> sc_queue \<Rightarrow> 'a sc_shared" where
  "set_queue s q Q = s\<lparr>queues := (queues s)(q := Q)\<rparr>"

text \<open>Where a thread is: the next action, with its local variables; \<open>q\<close> is the queue's instance id.\<close>

datatype 'a sc_pc =
    SC_Idle
  | GP_Check nat 'a | GP_Count nat 'a | GP_CasCount nat 'a int | GP_New nat 'a
  | GP_Head nat 'a nat | GP_SetNext nat 'a nat "nat option" | GP_CasHead nat 'a nat "nat option"
  | SE_Tail nat 'a | SE_Block nat 'a "64 word" | SE_Index nat 'a "64 word" nat
  | SE_Construct nat 'a "64 word" nat | SE_Commit nat 'a "64 word" nat | SE_Publish nat 'a "64 word"
  | DQ_Count nat | DQ_Cache nat int | DQ_Walk nat "nat option" | DQ_Try "32 word" nat
  | SD_Head nat "32 word" nat | SD_Tail nat "32 word" nat "64 word" | SD_Cas nat "32 word" nat "64 word"
  | SD_Load nat "64 word" | SD_Wait nat "64 word" nat | SD_Move nat "64 word" nat
  | SD_Destroy nat "64 word" nat "'a option"

text \<open>The thread-local variables, and the next action.\<close>

(* simple_concurrent_queue.h:205-209 Dequeue = sc_thread *)
record 'a sc_thread =
  my_producer :: "nat option"
  my_producer_owner_id :: nat
  cached_producers :: "nat list"
  cached_queue_id :: nat
  rr :: "32 word"
  pc :: "'a sc_pc"

definition sc_thread_new :: "'a sc_thread" where
  "sc_thread_new = \<lparr>my_producer = None, my_producer_owner_id = 0, cached_producers = [], cached_queue_id = 0, rr = 0, pc = SC_Idle\<rparr>"

text \<open>What an observer sees: a value published, a slot claimed, and how the calls end.\<close>

datatype ('t, 'a) sc_act =
    SC_Tau
  | Published 't nat 'a | Enqueue_Threw 't "exn option"
  | Claimed 't nat | Dequeued 't 'a | Dequeue_Threw 't | Dequeue_Empty 't

type_synonym ('t, 'a) sc_result = "('a sc_shared \<times> 'a sc_thread \<times> ('t, 'a) sc_act) option"

definition go :: "'a sc_shared \<Rightarrow> 'a sc_thread \<Rightarrow> 'a sc_pc \<Rightarrow> ('t, 'a) sc_result" where
  "go s T at = Some (s, T\<lparr>pc := at\<rparr>, SC_Tau)"

section \<open>The steps of a thread\<close>

text \<open>The argument \<open>a\<close> is the address of a new producer; a used one leaves the thread where it is.\<close>

(* simple_concurrent_queue.h:244-272 GetOrCreateProducer *)
fun Simple_GetOrCreateProducer_step :: "'t \<Rightarrow> nat \<Rightarrow> bool \<Rightarrow> 'a sc_shared \<Rightarrow> 'a sc_thread \<Rightarrow> 'a sc_pc \<Rightarrow> ('t, 'a) sc_result" where
  "Simple_GetOrCreateProducer_step t a weak s T (GP_Check q v) =
     (case my_producer T of
        Some p \<Rightarrow> if my_producer_owner_id T = q then go s T (SE_Tail p v) else go s T (GP_Count q v)
      | None \<Rightarrow> go s T (GP_Count q v))"
| "Simple_GetOrCreateProducer_step t a weak s T (GP_Count q v) = go s T (GP_CasCount q v (producer_count (queues s q)))"
| "Simple_GetOrCreateProducer_step t a weak s T (GP_CasCount q v count) =
     (if count \<ge> int SC_MAX_PRODUCERS
      then Some (s, T\<lparr>pc := SC_Idle\<rparr>, Enqueue_Threw t (Some (Runtime_Error ''SimpleConcurrentQueue: too many producers'')))
      else if \<not> weak \<and> producer_count (queues s q) = count
      then go (set_queue s q ((queues s q)\<lparr>producer_count := count + 1\<rparr>)) T (GP_New q v)
      else go s T (GP_CasCount q v (producer_count (queues s q))))"
| "Simple_GetOrCreateProducer_step t a weak s T (GP_New q v) =
     (if producers s a = None
      then Option.bind SimpleQueueProducer_new (\<lambda>P. go (set_producer s a P) T (GP_Head q v a))
      else go s T (GP_New q v))"
| "Simple_GetOrCreateProducer_step t a weak s T (GP_Head q v p) = go s T (GP_SetNext q v p (producer_list_head (queues s q)))"
| "Simple_GetOrCreateProducer_step t a weak s T (GP_SetNext q v p head) =
     Option.bind (producers s p) (\<lambda>P. go (set_producer s p (P\<lparr>next_producer := head\<rparr>)) T (GP_CasHead q v p head))"
| "Simple_GetOrCreateProducer_step t a weak s T (GP_CasHead q v p head) =
     (if \<not> weak \<and> producer_list_head (queues s q) = head
      then go (set_queue s q ((queues s q)\<lparr>producer_list_head := Some p\<rparr>))
             (T\<lparr>my_producer := Some p, my_producer_owner_id := q\<rparr>) (SE_Tail p v)
      else go s T (GP_SetNext q v p (producer_list_head (queues s q))))"
| "Simple_GetOrCreateProducer_step t a weak s T at = go s T at"

text \<open>\<open>throws\<close> says whether the constructor of the element throws; \<open>a\<close> is the address of a new block.\<close>

(* simple_concurrent_queue.h:172-194 Emplace *)
fun Simple_Emplace_step :: "'t \<Rightarrow> nat \<Rightarrow> bool \<Rightarrow> 'a sc_shared \<Rightarrow> 'a sc_thread \<Rightarrow> 'a sc_pc \<Rightarrow> ('t, 'a) sc_result" where
  "Simple_Emplace_step t a throws s T (SE_Tail p v) =
     Option.bind (producers s p) (\<lambda>P.
       let tail = tail_index P; slot = unat (tail AND (of_nat SC_BLOCK_SIZE - 1)); block_idx = tail div of_nat SC_BLOCK_SIZE in
       if slot = 0 \<and> tail \<noteq> 0
       then if block_idx \<ge> of_nat (MAX_SEGS * SEG_SIZE)
            then Some (s, T\<lparr>pc := SC_Idle\<rparr>, Enqueue_Threw t (Some (Runtime_Error ''SimpleConcurrentQueue: sub-queue capacity exceeded'')))
            else go s T (SE_Block p v tail)
       else go s T (SE_Construct p v tail (tail_block P)))"
| "Simple_Emplace_step t a throws s T (SE_Block p v tail) =
     Option.bind (producers s p) (\<lambda>P.
       if sq_blocks P a \<noteq> None then go s T (SE_Block p v tail)
       else Option.bind (sq_blocks P (tail_block P)) (\<lambda>old.
         go (set_producer s p (P\<lparr>sq_blocks := (sq_blocks P)(a \<mapsto> SimpleQueueBlock_new tail, tail_block P \<mapsto> old\<lparr>next_block := Some a\<rparr>),
                                tail_block := a\<rparr>)) T (SE_Index p v tail a)))"
| "Simple_Emplace_step t a throws s T (SE_Index p v tail b) =
     Option.bind (producers s p) (\<lambda>P. Option.bind (BlockIndex_store (blocks_at P) (tail div of_nat SC_BLOCK_SIZE) b) (\<lambda>index.
       go (set_producer s p (P\<lparr>blocks_at := index\<rparr>)) T (SE_Construct p v tail b)))"
| "Simple_Emplace_step t a throws s T (SE_Construct p v tail b) =
     (if throws then Some (s, T\<lparr>pc := SC_Idle\<rparr>, Enqueue_Threw t None)
      else Option.bind (producers s p) (\<lambda>P. Option.bind (sq_blocks P b) (\<lambda>B.
        Option.bind (Block_construct B (unat (tail AND (of_nat SC_BLOCK_SIZE - 1))) v) (\<lambda>B.
          go (set_producer s p (P\<lparr>sq_blocks := (sq_blocks P)(b \<mapsto> B)\<rparr>)) T (SE_Commit p v tail b)))))"
| "Simple_Emplace_step t a throws s T (SE_Commit p v tail b) =
     Option.bind (producers s p) (\<lambda>P. Option.bind (sq_blocks P b) (\<lambda>B.
       go (set_producer s p (P\<lparr>sq_blocks := (sq_blocks P)(b \<mapsto>
             B\<lparr>committed := (committed B)[unat (tail AND (of_nat SC_BLOCK_SIZE - 1)) := True]\<rparr>)\<rparr>)) T (SE_Publish p v tail)))"
| "Simple_Emplace_step t a throws s T (SE_Publish p v tail) =
     Option.bind (producers s p) (\<lambda>P.
       Some (set_producer s p (P\<lparr>tail_index := tail + 1\<rparr>), T\<lparr>pc := SC_Idle\<rparr>, Published t p v))"
| "Simple_Emplace_step t a throws s T at = go s T at"

text \<open>\<open>throws\<close> says whether the move assignment of the element throws.\<close>

(* simple_concurrent_queue.h:274-324 DequeueFrom *)
fun Simple_DequeueFrom_step :: "'t \<Rightarrow> bool \<Rightarrow> bool \<Rightarrow> 'a sc_shared \<Rightarrow> 'a sc_thread \<Rightarrow> 'a sc_pc \<Rightarrow> ('t, 'a) sc_result" where
  "Simple_DequeueFrom_step t weak throws s T (SD_Head p start i) =
     Option.bind (producers s p) (\<lambda>P. go s T (SD_Tail p start i (head_index P)))"
| "Simple_DequeueFrom_step t weak throws s T (SD_Tail p start i my_slot) =
     Option.bind (producers s p) (\<lambda>P.
       if my_slot \<ge> tail_index P then go s T (DQ_Try start (i + 1)) else go s T (SD_Cas p start i my_slot))"
| "Simple_DequeueFrom_step t weak throws s T (SD_Cas p start i my_slot) =
     Option.bind (producers s p) (\<lambda>P.
       if \<not> weak \<and> head_index P = my_slot
       then Some (set_producer s p (P\<lparr>head_index := my_slot + 1\<rparr>), T\<lparr>pc := SD_Load p my_slot\<rparr>, Claimed t p)
       else go s T (SD_Head p start i))"
| "Simple_DequeueFrom_step t weak throws s T (SD_Load p my_slot) =
     Option.bind (producers s p) (\<lambda>P. Option.bind (BlockIndex_load (blocks_at P) (my_slot div of_nat SC_BLOCK_SIZE)) (\<lambda>b.
       case b of None \<Rightarrow> go s T (SD_Load p my_slot) | Some b \<Rightarrow> go s T (SD_Wait p my_slot b)))"
| "Simple_DequeueFrom_step t weak throws s T (SD_Wait p my_slot b) =
     Option.bind (producers s p) (\<lambda>P. Option.bind (sq_blocks P b) (\<lambda>B.
       if committed B ! unat (my_slot AND (of_nat SC_BLOCK_SIZE - 1)) then go s T (SD_Move p my_slot b) else go s T (SD_Wait p my_slot b)))"
| "Simple_DequeueFrom_step t weak throws s T (SD_Move p my_slot b) =
     Option.bind (producers s p) (\<lambda>P. Option.bind (sq_blocks P b) (\<lambda>B.
       Option.bind (Block_move B (unat (my_slot AND (of_nat SC_BLOCK_SIZE - 1)))) (\<lambda>(v, B).
         go (set_producer s p (P\<lparr>sq_blocks := (sq_blocks P)(b \<mapsto> B)\<rparr>)) T (SD_Destroy p my_slot b (if throws then None else Some v)))))"
| "Simple_DequeueFrom_step t weak throws s T (SD_Destroy p my_slot b result) =
     Option.bind (producers s p) (\<lambda>P. Option.bind (sq_blocks P b) (\<lambda>B.
       Option.bind (Block_destroy B (unat (my_slot AND (of_nat SC_BLOCK_SIZE - 1)))) (\<lambda>B.
         Some (set_producer s p (P\<lparr>sq_blocks := (sq_blocks P)(b \<mapsto> B)\<rparr>), T\<lparr>pc := SC_Idle\<rparr>,
           case result of Some v \<Rightarrow> Dequeued t v | None \<Rightarrow> Dequeue_Threw t))))"
| "Simple_DequeueFrom_step t weak throws s T at = go s T at"

text \<open>
  The snapshot of the producers: \<open>DQ_Walk q cur\<close> is at the producer \<open>cur\<close> of the list; it is taken
  anew when the queue or the number of its producers is not that of the last snapshot.
\<close>

(* simple_concurrent_queue.h:196-229 Dequeue *)
fun Simple_Dequeue_step :: "'t \<Rightarrow> bool \<Rightarrow> bool \<Rightarrow> 'a sc_shared \<Rightarrow> 'a sc_thread \<Rightarrow> 'a sc_pc \<Rightarrow> ('t, 'a) sc_result" where
  "Simple_Dequeue_step t weak throws s T (DQ_Count q) =
     (let count = producer_count (queues s q) in
      if count = 0 then Some (s, T\<lparr>pc := SC_Idle\<rparr>, Dequeue_Empty t) else go s T (DQ_Cache q count))"
| "Simple_Dequeue_step t weak throws s T (DQ_Cache q count) =
     (if cached_queue_id T \<noteq> q \<or> int (length (cached_producers T)) \<noteq> count
      then go s (T\<lparr>cached_producers := []\<rparr>) (DQ_Walk q (producer_list_head (queues s q)))
      else go s (T\<lparr>rr := rr T + 1\<rparr>) (DQ_Try (rr T) 0))"
| "Simple_Dequeue_step t weak throws s T (DQ_Walk q cur) =
     (case cur of
        Some p \<Rightarrow>
          if length (cached_producers T) < SC_MAX_PRODUCERS
          then Option.bind (producers s p) (\<lambda>P. go s (T\<lparr>cached_producers := cached_producers T @ [p]\<rparr>) (DQ_Walk q (next_producer P)))
          else go s (T\<lparr>cached_queue_id := q, rr := rr T + 1\<rparr>) (DQ_Try (rr T) 0)
      | None \<Rightarrow> go s (T\<lparr>cached_queue_id := q, rr := rr T + 1\<rparr>) (DQ_Try (rr T) 0))"
| "Simple_Dequeue_step t weak throws s T (DQ_Try start i) =
     (if i < length (cached_producers T)
      then go s T (SD_Head (cached_producers T ! unat ((start + of_nat i) mod of_nat (length (cached_producers T)))) start i)
      else Some (s, T\<lparr>pc := SC_Idle\<rparr>, Dequeue_Empty t))"
| "Simple_Dequeue_step t weak throws s T at = Simple_DequeueFrom_step t weak throws s T at"

section \<open>Schedules\<close>

datatype ('t, 'a) sc_event = SC_Emplace 't nat 'a | SC_Dequeue 't nat | SC_Step 't nat bool bool

fun making_producer :: "'a sc_pc \<Rightarrow> bool" where
  "making_producer (GP_Check q v) = True"
| "making_producer (GP_Count q v) = True"
| "making_producer (GP_CasCount q v c) = True"
| "making_producer (GP_New q v) = True"
| "making_producer (GP_Head q v p) = True"
| "making_producer (GP_SetNext q v p h) = True"
| "making_producer (GP_CasHead q v p h) = True"
| "making_producer at = False"

fun emplacing :: "'a sc_pc \<Rightarrow> bool" where
  "emplacing (SE_Tail p v) = True"
| "emplacing (SE_Block p v n) = True"
| "emplacing (SE_Index p v n b) = True"
| "emplacing (SE_Construct p v n b) = True"
| "emplacing (SE_Commit p v n b) = True"
| "emplacing (SE_Publish p v n) = True"
| "emplacing at = False"

definition sc_thread_step :: "'t \<Rightarrow> nat \<Rightarrow> bool \<Rightarrow> bool \<Rightarrow> 'a sc_shared \<Rightarrow> 'a sc_thread \<Rightarrow> ('t, 'a) sc_result" where
  "sc_thread_step t a weak throws s T =
     (if making_producer (pc T) then Simple_GetOrCreateProducer_step t a weak s T (pc T)
      else if emplacing (pc T) then Simple_Emplace_step t a throws s T (pc T)
      else Simple_Dequeue_step t weak throws s T (pc T))"

type_synonym ('t, 'a) sc_system = "'a sc_shared \<times> ('t \<Rightarrow> 'a sc_thread)"

fun sc_step :: "('t, 'a) sc_system \<Rightarrow> ('t, 'a) sc_event \<Rightarrow> (('t, 'a) sc_system \<times> ('t, 'a) sc_act) option" where
  "sc_step (s, th) (SC_Emplace t q v) =
     Some ((s, if pc (th t) = SC_Idle then th(t := (th t)\<lparr>pc := GP_Check q v\<rparr>) else th), SC_Tau)"
| "sc_step (s, th) (SC_Dequeue t q) =
     Some ((s, if pc (th t) = SC_Idle then th(t := (th t)\<lparr>pc := DQ_Count q\<rparr>) else th), SC_Tau)"
| "sc_step (s, th) (SC_Step t a weak throws) =
     Option.bind (sc_thread_step t a weak throws s (th t)) (\<lambda>(s', T, act). Some ((s', th(t := T)), act))"

definition sc_new :: "('t, 'a) sc_system" where
  "sc_new = (\<lparr>producers = Map.empty, queues = (\<lambda>_. SimpleConcurrentQueue_new)\<rparr>, \<lambda>_. sc_thread_new)"

section \<open>Destruction\<close>

text \<open>
  The destructors run when no other thread uses the queue.  A producer destroys its live elements,
  block by block, and frees the list of its blocks; the result is what is left of the blocks, and the
  blocks freed, the last first.
\<close>

(* simple_concurrent_queue.h:131-133 ~SimpleQueueProducer *)
partial_function (option) destroy_slots :: "'a sq_block \<Rightarrow> 64 word \<Rightarrow> 64 word \<Rightarrow> ('a sq_block \<times> 64 word) option" where
  "destroy_slots B index block_end =
     (if index < block_end
      then Option.bind (Block_destroy B (unat (index AND (of_nat SC_BLOCK_SIZE - 1)))) (\<lambda>B. destroy_slots B (index + 1) block_end)
      else Some (B, index))"

(* simple_concurrent_queue.h:121-134 ~SimpleQueueProducer *)
partial_function (option) destroy_elements ::
    "(nat \<rightharpoonup> 'a sq_block) \<Rightarrow> block_index \<Rightarrow> 64 word \<Rightarrow> 64 word \<Rightarrow> (nat \<rightharpoonup> 'a sq_block) option" where
  "destroy_elements blocks segments index tail =
     (if index < tail
      then Option.bind (BlockIndex_load segments (index div of_nat SC_BLOCK_SIZE)) (\<lambda>block.
        case block of None \<Rightarrow> Some blocks
        | Some b \<Rightarrow> Option.bind (blocks b) (\<lambda>B.
            let block_end = (index div of_nat SC_BLOCK_SIZE + 1) * of_nat SC_BLOCK_SIZE;
                block_end = (if block_end > tail then tail else block_end)
            in Option.bind (destroy_slots B index block_end) (\<lambda>(B, index). destroy_elements (blocks(b \<mapsto> B)) segments index tail)))
      else Some blocks)"

(* simple_concurrent_queue.h:136-142 ~SimpleQueueProducer *)
partial_function (option) free_blocks ::
    "(nat \<rightharpoonup> 'a sq_block) \<Rightarrow> nat option \<Rightarrow> 'a sq_block list \<Rightarrow> ((nat \<rightharpoonup> 'a sq_block) \<times> 'a sq_block list) option" where
  "free_blocks blocks block freed =
     (case block of None \<Rightarrow> Some (blocks, freed)
      | Some b \<Rightarrow> Option.bind (blocks b) (\<lambda>B. free_blocks (blocks(b := None)) (next_block B) (B # freed)))"

(* simple_concurrent_queue.h:115-143 ~SimpleQueueProducer *)
definition SimpleQueueProducer_destroy :: "'a sq_producer \<Rightarrow> ((nat \<rightharpoonup> 'a sq_block) \<times> 'a sq_block list) option" where
  "SimpleQueueProducer_destroy P =
     Option.bind (destroy_elements (sq_blocks P) (blocks_at P) (head_index P) (tail_index P)) (\<lambda>blocks.
     Option.bind (BlockIndex_load (blocks_at P) 0) (\<lambda>block. free_blocks blocks block []))"

text \<open>The list of producers; the results of their destructors are collected.\<close>

type_synonym 'a sc_remains = "((nat \<rightharpoonup> 'a sq_block) \<times> 'a sq_block list) list"

(* simple_concurrent_queue.h:158-163 ~SimpleConcurrentQueue *)
partial_function (option) free_producers ::
    "'a sc_shared \<Rightarrow> nat option \<Rightarrow> 'a sc_remains \<Rightarrow> ('a sc_shared \<times> 'a sc_remains) option" where
  "free_producers s r remains =
     (case r of None \<Rightarrow> Some (s, remains)
      | Some p \<Rightarrow> Option.bind (producers s p) (\<lambda>P. Option.bind (SimpleQueueProducer_destroy P) (\<lambda>left.
          free_producers (s\<lparr>producers := (producers s)(p := None)\<rparr>) (next_producer P) (left # remains))))"

(* simple_concurrent_queue.h:155-168 ~SimpleConcurrentQueue *)
definition SimpleConcurrentQueue_destroy :: "nat \<Rightarrow> 'a sc_shared \<Rightarrow> 'a sc_thread \<Rightarrow> ('a sc_shared \<times> 'a sc_thread \<times> 'a sc_remains) option" where
  "SimpleConcurrentQueue_destroy q s T =
     Option.bind (free_producers s (producer_list_head (queues s q)) []) (\<lambda>(s, remains).
       Some (s, if my_producer_owner_id T = q then T\<lparr>my_producer := None, my_producer_owner_id := 0\<rparr> else T, remains))"

end
