(* ===== verification/Simple_Queue_Correct.thy ===== *)
theory Simple_Queue_Correct
  imports Simple_Queue
begin

unbundle bit_operations_syntax

text \<open>
  The simple concurrent queue is a family of FIFO queues, one for each producer: under every schedule
  each published value is claimed at most once, in the order of its producer, and read from a
  slot that holds it.
\<close>

section \<open>Words and numbers\<close>

lemma unat_and_31: "unat ((w :: 64 word) AND 31) = unat w mod 32"
proof -
  have "w AND 31 = take_bit 5 w" by (simp add: take_bit_eq_mask mask_eq_exp_minus_1)
  then have "unat (w AND 31) = unat (take_bit 5 w)" by (rule arg_cong)
  also have "\<dots> = unat w mod 32" unfolding unsigned_take_bit_eq by (simp add: take_bit_eq_mod)
  finally show ?thesis .
qed

lemma unat_and_1023: "unat ((w :: 64 word) AND 1023) = unat w mod 1024"
proof -
  have "w AND 1023 = take_bit 10 w" by (simp add: take_bit_eq_mask mask_eq_exp_minus_1)
  then have "unat (w AND 1023) = unat (take_bit 10 w)" by (rule arg_cong)
  also have "\<dots> = unat w mod 1024" unfolding unsigned_take_bit_eq by (simp add: take_bit_eq_mod)
  finally show ?thesis .
qed

lemma unat_div_32: "unat ((w :: 64 word) div 32) = unat w div 32"
  by (simp add: unat_div)

lemma seg_of_nat: "seg_of w = unat w div 1024"
  by (simp add: seg_of_def drop_bit_eq_div unat_div)

lemma slot_of_nat: "slot_of w = unat w mod 1024"
  by (simp add: slot_of_def unat_and_1023)

section \<open>The slots of a producer\<close>

text \<open>The block with number \<open>k\<close>, and slot \<open>i\<close> of the producer with its flag.\<close>

definition block_no :: "'a sq_producer \<Rightarrow> nat \<Rightarrow> nat option" where
  "block_no P k = (case blocks_at P ! (k div 1024) of None \<Rightarrow> None | Some seg \<Rightarrow> seg (k mod 1024))"

definition cell_at :: "'a sq_producer \<Rightarrow> nat \<Rightarrow> ('a cell \<times> bool) option" where
  "cell_at P i = Option.bind (block_no P (i div 32)) (\<lambda>b.
     map_option (\<lambda>B. (storage B ! (i mod 32), committed B ! (i mod 32))) (sq_blocks P b))"

definition shape_ok :: "'a sq_producer \<Rightarrow> bool" where
  "shape_ok P \<longleftrightarrow> length (blocks_at P) = 64 \<and>
     (\<forall>b B. sq_blocks P b = Some B \<longrightarrow> length (storage B) = 32 \<and> length (committed B) = 32) \<and>
     (\<forall>k < 65536. \<forall>b. block_no P k = Some b \<longrightarrow> sq_blocks P b \<noteq> None) \<and>
     (\<forall>k < 65536. \<forall>j < 65536. \<forall>b. block_no P k = Some b \<and> block_no P j = Some b \<longrightarrow> k = j) \<and>
     sq_blocks P (tail_block P) \<noteq> None"

definition tail_of :: "'a sq_producer \<Rightarrow> nat" where
  "tail_of P = unat (tail_index P)"

definition head_of :: "'a sq_producer \<Rightarrow> nat" where
  "head_of P = unat (head_index P)"

definition prod_ok :: "'a sq_producer \<Rightarrow> 'a list \<Rightarrow> bool" where
  "prod_ok P vals \<longleftrightarrow> shape_ok P \<and> tail_of P = length vals \<and> length vals \<le> 65536 * 32 \<and> head_of P \<le> tail_of P \<and>
     (\<forall>i < tail_of P. \<exists>c. cell_at P i = Some (c, True)) \<and>
     (\<forall>i. head_of P \<le> i \<and> i < tail_of P \<longrightarrow> cell_at P i = Some (Live (vals ! i), True)) \<and>
     (\<forall>i. tail_of P < i \<and> i < 65536 * 32 \<longrightarrow> cell_at P i = None \<or> (\<exists>f. cell_at P i = Some (Raw, f))) \<and>
     (tail_of P mod 32 \<noteq> 0 \<or> tail_of P = 0 \<longrightarrow> block_no P (tail_of P div 32) = Some (tail_block P))"

lemma BlockIndex_load_nat:
  assumes "length (blocks_at P) = 64" "unat w < 65536"
  shows "BlockIndex_load (blocks_at P) w = Some (block_no P (unat w))"
  using assms by (auto simp: BlockIndex_load_def Let_def seg_of_nat slot_of_nat block_no_def split: option.splits)

lemma BlockIndex_store_nat:
  assumes "length (blocks_at P) = 64" "unat w < 65536"
  shows "\<exists>index. BlockIndex_store (blocks_at P) w b = Some index \<and> length index = 64 \<and>
    (\<forall>k < 65536. block_no (P\<lparr>blocks_at := index\<rparr>) k = (if k = unat w then Some b else block_no P k))"
proof -
  let ?index = "(blocks_at P)[unat w div 1024 := Some ((case blocks_at P ! (unat w div 1024) of None \<Rightarrow> \<lambda>_. None | Some seg \<Rightarrow> seg)(unat w mod 1024 := Some b))]"
  have seg: "unat w div 1024 < 64" using assms(2) by (simp add: div_less_iff_less_mult)
  have "BlockIndex_store (blocks_at P) w b = Some ?index" using seg by (simp add: BlockIndex_store_def Let_def seg_of_nat slot_of_nat)
  moreover have "block_no (P\<lparr>blocks_at := ?index\<rparr>) k = (if k = unat w then Some b else block_no P k)" if "k < 65536" for k
  proof (cases "k div 1024 = unat w div 1024")
    case True
    have "k = unat w \<longleftrightarrow> k mod 1024 = unat w mod 1024" using True by (metis div_mod_decomp)
    then show ?thesis using True seg assms(1) by (auto simp: block_no_def split: option.splits)
  next
    case False
    then show ?thesis by (auto simp: block_no_def)
  qed
  ultimately show ?thesis using assms(1) by auto
qed

text \<open>Writing one slot of a block.\<close>

definition set_slot :: "'a sq_producer \<Rightarrow> nat \<Rightarrow> 'a sq_block \<Rightarrow> 'a sq_producer" where
  "set_slot P b B = P\<lparr>sq_blocks := (sq_blocks P)(b \<mapsto> B)\<rparr>"

lemma set_slot_fields [simp]:
  "tail_index (set_slot P b B) = tail_index P" "tail_block (set_slot P b B) = tail_block P"
  "blocks_at (set_slot P b B) = blocks_at P" "head_index (set_slot P b B) = head_index P"
  "next_producer (set_slot P b B) = next_producer P" "sq_blocks (set_slot P b B) = (sq_blocks P)(b \<mapsto> B)"
  "tail_of (set_slot P b B) = tail_of P" "head_of (set_slot P b B) = head_of P"
  "block_no (set_slot P b B) = block_no P"
  by (simp_all add: set_slot_def tail_of_def head_of_def block_no_def fun_eq_iff)

definition slot_written :: "'a sq_block \<Rightarrow> nat \<Rightarrow> 'a cell \<Rightarrow> bool \<Rightarrow> 'a sq_block \<Rightarrow> bool" where
  "slot_written B j c f B' \<longleftrightarrow> storage B' = (storage B)[j := c] \<and> committed B' = (committed B)[j := f]"

lemma slot_written_storage: "slot_written B j c (committed B ! j) (B\<lparr>storage := (storage B)[j := c]\<rparr>)"
  by (simp add: slot_written_def)

lemma slot_written_committed: "slot_written B j (storage B ! j) f (B\<lparr>committed := (committed B)[j := f]\<rparr>)"
  by (simp add: slot_written_def)

lemma shape_okD:
  assumes "shape_ok P"
  shows "length (blocks_at P) = 64"
    "\<And>b B. sq_blocks P b = Some B \<Longrightarrow> length (storage B) = 32 \<and> length (committed B) = 32"
    "\<And>k b. k < 65536 \<Longrightarrow> block_no P k = Some b \<Longrightarrow> sq_blocks P b \<noteq> None"
    "\<And>k j b. k < 65536 \<Longrightarrow> j < 65536 \<Longrightarrow> block_no P k = Some b \<Longrightarrow> block_no P j = Some b \<Longrightarrow> k = j"
    "sq_blocks P (tail_block P) \<noteq> None"
  using assms unfolding shape_ok_def by blast+

lemma set_slot_correct:
  assumes ok: "shape_ok P" and b: "block_no P (i div 32) = Some b" "i < 65536 * 32" "sq_blocks P b = Some B"
    and B': "slot_written B (i mod 32) c f B'"
  shows "shape_ok (set_slot P b B')"
    and "\<And>j. j < 65536 * 32 \<Longrightarrow> cell_at (set_slot P b B') j = (if j = i then Some (c, f) else cell_at P j)"
proof -
  note S = shape_okD[OF ok]
  have len: "length (storage B) = 32" "length (committed B) = 32" using S(2)[OF b(3)] by simp_all
  show "shape_ok (set_slot P b B')"
    using ok B' len b(3) unfolding shape_ok_def by (auto simp: slot_written_def)
  show "cell_at (set_slot P b B') j = (if j = i then Some (c, f) else cell_at P j)" if j: "j < 65536 * 32" for j
  proof (cases "block_no P (j div 32) = Some b")
    case True
    then have same: "j div 32 = i div 32" using S(4)[of "j div 32" "i div 32" b] b(1,2) j by simp
    have "j = i \<longleftrightarrow> j mod 32 = i mod 32" using same by (metis div_mod_decomp)
    then show ?thesis using True B' len b(3) unfolding cell_at_def slot_written_def by (auto simp: nth_list_update)
  next
    case False
    then have "j \<noteq> i" using b(1) by auto
    then show ?thesis using False unfolding cell_at_def by (cases "block_no P (j div 32)") auto
  qed
qed

text \<open>A slot that is there, with its block.\<close>

lemma cell_at_block:
  assumes "cell_at P i = Some (c, f)"
  obtains b B where "block_no P (i div 32) = Some b" "sq_blocks P b = Some B" "storage B ! (i mod 32) = c" "committed B ! (i mod 32) = f"
  using assms unfolding cell_at_def by (auto simp: bind_eq_Some_conv)

text \<open>A new block behind the last one, and its entry in the index.\<close>

lemma new_block_correct:
  fixes base :: "64 word"
  assumes ok: "shape_ok P" and a: "sq_blocks P a = None" and old: "sq_blocks P (tail_block P) = Some old"
  defines "P' \<equiv> P\<lparr>sq_blocks := (sq_blocks P)(a \<mapsto> SimpleQueueBlock_new base, tail_block P \<mapsto> old\<lparr>next_block := Some a\<rparr>), tail_block := a\<rparr>"
  shows "shape_ok P'" and "block_no P' = block_no P" and "\<And>i. i < 65536 * 32 \<Longrightarrow> cell_at P' i = cell_at P i"
    and "\<And>k. k < 65536 \<Longrightarrow> block_no P k \<noteq> Some a" and "sq_blocks P' a = Some (SimpleQueueBlock_new base)"
proof -
  note S = shape_okD[OF ok]
  show no: "block_no P' = block_no P" by (simp add: P'_def block_no_def fun_eq_iff)
  show fresh: "block_no P k \<noteq> Some a" if "k < 65536" for k using S(3)[OF that] a by auto
  show new: "sq_blocks P' a = Some (SimpleQueueBlock_new base)" using a old by (auto simp: P'_def)
  have len: "length (storage old) = 32" "length (committed old) = 32" using S(2)[OF old] by simp_all
  have "length (storage B) = 32 \<and> length (committed B) = 32" if "sq_blocks P' b = Some B" for b B
    using that S(2) len by (auto simp: P'_def SimpleQueueBlock_new_def split: if_splits)
  moreover have "sq_blocks P' b \<noteq> None" if "sq_blocks P b \<noteq> None" for b using that by (auto simp: P'_def)
  moreover have "blocks_at P' = blocks_at P" "tail_block P' = a" by (simp_all add: P'_def)
  ultimately show "shape_ok P'" using S new unfolding shape_ok_def no by simp
  show "cell_at P' i = cell_at P i" if "i < 65536 * 32" for i
  proof (cases "block_no P (i div 32)")
    case (Some b)
    then have "b \<noteq> a" using fresh[of "i div 32"] that by auto
    then show ?thesis using Some old unfolding cell_at_def no by (auto simp: P'_def)
  qed (simp add: cell_at_def no)
qed

lemma index_stored_correct:
  assumes ok: "shape_ok P" and b: "sq_blocks P b = Some B" and fresh: "\<And>k. k < 65536 \<Longrightarrow> block_no P k \<noteq> Some b" and w: "unat w < 65536"
  obtains index where "BlockIndex_store (blocks_at P) w b = Some index" "shape_ok (P\<lparr>blocks_at := index\<rparr>)"
    "\<And>k. k < 65536 \<Longrightarrow> block_no (P\<lparr>blocks_at := index\<rparr>) k = (if k = unat w then Some b else block_no P k)"
    "\<And>i. i < 65536 * 32 \<Longrightarrow> cell_at (P\<lparr>blocks_at := index\<rparr>) i =
       (if i div 32 = unat w then Some (storage B ! (i mod 32), committed B ! (i mod 32)) else cell_at P i)"
proof -
  note S = shape_okD[OF ok]
  obtain index where index: "BlockIndex_store (blocks_at P) w b = Some index" "length index = 64"
    "\<And>k. k < 65536 \<Longrightarrow> block_no (P\<lparr>blocks_at := index\<rparr>) k = (if k = unat w then Some b else block_no P k)"
    using BlockIndex_store_nat[OF S(1) w, of b] by blast
  have "shape_ok (P\<lparr>blocks_at := index\<rparr>)"
    unfolding shape_ok_def
    using S index(2,3) b fresh by (auto split: if_splits)
  moreover have "cell_at (P\<lparr>blocks_at := index\<rparr>) i =
      (if i div 32 = unat w then Some (storage B ! (i mod 32), committed B ! (i mod 32)) else cell_at P i)" if "i < 65536 * 32" for i
  proof -
    have "i div 32 < 65536" using that by (simp add: div_less_iff_less_mult)
    then show ?thesis using index(3)[of "i div 32"] b unfolding cell_at_def by simp
  qed
  ultimately show thesis using that[of index] index(1,3) by blast
qed

section \<open>The specification: FIFO queues side by side\<close>

text \<open>
  \<open>subs p\<close> are the values published by producer \<open>p\<close> and not yet claimed, \<open>taken t\<close> is the value
  thread \<open>t\<close> has claimed.  A value is returned only by the thread that claimed it.
\<close>

type_synonym ('t, 'a) sc_spec_state = "(nat \<Rightarrow> 'a list) \<times> ('t \<Rightarrow> 'a option)"

fun fifo_family :: "('t, 'a) sc_spec_state \<Rightarrow> ('t, 'a) sc_act \<Rightarrow> ('t, 'a) sc_spec_state option" where
  "fifo_family f SC_Tau = Some f"
| "fifo_family (subs, taken) (Published t p v) = Some (subs(p := subs p @ [v]), taken)"
| "fifo_family f (Enqueue_Threw t e) = Some f"
| "fifo_family (subs, taken) (Claimed t p) =
     (case (subs p, taken t) of (v # rest, None) \<Rightarrow> Some (subs(p := rest), taken(t := Some v)) | _ \<Rightarrow> None)"
| "fifo_family (subs, taken) (Dequeued t v) = (if taken t = Some v then Some (subs, taken(t := None)) else None)"
| "fifo_family (subs, taken) (Dequeue_Threw t) = (if taken t \<noteq> None then Some (subs, taken(t := None)) else None)"
| "fifo_family (subs, taken) (Dequeue_Empty t) = (if taken t = None then Some (subs, taken) else None)"

section \<open>The invariant\<close>

fun claim :: "'a sc_pc \<Rightarrow> (nat \<times> nat) option" where
  "claim (SD_Load p w) = Some (p, unat w)"
| "claim (SD_Wait p w b) = Some (p, unat w)"
| "claim (SD_Move p w b) = Some (p, unat w)"
| "claim (SD_Destroy p w b r) = Some (p, unat w)"
| "claim at = None"

text \<open>The producer a thread has made and not yet linked; the one it enqueues to; the one whose next
  slot it has filled and not yet published.\<close>

fun making :: "'a sc_pc \<Rightarrow> nat option" where
  "making (GP_Head q v p) = Some p"
| "making (GP_SetNext q v p h) = Some p"
| "making (GP_CasHead q v p h) = Some p"
| "making at = None"

fun enq_to :: "'a sc_pc \<Rightarrow> nat option" where
  "enq_to (SE_Tail p v) = Some p"
| "enq_to (SE_Block p v w) = Some p"
| "enq_to (SE_Index p v w b) = Some p"
| "enq_to (SE_Construct p v w b) = Some p"
| "enq_to (SE_Commit p v w b) = Some p"
| "enq_to (SE_Publish p v w) = Some p"
| "enq_to at = None"

fun filling :: "'a sc_pc \<Rightarrow> nat option" where
  "filling (SE_Commit p v w b) = Some p"
| "filling (SE_Publish p v w) = Some p"
| "filling at = None"

definition known :: "'a sc_shared \<Rightarrow> nat option \<Rightarrow> bool" where
  "known s r \<longleftrightarrow> (\<forall>p. r = Some p \<longrightarrow> producers s p \<noteq> None)"

text \<open>The next slot to fill is in the last block.\<close>

definition at_tail :: "'a sq_producer \<Rightarrow> 64 word \<Rightarrow> nat \<Rightarrow> bool" where
  "at_tail P w b \<longleftrightarrow> tail_index P = w \<and> tail_of P < 65536 * 32 \<and> block_no P (tail_of P div 32) = Some b \<and> tail_block P = b"

definition claimed_at :: "'a sq_producer \<Rightarrow> nat \<Rightarrow> 'a cell \<Rightarrow> bool" where
  "claimed_at P i c \<longleftrightarrow> i < head_of P \<and> cell_at P i = Some (c, True)"

fun pc_ok :: "'a sc_shared \<Rightarrow> (nat \<Rightarrow> 'a list) \<Rightarrow> nat option \<Rightarrow> 'a sc_pc \<Rightarrow> bool" where
  "pc_ok s vals my (GP_Head q v p) \<longleftrightarrow> known s (Some p)"
| "pc_ok s vals my (GP_SetNext q v p h) \<longleftrightarrow> known s (Some p) \<and> known s h"
| "pc_ok s vals my (GP_CasHead q v p h) \<longleftrightarrow> known s (Some p) \<and> known s h"
| "pc_ok s vals my (SE_Tail p v) \<longleftrightarrow> my = Some p"
| "pc_ok s vals my (SE_Block p v w) \<longleftrightarrow> my = Some p \<and> (\<exists>P. producers s p = Some P \<and>
     tail_index P = w \<and> tail_of P mod 32 = 0 \<and> 0 < tail_of P \<and> tail_of P < 65536 * 32)"
| "pc_ok s vals my (SE_Index p v w b) \<longleftrightarrow> my = Some p \<and> (\<exists>P. producers s p = Some P \<and>
     tail_index P = w \<and> tail_of P mod 32 = 0 \<and> 0 < tail_of P \<and> tail_of P < 65536 * 32 \<and>
     tail_block P = b \<and> (\<exists>base. sq_blocks P b = Some (SimpleQueueBlock_new base)) \<and> (\<forall>k < 65536. block_no P k \<noteq> Some b))"
| "pc_ok s vals my (SE_Construct p v w b) \<longleftrightarrow> my = Some p \<and> (\<exists>P. producers s p = Some P \<and> at_tail P w b)"
| "pc_ok s vals my (SE_Commit p v w b) \<longleftrightarrow> my = Some p \<and> (\<exists>P. producers s p = Some P \<and> at_tail P w b \<and>
     (\<exists>f. cell_at P (tail_of P) = Some (Live v, f)))"
| "pc_ok s vals my (SE_Publish p v w) \<longleftrightarrow> my = Some p \<and> (\<exists>P. producers s p = Some P \<and> at_tail P w (tail_block P) \<and>
     cell_at P (tail_of P) = Some (Live v, True))"
| "pc_ok s vals my (SD_Head p st i) \<longleftrightarrow> known s (Some p)"
| "pc_ok s vals my (SD_Tail p st i w) \<longleftrightarrow> known s (Some p)"
| "pc_ok s vals my (SD_Cas p st i w) \<longleftrightarrow> (\<exists>P. producers s p = Some P \<and> unat w < tail_of P)"
| "pc_ok s vals my (SD_Load p w) \<longleftrightarrow> (\<exists>P. producers s p = Some P \<and> claimed_at P (unat w) (Live (vals p ! unat w)))"
| "pc_ok s vals my (SD_Wait p w b) \<longleftrightarrow> (\<exists>P. producers s p = Some P \<and> claimed_at P (unat w) (Live (vals p ! unat w)) \<and>
     block_no P (unat w div 32) = Some b)"
| "pc_ok s vals my (SD_Move p w b) \<longleftrightarrow> (\<exists>P. producers s p = Some P \<and> claimed_at P (unat w) (Live (vals p ! unat w)) \<and>
     block_no P (unat w div 32) = Some b)"
| "pc_ok s vals my (SD_Destroy p w b r) \<longleftrightarrow> (\<exists>P. producers s p = Some P \<and> claimed_at P (unat w) Moved \<and>
     block_no P (unat w div 32) = Some b) \<and> (\<forall>v. r = Some v \<longrightarrow> v = vals p ! unat w)"
| "pc_ok s vals my (DQ_Walk q cur) \<longleftrightarrow> known s cur"
| "pc_ok s vals my at \<longleftrightarrow> True"

definition thread_ok :: "'a sc_shared \<Rightarrow> (nat \<Rightarrow> 'a list) \<Rightarrow> 'a sc_thread \<Rightarrow> bool" where
  "thread_ok s vals T \<longleftrightarrow> pc_ok s vals (my_producer T) (pc T) \<and> known s (my_producer T) \<and>
     (\<forall>p \<in> set (cached_producers T). known s (Some p)) \<and> length (cached_producers T) \<le> SC_MAX_PRODUCERS"

definition raw_at :: "'a sq_producer \<Rightarrow> nat \<Rightarrow> bool" where
  "raw_at P i \<longleftrightarrow> cell_at P i = None \<or> (\<exists>f. cell_at P i = Some (Raw, f))"

definition links_ok :: "'a sc_shared \<Rightarrow> bool" where
  "links_ok s \<longleftrightarrow> (\<forall>q. known s (producer_list_head (queues s q))) \<and>
     (\<forall>p P. producers s p = Some P \<longrightarrow> known s (next_producer P))"

definition owners_ok :: "('t \<Rightarrow> 'a sc_thread) \<Rightarrow> bool" where
  "owners_ok th \<longleftrightarrow>
     (\<forall>t u p. my_producer (th t) = Some p \<and> my_producer (th u) = Some p \<longrightarrow> t = u) \<and>
     (\<forall>t u p. making (pc (th t)) = Some p \<and> making (pc (th u)) = Some p \<longrightarrow> t = u) \<and>
     (\<forall>t u p. making (pc (th t)) = Some p \<longrightarrow> my_producer (th u) \<noteq> Some p) \<and>
     (\<forall>t u c. claim (pc (th t)) = Some c \<and> claim (pc (th u)) = Some c \<longrightarrow> t = u)"

text \<open>A slot is empty before it is filled, and after its value has been taken.\<close>

definition tails_raw :: "'a sc_shared \<Rightarrow> ('t \<Rightarrow> 'a sc_thread) \<Rightarrow> bool" where
  "tails_raw s th \<longleftrightarrow> (\<forall>p P. producers s p = Some P \<and> tail_of P < 65536 * 32 \<and> (\<forall>t. filling (pc (th t)) \<noteq> Some p) \<longrightarrow>
     raw_at P (tail_of P))"

definition claimed_raw :: "'a sc_shared \<Rightarrow> ('t \<Rightarrow> 'a sc_thread) \<Rightarrow> bool" where
  "claimed_raw s th \<longleftrightarrow> (\<forall>p P i. producers s p = Some P \<and> i < head_of P \<and> (\<forall>t. claim (pc (th t)) \<noteq> Some (p, i)) \<longrightarrow>
     raw_at P i)"

text \<open>\<open>vals p\<close> are all values producer \<open>p\<close> has published.\<close>

definition sc_ok :: "'a sc_shared \<Rightarrow> ('t \<Rightarrow> 'a sc_thread) \<Rightarrow> (nat \<Rightarrow> 'a list) \<Rightarrow> bool" where
  "sc_ok s th vals \<longleftrightarrow> (\<forall>t. thread_ok s vals (th t)) \<and> links_ok s \<and> owners_ok th \<and>
     (\<forall>p P. producers s p = Some P \<longrightarrow> prod_ok P (vals p)) \<and>
     (\<forall>p. producers s p = None \<longrightarrow> vals p = []) \<and>
     tails_raw s th \<and> claimed_raw s th"

definition sc_abs :: "'a sc_shared \<Rightarrow> ('t \<Rightarrow> 'a sc_thread) \<Rightarrow> (nat \<Rightarrow> 'a list) \<Rightarrow> ('t, 'a) sc_spec_state" where
  "sc_abs s th vals =
     ((\<lambda>p. case producers s p of None \<Rightarrow> [] | Some P \<Rightarrow> drop (head_of P) (vals p)),
      (\<lambda>t. case claim (pc (th t)) of None \<Rightarrow> None | Some (p, i) \<Rightarrow> Some (vals p ! i)))"

definition sc_rel :: "('t, 'a) sc_system \<Rightarrow> ('t, 'a) sc_spec_state \<Rightarrow> bool" where
  "sc_rel s f \<longleftrightarrow> (\<exists>vals. sc_ok (fst s) (snd s) vals \<and> f = sc_abs (fst s) (snd s) vals)"

text \<open>What a thread at \<open>at\<close> relies on about producer \<open>p\<close>.\<close>

definition view_kept :: "'a sc_pc \<Rightarrow> nat \<Rightarrow> 'a sq_producer \<Rightarrow> 'a list \<Rightarrow> 'a sq_producer \<Rightarrow> 'a list \<Rightarrow> bool" where
  "view_kept at p P vs P' vs' \<longleftrightarrow> tail_of P \<le> tail_of P' \<and> head_of P \<le> head_of P' \<and>
     (\<forall>i. claim at = Some (p, i) \<longrightarrow> cell_at P' i = cell_at P i \<and> block_no P' (i div 32) = block_no P (i div 32) \<and> vs' ! i = vs ! i) \<and>
     (enq_to at = Some p \<longrightarrow> tail_index P' = tail_index P \<and> tail_block P' = tail_block P \<and> block_no P' = block_no P \<and>
        (tail_of P < 65536 * 32 \<longrightarrow> cell_at P' (tail_of P) = cell_at P (tail_of P)) \<and>
        (\<forall>b. (\<forall>k < 65536. block_no P k \<noteq> Some b) \<longrightarrow> sq_blocks P' b = sq_blocks P b))"

lemma view_kept_refl: "view_kept at p P vs P vs"
  by (simp add: view_kept_def)

lemma known_mono: "known s r \<Longrightarrow> (\<And>p. producers s p \<noteq> None \<Longrightarrow> producers s' p \<noteq> None) \<Longrightarrow> known s' r"
  by (auto simp: known_def)

lemma pc_ok_frame:
  assumes ok: "pc_ok s vals my at"
    and view: "\<And>p P. producers s p = Some P \<Longrightarrow> \<exists>P'. producers s' p = Some P' \<and> view_kept at p P (vals p) P' (vals' p)"
  shows "pc_ok s' vals' my at"
proof -
  have dom: "known s' r" if "known s r" for r
    using that view unfolding known_def by (metis option.distinct(1) option.exhaust)
  show ?thesis
    using ok dom
    by (cases at) (auto simp: view_kept_def at_tail_def claimed_at_def tail_of_def dest!: view)
qed

section \<open>Kinds of steps\<close>

lemma sc_okD:
  assumes "sc_ok s th vals"
  shows "\<And>t. thread_ok s vals (th t)" "links_ok s" "owners_ok th" "\<And>p P. producers s p = Some P \<Longrightarrow> prod_ok P (vals p)"
    "\<And>p. producers s p = None \<Longrightarrow> vals p = []"
    "\<And>p P. producers s p = Some P \<Longrightarrow> tail_of P < 65536 * 32 \<Longrightarrow> (\<And>t. filling (pc (th t)) \<noteq> Some p) \<Longrightarrow> raw_at P (tail_of P)"
    "\<And>p P i. producers s p = Some P \<Longrightarrow> i < head_of P \<Longrightarrow> (\<And>t. claim (pc (th t)) \<noteq> Some (p, i)) \<Longrightarrow> raw_at P i"
  using assms unfolding sc_ok_def tails_raw_def claimed_raw_def by blast+

lemma owners_okD:
  assumes "owners_ok th"
  shows "\<And>t u p. my_producer (th t) = Some p \<Longrightarrow> my_producer (th u) = Some p \<Longrightarrow> t = u"
    "\<And>t u p. making (pc (th t)) = Some p \<Longrightarrow> making (pc (th u)) = Some p \<Longrightarrow> t = u"
    "\<And>t u p. making (pc (th t)) = Some p \<Longrightarrow> my_producer (th u) \<noteq> Some p"
    "\<And>t u c. claim (pc (th t)) = Some c \<Longrightarrow> claim (pc (th u)) = Some c \<Longrightarrow> t = u"
  using assms unfolding owners_ok_def by metis+

text \<open>A thread that changes nothing but its own variables.\<close>

lemma sc_ok_local:
  assumes ok: "sc_ok s th vals" and T': "thread_ok s vals T'" "my_producer T' = my_producer (th t)"
    and same: "making (pc T') = making (pc (th t))" "claim (pc T') = claim (pc (th t))" "filling (pc T') = filling (pc (th t))"
  shows "sc_ok s (th(t := T')) vals" "sc_abs s (th(t := T')) vals = sc_abs s th vals"
proof -
  note S = sc_okD[OF ok]
  have pcs: "my_producer ((th(t := T')) u) = my_producer (th u)" "making (pc ((th(t := T')) u)) = making (pc (th u))"
    "claim (pc ((th(t := T')) u)) = claim (pc (th u))" "filling (pc ((th(t := T')) u)) = filling (pc (th u))" for u
    using T'(2) same by simp_all
  have "owners_ok (th(t := T'))" using S(3) unfolding owners_ok_def pcs .
  moreover have "thread_ok s vals ((th(t := T')) u)" for u using S(1)[of u] T'(1) by simp
  moreover have "tails_raw s (th(t := T'))" "claimed_raw s (th(t := T'))"
    using ok unfolding sc_ok_def tails_raw_def claimed_raw_def pcs by blast+
  ultimately show "sc_ok s (th(t := T')) vals" using ok unfolding sc_ok_def by simp
  show "sc_abs s (th(t := T')) vals = sc_abs s th vals" unfolding sc_abs_def pcs ..
qed

lemma set_producer_simps [simp]:
  "producers (set_producer s p P) = (producers s)(p \<mapsto> P)" "queues (set_producer s p P) = queues s"
  by (simp_all add: set_producer_def)

lemma set_queue_simps [simp]:
  "producers (set_queue s q Q) = producers s" "queues (set_queue s q Q) = (queues s)(q := Q)"
  by (simp_all add: set_queue_def)

lemma known_set_producer: "known s r \<Longrightarrow> known (set_producer s p P) r"
  by (auto simp: known_def)

text \<open>A thread that changes one producer.\<close>

lemma sc_ok_producer:
  fixes P P' :: "'a sq_producer" and vs' :: "'a list"
  assumes ok: "sc_ok s th vals" and P: "producers s p = Some P"
  defines "s' \<equiv> set_producer s p P'" and "vals' \<equiv> vals(p := vs')"
  assumes new: "prod_ok P' vs'" "known s' (next_producer P')"
    and others: "\<And>u. u \<noteq> t \<Longrightarrow> view_kept (pc (th u)) p P (vals p) P' vs'"
    and self: "pc_ok s' vals' (my_producer (th t)) at" "making at = making (pc (th t))"
      "\<And>u c. u \<noteq> t \<Longrightarrow> claim at = Some c \<Longrightarrow> claim (pc (th u)) \<noteq> Some c"
    and only: "\<And>p' i. claim (pc (th t)) = Some (p', i) \<Longrightarrow> p' = p" "\<And>p'. filling (pc (th t)) = Some p' \<Longrightarrow> p' = p"
    and raw: "tail_of P' < 65536 * 32 \<Longrightarrow> filling at \<noteq> Some p \<Longrightarrow> (\<And>u. u \<noteq> t \<Longrightarrow> filling (pc (th u)) \<noteq> Some p) \<Longrightarrow> raw_at P' (tail_of P')"
      "\<And>i. i < head_of P' \<Longrightarrow> claim at \<noteq> Some (p, i) \<Longrightarrow> (\<And>u. u \<noteq> t \<Longrightarrow> claim (pc (th u)) \<noteq> Some (p, i)) \<Longrightarrow> raw_at P' i"
  shows "sc_ok s' (th(t := (th t)\<lparr>pc := at\<rparr>)) vals'"
    "sc_abs s' (th(t := (th t)\<lparr>pc := at\<rparr>)) vals' = ((fst (sc_abs s th vals))(p := drop (head_of P') vs'),
       (snd (sc_abs s th vals))(t := case claim at of None \<Rightarrow> None | Some (p', i) \<Rightarrow> Some (vals' p' ! i)))"
proof -
  note S = sc_okD[OF ok]
  let ?th = "th(t := (th t)\<lparr>pc := at\<rparr>)"
  have view: "\<exists>R'. producers s' r = Some R' \<and> view_kept (pc (th u)) r R (vals r) R' (vals' r)"
    if "u \<noteq> t" "producers s r = Some R" for u r R
    using that P others[OF that(1)] by (cases "r = p") (auto simp: s'_def vals'_def view_kept_refl)
  have kn: "known s' r" if "known s r" for r using known_set_producer[OF that] by (simp add: s'_def)
  have threads: "thread_ok s' vals' (?th u)" for u
  proof (cases "u = t")
    case True
    then show ?thesis using self(1) S(1)[of t] kn by (auto simp: thread_ok_def)
  next
    case False
    have "pc_ok s' vals' (my_producer (th u)) (pc (th u))"
      by (rule pc_ok_frame[of s vals]) (use S(1)[of u] view[OF False] in \<open>simp_all add: thread_ok_def\<close>)
    then show ?thesis using False S(1)[of u] kn by (auto simp: thread_ok_def)
  qed
  have links: "links_ok s'"
    using S(2) new(2) kn unfolding links_ok_def by (auto simp: s'_def)
  have "owners_ok ?th"
    unfolding owners_ok_def
  proof (intro conjI allI impI)
    fix u v c assume "claim (pc (?th u)) = Some c \<and> claim (pc (?th v)) = Some c"
    then show "u = v" using owners_okD(4)[OF S(3)] self(3) by (auto split: if_splits)
  qed (use owners_okD[OF S(3)] self(2) in \<open>auto split: if_splits\<close>)
  moreover have "raw_at R (tail_of R)"
    if R: "producers s' r = Some R" "tail_of R < 65536 * 32" and none: "\<forall>u. filling (pc (?th u)) \<noteq> Some r" for r R
  proof (cases "r = p")
    case True
    have "filling (pc (th u)) \<noteq> Some p" if "u \<noteq> t" for u using none that True by (metis fun_upd_other)
    moreover have "filling at \<noteq> Some p" using none True by (auto dest: spec[of _ t])
    ultimately show ?thesis using raw(1) R True by (simp add: s'_def)
  next
    case False
    have "filling (pc (th u)) \<noteq> Some r" for u using none only(2) False by (cases "u = t") (auto dest: spec[of _ u])
    then show ?thesis using S(6)[of r R] R False by (simp add: s'_def)
  qed
  moreover have "raw_at R i"
    if R: "producers s' r = Some R" "i < head_of R" and none: "\<forall>u. claim (pc (?th u)) \<noteq> Some (r, i)" for r R i
  proof (cases "r = p")
    case True
    have "claim (pc (th u)) \<noteq> Some (p, i)" if "u \<noteq> t" for u using none that True by (metis fun_upd_other)
    moreover have "claim at \<noteq> Some (p, i)" using none True by (auto dest: spec[of _ t])
    ultimately show ?thesis using raw(2) R True by (simp add: s'_def)
  next
    case False
    have "claim (pc (th u)) \<noteq> Some (r, i)" for u using none only(1) False by (cases "u = t") (auto dest: spec[of _ u])
    then show ?thesis using S(7)[of r R i] R False by (simp add: s'_def)
  qed
  moreover have "prod_ok R (vals' r)" if "producers s' r = Some R" for r R
    using that S(4) new(1) by (auto simp: s'_def vals'_def split: if_splits)
  moreover have "vals' r = []" if "producers s' r = None" for r
    using that S(5) by (auto simp: s'_def vals'_def split: if_splits)
  ultimately show "sc_ok s' ?th vals'" unfolding sc_ok_def tails_raw_def claimed_raw_def using threads links by blast
  have taken: "vals' r ! i = vals r ! i" if "u \<noteq> t" "claim (pc (th u)) = Some (r, i)" for u r i
    using others[OF that(1)] that(2) by (cases "r = p") (auto simp: view_kept_def vals'_def)
  have "(\<lambda>r. case producers s' r of None \<Rightarrow> [] | Some R \<Rightarrow> drop (head_of R) (vals' r)) =
      (\<lambda>r. case producers s r of None \<Rightarrow> [] | Some R \<Rightarrow> drop (head_of R) (vals r))(p := drop (head_of P') vs')"
    by (auto simp: s'_def vals'_def fun_eq_iff split: option.splits)
  moreover have "(\<lambda>u. case claim (pc (?th u)) of None \<Rightarrow> None | Some (r, i) \<Rightarrow> Some (vals' r ! i)) =
      (\<lambda>u. case claim (pc (th u)) of None \<Rightarrow> None | Some (r, i) \<Rightarrow> Some (vals r ! i))
        (t := case claim at of None \<Rightarrow> None | Some (p', i) \<Rightarrow> Some (vals' p' ! i))"
    using taken by (auto simp: fun_eq_iff split: option.splits)
  ultimately show "sc_abs s' ?th vals' = ((fst (sc_abs s th vals))(p := drop (head_of P') vs'),
       (snd (sc_abs s th vals))(t := case claim at of None \<Rightarrow> None | Some (p', i) \<Rightarrow> Some (vals' p' ! i)))"
    unfolding sc_abs_def by simp
qed

text \<open>A thread that changes a queue; linking its new producer makes it the thread's own.\<close>

lemma sc_ok_queue:
  fixes Q :: sc_queue and q :: nat
  assumes ok: "sc_ok s th vals" and Q: "known s (producer_list_head Q)" and T': "thread_ok s vals T'"
    and same: "claim (pc T') = claim (pc (th t))" "filling (pc T') = filling (pc (th t))"
    and own: "my_producer T' = my_producer (th t) \<and> making (pc T') = making (pc (th t)) \<or>
      my_producer T' = making (pc (th t)) \<and> making (pc T') = None"
  defines "s' \<equiv> set_queue s q Q"
  shows "sc_ok s' (th(t := T')) vals" "sc_abs s' (th(t := T')) vals = sc_abs s th vals"
proof -
  note S = sc_okD[OF ok]
  let ?th = "th(t := T')"
  have prods: "producers s' = producers s" by (simp add: s'_def)
  have kn: "known s' r \<longleftrightarrow> known s r" for r by (simp add: known_def prods)
  have pcs: "claim (pc (?th u)) = claim (pc (th u))" "filling (pc (?th u)) = filling (pc (th u))" for u using same by simp_all
  have "thread_ok s' vals T" if "thread_ok s vals T" for T
  proof -
    have "pc_ok s' vals (my_producer T) (pc T)"
      by (rule pc_ok_frame[of s vals]) (use that view_kept_refl in \<open>auto simp: thread_ok_def prods\<close>)
    then show ?thesis using that by (simp add: thread_ok_def kn)
  qed
  then have threads: "thread_ok s' vals (?th u)" for u using S(1)[of u] T' by simp
  have links: "links_ok s'" using S(2) Q unfolding links_ok_def kn by (simp add: s'_def)
  have owners: "owners_ok ?th"
    using own
  proof
    assume "my_producer T' = my_producer (th t) \<and> making (pc T') = making (pc (th t))"
    then have "my_producer (?th u) = my_producer (th u)" "making (pc (?th u)) = making (pc (th u))" for u by simp_all
    then show ?thesis using S(3) unfolding owners_ok_def pcs by presburger
  next
    assume "my_producer T' = making (pc (th t)) \<and> making (pc T') = None"
    then have moved: "my_producer (?th u) = (if u = t then making (pc (th t)) else my_producer (th u))"
      "making (pc (?th u)) = (if u = t then None else making (pc (th u)))" for u by simp_all
    show ?thesis unfolding owners_ok_def pcs moved
      using owners_okD[OF S(3)] by (intro conjI allI impI) (metis option.distinct(1))+
  qed
  have "tails_raw s' ?th" "claimed_raw s' ?th"
    using ok unfolding sc_ok_def tails_raw_def claimed_raw_def pcs prods by blast+
  then show "sc_ok s' ?th vals" using threads links owners ok unfolding sc_ok_def prods by simp
  show "sc_abs s' ?th vals = sc_abs s th vals" unfolding sc_abs_def pcs prods ..
qed

lemma SimpleQueueProducer_new_ok:
  obtains P where "SimpleQueueProducer_new = Some P" "prod_ok P []" "next_producer P = None" "raw_at P 0" "head_of P = 0" "tail_of P = 0"
proof -
  let ?I = "(replicate 64 None)[0 := Some (\<lambda>_. None)]" and ?J = "(replicate 64 None)[0 := Some ((\<lambda>_. None)(0 := Some 0))]"
  let ?P = "\<lparr>tail_index = 0, tail_block = 0, blocks_at = ?J, head_index = 0, next_producer = None,
     sq_blocks = [0 \<mapsto> SimpleQueueBlock_new 0]\<rparr> :: 'a sq_producer"
  have new: "SimpleQueueProducer_new = Some ?P"
    by (simp add: SimpleQueueProducer_new_def BlockIndex_new_def BlockIndex_store_def Let_def seg_of_nat slot_of_nat)
  have no: "block_no ?P k = (if k = 0 then Some 0 else None)" if "k < 65536" for k
  proof (cases "k div 1024 = 0")
    case True
    then show ?thesis by (auto simp: block_no_def)
  next
    case False
    moreover have "k div 1024 < 64" using that by (simp add: div_less_iff_less_mult)
    ultimately show ?thesis by (auto simp: block_no_def)
  qed
  have "shape_ok ?P" unfolding shape_ok_def using no by (auto simp: SimpleQueueBlock_new_def split: if_splits)
  moreover have raw: "raw_at ?P i" if "i < 65536 * 32" for i
    using no[of "i div 32"] that by (auto simp: raw_at_def cell_at_def SimpleQueueBlock_new_def div_less_iff_less_mult)
  moreover have zero: "tail_of ?P = 0" "head_of ?P = 0" by (simp_all add: tail_of_def head_of_def)
  ultimately have "prod_ok ?P []" unfolding prod_ok_def raw_at_def using no[of 0] by simp
  then show thesis using that[OF new] raw[of 0] zero by simp
qed

lemma pc_ok_known:
  assumes "pc_ok s vals my at" "known s my"
  shows "claim at = Some (p, i) \<Longrightarrow> producers s p \<noteq> None" "filling at = Some p \<Longrightarrow> producers s p \<noteq> None"
    "making at = Some p \<Longrightarrow> producers s p \<noteq> None" "enq_to at = Some p \<Longrightarrow> producers s p \<noteq> None \<and> my = Some p"
  using assms by (cases at; auto simp: known_def)+

lemma sc_ok_new:
  fixes P :: "'a sq_producer" and p :: nat
  assumes ok: "sc_ok s th vals" and p: "producers s p = None"
    and P: "prod_ok P []" "next_producer P = None" "raw_at P 0" "head_of P = 0" "tail_of P = 0"
    and at: "making at = Some p" and old: "making (pc (th t)) = None" "claim (pc (th t)) = None" "filling (pc (th t)) = None"
    and self: "pc_ok (set_producer s p P) vals (my_producer (th t)) at"
  defines "s' \<equiv> set_producer s p P"
  shows "sc_ok s' (th(t := (th t)\<lparr>pc := at\<rparr>)) vals" "sc_abs s' (th(t := (th t)\<lparr>pc := at\<rparr>)) vals = sc_abs s th vals"
proof -
  note S = sc_okD[OF ok]
  let ?th = "th(t := (th t)\<lparr>pc := at\<rparr>)"
  have kn: "known s' r" if "known s r" for r using known_set_producer[OF that] by (simp add: s'_def)
  have view: "\<exists>R'. producers s' r = Some R' \<and> view_kept x r R (vals r) R' (vals r)" if "producers s r = Some R" for x r R
    using that p by (auto simp: s'_def view_kept_refl)
  have threads: "thread_ok s' vals (?th u)" for u
  proof (cases "u = t")
    case True
    then show ?thesis using self S(1)[of t] kn by (auto simp: thread_ok_def s'_def)
  next
    case False
    have "pc_ok s' vals (my_producer (th u)) (pc (th u))"
      by (rule pc_ok_frame[of s vals]) (use S(1)[of u] view in \<open>simp_all add: thread_ok_def\<close>)
    then show ?thesis using False S(1)[of u] kn by (auto simp: thread_ok_def)
  qed
  have fresh: "claim (pc (th u)) \<noteq> Some (p, i)" "filling (pc (th u)) \<noteq> Some p" "making (pc (th u)) \<noteq> Some p"
    "my_producer (th u) \<noteq> Some p" for u i
    using pc_ok_known[of s vals "my_producer (th u)" "pc (th u)"] S(1)[of u] p
    unfolding thread_ok_def known_def by blast+
  have at': "claim at = None" "filling at = None" using at by (cases at; simp)+
  have pcs: "claim (pc (?th u)) = claim (pc (th u))" "filling (pc (?th u)) = filling (pc (th u))"
    "my_producer (?th u) = my_producer (th u)" for u
    using at' old by simp_all
  have links: "links_ok s'" using S(2) kn P(2) unfolding links_ok_def by (auto simp: s'_def known_def)
  have owners: "owners_ok ?th"
    unfolding owners_ok_def pcs using owners_okD[OF S(3)] at fresh by (auto split: if_splits)
  have "tails_raw s' ?th" "claimed_raw s' ?th"
    using S(6,7) P unfolding tails_raw_def claimed_raw_def pcs by (auto simp: s'_def)
  moreover have "prod_ok R (vals r)" if "producers s' r = Some R" for r R
    using that S(4) P(1) S(5)[OF p] by (auto simp: s'_def split: if_splits)
  moreover have "vals r = []" if "producers s' r = None" for r
    using that S(5) by (auto simp: s'_def split: if_splits)
  ultimately show "sc_ok s' ?th vals" using threads links owners unfolding sc_ok_def by blast
  show "sc_abs s' ?th vals = sc_abs s th vals"
    unfolding sc_abs_def pcs using p S(5)[OF p] by (auto simp: s'_def fun_eq_iff)
qed

section \<open>Every step keeps the invariant\<close>

lemma prod_okD:
  assumes "prod_ok P vs"
  shows "shape_ok P" "tail_of P = length vs" "length vs \<le> 65536 * 32" "head_of P \<le> tail_of P"
    "\<And>i. i < tail_of P \<Longrightarrow> \<exists>c. cell_at P i = Some (c, True)"
    "\<And>i. head_of P \<le> i \<Longrightarrow> i < tail_of P \<Longrightarrow> cell_at P i = Some (Live (vs ! i), True)"
    "\<And>i. tail_of P < i \<Longrightarrow> i < 65536 * 32 \<Longrightarrow> raw_at P i"
    "tail_of P mod 32 \<noteq> 0 \<or> tail_of P = 0 \<Longrightarrow> block_no P (tail_of P div 32) = Some (tail_block P)"
  using assms unfolding prod_ok_def raw_at_def by blast+

lemma claim_below_head:
  assumes "pc_ok s vals my at" "claim at = Some (p, i)" "producers s p = Some P"
  shows "i < head_of P"
  using assms by (cases at) (auto simp: claimed_at_def)

text \<open>A thread that enqueues to its producer does not disturb the others.\<close>

lemma owner_view:
  assumes ok: "sc_ok s th vals" and my: "my_producer (th t) = Some p" and P: "producers s p = Some P"
    and kept: "tail_of P \<le> tail_of P'" "head_of P' = head_of P"
      "\<And>i. i < head_of P \<Longrightarrow> cell_at P' i = cell_at P i \<and> block_no P' (i div 32) = block_no P (i div 32) \<and> vs' ! i = vals p ! i"
    and u: "u \<noteq> t"
  shows "view_kept (pc (th u)) p P (vals p) P' vs'"
proof -
  note S = sc_okD[OF ok]
  have pc: "pc_ok s vals (my_producer (th u)) (pc (th u))" "known s (my_producer (th u))"
    using S(1)[of u] by (simp_all add: thread_ok_def)
  have "enq_to (pc (th u)) \<noteq> Some p"
    using pc_ok_known(4)[OF pc, of p] owners_okD(1)[OF S(3), of u p t] my u by blast
  moreover have "i < head_of P" if "claim (pc (th u)) = Some (p, i)" for i using claim_below_head[OF pc(1) that P] .
  ultimately show ?thesis using kept unfolding view_kept_def by auto
qed

lemma owner_only:
  assumes ok: "sc_ok s th vals" and my: "my_producer (th t) = Some p" and u: "u \<noteq> t"
  shows "filling (pc (th u)) \<noteq> Some p"
proof
  assume fill: "filling (pc (th u)) = Some p"
  have pc: "pc_ok s vals (my_producer (th u)) (pc (th u))" using sc_okD(1)[OF ok, of u] by (simp add: thread_ok_def)
  have "my_producer (th u) = Some p" using pc fill by (cases "pc (th u)") auto
  then show False using owners_okD(1)[OF sc_okD(3)[OF ok], of u p t] my u by blast
qed

text \<open>A step of \<open>Emplace\<close> on the producer \<open>p\<close> of the thread that leaves the elements below its tail alone.\<close>

lemma sc_ok_owner:
  fixes P P' :: "'a sq_producer"
  assumes ok: "sc_ok s th vals" and P: "producers s p = Some P" and at: "enq_to (pc (th t)) = Some p"
    and new: "prod_ok P' (vals p @ xs)" "next_producer P' = next_producer P" "head_index P' = head_index P"
    and kept: "\<And>i. i < tail_of P \<Longrightarrow> cell_at P' i = cell_at P i \<and> block_no P' (i div 32) = block_no P (i div 32)"
    and self: "pc_ok (set_producer s p P') (vals(p := vals p @ xs)) (Some p) at'" "making at' = None" "claim at' = None"
    and raw: "tail_of P' < 65536 * 32 \<Longrightarrow> filling at' \<noteq> Some p \<Longrightarrow> raw_at P' (tail_of P')"
  shows "sc_ok (set_producer s p P') (th(t := (th t)\<lparr>pc := at'\<rparr>)) (vals(p := vals p @ xs))"
    "sc_abs (set_producer s p P') (th(t := (th t)\<lparr>pc := at'\<rparr>)) (vals(p := vals p @ xs)) =
      ((fst (sc_abs s th vals))(p := fst (sc_abs s th vals) p @ xs), snd (sc_abs s th vals))"
proof -
  note S = sc_okD[OF ok]
  note D = prod_okD[OF S(4)[OF P]] and D' = prod_okD[OF new(1)]
  have head: "head_of P' = head_of P" using new(3) by (simp add: head_of_def)
  have tail: "tail_of P \<le> tail_of P'" using D(2) D'(2) by simp
  have my: "my_producer (th t) = Some p"
    using pc_ok_known(4)[of s vals _ "pc (th t)" p] S(1)[of t] at unfolding thread_ok_def by blast
  have old: "making (pc (th t)) = None" "claim (pc (th t)) = None" "\<And>r. filling (pc (th t)) = Some r \<Longrightarrow> r = p"
    using at by (cases "pc (th t)"; simp)+
  have view: "view_kept (pc (th u)) p P (vals p) P' (vals p @ xs)" if "u \<noteq> t" for u
    by (rule owner_view[OF ok my P tail head _ that]) (use kept D(2,4) in \<open>simp add: nth_append\<close>)
  have linked: "known (set_producer s p P') (next_producer P')"
    using S(2) P new(2) unfolding links_ok_def by (auto intro: known_set_producer)
  have drained: "raw_at P' i" if "i < head_of P'" "claim at' \<noteq> Some (p, i)" "\<And>u. u \<noteq> t \<Longrightarrow> claim (pc (th u)) \<noteq> Some (p, i)" for i
  proof -
    have "claim (pc (th u)) \<noteq> Some (p, i)" for u using that(3) old(2) by (cases "u = t") auto
    then have "raw_at P i" using S(7)[OF P, of i] that(1) head by simp
    then show ?thesis using kept[of i] that(1) head D(4) by (simp add: raw_at_def)
  qed
  have tr: "raw_at P' (tail_of P')" if "tail_of P' < 65536 * 32" "filling at' \<noteq> Some p" by (rule raw[OF that])
  note step = sc_ok_producer[OF ok P new(1) linked view, of t at']
  show "sc_ok (set_producer s p P') (th(t := (th t)\<lparr>pc := at'\<rparr>)) (vals(p := vals p @ xs))"
    by (rule step(1)) (use self my old drained tr in auto)
  have "sc_abs (set_producer s p P') (th(t := (th t)\<lparr>pc := at'\<rparr>)) (vals(p := vals p @ xs)) =
      ((fst (sc_abs s th vals))(p := drop (head_of P') (vals p @ xs)),
       (snd (sc_abs s th vals))(t := case claim at' of None \<Rightarrow> None | Some (p', i) \<Rightarrow> Some ((vals(p := vals p @ xs)) p' ! i)))"
    by (rule step(2)) (use self my old drained tr in auto)
  moreover have "snd (sc_abs s th vals) t = None" using old(2) by (simp add: sc_abs_def)
  moreover have "drop (head_of P') (vals p @ xs) = fst (sc_abs s th vals) p @ xs"
    using P D(2,4) head by (simp add: sc_abs_def)
  ultimately show "sc_abs (set_producer s p P') (th(t := (th t)\<lparr>pc := at'\<rparr>)) (vals(p := vals p @ xs)) =
      ((fst (sc_abs s th vals))(p := fst (sc_abs s th vals) p @ xs), snd (sc_abs s th vals))"
    using self(3) by (auto simp: fun_eq_iff)
qed

lemma prod_ok_cells:
  assumes ok: "prod_ok P vs" and shape: "shape_ok P'" and same: "tail_index P' = tail_index P" "head_index P' = head_index P"
    and last: "tail_of P mod 32 \<noteq> 0 \<or> tail_of P = 0 \<Longrightarrow> block_no P' (tail_of P div 32) = Some (tail_block P')"
    and cells: "\<And>i. i < tail_of P \<Longrightarrow> cell_at P' i = cell_at P i" "\<And>i. tail_of P < i \<Longrightarrow> i < 65536 * 32 \<Longrightarrow> raw_at P' i"
  shows "prod_ok P' vs"
proof -
  note D = prod_okD[OF ok]
  have eq: "tail_of P' = tail_of P" "head_of P' = head_of P" using same by (simp_all add: tail_of_def head_of_def)
  show ?thesis unfolding prod_ok_def eq using D(2-6) shape last cells unfolding raw_at_def by simp
qed

text \<open>Writing the slot at the tail.\<close>

lemma tail_slot_written:
  assumes ok: "prod_ok P vs" and at: "at_tail P w b" and B: "sq_blocks P b = Some B" and B': "slot_written B (tail_of P mod 32) c f B'"
  shows "prod_ok (set_slot P b B') vs" "cell_at (set_slot P b B') (tail_of P) = Some (c, f)" "at_tail (set_slot P b B') w b"
    "\<And>i. i < tail_of P \<Longrightarrow> cell_at (set_slot P b B') i = cell_at P i"
proof -
  note D = prod_okD[OF ok]
  have b: "block_no P (tail_of P div 32) = Some b" "tail_of P < 65536 * 32" using at by (simp_all add: at_tail_def)
  note W = set_slot_correct[OF D(1) b B B']
  show "cell_at (set_slot P b B') (tail_of P) = Some (c, f)" using W(2)[OF b(2)] by simp
  show same: "cell_at (set_slot P b B') i = cell_at P i" if "i < tail_of P" for i using W(2)[of i] that b(2) by simp
  show "at_tail (set_slot P b B') w b" using at by (simp add: at_tail_def)
  show "prod_ok (set_slot P b B') vs"
    by (rule prod_ok_cells[OF ok W(1)]) (use W(2) D(7,8) same in \<open>auto simp: raw_at_def\<close>)
qed

lemma unat_block_idx: "(w :: 64 word) div 32 \<ge> 65536 \<longleftrightarrow> 65536 \<le> unat w div 32"
  by (simp add: word_le_nat_alt unat_div_32)

text \<open>The outcome of a step that keeps the invariant and is a step of the specification.\<close>

definition keeps :: "'a sc_shared \<Rightarrow> ('t \<Rightarrow> 'a sc_thread) \<Rightarrow> (nat \<Rightarrow> 'a list) \<Rightarrow> 't \<Rightarrow> ('t, 'a) sc_result \<Rightarrow> bool" where
  "keeps s th vals t r \<longleftrightarrow> (\<exists>s' T' act vals'. r = Some (s', T', act) \<and> sc_ok s' (th(t := T')) vals' \<and>
     fifo_family (sc_abs s th vals) act = Some (sc_abs s' (th(t := T')) vals'))"

lemma keeps_local:
  assumes ok: "sc_ok s th vals" and T': "thread_ok s vals T'" "my_producer T' = my_producer (th t)"
    and same: "making (pc T') = making (pc (th t))" "claim (pc T') = claim (pc (th t))" "filling (pc T') = filling (pc (th t))"
    and act: "fifo_family (sc_abs s th vals) act = Some (sc_abs s th vals)"
  shows "keeps s th vals t (Some (s, T', act))"
  using sc_ok_local[OF ok T' same] act unfolding keeps_def by auto

lemma keeps_go:
  assumes ok: "sc_ok s th vals" and at: "pc_ok s vals (my_producer (th t)) at"
    and same: "making at = making (pc (th t))" "claim at = claim (pc (th t))" "filling at = filling (pc (th t))"
  shows "keeps s th vals t (go s (th t) at)"
  unfolding go_def
  by (rule keeps_local[OF ok]) (use assms sc_okD(1)[OF ok, of t] in \<open>simp_all add: thread_ok_def\<close>)

lemma emplace_state:
  assumes ok: "sc_ok s th vals" and at: "pc (th t) = at" and p: "enq_to at = Some p"
  obtains P where "producers s p = Some P" "my_producer (th t) = Some p" "prod_ok P (vals p)" "pc_ok s vals (Some p) at"
    "filling at = None \<Longrightarrow> tail_of P < 65536 * 32 \<Longrightarrow> raw_at P (tail_of P)"
proof -
  note S = sc_okD[OF ok]
  have T: "pc_ok s vals (my_producer (th t)) at" "known s (my_producer (th t))"
    using S(1)[of t] at by (simp_all add: thread_ok_def)
  then obtain P where P: "producers s p = Some P" and my: "my_producer (th t) = Some p" using pc_ok_known(4)[OF T p] by auto
  have "raw_at P (tail_of P)" if "filling at = None" "tail_of P < 65536 * 32"
    using S(6)[OF P that(2)] owner_only[OF ok my] that(1) at by (metis option.distinct(1))
  then show thesis using that P my S(4)[OF P] T by simp
qed

lemma keeps_owner:
  assumes ok: "sc_ok s th vals" and P: "producers s p = Some P" and p: "enq_to (pc (th t)) = Some p"
    and new: "prod_ok P' (vals p)" "next_producer P' = next_producer P" "head_index P' = head_index P"
    and kept: "\<And>i. i < tail_of P \<Longrightarrow> cell_at P' i = cell_at P i \<and> block_no P' (i div 32) = block_no P (i div 32)"
    and self: "pc_ok (set_producer s p P') vals (Some p) at" "making at = None" "claim at = None"
    and raw: "tail_of P' < 65536 * 32 \<Longrightarrow> filling at \<noteq> Some p \<Longrightarrow> raw_at P' (tail_of P')"
  shows "keeps s th vals t (go (set_producer s p P') (th t) at)"
proof -
  have "sc_ok (set_producer s p P') (th(t := (th t)\<lparr>pc := at\<rparr>)) vals \<and>
      sc_abs (set_producer s p P') (th(t := (th t)\<lparr>pc := at\<rparr>)) vals = sc_abs s th vals"
    using sc_ok_owner[OF ok P p, of P' "[]" at] assms by (simp add: case_prod_unfold)
  then show ?thesis unfolding keeps_def go_def by (intro exI[of _ vals] exI conjI) (auto simp: fifo_family.simps(1))
qed

lemma emplace_tail:
  assumes ok: "sc_ok s th vals" and pc: "pc (th t) = SE_Tail p v"
  shows "keeps s th vals t (Simple_Emplace_step t a throws s (th t) (SE_Tail p v))"
proof -
  obtain P where P: "producers s p = Some P" "my_producer (th t) = Some p" "prod_ok P (vals p)"
    by (rule emplace_state[OF ok pc enq_to.simps(1)]) (rule that; simp)
  note D = prod_okD[OF P(3)]
  let ?w = "tail_index P"
  have word: "unat (?w AND 31) = tail_of P mod 32" "65536 \<le> ?w div 32 \<longleftrightarrow> 65536 \<le> tail_of P div 32" "?w = 0 \<longleftrightarrow> tail_of P = 0"
    by (simp_all add: tail_of_def unat_and_31 unat_block_idx unat_eq_zero)
  consider (full) "tail_of P mod 32 = 0" "tail_of P \<noteq> 0" "65536 \<le> tail_of P div 32"
    | (block) "tail_of P mod 32 = 0" "tail_of P \<noteq> 0" "tail_of P div 32 < 65536" | (slot) "tail_of P mod 32 \<noteq> 0 \<or> tail_of P = 0" by linarith
  then show ?thesis
  proof cases
    case full
    then have "Simple_Emplace_step t a throws s (th t) (SE_Tail p v) = Some (s, (th t)\<lparr>pc := SC_Idle\<rparr>,
        Enqueue_Threw t (Some (Runtime_Error ''SimpleConcurrentQueue: sub-queue capacity exceeded'')))"
      using P(1) word by (simp add: Let_def)
    moreover have "thread_ok s vals ((th t)\<lparr>pc := SC_Idle\<rparr>)" using sc_okD(1)[OF ok, of t] by (simp add: thread_ok_def)
    ultimately show ?thesis using pc by (auto intro: keeps_local[OF ok])
  next
    case block
    then have "Simple_Emplace_step t a throws s (th t) (SE_Tail p v) = go s (th t) (SE_Block p v ?w)"
      using P(1) word by (simp add: Let_def)
    moreover have "pc_ok s vals (Some p) (SE_Block p v ?w)" using P block by (simp add: div_less_iff_less_mult)
    ultimately show ?thesis using keeps_go[OF ok, of t "SE_Block p v ?w"] pc P(2) by simp
  next
    case slot
    then have "Simple_Emplace_step t a throws s (th t) (SE_Tail p v) = go s (th t) (SE_Construct p v ?w (tail_block P))"
      using P(1) word by (auto simp add: Let_def)
    moreover have "tail_of P < 65536 * 32" using slot D(2,3) by (cases "tail_of P = 65536 * 32") auto
    then have "pc_ok s vals (Some p) (SE_Construct p v ?w (tail_block P))" using P slot D(8) by (simp add: at_tail_def)
    ultimately show ?thesis using keeps_go[OF ok, of t "SE_Construct p v ?w (tail_block P)"] pc P(2) by simp
  qed
qed

lemma emplace_block:
  assumes ok: "sc_ok s th vals" and pc: "pc (th t) = SE_Block p v w"
  shows "keeps s th vals t (Simple_Emplace_step t a throws s (th t) (SE_Block p v w))"
proof -
  obtain P where P: "producers s p = Some P" "my_producer (th t) = Some p" "prod_ok P (vals p)"
      "pc_ok s vals (Some p) (SE_Block p v w)" and raw0: "tail_of P < 65536 * 32 \<Longrightarrow> raw_at P (tail_of P)"
    by (rule emplace_state[OF ok pc enq_to.simps(2)]) (rule that; simp)
  note D = prod_okD[OF P(3)]
  have W: "tail_index P = w" "tail_of P mod 32 = 0" "0 < tail_of P" "tail_of P < 65536 * 32" using P by auto
  obtain old where old: "sq_blocks P (tail_block P) = Some old" using shape_okD(5)[OF D(1)] by auto
  show ?thesis
  proof (cases "sq_blocks P a = None")
    case True
    let ?P = "P\<lparr>sq_blocks := (sq_blocks P)(a \<mapsto> SimpleQueueBlock_new w, tail_block P \<mapsto> old\<lparr>next_block := Some a\<rparr>), tail_block := a\<rparr>"
    note N = new_block_correct(1-3,5)[OF D(1) True old, where base = w] and fresh = new_block_correct(4)[OF D(1) True old]
    have cells: "cell_at ?P i = cell_at P i" if "i < tail_of P" for i using N(3)[of i] that W(4) by simp
    have eq: "tail_of ?P = tail_of P" "head_of ?P = head_of P" by (simp_all add: tail_of_def head_of_def)
    have raw: "raw_at ?P i" if "raw_at P i" "i < 65536 * 32" for i using N(3)[OF that(2)] that(1) by (simp add: raw_at_def)
    have "prod_ok ?P (vals p)"
      by (rule prod_ok_cells[OF P(3) N(1)]) (use W cells raw D(7) in simp_all)
    moreover have "pc_ok (set_producer s p ?P) vals (Some p) (SE_Index p v w a)"
      using W N(2,4) fresh eq by auto
    moreover have "raw_at ?P (tail_of ?P)" using raw[OF raw0] W(4) eq by simp
    ultimately have "keeps s th vals t (go (set_producer s p ?P) (th t) (SE_Index p v w a))"
      using cells N(2) pc by (intro keeps_owner[OF ok P(1)]) simp_all
    then show ?thesis using P(1) True old by simp
  next
    case False
    then show ?thesis using P keeps_go[OF ok, of t "SE_Block p v w"] pc by simp
  qed
qed

lemma block_boundary:
  fixes n i :: nat
  assumes "n mod 32 = 0" "i < n"
  shows "i div 32 < n div 32"
  using assms by (metis div_less_iff_less_mult div_mult_mod_eq add.right_neutral zero_less_numeral)

lemma emplace_index:
  assumes ok: "sc_ok s th vals" and pc: "pc (th t) = SE_Index p v w b"
  shows "keeps s th vals t (Simple_Emplace_step t a throws s (th t) (SE_Index p v w b))"
proof -
  obtain P where P: "producers s p = Some P" "my_producer (th t) = Some p" "prod_ok P (vals p)"
      "pc_ok s vals (Some p) (SE_Index p v w b)"
    by (rule emplace_state[OF ok pc enq_to.simps(3)]) (rule that; simp)
  note D = prod_okD[OF P(3)]
  have W: "tail_index P = w" "tail_of P mod 32 = 0" "0 < tail_of P" "tail_of P < 65536 * 32" "tail_block P = b"
    "\<And>k. k < 65536 \<Longrightarrow> block_no P k \<noteq> Some b" using P by auto
  obtain base where base: "sq_blocks P b = Some (SimpleQueueBlock_new base)" using P by auto
  have w: "unat (w div 32) = tail_of P div 32" using W(1) by (simp add: unat_div_32 tail_of_def)
  have less: "unat (w div 32) < 65536" using W(4) w by (simp add: div_less_iff_less_mult)
  obtain index where I: "BlockIndex_store (blocks_at P) (w div 32) b = Some index" "shape_ok (P\<lparr>blocks_at := index\<rparr>)"
    "\<And>k. k < 65536 \<Longrightarrow> block_no (P\<lparr>blocks_at := index\<rparr>) k = (if k = tail_of P div 32 then Some b else block_no P k)"
    "\<And>i. i < 65536 * 32 \<Longrightarrow> cell_at (P\<lparr>blocks_at := index\<rparr>) i = (if i div 32 = tail_of P div 32 then Some (Raw, False) else cell_at P i)"
    by (rule index_stored_correct[OF D(1) base W(6) less, unfolded w]) (auto simp: SimpleQueueBlock_new_def)
  let ?P = "P\<lparr>blocks_at := index\<rparr>"
  have eq: "tail_of ?P = tail_of P" "head_of ?P = head_of P" by (simp_all add: tail_of_def head_of_def)
  have cells: "cell_at ?P i = cell_at P i \<and> block_no ?P (i div 32) = block_no P (i div 32)" if "i < tail_of P" for i
    using I(3)[of "i div 32"] I(4)[of i] block_boundary[OF W(2) that] that W(4) by (simp add: div_less_iff_less_mult)
  have raw: "raw_at ?P i" if "tail_of P \<le> i" "i < 65536 * 32" for i
  proof (cases "i = tail_of P")
    case False
    then show ?thesis using I(4)[OF that(2)] D(7)[of i] that by (auto simp: raw_at_def)
  qed (use I(4)[OF that(2)] in \<open>auto simp: raw_at_def\<close>)
  have no: "block_no ?P (tail_of P div 32) = Some b" using I(3)[of "tail_of P div 32"] less w by simp
  have "prod_ok ?P (vals p)"
    by (rule prod_ok_cells[OF P(3) I(2)]) (use no W(5) cells raw in simp_all)
  moreover have "pc_ok (set_producer s p ?P) vals (Some p) (SE_Construct p v w b)"
    using W no eq by (simp add: at_tail_def)
  ultimately have "keeps s th vals t (go (set_producer s p ?P) (th t) (SE_Construct p v w b))"
    using cells raw[of "tail_of P"] eq pc by (intro keeps_owner[OF ok P(1)]) simp_all
  then show ?thesis using P(1) I(1) by simp
qed

lemma at_tail_block:
  assumes "prod_ok P vs" "at_tail P w b"
  obtains B where "sq_blocks P b = Some B" "unat w = tail_of P" "tail_of P < 65536 * 32"
    "cell_at P (tail_of P) = Some (storage B ! (tail_of P mod 32), committed B ! (tail_of P mod 32))"
  using shape_okD(3)[OF prod_okD(1)[OF assms(1)], of "tail_of P div 32" b] assms(2)
  by (auto simp: at_tail_def div_less_iff_less_mult tail_of_def cell_at_def)

lemma emplace_construct:
  assumes ok: "sc_ok s th vals" and pc: "pc (th t) = SE_Construct p v w b"
  shows "keeps s th vals t (Simple_Emplace_step t a throws s (th t) (SE_Construct p v w b))"
proof -
  obtain P where P: "producers s p = Some P" "my_producer (th t) = Some p" "prod_ok P (vals p)" 
      "pc_ok s vals (Some p) (SE_Construct p v w b)" and raw0: "tail_of P < 65536 * 32 \<Longrightarrow> raw_at P (tail_of P)"
    by (rule emplace_state[OF ok pc enq_to.simps(4)]) (rule that; simp)
  have at: "at_tail P w b" using P(1,4) by auto
  show ?thesis
  proof (cases throws)
    case True
    have "thread_ok s vals ((th t)\<lparr>pc := SC_Idle\<rparr>)" using sc_okD(1)[OF ok, of t] by (simp add: thread_ok_def)
    then show ?thesis using True pc by (auto intro: keeps_local[OF ok])
  next
    case False
    obtain B where B: "sq_blocks P b = Some B" and w: "unat w = tail_of P" "tail_of P < 65536 * 32"
      "cell_at P (tail_of P) = Some (storage B ! (tail_of P mod 32), committed B ! (tail_of P mod 32))"
      by (rule at_tail_block[OF P(3) at])
    have raw: "storage B ! (tail_of P mod 32) = Raw" using raw0[OF w(2)] w(3) by (simp add: raw_at_def)
    let ?B = "B\<lparr>storage := (storage B)[tail_of P mod 32 := Live v]\<rparr>"
    note W = tail_slot_written[OF P(3) at B slot_written_storage[of B "tail_of P mod 32" "Live v"]]
    have "pc_ok (set_producer s p (set_slot P b ?B)) vals (Some p) (SE_Commit p v w b)" using W(2,3) by auto
    then have "keeps s th vals t (go (set_producer s p (set_slot P b ?B)) (th t) (SE_Commit p v w b))"
      using W(1,4) pc by (intro keeps_owner[OF ok P(1)]) simp_all
    then show ?thesis using P(1) B raw False by (simp add: Block_construct_def set_slot_def unat_and_31 w(1))
  qed
qed

lemma emplace_commit:
  assumes ok: "sc_ok s th vals" and pc: "pc (th t) = SE_Commit p v w b"
  shows "keeps s th vals t (Simple_Emplace_step t a throws s (th t) (SE_Commit p v w b))"
proof -
  obtain P where P: "producers s p = Some P" "my_producer (th t) = Some p" "prod_ok P (vals p)" 
      "pc_ok s vals (Some p) (SE_Commit p v w b)"
    by (rule emplace_state[OF ok pc enq_to.simps(5)]) (rule that; simp)
  have at: "at_tail P w b" and live: "\<exists>f. cell_at P (tail_of P) = Some (Live v, f)" using P(1,4) by auto
  obtain B where B: "sq_blocks P b = Some B" and w: "unat w = tail_of P" "tail_of P < 65536 * 32"
    "cell_at P (tail_of P) = Some (storage B ! (tail_of P mod 32), committed B ! (tail_of P mod 32))"
    by (rule at_tail_block[OF P(3) at])
  have stored: "storage B ! (tail_of P mod 32) = Live v" using w(3) live by simp
  let ?B = "B\<lparr>committed := (committed B)[tail_of P mod 32 := True]\<rparr>"
  note W = tail_slot_written[OF P(3) at B slot_written_committed[of B "tail_of P mod 32" True], unfolded stored]
  have "pc_ok (set_producer s p (set_slot P b ?B)) vals (Some p) (SE_Publish p v w)"
    using W(2,3) at by (auto simp: at_tail_def)
  then have "keeps s th vals t (go (set_producer s p (set_slot P b ?B)) (th t) (SE_Publish p v w))"
    using W(1,4) pc by (intro keeps_owner[OF ok P(1)]) simp_all
  then show ?thesis using P(1) B by (simp add: set_slot_def unat_and_31 w(1))
qed

lemma emplace_publish:
  assumes ok: "sc_ok s th vals" and pc: "pc (th t) = SE_Publish p v w"
  shows "keeps s th vals t (Simple_Emplace_step t a throws s (th t) (SE_Publish p v w))"
proof -
  obtain P where P: "producers s p = Some P" "my_producer (th t) = Some p" "prod_ok P (vals p)" 
      "pc_ok s vals (Some p) (SE_Publish p v w)"
    by (rule emplace_state[OF ok pc enq_to.simps(6)]) (rule that; simp)
  have at: "at_tail P w (tail_block P)" and live: "cell_at P (tail_of P) = Some (Live v, True)" using P(1,4) by auto
  note D = prod_okD[OF P(3)]
  let ?P = "P\<lparr>tail_index := w + 1\<rparr>"
  have w: "unat w = tail_of P" "tail_of P < 65536 * 32" using at by (auto simp: at_tail_def tail_of_def)
  then have "unat (w + 1) = Suc (tail_of P)" by (simp add: unat_word_ariths)
  then have tail: "tail_of ?P = Suc (tail_of P)" by (simp add: tail_of_def)
  have same: "cell_at ?P = cell_at P" "block_no ?P = block_no P" "head_of ?P = head_of P" "shape_ok ?P = shape_ok P"
    by (auto simp: cell_at_def block_no_def head_of_def shape_ok_def fun_eq_iff)
  have last: "Suc (tail_of P) div 32 = tail_of P div 32" if "Suc (tail_of P) mod 32 \<noteq> 0"
    using that by (metis div_Suc)
  have prod: "prod_ok ?P (vals p @ [v])"
    unfolding prod_ok_def tail same
    using D w(2) live at last by (auto simp: nth_append less_Suc_eq at_tail_def raw_at_def)
  have raw: "raw_at ?P (tail_of ?P)" if "tail_of ?P < 65536 * 32"
    using D(7)[of "Suc (tail_of P)"] that tail same by (simp add: raw_at_def)
  have "sc_ok (set_producer s p ?P) (th(t := (th t)\<lparr>pc := SC_Idle\<rparr>)) (vals(p := vals p @ [v])) \<and>
    sc_abs (set_producer s p ?P) (th(t := (th t)\<lparr>pc := SC_Idle\<rparr>)) (vals(p := vals p @ [v])) =
      ((fst (sc_abs s th vals))(p := fst (sc_abs s th vals) p @ [v]), snd (sc_abs s th vals))"
    by (intro conjI sc_ok_owner[OF ok P(1) _ prod]; use same raw pc in simp)
  then show ?thesis using P(1) unfolding keeps_def
    by (cases "sc_abs s th vals") (auto intro!: exI[of _ "vals(p := vals p @ [v])"])
qed

lemma emplace_keeps:
  assumes ok: "sc_ok s th vals" and pc: "emplacing (pc (th t))"
  shows "keeps s th vals t (Simple_Emplace_step t a throws s (th t) (pc (th t)))"
proof (cases "pc (th t)")
  case (SE_Tail p v)
  show ?thesis unfolding SE_Tail by (rule emplace_tail[OF ok SE_Tail])
next
  case (SE_Block p v w)
  show ?thesis unfolding SE_Block by (rule emplace_block[OF ok SE_Block])
next
  case (SE_Index p v w b)
  show ?thesis unfolding SE_Index by (rule emplace_index[OF ok SE_Index])
next
  case (SE_Construct p v w b)
  show ?thesis unfolding SE_Construct by (rule emplace_construct[OF ok SE_Construct])
next
  case (SE_Commit p v w b)
  show ?thesis unfolding SE_Commit by (rule emplace_commit[OF ok SE_Commit])
next
  case (SE_Publish p v w)
  show ?thesis unfolding SE_Publish by (rule emplace_publish[OF ok SE_Publish])
qed (use pc in simp_all)

text \<open>A consumer changes only the slot it has claimed.\<close>

lemma consumer_view:
  assumes ok: "sc_ok s th vals" and P: "producers s p = Some P" and i: "i < tail_of P"
    and mine: "\<And>u. u \<noteq> t \<Longrightarrow> claim (pc (th u)) \<noteq> Some (p, i)"
    and same: "tail_index P' = tail_index P" "tail_block P' = tail_block P" "block_no P' = block_no P" "head_of P \<le> head_of P'"
      "\<And>j. j < 65536 * 32 \<Longrightarrow> j \<noteq> i \<Longrightarrow> cell_at P' j = cell_at P j"
      "\<And>b. (\<forall>k < 65536. block_no P k \<noteq> Some b) \<Longrightarrow> sq_blocks P' b = sq_blocks P b"
    and u: "u \<noteq> t"
  shows "view_kept (pc (th u)) p P (vals p) P' (vals p)"
proof -
  note D = prod_okD[OF sc_okD(4)[OF ok P]]
  have pc: "pc_ok s vals (my_producer (th u)) (pc (th u))" using sc_okD(1)[OF ok, of u] by (simp add: thread_ok_def)
  have "cell_at P' j = cell_at P j" if "claim (pc (th u)) = Some (p, j)" for j
    using claim_below_head[OF pc that P] D(2-4) mine[OF u] that same(5)[of j] by auto
  moreover have "cell_at P' (tail_of P) = cell_at P (tail_of P)" if "tail_of P < 65536 * 32" using same(5)[OF that] i by simp
  ultimately show ?thesis using same unfolding view_kept_def by (auto simp: tail_of_def)
qed

lemma consumer_state:
  assumes ok: "sc_ok s th vals" and at: "pc (th t) = at"
  shows "pc_ok s vals (my_producer (th t)) at" "\<And>u c. u \<noteq> t \<Longrightarrow> claim at = Some c \<Longrightarrow> claim (pc (th u)) \<noteq> Some c"
proof -
  show "pc_ok s vals (my_producer (th t)) at" using sc_okD(1)[OF ok, of t] at by (simp add: thread_ok_def)
  show "claim (pc (th u)) \<noteq> Some c" if "u \<noteq> t" "claim at = Some c" for u c
    using owners_okD(4)[OF sc_okD(3)[OF ok], of u c t] that at by blast
qed

lemma sc_ok_consumer:
  fixes B B' :: "'a sq_block"
  assumes ok: "sc_ok s th vals" and P: "producers s p = Some P" and at: "pc (th t) = at" "claim at = Some (p, i)"
    and b: "i < head_of P" "block_no P (i div 32) = Some b" "sq_blocks P b = Some B" "slot_written B (i mod 32) c True B'"
    and new: "claim at' = Some (p, i) \<or> claim at' = None \<and> c = Raw" "making at' = None" "filling at' = None"
      "pc_ok (set_producer s p (set_slot P b B')) vals (my_producer (th t)) at'"
  shows "sc_ok (set_producer s p (set_slot P b B')) (th(t := (th t)\<lparr>pc := at'\<rparr>)) vals"
    "sc_abs (set_producer s p (set_slot P b B')) (th(t := (th t)\<lparr>pc := at'\<rparr>)) vals =
      (fst (sc_abs s th vals), (snd (sc_abs s th vals))(t := if claim at' = None then None else Some (vals p ! i)))"
proof -
  note S = sc_okD[OF ok]
  note D = prod_okD[OF S(4)[OF P]]
  let ?P = "set_slot P b B'" and ?s = "set_producer s p (set_slot P b B')"
  have i: "i < tail_of P" "i < 65536 * 32" using b(1) D(2-4) by simp_all
  note W = set_slot_correct[OF D(1) b(2) i(2) b(3,4)]
  have old: "making (pc (th t)) = None" "filling (pc (th t)) = None" using at by (cases at; simp)+
  have prod: "prod_ok ?P (vals p)"
    unfolding prod_ok_def using W D i(1) b(1) by (simp add: raw_at_def)
  have view: "view_kept (pc (th u)) p P (vals p) ?P (vals p)" if "u \<noteq> t" for u
    by (rule consumer_view[OF ok P i(1) _ _ _ _ _ _ _ that])
      (use consumer_state(2)[OF ok at(1) _ at(2)] W(2) b(2) D(2,3) i(2) in \<open>auto simp: div_less_iff_less_mult\<close>)
  have linked: "known ?s (next_producer ?P)" using S(2) P unfolding links_ok_def by (auto intro: known_set_producer)
  have tr: "raw_at ?P (tail_of ?P)" if "tail_of ?P < 65536 * 32" "\<And>u. u \<noteq> t \<Longrightarrow> filling (pc (th u)) \<noteq> Some p"
  proof -
    have "filling (pc (th u)) \<noteq> Some p" for u using that(2) old(2) by (cases "u = t") auto
    then show ?thesis using S(6)[OF P] that(1) W(2)[of "tail_of P"] i(1) by (simp add: raw_at_def)
  qed
  have drained: "raw_at ?P j" if "j < head_of ?P" "claim at' \<noteq> Some (p, j)" "\<And>u. u \<noteq> t \<Longrightarrow> claim (pc (th u)) \<noteq> Some (p, j)" for j
  proof (cases "j = i")
    case True
    then show ?thesis using W(2)[of i] i(2) new(1) that(2) by (auto simp: raw_at_def)
  next
    case False
    have "claim (pc (th u)) \<noteq> Some (p, j)" for u using that(3) at False by (cases "u = t") auto
    then have "raw_at P j" using S(7)[OF P] that(1) by simp
    then show ?thesis using W(2)[of j] False that(1) D(2-4) by (simp add: raw_at_def)
  qed
  have fresh: "claim (pc (th u)) \<noteq> Some c'" if "u \<noteq> t" "claim at' = Some c'" for u c'
    using consumer_state(2)[OF ok at(1) that(1) at(2)] new(1) that(2) by auto
  note step = sc_ok_producer[OF ok P prod linked view, of t at', unfolded fun_upd_triv]
  show "sc_ok ?s (th(t := (th t)\<lparr>pc := at'\<rparr>)) vals"
    by (rule step(1)) (use new at old drained tr fresh in auto)
  have "sc_abs ?s (th(t := (th t)\<lparr>pc := at'\<rparr>)) vals = ((fst (sc_abs s th vals))(p := drop (head_of ?P) (vals p)),
       (snd (sc_abs s th vals))(t := case claim at' of None \<Rightarrow> None | Some (p', i) \<Rightarrow> Some (vals p' ! i)))"
    by (rule step(2)) (use new at old drained tr fresh in auto)
  moreover have "drop (head_of ?P) (vals p) = fst (sc_abs s th vals) p" using P by (simp add: sc_abs_def)
  ultimately show "sc_abs ?s (th(t := (th t)\<lparr>pc := at'\<rparr>)) vals =
      (fst (sc_abs s th vals), (snd (sc_abs s th vals))(t := if claim at' = None then None else Some (vals p ! i)))"
    using new(1) by auto
qed

lemma taken_claim: "pc (th t) = at \<Longrightarrow> claim at = Some (p, i) \<Longrightarrow> snd (sc_abs s th vals) t = Some (vals p ! i)"
  by (simp add: sc_abs_def)

lemma taken_none: "claim (pc (th t)) = None \<Longrightarrow> snd (sc_abs s th vals) t = None"
  by (simp add: sc_abs_def)

lemma claimed_block:
  assumes "prod_ok P vs" "claimed_at P i c" "block_no P (i div 32) = Some b"
  obtains B where "sq_blocks P b = Some B" "storage B ! (i mod 32) = c" "committed B ! (i mod 32) = True" "i < head_of P"
  using assms by (auto simp: claimed_at_def cell_at_def bind_eq_Some_conv)

lemma dequeue_cas:
  fixes th :: "'t \<Rightarrow> 'a sc_thread"
  assumes ok: "sc_ok s th vals" and pc: "pc (th t) = SD_Cas p st i w"
  shows "keeps s th vals t (Simple_DequeueFrom_step t weak throws s (th t) (SD_Cas p st i w))"
proof -
  note S = sc_okD[OF ok]
  obtain P where P: "producers s p = Some P" "unat w < tail_of P" using consumer_state(1)[OF ok pc] by auto
  note D = prod_okD[OF S(4)[OF P(1)]]
  show ?thesis
  proof (cases "\<not> weak \<and> head_index P = w")
    case True
    let ?P = "P\<lparr>head_index := w + 1\<rparr>" and ?s = "set_producer s p (P\<lparr>head_index := w + 1\<rparr>)"
    have w: "unat w = head_of P" using True by (simp add: head_of_def)
    have "unat (w + 1) = Suc (head_of P)" using w P(2) D(2,3) by (simp add: unat_word_ariths)
    then have head: "head_of ?P = Suc (head_of P)" by (simp add: head_of_def)
    have same: "cell_at ?P = cell_at P" "block_no ?P = block_no P" "tail_of ?P = tail_of P" "shape_ok ?P = shape_ok P"
      by (auto simp: cell_at_def block_no_def tail_of_def shape_ok_def fun_eq_iff)
    have prod: "prod_ok ?P (vals p)" unfolding prod_ok_def head same using D P(2) w by (auto simp: raw_at_def)
    have others: "claim (pc (th u)) \<noteq> Some (p, head_of P)" for u
      using claim_below_head[OF consumer_state(1)[OF ok refl] _ P(1), of u "head_of P"] by auto
    have view: "view_kept (pc (th u)) p P (vals p) ?P (vals p)" if "u \<noteq> t" for u
      by (rule consumer_view[OF ok P(1) _ _ _ _ _ _ _ _ that]) (use others P(2) w same head in auto)
    have linked: "known ?s (next_producer ?P)" using S(2) P(1) unfolding links_ok_def by (auto intro: known_set_producer)
    have tr: "raw_at ?P (tail_of ?P)" if "tail_of ?P < 65536 * 32" "\<And>u. u \<noteq> t \<Longrightarrow> filling (pc (th u)) \<noteq> Some p"
    proof -
      have "filling (pc (th u)) \<noteq> Some p" for u using that(2) pc by (cases "u = t") auto
      then show ?thesis using S(6)[OF P(1)] that(1) same by (simp add: raw_at_def)
    qed
    have drained: "raw_at ?P j" if "j < head_of ?P" "(p, unat w) \<noteq> (p, j)" "\<And>u. u \<noteq> t \<Longrightarrow> claim (pc (th u)) \<noteq> Some (p, j)" for j
    proof -
      have "claim (pc (th u)) \<noteq> Some (p, j)" for u using that(3) pc by (cases "u = t") auto
      then show ?thesis using S(7)[OF P(1), of j] that(1,2) w head same by (simp add: raw_at_def)
    qed
    have live: "claimed_at ?P (unat w) (Live (vals p ! unat w))"
      using D(6)[of "head_of P"] P(2) w head same by (simp add: claimed_at_def)
    note step = sc_ok_producer[OF ok P(1) prod linked view, of t "SD_Load p w", unfolded fun_upd_triv]
    have "sc_ok ?s (th(t := (th t)\<lparr>pc := SD_Load p w\<rparr>)) vals"
      by (rule step(1)) (use pc live others w tr drained in auto)
    moreover have "sc_abs ?s (th(t := (th t)\<lparr>pc := SD_Load p w\<rparr>)) vals = ((fst (sc_abs s th vals))(p := drop (head_of ?P) (vals p)),
       (snd (sc_abs s th vals))(t := case claim (SD_Load p w :: 'a sc_pc) of None \<Rightarrow> None | Some (p', i) \<Rightarrow> Some (vals p' ! i)))"
      by (rule step(2)) (use pc live others w tr drained in auto)
    moreover have "fst (sc_abs s th vals) p = vals p ! head_of P # drop (Suc (head_of P)) (vals p)"
      using P w D(2) by (simp add: sc_abs_def Cons_nth_drop_Suc)
    moreover have "snd (sc_abs s th vals) t = None" using pc by (simp add: sc_abs_def)
    ultimately have "sc_ok ?s (th(t := (th t)\<lparr>pc := SD_Load p w\<rparr>)) vals \<and>
        fifo_family (sc_abs s th vals) (Claimed t p) = Some (sc_abs ?s (th(t := (th t)\<lparr>pc := SD_Load p w\<rparr>)) vals)"
      using head w by (cases "sc_abs s th vals") simp
    then show ?thesis using True P(1) unfolding keeps_def by auto
  next
    case False
    have "pc_ok s vals (my_producer (th t)) (SD_Head p st i)" using P by (simp add: known_def)
    then show ?thesis using False P(1) keeps_go[OF ok, of t "SD_Head p st i"] pc by auto
  qed
qed

lemma dequeue_move:
  assumes ok: "sc_ok s th vals" and pc: "pc (th t) = SD_Move p w b"
  shows "keeps s th vals t (Simple_DequeueFrom_step t weak throws s (th t) (SD_Move p w b))"
proof -
  obtain P where P: "producers s p = Some P" "claimed_at P (unat w) (Live (vals p ! unat w))" "block_no P (unat w div 32) = Some b"
    using consumer_state(1)[OF ok pc] by auto
  obtain B where B: "sq_blocks P b = Some B" "storage B ! (unat w mod 32) = Live (vals p ! unat w)" "committed B ! (unat w mod 32) = True"
    "unat w < head_of P"
    by (rule claimed_block[OF sc_okD(4)[OF ok P(1)] P(2,3)])
  note D = prod_okD[OF sc_okD(4)[OF ok P(1)]]
  let ?B = "B\<lparr>storage := (storage B)[unat w mod 32 := Moved]\<rparr>" and ?at = "SD_Destroy p w b (if throws then None else Some (vals p ! unat w))"
  note W = slot_written_storage[of B "unat w mod 32" Moved, unfolded B(3)]
  have i: "unat w < 65536 * 32" using B(4) D(2-4) by simp
  have "claimed_at (set_slot P b ?B) (unat w) Moved"
    using set_slot_correct(2)[OF D(1) P(3) i B(1) W i] B(4) by (simp add: claimed_at_def)
  then have self: "pc_ok (set_producer s p (set_slot P b ?B)) vals (my_producer (th t)) ?at" using P(3) by simp
  note step = sc_ok_consumer[OF ok P(1) pc _ B(4) P(3) B(1) W, of ?at]
  have "sc_ok (set_producer s p (set_slot P b ?B)) (th(t := (th t)\<lparr>pc := ?at\<rparr>)) vals" by (rule step(1)) (use self in simp_all)
  moreover have "sc_abs (set_producer s p (set_slot P b ?B)) (th(t := (th t)\<lparr>pc := ?at\<rparr>)) vals =
      (fst (sc_abs s th vals), (snd (sc_abs s th vals))(t := if claim ?at = None then None else Some (vals p ! unat w)))"
    by (rule step(2)) (use self in simp_all)
  ultimately have "sc_ok (set_producer s p (set_slot P b ?B)) (th(t := (th t)\<lparr>pc := ?at\<rparr>)) vals \<and>
      sc_abs s th vals = sc_abs (set_producer s p (set_slot P b ?B)) (th(t := (th t)\<lparr>pc := ?at\<rparr>)) vals"
    using taken_claim[where th = th and t = t and s = s and vals = vals, OF pc, of p "unat w"]
    by (cases "sc_abs s th vals") (auto simp: fun_upd_idem)
  then show ?thesis using P(1) B(1,2) unfolding keeps_def
    by (auto simp: go_def Block_move_def unat_and_31 set_slot_def)
qed

lemma dequeue_destroy:
  assumes ok: "sc_ok s th vals" and pc: "pc (th t) = SD_Destroy p w b r"
  shows "keeps s th vals t (Simple_DequeueFrom_step t weak throws s (th t) (SD_Destroy p w b r))"
proof -
  obtain P where P: "producers s p = Some P" "claimed_at P (unat w) Moved" "block_no P (unat w div 32) = Some b"
    and r: "\<And>v. r = Some v \<Longrightarrow> v = vals p ! unat w"
    using consumer_state(1)[OF ok pc] by auto
  obtain B where B: "sq_blocks P b = Some B" "storage B ! (unat w mod 32) = Moved" "committed B ! (unat w mod 32) = True"
    "unat w < head_of P"
    by (rule claimed_block[OF sc_okD(4)[OF ok P(1)] P(2,3)])
  let ?B = "B\<lparr>storage := (storage B)[unat w mod 32 := Raw]\<rparr>"
  note W = slot_written_storage[of B "unat w mod 32" Raw, unfolded B(3)]
  note step = sc_ok_consumer[OF ok P(1) pc _ B(4) P(3) B(1) W, of SC_Idle]
  have "sc_ok (set_producer s p (set_slot P b ?B)) (th(t := (th t)\<lparr>pc := SC_Idle\<rparr>)) vals" by (rule step(1)) simp_all
  moreover have "sc_abs (set_producer s p (set_slot P b ?B)) (th(t := (th t)\<lparr>pc := SC_Idle\<rparr>)) vals =
      (fst (sc_abs s th vals), (snd (sc_abs s th vals))(t := if claim (SC_Idle :: 'a sc_pc) = None then None else Some (vals p ! unat w)))"
    by (rule step(2)) simp_all
  ultimately have "sc_ok (set_producer s p (set_slot P b ?B)) (th(t := (th t)\<lparr>pc := SC_Idle\<rparr>)) vals \<and>
      fifo_family (sc_abs s th vals) (case r of Some v \<Rightarrow> Dequeued t v | None \<Rightarrow> Dequeue_Threw t) =
        Some (sc_abs (set_producer s p (set_slot P b ?B)) (th(t := (th t)\<lparr>pc := SC_Idle\<rparr>)) vals)"
    using taken_claim[where th = th and t = t and s = s and vals = vals, OF pc, of p "unat w"] r by (cases "sc_abs s th vals") (auto split: option.splits)
  then show ?thesis using P(1) B(1,2) unfolding keeps_def
    by (auto simp: Block_destroy_def unat_and_31 set_slot_def)
qed

lemma dequeue_load:
  assumes ok: "sc_ok s th vals" and pc: "pc (th t) = SD_Load p w"
  shows "keeps s th vals t (Simple_DequeueFrom_step t weak throws s (th t) (SD_Load p w))"
proof -
  obtain P where P: "producers s p = Some P" "claimed_at P (unat w) (Live (vals p ! unat w))"
    using consumer_state(1)[OF ok pc] by auto
  note D = prod_okD[OF sc_okD(4)[OF ok P(1)]]
  obtain b where b: "block_no P (unat w div 32) = Some b" using P(2) by (auto simp: claimed_at_def cell_at_def bind_eq_Some_conv)
  have "unat (w div 32) < 65536" using P(2) D(2-4) by (simp add: unat_div_32 div_less_iff_less_mult claimed_at_def)
  then have "BlockIndex_load (blocks_at P) (w div 32) = Some (Some b)"
    using BlockIndex_load_nat[OF shape_okD(1)[OF D(1)], of "w div 32"] b by (simp add: unat_div_32)
  then have "Simple_DequeueFrom_step t weak throws s (th t) (SD_Load p w) = go s (th t) (SD_Wait p w b)" using P(1) by simp
  then show ?thesis using keeps_go[OF ok, of t "SD_Wait p w b"] P b pc by simp
qed

lemma dequeue_wait:
  assumes ok: "sc_ok s th vals" and pc: "pc (th t) = SD_Wait p w b"
  shows "keeps s th vals t (Simple_DequeueFrom_step t weak throws s (th t) (SD_Wait p w b))"
proof -
  obtain P where P: "producers s p = Some P" "claimed_at P (unat w) (Live (vals p ! unat w))" "block_no P (unat w div 32) = Some b"
    using consumer_state(1)[OF ok pc] by auto
  obtain B where B: "sq_blocks P b = Some B" "committed B ! (unat w mod 32) = True"
    by (rule claimed_block[OF sc_okD(4)[OF ok P(1)] P(2,3)])
  have "Simple_DequeueFrom_step t weak throws s (th t) (SD_Wait p w b) = go s (th t) (SD_Move p w b)"
    using P(1) B by (simp add: unat_and_31)
  then show ?thesis using keeps_go[OF ok, of t "SD_Move p w b"] P pc by simp
qed

lemma dequeue_look:
  assumes ok: "sc_ok s th vals" and pc: "pc (th t) = SD_Head p st i \<or> pc (th t) = SD_Tail p st i w"
  shows "keeps s th vals t (Simple_DequeueFrom_step t weak throws s (th t) (pc (th t)))"
proof -
  have "known s (Some p)" using pc consumer_state(1)[OF ok] by (elim disjE) fastforce+
  then obtain P where P: "producers s p = Some P" by (auto simp: known_def)
  show ?thesis
    using pc
  proof
    assume pc: "pc (th t) = SD_Head p st i"
    show ?thesis using keeps_go[OF ok, of t "SD_Tail p st i (head_index P)"] P pc by (simp add: known_def)
  next
    assume pc: "pc (th t) = SD_Tail p st i w"
    show ?thesis
    proof (cases "w \<ge> tail_index P")
      case True
      then show ?thesis using keeps_go[OF ok, of t "DQ_Try st (i + 1)"] P pc by simp
    next
      case False
      then have "unat w < tail_of P" by (simp add: tail_of_def word_less_nat_alt not_le)
      then show ?thesis using keeps_go[OF ok, of t "SD_Cas p st i w"] P pc False by simp
    qed
  qed
qed

text \<open>A thread that ends its call, or looks at the queue, without a claim.\<close>

lemma keeps_own:
  assumes ok: "sc_ok s th vals" and pc: "making (pc (th t)) = None" "claim (pc (th t)) = None" "filling (pc (th t)) = None"
    and T': "my_producer T' = my_producer (th t)" "pc_ok s vals (my_producer (th t)) (pc T')" "making (pc T') = None"
      "claim (pc T') = None" "filling (pc T') = None" "\<And>p. p \<in> set (cached_producers T') \<Longrightarrow> known s (Some p)"
      "length (cached_producers T') \<le> SC_MAX_PRODUCERS"
    and act: "act = SC_Tau \<or> act = Dequeue_Empty t"
  shows "keeps s th vals t (Some (s, T', act))"
proof (rule keeps_local[OF ok])
  show "thread_ok s vals T'" using T' sc_okD(1)[OF ok, of t] by (simp add: thread_ok_def)
  show "fifo_family (sc_abs s th vals) act = Some (sc_abs s th vals)"
    using act taken_none[where th = th and t = t and s = s and vals = vals, OF pc(2)] by (cases "sc_abs s th vals") auto
qed (use pc T' in simp_all)

lemma unat_mod_small:
  assumes "0 < n" "n \<le> 256"
  shows "unat ((x :: 32 word) mod of_nat n) < n"
proof -
  have "unat (of_nat n :: 32 word) = n" by (intro unat_of_nat_small) (use assms in simp)
  then have "unat (x mod of_nat n) = unat x mod n" by (simp add: unat_mod)
  then show ?thesis using assms by simp
qed

lemma dequeue_snapshot:
  assumes ok: "sc_ok s th vals" and pc: "pc (th t) = DQ_Count q \<or> pc (th t) = DQ_Cache q count \<or> pc (th t) = DQ_Walk q cur \<or> pc (th t) = DQ_Try st i"
  shows "keeps s th vals t (Simple_Dequeue_step t weak throws s (th t) (pc (th t)))"
proof -
  note own = keeps_own[OF ok, of t]
  have cached: "known s (Some p)" if "p \<in> set (cached_producers (th t))" for p
    using sc_okD(1)[OF ok, of t] that by (simp add: thread_ok_def)
  have few: "length (cached_producers (th t)) \<le> SC_MAX_PRODUCERS" using sc_okD(1)[OF ok, of t] by (simp add: thread_ok_def)
  have head: "known s (producer_list_head (queues s q))" using sc_okD(2)[OF ok] by (simp add: links_ok_def)
  from pc consider (1) "pc (th t) = DQ_Count q" | (2) "pc (th t) = DQ_Cache q count" | (3) "pc (th t) = DQ_Walk q cur" | (4) "pc (th t) = DQ_Try st i"
    by blast
  then show ?thesis
  proof cases
    case 1
    then show ?thesis using cached few by (auto simp: Let_def go_def intro!: own)
  next
    case 2
    then show ?thesis using cached few head by (auto simp: go_def intro!: own)
  next
    case 3
    have cur: "known s cur" using consumer_state(1)[OF ok 3] by simp
    show ?thesis
    proof (cases cur)
      case None
      then show ?thesis using 3 cached few by (auto simp: go_def intro!: own)
    next
      case (Some p)
      then obtain P where P: "producers s p = Some P" using cur by (auto simp: known_def)
      have "known s (next_producer P)" using sc_okD(2)[OF ok] P by (auto simp: links_ok_def)
      then show ?thesis using 3 cached few cur P Some by (auto simp: go_def intro!: own)
    qed
  next
    case 4
    let ?n = "length (cached_producers (th t))"
    show ?thesis
    proof (cases "i < ?n")
      case True
      then have "known s (Some (cached_producers (th t) ! unat ((st + of_nat i) mod of_nat ?n)))"
        by (intro cached nth_mem unat_mod_small) (use few in auto)
      then show ?thesis using 4 cached few True by (auto simp: go_def intro!: own)
    next
      case False
      then show ?thesis using 4 cached few by (auto intro!: own)
    qed
  qed
qed

lemma dequeue_keeps:
  assumes ok: "sc_ok s th vals" and pc: "\<not> emplacing (pc (th t))" "\<not> making_producer (pc (th t))"
  shows "keeps s th vals t (Simple_Dequeue_step t weak throws s (th t) (pc (th t)))"
proof (cases "pc (th t)")
  case (SD_Head p st i)
  then show ?thesis using dequeue_look[OF ok, of t p st i] by simp
next
  case (SD_Tail p st i w)
  then show ?thesis using dequeue_look[OF ok, of t p st i w] by simp
next
  case (SD_Cas p st i w)
  show ?thesis unfolding SD_Cas using dequeue_cas[OF ok SD_Cas] by (simp only: Simple_Dequeue_step.simps)
next
  case (SD_Load p w)
  show ?thesis unfolding SD_Load using dequeue_load[OF ok SD_Load] by (simp only: Simple_Dequeue_step.simps)
next
  case (SD_Wait p w b)
  show ?thesis unfolding SD_Wait using dequeue_wait[OF ok SD_Wait] by (simp only: Simple_Dequeue_step.simps)
next
  case (SD_Move p w b)
  show ?thesis unfolding SD_Move using dequeue_move[OF ok SD_Move] by (simp only: Simple_Dequeue_step.simps)
next
  case (SD_Destroy p w b r)
  show ?thesis unfolding SD_Destroy using dequeue_destroy[OF ok SD_Destroy] by (simp only: Simple_Dequeue_step.simps)
next
  case SC_Idle
  then show ?thesis using keeps_go[OF ok, of t SC_Idle] by simp
qed (use dequeue_snapshot[OF ok] pc in fastforce)+

text \<open>The steps of \<open>GetOrCreateProducer\<close>.\<close>

lemma new_producer_step:
  fixes P :: "'a sq_producer"
  assumes "producers s a = None" and "SimpleQueueProducer_new = Some P"
  shows "Simple_GetOrCreateProducer_step t a weak s T (GP_New q v) = go (set_producer s a P) T (GP_Head q v a)"
  by (simp add: assms)

lemma making_keeps:
  fixes th :: "'t \<Rightarrow> 'a sc_thread"
  assumes ok: "sc_ok s th vals" and pc: "making_producer (pc (th t))"
  shows "keeps s th vals t (Simple_GetOrCreateProducer_step t a weak s (th t) (pc (th t)))"
proof -
  note S = sc_okD[OF ok]
  have T: "thread_ok s vals (th t)" by (rule S(1))
  have head: "known s (producer_list_head (queues s q))" for q using S(2) by (simp add: links_ok_def)
  have queue: "keeps s th vals t (Some (set_queue s q Q, T', SC_Tau))"
    if "known s (producer_list_head Q)" "thread_ok s vals T'" "claim (pc T') = None" "filling (pc T') = None"
      "my_producer T' = my_producer (th t) \<and> making (pc T') = making (pc (th t)) \<or>
       my_producer T' = making (pc (th t)) \<and> making (pc T') = None" for q Q T'
  proof -
    have none: "claim (pc (th t)) = None" "filling (pc (th t)) = None" using pc by (cases "pc (th t)"; simp)+
    show ?thesis
      using sc_ok_queue[OF ok that(1,2), of t q] that(3-5) none unfolding keeps_def by auto
  qed
  show ?thesis
  proof (cases "pc (th t)")
    case (GP_Check q v)
    show ?thesis
    proof (cases "my_producer (th t) \<noteq> None \<and> my_producer_owner_id (th t) = q")
      case True
      then obtain p where p: "my_producer (th t) = Some p" by auto
      then show ?thesis using GP_Check True keeps_go[OF ok, of t "SE_Tail p v"] by simp
    next
      case False
      then show ?thesis using GP_Check keeps_go[OF ok, of t "GP_Count q v"] by (auto split: option.splits)
    qed
  next
    case (GP_Count q v)
    then show ?thesis using keeps_go[OF ok, of t "GP_CasCount q v (producer_count (queues s q))"] by simp
  next
    case (GP_CasCount q v count)
    consider (full) "count \<ge> 256" | (ok) "count < 256" "\<not> weak \<and> producer_count (queues s q) = count"
      | (retry) "count < 256" "\<not> (\<not> weak \<and> producer_count (queues s q) = count)" by linarith
    then show ?thesis
    proof cases
      case full
      have "thread_ok s vals ((th t)\<lparr>pc := SC_Idle\<rparr>)" using T by (simp add: thread_ok_def)
      then show ?thesis using full GP_CasCount by (auto intro: keeps_local[OF ok])
    next
      case ok
      have "thread_ok s vals ((th t)\<lparr>pc := GP_New q v\<rparr>)" using T by (simp add: thread_ok_def)
      then show ?thesis using ok GP_CasCount head by (auto simp: go_def intro!: queue)
    next
      case retry
      then show ?thesis using GP_CasCount keeps_go[OF ok, of t "GP_CasCount q v (producer_count (queues s q))"] by auto
    qed
  next
    case (GP_New q v)
    show ?thesis
    proof (cases "producers s a = None")
      case True
      obtain P :: "'a sq_producer" where P: "SimpleQueueProducer_new = Some P" "prod_ok P []" "next_producer P = None" "raw_at P 0" "head_of P = 0" "tail_of P = 0"
        by (rule SimpleQueueProducer_new_ok)
      have "sc_ok (set_producer s a P) (th(t := (th t)\<lparr>pc := GP_Head q v a\<rparr>)) vals"
        "sc_abs (set_producer s a P) (th(t := (th t)\<lparr>pc := GP_Head q v a\<rparr>)) vals = sc_abs s th vals"
        by (rule sc_ok_new[OF ok True P(2-)]; use GP_New in \<open>simp add: known_def\<close>)+
      moreover have "Simple_GetOrCreateProducer_step t a weak s (th t) (GP_New q v) = go (set_producer s a P) (th t) (GP_Head q v a)"
        by (rule new_producer_step[OF True P(1)])
      ultimately show ?thesis using GP_New unfolding keeps_def go_def by auto
    next
      case False
      then show ?thesis using GP_New keeps_go[OF ok, of t "GP_New q v"] by auto
    qed
  next
    case (GP_Head q v p)
    then show ?thesis using keeps_go[OF ok, of t "GP_SetNext q v p (producer_list_head (queues s q))"] T head by (simp add: thread_ok_def)
  next
    case (GP_SetNext q v p h)
    then have pc_ok: "known s (Some p)" "known s h" using T by (simp_all add: thread_ok_def)
    then obtain P where P: "producers s p = Some P" by (auto simp: known_def)
    let ?P = "P\<lparr>next_producer := h\<rparr>" and ?at = "GP_CasHead q v p h"
    have same: "cell_at ?P = cell_at P" "block_no ?P = block_no P" "tail_of ?P = tail_of P" "shape_ok ?P = shape_ok P" "head_of ?P = head_of P"
      by (auto simp: cell_at_def block_no_def tail_of_def head_of_def shape_ok_def fun_eq_iff)
    have prod: "prod_ok ?P (vals p)" using S(4)[OF P] unfolding prod_ok_def same by (elim conjE) simp
    have linked: "known (set_producer s p ?P) (next_producer ?P)" using pc_ok(2) known_set_producer by simp
    have view: "view_kept (pc (th u)) p P (vals p) ?P (vals p)" for u by (simp add: view_kept_def same)
    have tr: "raw_at ?P (tail_of ?P)" if "tail_of ?P < 65536 * 32" "\<And>u. u \<noteq> t \<Longrightarrow> filling (pc (th u)) \<noteq> Some p"
    proof -
      have "filling (pc (th u)) \<noteq> Some p" for u using that(2) GP_SetNext by (cases "u = t") auto
      then show ?thesis using S(6)[OF P] that(1) by (simp add: same raw_at_def)
    qed
    have drained: "raw_at ?P j" if "j < head_of ?P" "\<And>u. u \<noteq> t \<Longrightarrow> claim (pc (th u)) \<noteq> Some (p, j)" for j
    proof -
      have "claim (pc (th u)) \<noteq> Some (p, j)" for u using that(2) GP_SetNext by (cases "u = t") auto
      then show ?thesis using S(7)[OF P, of j] that(1) by (simp add: same raw_at_def)
    qed
    note step = sc_ok_producer[OF ok P prod linked view, of t ?at, unfolded fun_upd_triv]
    have "sc_ok (set_producer s p ?P) (th(t := (th t)\<lparr>pc := ?at\<rparr>)) vals"
      by (rule step(1)) (use GP_SetNext pc_ok tr drained known_set_producer in auto)
    moreover have "sc_abs (set_producer s p ?P) (th(t := (th t)\<lparr>pc := ?at\<rparr>)) vals = ((fst (sc_abs s th vals))(p := drop (head_of ?P) (vals p)),
       (snd (sc_abs s th vals))(t := case claim ?at of None \<Rightarrow> None | Some (p', i) \<Rightarrow> Some (vals p' ! i)))"
      by (rule step(2)) (use GP_SetNext pc_ok tr drained known_set_producer in auto)
    moreover have "fst (sc_abs s th vals) p = drop (head_of ?P) (vals p)" "snd (sc_abs s th vals) t = None"
      using P GP_SetNext by (simp_all add: sc_abs_def same)
    ultimately show ?thesis using GP_SetNext P unfolding keeps_def go_def
      by (cases "sc_abs s th vals") (auto simp: fun_upd_idem go_def)
  next
    case (GP_CasHead q v p h)
    then have pc_ok: "known s (Some p)" "known s h" using T by (simp_all add: thread_ok_def)
    show ?thesis
    proof (cases "\<not> weak \<and> producer_list_head (queues s q) = h")
      case True
      have "thread_ok s vals ((th t)\<lparr>my_producer := Some p, my_producer_owner_id := q, pc := SE_Tail p v\<rparr>)"
        using T pc_ok by (simp add: thread_ok_def)
      then show ?thesis using True GP_CasHead pc_ok by (auto simp: go_def intro!: queue)
    next
      case False
      then show ?thesis using GP_CasHead pc_ok head keeps_go[OF ok, of t "GP_SetNext q v p (producer_list_head (queues s q))"] by auto
    qed
  qed (use pc in simp_all)
qed

lemma sc_rel_step:
  assumes "sc_rel s f"
  shows "\<exists>s' act f'. sc_step s e = Some (s', act) \<and> fifo_family f act = Some f' \<and> sc_rel s' f'"
proof -
  obtain sh th vals where s: "s = (sh, th)" and ok: "sc_ok sh th vals" and f: "f = sc_abs sh th vals"
    using assms by (cases s) (auto simp: sc_rel_def)
  have step: ?thesis if "keeps sh th vals t r" "sc_step s e = Option.bind r (\<lambda>(s', T, act). Some ((s', th(t := T)), act))" for t r
    using that f unfolding keeps_def sc_rel_def by fastforce
  show ?thesis
  proof (cases e)
    case (SC_Emplace t q v)
    have "keeps sh th vals t (go sh (th t) (if pc (th t) = SC_Idle then GP_Check q v else pc (th t)))"
      using consumer_state(1)[OF ok refl, of t] by (intro keeps_go[OF ok]) auto
    then show ?thesis by (rule step) (simp add: s SC_Emplace go_def)
  next
    case (SC_Dequeue t q)
    have "keeps sh th vals t (go sh (th t) (if pc (th t) = SC_Idle then DQ_Count q else pc (th t)))"
      using consumer_state(1)[OF ok refl, of t] by (intro keeps_go[OF ok]) auto
    then show ?thesis by (rule step) (simp add: s SC_Dequeue go_def)
  next
    case (SC_Step t a weak throws)
    have "keeps sh th vals t (sc_thread_step t a weak throws sh (th t))"
      using making_keeps[OF ok] emplace_keeps[OF ok] dequeue_keeps[OF ok] unfolding sc_thread_step_def by presburger
    then show ?thesis by (rule step) (simp add: s SC_Step)
  qed
qed

interpretation scq: lock_step sc_step fifo_family sc_rel
  by unfold_locales (rule sc_rel_step)

lemma sc_rel_new: "sc_rel sc_new (\<lambda>_. [], \<lambda>_. None)"
proof -
  have "sc_ok (fst sc_new) (snd sc_new) (\<lambda>_. [])"
    by (simp add: sc_new_def sc_ok_def thread_ok_def sc_thread_new_def links_ok_def owners_ok_def tails_raw_def claimed_raw_def
        known_def SimpleConcurrentQueue_new_def)
  moreover have "sc_abs (fst sc_new) (snd sc_new) (\<lambda>_. []) = (\<lambda>_. [], \<lambda>_. None)"
    by (simp add: sc_new_def sc_abs_def sc_thread_new_def)
  ultimately show ?thesis unfolding sc_rel_def by metis
qed

section \<open>The queue under every schedule\<close>

text \<open>C28: Under every schedule of the atomic steps of any threads on any number of queues, with any
  exceptions of the element type, the simple concurrent queue has no undefined behaviour: no slot is
  constructed, moved from or destroyed out of turn.  Each producer is a FIFO queue: its values are
  claimed in the order in which they were published, each at most once, and \<open>Dequeue\<close> returns the value
  its thread claimed.\<close>

theorem SimpleConcurrentQueue_refines_fifo_family:
  "\<exists>as s. run_steps sc_step sc_new es = Some (as, s) \<and> run_spec fifo_family (\<lambda>_. [], \<lambda>_. None) as \<noteq> None"
  by (rule scq.run_accepted[OF sc_rel_new])


section \<open>The turns of the producers\<close>









end
