(* ===== verification/Simple_Queue_Solo.thy ===== *)
theory Simple_Queue_Solo
  imports Simple_Queue_Correct
begin

text \<open>
  A thread that runs alone in the simple concurrent queue returns: a measure of the thread and of the
  memory it reads goes down at every step, and no wait in the code is ever entered.
\<close>

section \<open>The steps left\<close>

definition sc_head_is :: "'a sc_shared \<Rightarrow> nat \<Rightarrow> 64 word \<Rightarrow> bool" where
  "sc_head_is s p w \<longleftrightarrow> map_option head_index (producers s p) = Some w"

text \<open>An upper bound for the steps to the end of the call; \<open>n\<close> is the number of cached producers.\<close>

fun sc_rank :: "'a sc_shared \<Rightarrow> nat \<Rightarrow> 'a sc_pc \<Rightarrow> nat" where
  "sc_rank s n SC_Idle = 0"
| "sc_rank s n (GP_Check q v) = 19"
| "sc_rank s n (GP_Count q v) = 18"
| "sc_rank s n (GP_CasCount q v c) = (if c \<ge> 256 then 1 else if producer_count (queues s q) = c then 16 else 17)"
| "sc_rank s n (GP_New q v) = 15"
| "sc_rank s n (GP_Head q v p) = 14"
| "sc_rank s n (GP_SetNext q v p h) = (if producer_list_head (queues s q) = h then 11 else 13)"
| "sc_rank s n (GP_CasHead q v p h) = (if producer_list_head (queues s q) = h then 10 else 12)"
| "sc_rank s n (SE_Tail p v) = 7"
| "sc_rank s n (SE_Block p v w) = 6"
| "sc_rank s n (SE_Index p v w b) = 5"
| "sc_rank s n (SE_Construct p v w b) = 4"
| "sc_rank s n (SE_Commit p v w b) = 3"
| "sc_rank s n (SE_Publish p v w) = 2"
| "sc_rank s n (DQ_Count q) = 1037"
| "sc_rank s n (DQ_Cache q c) = 1036"
| "sc_rank s n (DQ_Walk q cur) = 778 + (256 - n)"
| "sc_rank s n (DQ_Try st i) = (if i < n then 3 * (n - i) + 8 else 1)"
| "sc_rank s n (SD_Head p st i) = 3 * (n - i) + 7"
| "sc_rank s n (SD_Tail p st i w) = 3 * (n - i) + (if sc_head_is s p w then 6 else 9)"
| "sc_rank s n (SD_Cas p st i w) = (if sc_head_is s p w then 5 else 3 * (n - i) + 8)"
| "sc_rank s n (SD_Load p w) = 4"
| "sc_rank s n (SD_Wait p w b) = 3"
| "sc_rank s n (SD_Move p w b) = 2"
| "sc_rank s n (SD_Destroy p w b r) = 1"

lemma sc_rank_le: "n \<le> 256 \<Longrightarrow> sc_rank s n at \<le> 1037"
  by (cases at) auto

lemma sc_rank_idle: "sc_rank s n at = 0 \<longleftrightarrow> at = SC_Idle"
  by (cases at) auto

text \<open>The address \<open>a\<close> can be used for what the thread may still allocate.\<close>

definition room :: "'a sc_shared \<Rightarrow> nat \<Rightarrow> nat \<Rightarrow> bool" where
  "room s a p \<longleftrightarrow> (\<forall>P. producers s p = Some P \<longrightarrow> sq_blocks P a = None \<or> tail_of P mod 32 \<noteq> 0 \<or> tail_of P = 0)"

fun usable :: "'a sc_shared \<Rightarrow> nat \<Rightarrow> nat option \<Rightarrow> 'a sc_pc \<Rightarrow> bool" where
  "usable s a my (GP_Check q v) \<longleftrightarrow> producers s a = None \<and> (\<forall>p. my = Some p \<longrightarrow> room s a p)"
| "usable s a my (GP_Count q v) \<longleftrightarrow> producers s a = None"
| "usable s a my (GP_CasCount q v c) \<longleftrightarrow> producers s a = None"
| "usable s a my (GP_New q v) \<longleftrightarrow> producers s a = None"
| "usable s a my (GP_Head q v p) \<longleftrightarrow> room s a p"
| "usable s a my (GP_SetNext q v p h) \<longleftrightarrow> room s a p"
| "usable s a my (GP_CasHead q v p h) \<longleftrightarrow> room s a p"
| "usable s a my (SE_Tail p v) \<longleftrightarrow> room s a p"
| "usable s a my (SE_Block p v w) \<longleftrightarrow> room s a p"
| "usable s a my at \<longleftrightarrow> True"

definition comes_closer :: "nat \<Rightarrow> 'a sc_shared \<Rightarrow> 'a sc_thread \<Rightarrow> ('t, 'a) sc_result \<Rightarrow> bool" where
  "comes_closer a s T r \<longleftrightarrow> (\<forall>s' T' act. r = Some (s', T', act) \<longrightarrow>
     sc_rank s' (length (cached_producers T')) (pc T') \<le> sc_rank s (length (cached_producers T)) (pc T) - 1 \<and>
     usable s' a (my_producer T') (pc T'))"

lemma comes_closer_bind: "(\<And>x. m = Some x \<Longrightarrow> comes_closer a s T (f x)) \<Longrightarrow> comes_closer a s T (Option.bind m f)"
  by (cases m) (simp_all add: comes_closer_def)

lemma comes_closer_if:
  "(b \<Longrightarrow> comes_closer a s T x) \<Longrightarrow> (\<not> b \<Longrightarrow> comes_closer a s T y) \<Longrightarrow> comes_closer a s T (if b then x else y)"
  by simp

lemma comes_closer_option:
  "(m = None \<Longrightarrow> comes_closer a s T x) \<Longrightarrow> (\<And>v. m = Some v \<Longrightarrow> comes_closer a s T (f v)) \<Longrightarrow>
    comes_closer a s T (case m of None \<Rightarrow> x | Some v \<Rightarrow> f v)"
  by (cases m) simp_all

lemmas comes_closer_intros = comes_closer_bind comes_closer_if comes_closer_option

section \<open>Every step comes closer to the end\<close>

lemma new_producer_room: "SimpleQueueProducer_new = Some P \<Longrightarrow> tail_of P = 0"
  by (auto simp: SimpleQueueProducer_new_def bind_eq_Some_conv tail_of_def)

lemma room_set_queue [simp]: "room (set_queue s q Q) a p = room s a p"
  by (simp add: room_def)

lemma making_closer:
  assumes "making_producer (pc T)" "usable s a (my_producer T) (pc T)"
  shows "comes_closer a s T (Simple_GetOrCreateProducer_step t a False s T (pc T))"
proof (cases "pc T")
  case (GP_New q v)
  then show ?thesis using assms(2)
    by (auto simp: comes_closer_def go_def room_def bind_eq_Some_conv dest: new_producer_room)
next
  case (GP_SetNext q v p h)
  then show ?thesis using assms(2)
    by (auto simp: comes_closer_def go_def room_def bind_eq_Some_conv tail_of_def)
qed (use assms in \<open>auto simp: comes_closer_def go_def split: option.splits\<close>)

lemma emplace_closer:
  assumes "pc_ok s vals my (pc T)" "emplacing (pc T)" "usable s a (my_producer T) (pc T)"
  shows "comes_closer a s T (Simple_Emplace_step t a throws s T (pc T))"
proof (cases "pc T")
  case (SE_Block p v w)
  then obtain P where P: "producers s p = Some P" "tail_of P mod 32 = 0" "0 < tail_of P" using assms(1) by auto
  then have "sq_blocks P a = None" using assms(3) SE_Block by (simp add: room_def)
  then show ?thesis using SE_Block P by (auto simp: comes_closer_def go_def bind_eq_Some_conv)
next
  case (SE_Tail p v)
  then have "room s a p" using assms(3) by simp
  then show ?thesis unfolding SE_Tail Simple_Emplace_step.simps Let_def
    by (intro comes_closer_intros) (simp_all add: SE_Tail comes_closer_def go_def)
qed (use assms in \<open>auto simp: comes_closer_def go_def bind_eq_Some_conv split: if_splits\<close>)

lemma dequeue_from_closer:
  assumes ok: "sc_ok s th vals" and pc: "\<not> making_producer (pc (th t))" "\<not> emplacing (pc (th t))"
    and at: "\<And>q. pc (th t) \<noteq> DQ_Count q" "\<And>q c. pc (th t) \<noteq> DQ_Cache q c" "\<And>q c. pc (th t) \<noteq> DQ_Walk q c" "\<And>st i. pc (th t) \<noteq> DQ_Try st i"
  shows "comes_closer a s (th t) (Simple_DequeueFrom_step t False throws s (th t) (pc (th t)))"
proof (cases "pc (th t)")
  case (SD_Head p st i)
  then show ?thesis by (auto simp: comes_closer_def go_def bind_eq_Some_conv sc_head_is_def)
next
  case (SD_Tail p st i w)
  then show ?thesis by (auto simp: comes_closer_def go_def bind_eq_Some_conv)
next
  case (SD_Cas p st i w)
  then show ?thesis by (auto simp: comes_closer_def go_def bind_eq_Some_conv sc_head_is_def)
next
  case (SD_Load p w)
  obtain P where P: "producers s p = Some P" "claimed_at P (unat w) (Live (vals p ! unat w))"
    using consumer_state(1)[OF ok SD_Load] by auto
  note D = prod_okD[OF sc_okD(4)[OF ok P(1)]]
  obtain b where b: "block_no P (unat w div 32) = Some b" using P(2) by (auto simp: claimed_at_def cell_at_def bind_eq_Some_conv)
  have "unat (w div 32) < 65536" using P(2) D(2-4) by (simp add: unat_div_32 div_less_iff_less_mult claimed_at_def)
  then have "BlockIndex_load (blocks_at P) (w div 32) = Some (Some b)"
    using BlockIndex_load_nat[OF shape_okD(1)[OF D(1)], of "w div 32"] b by (simp add: unat_div_32)
  then show ?thesis using P(1) SD_Load by (simp add: comes_closer_def go_def)
next
  case (SD_Wait p w b)
  obtain P where P: "producers s p = Some P" "claimed_at P (unat w) (Live (vals p ! unat w))" "block_no P (unat w div 32) = Some b"
    using consumer_state(1)[OF ok SD_Wait] by auto
  obtain B where B: "sq_blocks P b = Some B" "committed B ! (unat w mod 32) = True"
    by (rule claimed_block[OF sc_okD(4)[OF ok P(1)] P(2,3)])
  then show ?thesis using P(1) SD_Wait by (simp add: comes_closer_def go_def unat_and_31)
qed (use assms in \<open>auto simp: comes_closer_def go_def bind_eq_Some_conv split: prod.splits\<close>)

lemma dequeue_closer:
  assumes ok: "sc_ok s th vals" and pc: "\<not> making_producer (pc (th t))" "\<not> emplacing (pc (th t))"
  shows "comes_closer a s (th t) (Simple_Dequeue_step t False throws s (th t) (pc (th t)))"
proof -
  have few: "length (cached_producers (th t)) \<le> 256" using sc_okD(1)[OF ok, of t] by (simp add: thread_ok_def)
  show ?thesis
  proof (cases "pc (th t)")
    case (DQ_Count q)
    then show ?thesis by (auto simp: comes_closer_def go_def Let_def)
  next
    case (DQ_Cache q c)
    then show ?thesis using few by (auto simp: comes_closer_def go_def)
  next
    case (DQ_Walk q cur)
    then show ?thesis using few by (auto simp: comes_closer_def go_def bind_eq_Some_conv split: option.splits)
  next
    case (DQ_Try st i)
    then show ?thesis by (auto simp: comes_closer_def go_def)
  qed (use dequeue_from_closer[OF ok pc, of a throws] pc in simp_all)
qed

section \<open>A thread that runs alone\<close>

lemma step_closer:
  assumes "sc_ok s th vals" "usable s a (my_producer (th t)) (pc (th t))"
  shows "comes_closer a s (th t) (sc_thread_step t a False throws s (th t))"
proof -
  have "pc_ok s vals (my_producer (th t)) (pc (th t))" using sc_okD(1)[OF assms(1), of t] by (simp add: thread_ok_def)
  then show ?thesis unfolding sc_thread_step_def
    by (intro comes_closer_if making_closer[OF _ assms(2)] emplace_closer[OF _ _ assms(2)] dequeue_closer[OF assms(1)])
qed

lemma sc_solo_run:
  assumes "sc_rel (s, th) f" "usable s a (my_producer (th t)) (pc (th t))"
  shows "\<exists>as s' th'. run_steps sc_step (s, th) (replicate m (SC_Step t a False throws)) = Some (as, s', th') \<and>
    sc_rank s' (length (cached_producers (th' t))) (pc (th' t)) \<le> sc_rank s (length (cached_producers (th t))) (pc (th t)) - m"
  using assms
proof (induction m arbitrary: s th f)
  case (Suc m)
  obtain vals where ok: "sc_ok s th vals" using Suc.prems(1) by (auto simp: sc_rel_def)
  obtain s1 act f' where one: "sc_step (s, th) (SC_Step t a False throws) = Some (s1, act)" "sc_rel s1 f'"
    using sc_rel_step[OF Suc.prems(1)] by blast
  then obtain s' T' where st: "sc_thread_step t a False throws s (th t) = Some (s', T', act)" "s1 = (s', th(t := T'))"
    by (auto simp: bind_eq_Some_conv)
  have closer: "sc_rank s' (length (cached_producers T')) (pc T') \<le> sc_rank s (length (cached_producers (th t))) (pc (th t)) - 1"
    "usable s' a (my_producer T') (pc T')"
    using step_closer[OF ok Suc.prems(2), of throws] st(1) by (auto simp: comes_closer_def)
  have "sc_rel (s', th(t := T')) f'" using one(2) st(2) by simp
  then have "\<exists>as s'' th''. run_steps sc_step (s', th(t := T')) (replicate m (SC_Step t a False throws)) = Some (as, s'', th'') \<and>
      sc_rank s'' (length (cached_producers (th'' t))) (pc (th'' t)) \<le>
        sc_rank s' (length (cached_producers ((th(t := T')) t))) (pc ((th(t := T')) t)) - m"
    by (rule Suc.IH) (use closer(2) in simp)
  then obtain as s'' th'' where "run_steps sc_step (s', th(t := T')) (replicate m (SC_Step t a False throws)) = Some (as, s'', th'')"
    "sc_rank s'' (length (cached_producers (th'' t))) (pc (th'' t)) \<le> sc_rank s' (length (cached_producers T')) (pc T') - m"
    unfolding fun_upd_same by blast
  then show ?case using one(1) st(2) closer(1) by auto
qed simp

lemma usable_fresh:
  assumes "producers s a = None" "\<And>p P. producers s p = Some P \<Longrightarrow> sq_blocks P a = None"
  shows "usable s a my at"
  using assms by (cases at) (auto simp: room_def)

text \<open>C30: A thread that runs alone returns: after any schedule, 1037 steps of one thread, without
  interference and without a spurious failure of a compare-exchange, bring its call to an end,
  whatever the other threads have left unfinished; the bound is for a call that takes a snapshot of 256
  producers and looks into each of them.  No call waits for another: the
  loops of \<open>DequeueFrom\<close> that wait for a block and for its element to be committed are left at once.\<close>

theorem SimpleConcurrentQueue_solo_returns:
  fixes es :: "('t, 'a) sc_event list"
  assumes "run_steps sc_step sc_new es = Some (as, s, th)"
    and "producers s a = None" and "\<forall>p P. producers s p = Some P \<longrightarrow> sq_blocks P a = None"
  shows "\<exists>as' s' th'. run_steps sc_step (s, th) (replicate 1037 (SC_Step t a False throws)) = Some (as', s', th') \<and>
     pc (th' t) = SC_Idle"
proof -
  obtain f where f: "sc_rel (s, th) f" by (rule scq.run_reaches[OF sc_rel_new assms(1)])
  then obtain vals where "thread_ok s vals (th t)" by (auto simp: sc_rel_def dest: sc_okD(1))
  then have few: "length (cached_producers (th t)) \<le> 256" by (simp add: thread_ok_def)
  have "usable s a (my_producer (th t)) (pc (th t))" by (rule usable_fresh) (use assms in auto)
  from sc_solo_run[OF f this, of 1037 throws] obtain as' s' th' where
    run: "run_steps sc_step (s, th) (replicate 1037 (SC_Step t a False throws)) = Some (as', s', th')"
    "sc_rank s' (length (cached_producers (th' t))) (pc (th' t)) \<le> sc_rank s (length (cached_producers (th t))) (pc (th t)) - 1037" by blast
  then have "sc_rank s' (length (cached_producers (th' t))) (pc (th' t)) = 0" using sc_rank_le[OF few, of s "pc (th t)"] by linarith
  then show ?thesis using run(1) sc_rank_idle by blast
qed

text \<open>Thread 0 has claimed the one element and not yet taken it when thread 1 calls \<open>Dequeue\<close>.\<close>

definition claimed_by_other :: "(nat, nat) sc_event list" where
  "claimed_by_other = SC_Emplace 0 1 7 # replicate 11 (SC_Step 0 5 False False) @
     SC_Dequeue 0 1 # replicate 8 (SC_Step 0 5 False False) @ [SC_Dequeue 1 1]"

lemma claimed_by_other_run:
  "\<exists>as s th w. run_steps sc_step sc_new claimed_by_other = Some (as, s, th) \<and> pc (th 0) = SD_Load 5 w \<and> pc (th 1) = DQ_Count 1 \<and>
     producers s 8 = None \<and> (\<forall>p P. producers s p = Some P \<longrightarrow> sq_blocks P 8 = None)"
  by (simp add: claimed_by_other_def numeral_eq_Suc sc_new_def sc_thread_new_def SimpleConcurrentQueue_new_def sc_thread_step_def go_def Let_def
      SimpleQueueProducer_new_def BlockIndex_new_def BlockIndex_store_def seg_of_def slot_of_def set_producer_def set_queue_def
      SimpleQueueBlock_new_def Block_construct_def)

theorem SimpleConcurrentQueue_solo_returns_witness:
  "\<exists>as s th w as' s' th'. run_steps sc_step sc_new claimed_by_other = Some (as, s, th) \<and> pc (th 0) = SD_Load 5 w \<and> pc (th 1) = DQ_Count 1 \<and>
     run_steps sc_step (s, th) (replicate 1037 (SC_Step 1 8 False False)) = Some (as', s', th') \<and> pc (th' 1) = SC_Idle"
proof -
  obtain as s th w where run: "run_steps sc_step sc_new claimed_by_other = Some (as, s, th)" and
    at: "pc (th 0) = SD_Load 5 w" "pc (th 1) = DQ_Count 1" and
    fresh: "producers s 8 = None" "\<forall>p P. producers s p = Some P \<longrightarrow> sq_blocks P 8 = None"
    using claimed_by_other_run by blast
  from SimpleConcurrentQueue_solo_returns[OF run fresh, of 1 False] run at show ?thesis by blast
qed

end
