(* ===== verification/Simple_Queue_Destroy.thy ===== *)
theory Simple_Queue_Destroy
  imports Simple_Queue_Correct
begin

text \<open>
  The destruction of the simple concurrent queue.  A second invariant describes the lists that the
  destructors follow: the blocks of a producer, and the producers of a queue.  It is kept by every step,
  together with the first one, and from it the destructors end, free every block of the queue once and
  destroy every element that is left.
\<close>

section \<open>The blocks of a producer\<close>

definition next_blocks :: "(nat \<rightharpoonup> 'a sq_block) \<Rightarrow> nat \<Rightarrow> nat option option" where
  "next_blocks m = (\<lambda>b. map_option next_block (m b))"

definition chain_ok :: "'a sq_producer \<Rightarrow> bool" where
  "chain_ok P \<longleftrightarrow> (\<exists>bs. chained (next_blocks (sq_blocks P)) bs \<and> block_no P 0 = Some (hd bs) \<and> last bs = tail_block P \<and>
     set bs = dom (sq_blocks P))"

text \<open>A block that the index does not have holds no element.\<close>

definition orphans_raw :: "'a sq_producer \<Rightarrow> bool" where
  "orphans_raw P \<longleftrightarrow> (\<forall>b B. sq_blocks P b = Some B \<and> (\<forall>k < 65536. block_no P k \<noteq> Some b) \<longrightarrow> storage B = replicate 32 Raw)"

definition blocks_ok :: "'a sq_producer \<Rightarrow> bool" where
  "blocks_ok P \<longleftrightarrow> chain_ok P \<and> orphans_raw P"

lemma blocks_ok_new: "SimpleQueueProducer_new = Some P \<Longrightarrow> blocks_ok P"
proof -
  assume P: "SimpleQueueProducer_new = Some P"
  then have "sq_blocks P = [0 \<mapsto> SimpleQueueBlock_new 0]" "tail_block P = 0" "block_no P 0 = Some 0"
    by (auto simp: SimpleQueueProducer_new_def BlockIndex_new_def BlockIndex_store_def Let_def seg_of_nat slot_of_nat block_no_def)
  then show ?thesis unfolding blocks_ok_def chain_ok_def orphans_raw_def
    by (intro conjI exI[of _ "[0]"]) (auto simp: next_blocks_def SimpleQueueBlock_new_def split: if_splits)
qed

lemma blocks_ok_cong:
  assumes "blocks_ok P" "sq_blocks P' = sq_blocks P" "blocks_at P' = blocks_at P" "tail_block P' = tail_block P"
  shows "blocks_ok P'"
proof -
  have "block_no P' = block_no P" using assms(3) by (simp add: block_no_def fun_eq_iff)
  then show ?thesis using assms unfolding blocks_ok_def chain_ok_def orphans_raw_def by simp
qed

lemma blocks_ok_slot:
  assumes ok: "blocks_ok P" and b: "block_no P k = Some b" "k < 65536" "sq_blocks P b = Some B" and B': "next_block B' = next_block B"
  shows "blocks_ok (set_slot P b B')"
proof -
  have nb: "next_blocks (sq_blocks (set_slot P b B')) = next_blocks (sq_blocks P)"
    using b(3) B' by (auto simp: next_blocks_def fun_eq_iff)
  have dm: "dom (sq_blocks (set_slot P b B')) = dom (sq_blocks P)" using b(3) by auto
  have "chain_ok (set_slot P b B')" using ok unfolding blocks_ok_def chain_ok_def nb dm by simp
  moreover have "orphans_raw (set_slot P b B')"
    using ok b(1,2) unfolding blocks_ok_def orphans_raw_def by (auto split: if_splits)
  ultimately show ?thesis by (simp add: blocks_ok_def)
qed

lemma blocks_ok_append:
  assumes ok: "blocks_ok P" and a: "sq_blocks P a = None" and old: "sq_blocks P (tail_block P) = Some old" "shape_ok P"
  shows "blocks_ok (P\<lparr>sq_blocks := (sq_blocks P)(a \<mapsto> SimpleQueueBlock_new base, tail_block P \<mapsto> old\<lparr>next_block := Some a\<rparr>), tail_block := a\<rparr>)"
    (is "blocks_ok ?P")
proof -
  obtain bs where bs: "chained (next_blocks (sq_blocks P)) bs" "block_no P 0 = Some (hd bs)" "last bs = tail_block P" "set bs = dom (sq_blocks P)"
    using ok unfolding blocks_ok_def chain_ok_def by blast
  have no: "block_no ?P = block_no P" by (simp add: block_no_def fun_eq_iff)
  have ne: "tail_block P \<noteq> a" "bs \<noteq> []" using a old(1) bs(1) by auto
  have "chained (next_blocks (sq_blocks ?P)) (bs @ [a])"
    by (rule chained_snoc[OF bs(1)]) (use ne(1) bs(3,4) a in \<open>auto simp: next_blocks_def SimpleQueueBlock_new_def\<close>)
  moreover have "set (bs @ [a]) = dom (sq_blocks ?P)" using bs(4) old(1) by auto
  ultimately have "chain_ok ?P" unfolding chain_ok_def no using bs(2) ne(2) by (intro exI[of _ "bs @ [a]"]) simp
  moreover have "orphans_raw ?P"
    using ok old(1) unfolding blocks_ok_def orphans_raw_def no by (auto simp: SimpleQueueBlock_new_def)
  ultimately show ?thesis by (simp add: blocks_ok_def)
qed

lemma raw_block:
  assumes "shape_ok P" "block_no P k = Some b" "k < 65536" "sq_blocks P b = Some B" "\<And>j. j < 32 \<Longrightarrow> raw_at P (k * 32 + j)"
  shows "storage B = replicate 32 Raw"
proof (rule nth_equalityI)
  show "length (storage B) = length (replicate 32 Raw)" using shape_okD(2)[OF assms(1,4)] by simp
  fix j assume "j < length (storage B)"
  then have j: "j < 32" using shape_okD(2)[OF assms(1,4)] by simp
  have "cell_at P (k * 32 + j) = Some (storage B ! j, committed B ! j)" using j assms(2,4) by (simp add: cell_at_def)
  then show "storage B ! j = replicate 32 Raw ! j" using assms(5)[OF j] j by (auto simp: raw_at_def)
qed

lemma blocks_ok_index:
  assumes ok: "blocks_ok P" and P: "shape_ok P" and w: "unat w < 65536" "0 < unat w"
    and store: "BlockIndex_store (blocks_at P) w b = Some index" and raw: "\<And>j. j < 32 \<Longrightarrow> raw_at P (unat w * 32 + j)"
    and b: "sq_blocks P b = Some (SimpleQueueBlock_new base)"
  shows "blocks_ok (P\<lparr>blocks_at := index\<rparr>)"
proof -
  let ?P = "P\<lparr>blocks_at := index\<rparr>"
  have no: "block_no ?P k = (if k = unat w then Some b else block_no P k)" if "k < 65536" for k
    using BlockIndex_store_nat[OF shape_okD(1)[OF P] w(1), of b] store that by auto
  have chain: "chain_ok ?P" using ok no[of 0] w(2) unfolding blocks_ok_def chain_ok_def by simp
  have raws: "storage B = replicate 32 Raw" if B: "sq_blocks P c = Some B" "\<forall>k < 65536. block_no ?P k \<noteq> Some c" for c B
  proof (cases "\<exists>k < 65536. block_no P k = Some c")
    case True
    then obtain k where k: "k < 65536" "block_no P k = Some c" by blast
    then have "k = unat w" using B(2)[rule_format, OF k(1)] no[OF k(1)] by (auto split: if_splits)
    then show ?thesis using raw_block[OF P k(2,1) B(1)] raw by simp
  next
    case False
    then show ?thesis using ok B(1) unfolding blocks_ok_def orphans_raw_def by blast
  qed
  then have "orphans_raw ?P" unfolding orphans_raw_def by (intro allI impI) (auto intro: raws)
  then show ?thesis using chain by (simp add: blocks_ok_def)
qed

section \<open>The lists of producers\<close>

definition next_producers :: "'a sc_shared \<Rightarrow> nat \<Rightarrow> nat option option" where
  "next_producers s = (\<lambda>p. map_option next_producer (producers s p))"

definition listed :: "(nat \<Rightarrow> nat option option) \<Rightarrow> nat option \<Rightarrow> nat list \<Rightarrow> bool" where
  "listed nx r ps \<longleftrightarrow> (case r of None \<Rightarrow> ps = [] | Some p \<Rightarrow> chained nx ps \<and> hd ps = p)"

definition lists_ok :: "'a sc_shared \<Rightarrow> ('t \<Rightarrow> 'a sc_thread) \<Rightarrow> (nat \<Rightarrow> nat list) \<Rightarrow> bool" where
  "lists_ok s th ls \<longleftrightarrow> (\<forall>q. listed (next_producers s) (producer_list_head (queues s q)) (ls q)) \<and>
     (\<forall>q q'. q \<noteq> q' \<longrightarrow> set (ls q) \<inter> set (ls q') = {}) \<and>
     (\<forall>t p q. making (pc (th t)) = Some p \<longrightarrow> p \<notin> set (ls q)) \<and>
     (\<forall>t q v p h. pc (th t) = GP_CasHead q v p h \<longrightarrow> next_producers s p = Some h)"

definition structure_ok :: "'a sc_shared \<Rightarrow> ('t \<Rightarrow> 'a sc_thread) \<Rightarrow> bool" where
  "structure_ok s th \<longleftrightarrow> (\<forall>p P. producers s p = Some P \<longrightarrow> blocks_ok P) \<and> (\<exists>ls. lists_ok s th ls)"

lemma listed_cong: "(\<And>p. p \<in> set ps \<Longrightarrow> nx' p = nx p) \<Longrightarrow> listed nx' r ps = listed nx r ps"
  using chained_cong[of ps nx' nx] by (cases r) (simp_all add: listed_def)

lemma listed_alloc: "listed nx r ps \<Longrightarrow> p \<in> set ps \<Longrightarrow> nx p \<noteq> None"
  using chained_alloc[of nx ps p] by (auto simp: listed_def split: option.splits)

lemma listed_Cons: "nx p = Some r \<Longrightarrow> listed nx r ps \<Longrightarrow> listed nx (Some p) (p # ps)"
  by (cases ps) (auto simp: listed_def split: option.splits)

text \<open>A thread that makes no new producer, or leaves the one it makes alone.\<close>

definition quiet :: "'a sc_pc \<Rightarrow> 'a sc_pc \<Rightarrow> bool" where
  "quiet at at' \<longleftrightarrow> (making at' = None \<or> making at' = making at) \<and> (\<forall>q v p h. at' \<noteq> GP_CasHead q v p h)"

definition keeps_structure :: "('t \<Rightarrow> 'a sc_thread) \<Rightarrow> 't \<Rightarrow> ('t, 'a) sc_result \<Rightarrow> bool" where
  "keeps_structure th t r \<longleftrightarrow> (\<forall>s' T' act. r = Some (s', T', act) \<longrightarrow> structure_ok s' (th(t := T')))"

lemma lists_ok_quiet:
  assumes ok: "lists_ok s th ls" and s': "queues s' = queues s" "\<And>p. producers s p \<noteq> None \<Longrightarrow> next_producers s' p = next_producers s p"
    and T': "quiet (pc (th t)) (pc T')"
  shows "lists_ok s' (th(t := T')) ls"
proof -
  have alloc: "producers s p \<noteq> None" if "p \<in> set (ls q)" for p q
    using ok that listed_alloc[of "next_producers s" _ "ls q" p] unfolding lists_ok_def by (auto simp: next_producers_def)
  have "listed (next_producers s') (producer_list_head (queues s q)) (ls q)" for q
  proof -
    have "listed (next_producers s') (producer_list_head (queues s q)) (ls q) = listed (next_producers s) (producer_list_head (queues s q)) (ls q)"
      by (rule listed_cong) (use alloc s'(2) in blast)
    then show ?thesis using ok unfolding lists_ok_def by blast
  qed
  moreover have "p \<notin> set (ls q)" if "making (pc ((th(t := T')) u)) = Some p" for u p q
  proof -
    have "making (pc (th u)) = Some p" using that T' unfolding quiet_def by (cases "u = t") auto
    then show ?thesis using ok unfolding lists_ok_def by blast
  qed
  moreover have "next_producers s' p = Some h" if "pc ((th(t := T')) u) = GP_CasHead q v p h" for u q v p h
  proof -
    have "pc (th u) = GP_CasHead q v p h" using that T' unfolding quiet_def by (cases "u = t") auto
    then have "next_producers s p = Some h" using ok unfolding lists_ok_def by blast
    then show ?thesis using s'(2)[of p] by (auto simp: next_producers_def)
  qed
  ultimately show ?thesis using ok s'(1) unfolding lists_ok_def by auto
qed

lemma structure_local:
  assumes "structure_ok s th" "quiet (pc (th t)) (pc T')"
  shows "keeps_structure th t (Some (s, T', act))"
  using assms lists_ok_quiet[of s th _ s t T'] unfolding keeps_structure_def structure_ok_def by blast

lemma structure_go: "structure_ok s th \<Longrightarrow> quiet (pc (th t)) at \<Longrightarrow> keeps_structure th t (go s (th t) at)"
  unfolding go_def by (rule structure_local) simp_all

lemma structure_producer:
  assumes ok: "structure_ok s th" and P: "producers s p = Some P" "next_producer P' = next_producer P" "blocks_ok P'"
    and T': "quiet (pc (th t)) (pc T')"
  shows "keeps_structure th t (Some (set_producer s p P', T', act))"
proof -
  obtain ls where ls: "lists_ok s th ls" using ok unfolding structure_ok_def by blast
  have "lists_ok (set_producer s p P') (th(t := T')) ls"
    by (rule lists_ok_quiet[OF ls _ _ T']) (use P in \<open>auto simp: set_producer_def next_producers_def\<close>)
  moreover have "blocks_ok Q" if "producers (set_producer s p P') p' = Some Q" for p' Q
    using that ok P(3) unfolding structure_ok_def by (auto simp: set_producer_def split: if_splits)
  ultimately show ?thesis unfolding keeps_structure_def structure_ok_def by blast
qed

lemma structure_producer_go:
  assumes "structure_ok s th" "producers s p = Some P" "next_producer P' = next_producer P" "blocks_ok P'" "quiet (pc (th t)) at"
  shows "keeps_structure th t (go (set_producer s p P') (th t) at)"
  unfolding go_def by (rule structure_producer[OF assms(1-4)]) (simp add: assms(5))

section \<open>Every step keeps the lists\<close>

lemma keeps_structure_None [simp]: "keeps_structure th t None"
  by (simp add: keeps_structure_def)

lemma keeps_structure_bind: "(\<And>x. m = Some x \<Longrightarrow> keeps_structure th t (f x)) \<Longrightarrow> keeps_structure th t (Option.bind m f)"
  by (cases m) simp_all

lemma keeps_structure_if:
  "(b \<Longrightarrow> keeps_structure th t x) \<Longrightarrow> (\<not> b \<Longrightarrow> keeps_structure th t y) \<Longrightarrow> keeps_structure th t (if b then x else y)"
  by simp

lemma keeps_structure_option:
  "(m = None \<Longrightarrow> keeps_structure th t x) \<Longrightarrow> (\<And>v. m = Some v \<Longrightarrow> keeps_structure th t (f v)) \<Longrightarrow>
    keeps_structure th t (case m of None \<Rightarrow> x | Some v \<Rightarrow> f v)"
  by (cases m) simp_all

lemmas keeps_structure_intros = keeps_structure_bind keeps_structure_if keeps_structure_option

text \<open>A slot of a block that the index has is written.\<close>

lemma structure_slot:
  assumes st: "structure_ok s th" and P: "producers s p = Some P" and b: "block_no P k = Some b" "k < 65536" "sq_blocks P b = Some B"
    and B': "next_block B' = next_block B" and T': "quiet (pc (th t)) (pc T')"
  shows "keeps_structure th t (Some (set_producer s p (P\<lparr>sq_blocks := (sq_blocks P)(b \<mapsto> B')\<rparr>), T', act))"
proof -
  have "blocks_ok P" using st P unfolding structure_ok_def by blast
  then have "blocks_ok (set_slot P b B')" using b B' by (rule blocks_ok_slot)
  then show ?thesis using structure_producer[OF st P, of "set_slot P b B'" t T' act] T' by (simp add: set_slot_def)
qed

lemma claimed_at_small:
  assumes "prod_ok P vs" "claimed_at P i c"
  shows "i div 32 < 65536"
  using assms prod_okD(2-4)[OF assms(1)] unfolding claimed_at_def by (simp add: div_less_iff_less_mult)

lemma structure_dequeue_from:
  assumes ok: "sc_ok s th vals" and st: "structure_ok s th" and "\<not> making_producer (pc (th t))"
  shows "keeps_structure th t (Simple_DequeueFrom_step t weak throws s (th t) (pc (th t)))"
proof -
  have T: "thread_ok s vals (th t)" by (rule sc_okD(1)[OF ok])
  have blocks: "blocks_ok P" if "producers s p = Some P" for p P using st that unfolding structure_ok_def by blast
  have at: "\<exists>k < 65536. block_no P k = Some b" if P: "producers s p = Some P" and w: "pc (th t) = SD_Move p w b \<or> pc (th t) = SD_Destroy p w b r" for p P w b r
  proof -
    obtain c where "claimed_at P (unat w) c" "block_no P (unat w div 32) = Some b"
      using T P w unfolding thread_ok_def by auto
    then show ?thesis using claimed_at_small[OF sc_okD(4)[OF ok P]] by blast
  qed
  show ?thesis
  proof (cases "pc (th t)")
    case (SD_Cas p start i w)
    have "keeps_structure th t (Some (set_producer s p (P\<lparr>head_index := w + 1\<rparr>), (th t)\<lparr>pc := SD_Load p w\<rparr>, Claimed t p))"
      if "producers s p = Some P" for P
      by (rule structure_producer[OF st that]) (use blocks_ok_cong[OF blocks[OF that]] in \<open>auto simp: quiet_def\<close>)
    then show ?thesis using SD_Cas by (auto intro!: keeps_structure_intros structure_go[OF st] simp: quiet_def)
  next
    case (SD_Move p w b)
    show ?thesis unfolding SD_Move Simple_DequeueFrom_step.simps
    proof (intro keeps_structure_intros)
      fix P B x
      assume P: "producers s p = Some P" and B: "sq_blocks P b = Some B" and x: "Block_move B (unat (w AND (word_of_nat 32 - 1))) = Some x"
      obtain k where k: "k < 65536" "block_no P k = Some b" using at[OF P, of w b] SD_Move by blast
      obtain v B' where B': "x = (v, B')" "next_block B' = next_block B" using x by (cases x) (auto simp: Block_move_def split: cell.splits)
      show "keeps_structure th t (case x of (v, B) \<Rightarrow> go (set_producer s p (P\<lparr>sq_blocks := (sq_blocks P)(b \<mapsto> B)\<rparr>)) (th t)
          (SD_Destroy p w b (if throws then None else Some v)))"
        unfolding B'(1) prod.case go_def by (rule structure_slot[OF st P k(2,1) B B'(2)]) (simp add: quiet_def)
    qed
  next
    case (SD_Destroy p w b r)
    show ?thesis unfolding SD_Destroy Simple_DequeueFrom_step.simps
    proof (intro keeps_structure_intros)
      fix P B B'
      assume P: "producers s p = Some P" and B: "sq_blocks P b = Some B" and x: "Block_destroy B (unat (w AND (word_of_nat 32 - 1))) = Some B'"
      obtain k where k: "k < 65536" "block_no P k = Some b" using at[OF P, of w b r] SD_Destroy by blast
      have B': "next_block B' = next_block B" using x by (auto simp: Block_destroy_def split: cell.splits)
      show "keeps_structure th t (Some (set_producer s p (P\<lparr>sq_blocks := (sq_blocks P)(b \<mapsto> B')\<rparr>), (th t)\<lparr>pc := SC_Idle\<rparr>,
          case r of None \<Rightarrow> Dequeue_Threw t | Some v \<Rightarrow> Dequeued t v))"
        by (rule structure_slot[OF st P k(2,1) B B']) (simp add: quiet_def)
    qed
  qed (use assms(3) in \<open>auto intro!: keeps_structure_intros structure_go[OF st] simp: quiet_def\<close>)
qed

lemma structure_dequeue:
  assumes ok: "sc_ok s th vals" and st: "structure_ok s th" and pc: "\<not> making_producer (pc (th t))"
  shows "keeps_structure th t (Simple_Dequeue_step t weak throws s (th t) (pc (th t)))"
proof -
  have l: "keeps_structure th t (go s T' at)" if "quiet (pc (th t)) at" for T' at
    unfolding go_def by (rule structure_local[OF st]) (simp add: that)
  have e: "keeps_structure th t (Some (s, T', act))" if "quiet (pc (th t)) (pc T')" for T' act
    by (rule structure_local[OF st that])
  show ?thesis
  proof (cases "pc (th t)")
    case (DQ_Count q)
    then show ?thesis by (auto intro!: keeps_structure_intros l e simp: quiet_def Let_def)
  next
    case (DQ_Cache q count)
    then show ?thesis by (auto intro!: keeps_structure_intros l simp: quiet_def)
  next
    case (DQ_Walk q cur)
    then show ?thesis by (auto intro!: keeps_structure_intros l simp: quiet_def)
  next
    case (DQ_Try start i)
    then show ?thesis by (auto intro!: keeps_structure_intros l e simp: quiet_def)
  qed (use structure_dequeue_from[OF ok st pc, of weak throws] in simp_all)
qed

lemma structure_emplace:
  assumes ok: "sc_ok s th vals" and st: "structure_ok s th" and pc: "emplacing (pc (th t))"
  shows "keeps_structure th t (Simple_Emplace_step t a throws s (th t) (pc (th t)))"
proof -
  have T: "pc_ok s vals (my_producer (th t)) (pc (th t))" using sc_okD(1)[OF ok, of t] by (simp add: thread_ok_def)
  have owners: "owners_ok th" by (rule sc_okD(3)[OF ok])
  have blocks: "blocks_ok P" if "producers s p = Some P" for p P using st that unfolding structure_ok_def by blast
  have l: "keeps_structure th t (go s T' at)" if "quiet (pc (th t)) at" for T' at
    unfolding go_def by (rule structure_local[OF st]) (simp add: that)
  have e: "keeps_structure th t (Some (s, T', act))" if "quiet (pc (th t)) (pc T')" for T' act
    by (rule structure_local[OF st that])
  show ?thesis
  proof (cases "pc (th t)")
    case (SE_Tail p v)
    then show ?thesis by (auto intro!: keeps_structure_intros l e simp: quiet_def Let_def)
  next
    case (SE_Block p v w)
    show ?thesis unfolding SE_Block Simple_Emplace_step.simps
    proof (intro keeps_structure_intros)
      fix P old
      assume P: "producers s p = Some P" and a: "\<not> sq_blocks P a \<noteq> None" and old: "sq_blocks P (tail_block P) = Some old"
      have sh: "shape_ok P" by (rule prod_okD(1)[OF sc_okD(4)[OF ok P]])
      have "blocks_ok (P\<lparr>sq_blocks := (sq_blocks P)(a \<mapsto> SimpleQueueBlock_new w, tail_block P \<mapsto> old\<lparr>next_block := Some a\<rparr>), tail_block := a\<rparr>)"
        using blocks_ok_append[OF blocks[OF P] _ old sh, of a w] a by simp
      then show "keeps_structure th t (go (set_producer s p (P\<lparr>sq_blocks := (sq_blocks P)(a \<mapsto> SimpleQueueBlock_new w,
          tail_block P \<mapsto> old\<lparr>next_block := Some a\<rparr>), tail_block := a\<rparr>)) (th t) (SE_Index p v w a))"
        by (intro structure_producer_go[OF st P]) (simp_all add: quiet_def)
    qed (auto intro: l simp: quiet_def)
  next
    case (SE_Index p v w b)
    show ?thesis unfolding SE_Index Simple_Emplace_step.simps
    proof (intro keeps_structure_intros)
      fix P index
      assume P: "producers s p = Some P" and store: "BlockIndex_store (blocks_at P) (w div word_of_nat 32) b = Some index"
      obtain base where w: "tail_index P = w" "tail_of P mod 32 = 0" "0 < tail_of P" "tail_of P < 65536 * 32"
        "sq_blocks P b = Some (SimpleQueueBlock_new base)" and my: "my_producer (th t) = Some p" using T P SE_Index by auto
      have pr: "prod_ok P (vals p)" by (rule sc_okD(4)[OF ok P])
      have idx: "unat (w div word_of_nat 32) = tail_of P div 32" using w(1) by (simp add: unat_div_32 tail_of_def)
      have "filling (pc (th u)) \<noteq> Some p" for u
      proof (cases "u = t")
        case False
        then have "my_producer (th u) \<noteq> Some p" using owners_okD(1)[OF owners] my by blast
        moreover have "pc_ok s vals (my_producer (th u)) (pc (th u))" using sc_okD(1)[OF ok, of u] by (simp add: thread_ok_def)
        ultimately show ?thesis by (cases "pc (th u)") auto
      qed (simp add: SE_Index)
      then have first: "raw_at P (tail_of P)" using sc_okD(6)[OF ok P w(4)] by blast
      have tail: "tail_of P div 32 * 32 = tail_of P" using w(2) by auto
      have "raw_at P (unat (w div word_of_nat 32) * 32 + j)" if j: "j < 32" for j
      proof (cases "j = 0")
        case True
        then show ?thesis using first idx tail by simp
      next
        case False
        have "tail_of P + j < 65536 * 32" using w(2,4) j by presburger
        then show ?thesis using prod_okD(7)[OF pr, of "tail_of P + j"] False idx tail by simp
      qed
      moreover have "0 < tail_of P div 32" using w(2,3) by presburger
      ultimately have "blocks_ok (P\<lparr>blocks_at := index\<rparr>)"
        using blocks_ok_index[OF blocks[OF P] prod_okD(1)[OF pr] _ _ store _ w(5)] idx w(4) by (simp add: div_less_iff_less_mult)
      then show "keeps_structure th t (go (set_producer s p (P\<lparr>blocks_at := index\<rparr>)) (th t) (SE_Construct p v w b))"
        by (intro structure_producer_go[OF st P]) (simp_all add: quiet_def)
    qed
  next
    case (SE_Construct p v w b)
    show ?thesis unfolding SE_Construct Simple_Emplace_step.simps
    proof (intro keeps_structure_intros)
      fix P B B'
      assume P: "producers s p = Some P" and B: "sq_blocks P b = Some B" and x: "Block_construct B (unat (w AND (word_of_nat 32 - 1))) v = Some B'"
      have "at_tail P w b" using T P SE_Construct by auto
      then have k: "block_no P (tail_of P div 32) = Some b" "tail_of P div 32 < 65536" by (simp_all add: at_tail_def div_less_iff_less_mult)
      have "next_block B' = next_block B" using x by (auto simp: Block_construct_def split: cell.splits)
      then show "keeps_structure th t (go (set_producer s p (P\<lparr>sq_blocks := (sq_blocks P)(b \<mapsto> B')\<rparr>)) (th t) (SE_Commit p v w b))"
        unfolding go_def by (intro structure_slot[OF st P k B]) (simp_all add: quiet_def)
    qed (auto intro: e simp: quiet_def)
  next
    case (SE_Commit p v w b)
    show ?thesis unfolding SE_Commit Simple_Emplace_step.simps
    proof (intro keeps_structure_intros)
      fix P B
      assume P: "producers s p = Some P" and B: "sq_blocks P b = Some B"
      have "at_tail P w b" using T P SE_Commit by auto
      then have k: "block_no P (tail_of P div 32) = Some b" "tail_of P div 32 < 65536" by (simp_all add: at_tail_def div_less_iff_less_mult)
      show "keeps_structure th t (go (set_producer s p (P\<lparr>sq_blocks := (sq_blocks P)(b \<mapsto>
          B\<lparr>committed := (committed B)[unat (w AND (word_of_nat 32 - 1)) := True]\<rparr>)\<rparr>)) (th t) (SE_Publish p v w))"
        unfolding go_def by (intro structure_slot[OF st P k B]) (simp_all add: quiet_def)
    qed
  next
    case (SE_Publish p v w)
    have "keeps_structure th t (Some (set_producer s p (P\<lparr>tail_index := w + 1\<rparr>), (th t)\<lparr>pc := SC_Idle\<rparr>, Published t p v))"
      if "producers s p = Some P" for P
      by (rule structure_producer[OF st that]) (use blocks_ok_cong[OF blocks[OF that]] in \<open>auto simp: quiet_def\<close>)
    then show ?thesis using SE_Publish by (auto intro!: keeps_structure_intros)
  qed (use pc in simp_all)
qed

lemma structure_making:
  fixes th :: "'t \<Rightarrow> 'a sc_thread"
  assumes ok: "sc_ok s th vals" and st: "structure_ok s th" and pc: "making_producer (pc (th t))"
  shows "keeps_structure th t (Simple_GetOrCreateProducer_step t a weak s (th t) (pc (th t)))"
proof -
  obtain ls where ls: "lists_ok s th ls" using st unfolding structure_ok_def by blast
  have owners: "owners_ok th" by (rule sc_okD(3)[OF ok])
  have blocks: "blocks_ok P" if "producers s p = Some P" for p P using st that unfolding structure_ok_def by blast
  have l: "keeps_structure th t (go s T' at)" if "quiet (pc (th t)) at" for T' at
    unfolding go_def by (rule structure_local[OF st]) (simp add: that)
  have e: "keeps_structure th t (Some (s, T', act))" if "quiet (pc (th t)) (pc T')" for T' act
    by (rule structure_local[OF st that])
  have alloc: "producers s p \<noteq> None" if "p \<in> set (ls q)" for p q
    using ls that listed_alloc[of "next_producers s" _ "ls q" p] unfolding lists_ok_def by (auto simp: next_producers_def)
  show ?thesis
  proof (cases "pc (th t)")
    case (GP_Check q v)
    then show ?thesis by (auto intro!: keeps_structure_intros l simp: quiet_def)
  next
    case (GP_Count q v)
    then show ?thesis by (auto intro!: l simp: quiet_def)
  next
    case (GP_CasCount q v count)
    have "structure_ok (set_queue s q ((queues s q)\<lparr>producer_count := count + 1\<rparr>)) (th(t := (th t)\<lparr>pc := GP_New q v\<rparr>))"
    proof -
      let ?s = "set_queue s q ((queues s q)\<lparr>producer_count := count + 1\<rparr>)"
      have heads: "producer_list_head (queues ?s q') = producer_list_head (queues s q')" for q' by (simp add: set_queue_def)
      have nx: "next_producers ?s = next_producers s" by (simp add: next_producers_def set_queue_def)
      have "lists_ok ?s (th(t := (th t)\<lparr>pc := GP_New q v\<rparr>)) ls"
        using lists_ok_quiet[OF ls refl refl, of t "(th t)\<lparr>pc := GP_New q v\<rparr>"] heads nx unfolding lists_ok_def by (simp add: quiet_def)
      then show ?thesis using st unfolding structure_ok_def by (auto simp: set_queue_def)
    qed
    then have "keeps_structure th t (go (set_queue s q ((queues s q)\<lparr>producer_count := count + 1\<rparr>)) (th t) (GP_New q v))"
      unfolding keeps_structure_def go_def by simp
    then show ?thesis using GP_CasCount by (auto intro!: l e simp: quiet_def)
  next
    case (GP_New q v)
    show ?thesis unfolding GP_New Simple_GetOrCreateProducer_step.simps
    proof (intro keeps_structure_intros)
      fix P :: "'a sq_producer"
      assume a: "producers s a = None" and P: "SimpleQueueProducer_new = Some P"
      let ?s = "set_producer s a P" and ?th = "th(t := (th t)\<lparr>pc := GP_Head q v a\<rparr>)"
      have nx: "next_producers ?s p = next_producers s p" if "producers s p \<noteq> None" for p
        using that a by (auto simp: next_producers_def set_producer_def)
      have fresh: "a \<notin> set (ls q')" for q' using alloc[of a q'] a by auto
      have "lists_ok ?s (th(t := (th t)\<lparr>pc := GP_New q v\<rparr>)) ls"
        by (rule lists_ok_quiet[OF ls _ nx]) (simp_all add: set_producer_def quiet_def)
      then have "lists_ok ?s ?th ls" using fresh unfolding lists_ok_def by (auto split: if_splits)
      moreover have "blocks_ok R" if "producers ?s p = Some R" for p R
        using that blocks blocks_ok_new[OF P] by (auto simp: set_producer_def split: if_splits)
      ultimately show "keeps_structure th t (go ?s (th t) (GP_Head q v a))"
        unfolding keeps_structure_def go_def structure_ok_def by auto
    qed (use GP_New in \<open>auto intro: l simp: quiet_def\<close>)
  next
    case (GP_Head q v p)
    then show ?thesis by (auto intro!: l simp: quiet_def)
  next
    case (GP_SetNext q v p h)
    show ?thesis unfolding GP_SetNext Simple_GetOrCreateProducer_step.simps
    proof (intro keeps_structure_intros)
      fix P
      assume P: "producers s p = Some P"
      let ?P = "P\<lparr>next_producer := h\<rparr>"
      let ?s = "set_producer s p ?P" and ?th = "th(t := (th t)\<lparr>pc := GP_CasHead q v p h\<rparr>)"
      have mine: "making (pc (th t)) = Some p" using GP_SetNext by simp
      then have out: "p \<notin> set (ls q')" for q' using ls unfolding lists_ok_def by blast
      have nx: "next_producers ?s r = (if r = p then Some h else next_producers s r)" for r
        by (auto simp: next_producers_def set_producer_def)
      have "listed (next_producers ?s) (producer_list_head (queues s q')) (ls q') =
          listed (next_producers s) (producer_list_head (queues s q')) (ls q')" for q'
        by (rule listed_cong) (use out nx in auto)
      then have "listed (next_producers ?s) (producer_list_head (queues ?s q')) (ls q')" for q'
        using ls unfolding lists_ok_def by (simp add: set_producer_def)
      moreover have "r \<notin> set (ls q')" if "making (pc (?th u)) = Some r" for u r q'
        using that out ls unfolding lists_ok_def by (cases "u = t") auto
      moreover have "next_producers ?s r = Some g" if "pc (?th u) = GP_CasHead q' v' r g" for u q' v' r g
      proof (cases "u = t")
        case False
        then have u: "pc (th u) = GP_CasHead q' v' r g" using that by simp
        then have "r \<noteq> p" using owners_okD(2)[OF owners, of u r t] mine False by auto
        then show ?thesis using u ls nx unfolding lists_ok_def by auto
      qed (use that nx in auto)
      ultimately have "lists_ok ?s ?th ls" using ls unfolding lists_ok_def by blast
      moreover have "blocks_ok R" if "producers ?s r = Some R" for r R
        using that blocks blocks_ok_cong[OF blocks[OF P], of ?P] by (auto simp: set_producer_def split: if_splits)
      ultimately show "keeps_structure th t (go ?s (th t) (GP_CasHead q v p h))"
        unfolding keeps_structure_def go_def structure_ok_def by auto
    qed
  next
    case (GP_CasHead q v p h)
    show ?thesis
    proof (cases "\<not> weak \<and> producer_list_head (queues s q) = h")
      case True
      let ?s = "set_queue s q ((queues s q)\<lparr>producer_list_head := Some p\<rparr>)"
      let ?T = "(th t)\<lparr>my_producer := Some p, my_producer_owner_id := q, pc := SE_Tail p v\<rparr>"
      let ?ls = "ls(q := p # ls q)"
      have mine: "making (pc (th t)) = Some p" using GP_CasHead by simp
      then have out: "p \<notin> set (ls q')" for q' using ls unfolding lists_ok_def by blast
      have nx: "next_producers ?s = next_producers s" by (simp add: next_producers_def set_queue_def)
      have "next_producers s p = Some h" using ls GP_CasHead unfolding lists_ok_def by blast
      moreover have "listed (next_producers s) h (ls q)" using ls True unfolding lists_ok_def by blast
      ultimately have "listed (next_producers s) (Some p) (p # ls q)" by (rule listed_Cons)
      then have "listed (next_producers ?s) (producer_list_head (queues ?s q')) (?ls q')" for q'
        using ls nx unfolding lists_ok_def by (simp add: set_queue_def)
      moreover have "set (?ls q1) \<inter> set (?ls q2) = {}" if "q1 \<noteq> q2" for q1 q2
        using that ls out unfolding lists_ok_def by auto
      moreover have "r \<notin> set (?ls q')" if "making (pc ((th(t := ?T)) u)) = Some r" for u r q'
      proof -
        have u: "u \<noteq> t" "making (pc (th u)) = Some r" using that by (auto split: if_splits)
        then have "r \<noteq> p" using owners_okD(2)[OF owners u(2), of t] mine by auto
        then show ?thesis using u ls unfolding lists_ok_def by auto
      qed
      moreover have "next_producers ?s r = Some g" if "pc ((th(t := ?T)) u) = GP_CasHead q' v' r g" for u q' v' r g
        using that ls unfolding nx lists_ok_def by (auto split: if_splits)
      ultimately have "lists_ok ?s (th(t := ?T)) ?ls" unfolding lists_ok_def by blast
      then have "structure_ok ?s (th(t := ?T))" using st unfolding structure_ok_def by (auto simp: set_queue_def)
      then show ?thesis using True GP_CasHead unfolding keeps_structure_def by (auto simp: go_def)
    next
      case False
      then show ?thesis using GP_CasHead by (auto intro!: l simp: quiet_def)
    qed
  qed (use pc in simp_all)
qed

section \<open>Every step keeps both invariants\<close>

definition sc_rel_lists :: "('t, 'a) sc_system \<Rightarrow> ('t, 'a) sc_spec_state \<Rightarrow> bool" where
  "sc_rel_lists s f \<longleftrightarrow> sc_rel s f \<and> structure_ok (fst s) (snd s)"

lemma structure_step:
  assumes ok: "sc_ok s th vals" and st: "structure_ok s th" and step: "sc_step (s, th) e = Some ((s', th'), act)"
  shows "structure_ok s' th'"
proof -
  have result: ?thesis
    if "keeps_structure th t r" "Option.bind r (\<lambda>(s', T, act). Some ((s', th(t := T)), act)) = Some ((s', th'), act)" for t r
    using that unfolding keeps_structure_def by (auto simp: bind_eq_Some_conv)
  have call: "keeps_structure th t (Some (s, T', act))" if "making (pc T') = None" "\<forall>q v p h. pc T' \<noteq> GP_CasHead q v p h" for t T' act
    by (rule structure_local[OF st]) (use that in \<open>simp add: quiet_def\<close>)
  show ?thesis
  proof (cases e)
    case (SC_Emplace t q v)
    then show ?thesis using step st call[of "(th t)\<lparr>pc := GP_Check q v\<rparr>" t SC_Tau] unfolding keeps_structure_def by (auto split: if_splits)
  next
    case (SC_Dequeue t q)
    then show ?thesis using step st call[of "(th t)\<lparr>pc := DQ_Count q\<rparr>" t SC_Tau] unfolding keeps_structure_def by (auto split: if_splits)
  next
    case (SC_Step t a weak throws)
    have "keeps_structure th t (sc_thread_step t a weak throws s (th t))"
      using structure_making[OF ok st] structure_emplace[OF ok st] structure_dequeue[OF ok st] unfolding sc_thread_step_def by presburger
    then show ?thesis using step by (intro result[of t]) (simp_all add: SC_Step)
  qed
qed

lemma sc_rel_lists_step:
  assumes "sc_rel_lists s f"
  shows "\<exists>s' act f'. sc_step s e = Some (s', act) \<and> fifo_family f act = Some f' \<and> sc_rel_lists s' f'"
proof -
  have rel: "sc_rel s f" and st: "structure_ok (fst s) (snd s)" using assms by (simp_all add: sc_rel_lists_def)
  obtain s' act f' where step: "sc_step s e = Some (s', act)" "fifo_family f act = Some f'" "sc_rel s' f'"
    using sc_rel_step[OF rel] by blast
  obtain vals where "sc_ok (fst s) (snd s) vals" using rel by (auto simp: sc_rel_def)
  then have "structure_ok (fst s') (snd s')" using structure_step[OF _ st] step(1) by simp
  then show ?thesis using step unfolding sc_rel_lists_def by blast
qed

interpretation scl: lock_step sc_step fifo_family sc_rel_lists
  by unfold_locales (rule sc_rel_lists_step)

lemma sc_rel_lists_new: "sc_rel_lists sc_new (\<lambda>_. [], \<lambda>_. None)"
proof -
  have "lists_ok (fst sc_new) (snd sc_new) (\<lambda>_. [])"
    by (simp add: lists_ok_def sc_new_def SimpleConcurrentQueue_new_def sc_thread_new_def listed_def)
  then have "structure_ok (fst sc_new) (snd sc_new)" unfolding structure_ok_def by (auto simp: sc_new_def)
  then show ?thesis using sc_rel_new by (simp add: sc_rel_lists_def)
qed

section \<open>The destructor of a producer\<close>

text \<open>The slots from \<open>h\<close> to \<open>t\<close> hold an element, the others none.\<close>

definition live_between :: "'a sq_producer \<Rightarrow> nat \<Rightarrow> nat \<Rightarrow> bool" where
  "live_between P h t \<longleftrightarrow> shape_ok P \<and> blocks_ok P \<and> h \<le> t \<and> t \<le> 65536 * 32 \<and>
     (\<forall>i. h \<le> i \<and> i < t \<longrightarrow> (\<exists>v f. cell_at P i = Some (Live v, f))) \<and>
     (\<forall>i < 65536 * 32. i < h \<or> t \<le> i \<longrightarrow> raw_at P i)"

lemma set_slot_twice [simp]: "set_slot (set_slot P b B) b B' = set_slot P b B'"
  by (simp add: set_slot_def)

lemma destroy_first:
  assumes live: "live_between P h t" and h: "h < t" and b: "block_no P (h div 32) = Some b" "sq_blocks P b = Some B"
  obtains B' where "Block_destroy B (h mod 32) = Some B'" "live_between (set_slot P b B') (Suc h) t"
proof -
  have sh: "shape_ok P" and bl: "blocks_ok P" and small: "h < 65536 * 32" using live h unfolding live_between_def by auto
  obtain v f where v: "cell_at P h = Some (Live v, f)" using live h unfolding live_between_def by auto
  let ?B = "B\<lparr>storage := (storage B)[h mod 32 := Raw]\<rparr>"
  have wr: "slot_written B (h mod 32) Raw (committed B ! (h mod 32)) ?B" by (rule slot_written_storage)
  note W = set_slot_correct[OF sh b(1) small b(2) wr]
  have "Block_destroy B (h mod 32) = Some ?B" using v b by (simp add: Block_destroy_def cell_at_def)
  moreover have "blocks_ok (set_slot P b ?B)" by (rule blocks_ok_slot[OF bl b(1) _ b(2)]) (use small in \<open>simp_all add: div_less_iff_less_mult\<close>)
  moreover have "raw_at (set_slot P b ?B) i" if "i < 65536 * 32" "i < Suc h \<or> t \<le> i" for i
    using W(2)[OF that(1)] that live h unfolding live_between_def raw_at_def by (cases "i = h") auto
  moreover have "\<exists>v f. cell_at (set_slot P b ?B) i = Some (Live v, f)" if "Suc h \<le> i" "i < t" for i
    using W(2)[of i] that live unfolding live_between_def by auto
  ultimately show thesis using that[of ?B] W(1) live h unfolding live_between_def by auto
qed

lemma word_next_unat: "unat (w :: 64 word) < unat (v :: 64 word) \<Longrightarrow> unat (w + 1) = Suc (unat w)"
proof -
  assume "unat w < unat v"
  moreover have "unat v < 2 ^ LENGTH(64)" by (rule unsigned_less)
  ultimately show ?thesis by (simp add: unat_word_ariths)
qed

lemma destroy_slots_correct:
  assumes "live_between P (unat index) t" "unat block_end \<le> t" "index \<le> block_end" "block_no P k = Some b" "sq_blocks P b = Some B"
    and "\<And>i. unat index \<le> i \<Longrightarrow> i < unat block_end \<Longrightarrow> i div 32 = k"
  shows "\<exists>B'. destroy_slots B index block_end = Some (B', block_end) \<and> live_between (set_slot P b B') (unat block_end) t"
  using assms
proof (induction "unat block_end - unat index" arbitrary: P B index)
  case 0
  then have "index = block_end" by (simp add: word_le_nat_alt word_unat_eq_iff)
  moreover have "set_slot P b B = P" using "0.prems"(5) by (simp add: set_slot_def fun_upd_idem)
  ultimately show ?case using "0.prems" by (simp add: destroy_slots.simps)
next
  case (Suc n)
  then have less: "unat index < unat block_end" by simp
  then have next_index: "unat (index + 1) = Suc (unat index)" by (rule word_next_unat)
  have k: "unat index div 32 = k" using Suc.prems(6) less by simp
  obtain B1 where B1: "Block_destroy B (unat index mod 32) = Some B1" "live_between (set_slot P b B1) (Suc (unat index)) t"
    using destroy_first[OF Suc.prems(1)] less Suc.prems(2,4,5) k by (metis order_less_le_trans)
  have "\<exists>B'. destroy_slots B1 (index + 1) block_end = Some (B', block_end) \<and> live_between (set_slot (set_slot P b B1) b B') (unat block_end) t"
  proof (rule Suc.hyps(1))
    show "n = unat block_end - unat (index + 1)" using Suc.hyps(2) next_index by simp
    show "live_between (set_slot P b B1) (unat (index + 1)) t" using B1(2) next_index by simp
    show "index + 1 \<le> block_end" using less next_index by (simp add: word_le_nat_alt)
    show "i div 32 = k" if "unat (index + 1) \<le> i" "i < unat block_end" for i using Suc.prems(6)[of i] that next_index by simp
  qed (use Suc.prems in simp_all)
  then show ?case using B1(1) less by (subst destroy_slots.simps) (simp add: word_less_nat_alt unat_and_31)
qed


lemma live_between_twice: "live_between (P\<lparr>sq_blocks := m\<rparr>) h t \<Longrightarrow> blocks_at P = blocks_at P' \<Longrightarrow> tail_block P = tail_block P' \<Longrightarrow>
    live_between (P'\<lparr>sq_blocks := m\<rparr>) h t"
  unfolding live_between_def shape_ok_def blocks_ok_def chain_ok_def orphans_raw_def raw_at_def cell_at_def block_no_def by simp

lemma destroy_elements_correct:
  assumes "live_between P (unat index) (unat tail)"
  shows "\<exists>m. destroy_elements (sq_blocks P) (blocks_at P) index tail = Some m \<and> dom m = dom (sq_blocks P) \<and>
    live_between (P\<lparr>sq_blocks := m\<rparr>) (unat tail) (unat tail)"
  using assms
proof (induction "unat tail - unat index" arbitrary: P index rule: less_induct)
  case less
  have sh: "shape_ok P" and le: "unat index \<le> unat tail" "unat tail \<le> 65536 * 32" using less.prems unfolding live_between_def by simp_all
  show ?case
  proof (cases "index < tail")
    case False
    then have "unat index = unat tail" using le(1) by (simp add: word_less_nat_alt)
    then show ?thesis using False less.prems by (subst destroy_elements.simps) simp
  next
    case True
    let ?k = "unat index div 32"
    have lt: "unat index < unat tail" using True by (simp add: word_less_nat_alt)
    obtain v f where "cell_at P (unat index) = Some (Live v, f)" using less.prems lt unfolding live_between_def by auto
    then obtain b B where b: "block_no P ?k = Some b" "sq_blocks P b = Some B" by (rule cell_at_block)
    have k: "?k < 65536" using lt le(2) by (simp add: div_less_iff_less_mult)
    have load: "BlockIndex_load (blocks_at P) (index div 32) = Some (Some b)"
      using BlockIndex_load_nat[OF shape_okD(1)[OF sh], of "index div 32"] k b(1) by (simp add: unat_div_32)
    define block_end :: "64 word" where "block_end = (index div 32 + 1) * 32"
    define stop where "stop = (if block_end > tail then tail else block_end)"
    have be: "unat block_end = (?k + 1) * 32" using k by (simp add: block_end_def unat_word_ariths unat_div_32)
    have st: "unat stop = min (unat tail) ((?k + 1) * 32)" using be by (auto simp: stop_def word_less_nat_alt)
    have ahead: "unat index < (?k + 1) * 32" using dividend_less_div_times[of 32 "unat index"] by simp
    have up: "unat index < unat stop" using st lt ahead by simp
    obtain B' where B': "destroy_slots B index stop = Some (B', stop)" "live_between (set_slot P b B') (unat stop) (unat tail)"
    proof -
      have "\<exists>B'. destroy_slots B index stop = Some (B', stop) \<and> live_between (set_slot P b B') (unat stop) (unat tail)"
        by (rule destroy_slots_correct[OF less.prems _ _ b]) (use st up in \<open>auto simp: word_le_nat_alt min_less_iff_conj intro!: div_nat_eqI\<close>)
      then show thesis using that by blast
    qed
    have "unat tail - unat stop < unat tail - unat index" using up lt by simp
    from less.hyps[OF this B'(2)] obtain m where m: "destroy_elements ((sq_blocks P)(b \<mapsto> B')) (blocks_at P) stop tail = Some m"
      "dom m = dom (sq_blocks P)" "live_between ((set_slot P b B')\<lparr>sq_blocks := m\<rparr>) (unat tail) (unat tail)" using b(2) by (auto simp: insert_absorb domI)
    have "destroy_elements (sq_blocks P) (blocks_at P) index tail = Some m"
      using True load b(2) B'(1) m(1) unfolding stop_def block_end_def
      by (subst destroy_elements.simps) (auto simp: Let_def split: if_splits)
    moreover have "live_between (P\<lparr>sq_blocks := m\<rparr>) (unat tail) (unat tail)" using m(3) by (rule live_between_twice) simp_all
    ultimately show ?thesis using m(2) by blast
  qed
qed

lemma blocks_raw:
  assumes live: "live_between P n n" and B: "sq_blocks P b = Some B"
  shows "storage B = replicate 32 Raw"
proof (cases "\<exists>k < 65536. block_no P k = Some b")
  case True
  then obtain k where k: "k < 65536" "block_no P k = Some b" by blast
  show ?thesis
  proof (rule raw_block[OF _ k(2,1) B])
    show "raw_at P (k * 32 + j)" if "j < 32" for j
      using live k(1) that unfolding live_between_def by (cases "k * 32 + j < n") auto
  qed (use live in \<open>simp add: live_between_def\<close>)
next
  case False
  then show ?thesis using live B unfolding live_between_def blocks_ok_def orphans_raw_def by blast
qed

lemma free_blocks_chain:
  "chained (next_blocks m) (b # bs) \<Longrightarrow>
    free_blocks m (Some b) freed = Some (m |` (- set (b # bs)), rev (map (the \<circ> m) (b # bs)) @ freed)"
proof (induction bs arbitrary: m b freed)
  case Nil
  then obtain B where "m b = Some B" "next_block B = None" by (auto simp: next_blocks_def)
  then show ?case by (simp add: free_blocks.simps restrict_map_def fun_upd_def fun_eq_iff)
next
  case (Cons c bs)
  obtain B where B: "m b = Some B" "next_block B = Some c" using Cons.prems by (auto simp: next_blocks_def)
  have b: "b \<notin> set (c # bs)" using chained_distinct[OF Cons.prems] by simp
  have "chained (next_blocks (m(b := None))) (c # bs) = chained (next_blocks m) (c # bs)"
    by (rule chained_cong) (use b in \<open>auto simp: next_blocks_def\<close>)
  moreover have "chained (next_blocks m) (c # bs)" using Cons.prems by simp
  ultimately have "chained (next_blocks (m(b := None))) (c # bs)" by (simp only:)
  then have "free_blocks (m(b := None)) (Some c) (B # freed) =
      Some ((m(b := None)) |` (- set (c # bs)), rev (map (the \<circ> m(b := None)) (c # bs)) @ B # freed)"
    by (rule Cons.IH)
  moreover have "(m(b := None)) |` (- set (c # bs)) = m |` (- set (b # c # bs))" by (auto simp: restrict_map_def fun_eq_iff)
  moreover have "map (the \<circ> m(b := None)) (c # bs) = map (the \<circ> m) (c # bs)" using b by auto
  ultimately show ?case using B by (subst free_blocks.simps) simp
qed

text \<open>Every block of the producer is freed, and holds no element then.\<close>

definition all_freed :: "'a sq_producer \<Rightarrow> (nat \<rightharpoonup> 'a sq_block) \<times> 'a sq_block list \<Rightarrow> bool" where
  "all_freed P left \<longleftrightarrow> fst left = Map.empty \<and> length (snd left) = card (dom (sq_blocks P)) \<and>
     (\<forall>B \<in> set (snd left). storage B = replicate SC_BLOCK_SIZE Raw)"


lemma SimpleQueueProducer_destroy_correct:
  assumes live: "live_between P (head_of P) (tail_of P)"
  obtains left where "SimpleQueueProducer_destroy P = Some left" "all_freed P left"
proof -
  obtain m where m: "destroy_elements (sq_blocks P) (blocks_at P) (head_index P) (tail_index P) = Some m"
    and m_dom: "dom m = dom (sq_blocks P)" and raw: "live_between (P\<lparr>sq_blocks := m\<rparr>) (tail_of P) (tail_of P)"
    using destroy_elements_correct[of P "head_index P" "tail_index P"] live by (auto simp: head_of_def tail_of_def)
  let ?P = "P\<lparr>sq_blocks := m\<rparr>"
  have no: "block_no ?P = block_no P" by (simp add: block_no_def fun_eq_iff)
  obtain bs where bs: "chained (next_blocks m) bs" "block_no P 0 = Some (hd bs)" "set bs = dom m"
    using raw unfolding live_between_def blocks_ok_def chain_ok_def no by auto
  obtain b cs where cons: "bs = b # cs" using bs(1) by (cases bs) auto
  have "BlockIndex_load (blocks_at P) 0 = Some (block_no P 0)"
    using BlockIndex_load_nat[of P 0] live by (simp add: live_between_def shape_ok_def)
  then have destroyed: "SimpleQueueProducer_destroy P = Some (m |` (- set bs), rev (map (the \<circ> m) bs) @ [])"
    using free_blocks_chain[of m b cs "[]"] bs m by (simp add: SimpleQueueProducer_destroy_def cons)
  have "length bs = card (dom (sq_blocks P))" using distinct_card[OF chained_distinct[OF bs(1)]] bs(3) m_dom by simp
  moreover have "storage (the (m c)) = replicate 32 Raw" if "c \<in> set bs" for c
    using blocks_raw[OF raw, of c "the (m c)"] that bs(3) by auto
  moreover have "m |` (- set bs) = Map.empty" using bs(3) by (auto simp: restrict_map_def fun_eq_iff)
  ultimately have "all_freed P (m |` (- set bs), rev (map (the \<circ> m) bs) @ [])" by (auto simp: all_freed_def)
  then show thesis using that destroyed by blast
qed

section \<open>The destructor of a queue\<close>

lemma free_producers_listed:
  assumes "listed (next_producers s) r ps" "\<And>p P. p \<in> set ps \<Longrightarrow> producers s p = Some P \<Longrightarrow> live_between P (head_of P) (tail_of P)"
  shows "\<exists>lefts. free_producers s r remains = Some (s\<lparr>producers := producers s |` (- set ps)\<rparr>, rev lefts @ remains) \<and>
    list_all2 (\<lambda>p left. all_freed (the (producers s p)) left) ps lefts"
  using assms
proof (induction ps arbitrary: s r remains)
  case Nil
  then have "r = None" by (auto simp: listed_def split: option.splits)
  then show ?case by (simp add: free_producers.simps restrict_map_def)
next
  case (Cons p ps)
  have r: "r = Some p" and chain: "chained (next_producers s) (p # ps)" using Cons.prems(1) by (auto simp: listed_def split: option.splits)
  obtain P where P: "producers s p = Some P" "listed (next_producers s) (next_producer P) ps"
    using chain by (cases ps) (auto simp: next_producers_def listed_def)
  have p: "p \<notin> set ps" using chained_distinct[OF chain] by simp
  obtain left where left: "SimpleQueueProducer_destroy P = Some left" "all_freed P left"
    by (rule SimpleQueueProducer_destroy_correct[OF Cons.prems(2)[OF _ P(1)]]) simp
  let ?s = "s\<lparr>producers := (producers s)(p := None)\<rparr>"
  have "listed (next_producers ?s) (next_producer P) ps = listed (next_producers s) (next_producer P) ps"
    by (rule listed_cong) (use p in \<open>auto simp: next_producers_def\<close>)
  then have list: "listed (next_producers ?s) (next_producer P) ps" using P(2) by simp
  have "\<exists>lefts. free_producers ?s (next_producer P) (left # remains) =
      Some (?s\<lparr>producers := producers ?s |` (- set ps)\<rparr>, rev lefts @ left # remains) \<and>
    list_all2 (\<lambda>p left. all_freed (the (producers ?s p)) left) ps lefts"
    by (rule Cons.IH[OF list]) (use Cons.prems(2) in \<open>auto split: if_splits\<close>)
  then obtain lefts where lefts: "free_producers ?s (next_producer P) (left # remains) =
      Some (?s\<lparr>producers := producers ?s |` (- set ps)\<rparr>, rev lefts @ left # remains)"
    "list_all2 (\<lambda>p left. all_freed (the (producers ?s p)) left) ps lefts" by blast
  have "list_all2 (\<lambda>p left. all_freed (the (producers s p)) left) ps lefts"
    by (rule list.rel_mono_strong[OF lefts(2)]) (use p in \<open>auto split: if_splits\<close>)
  moreover have "(producers s)(p := None) |` (- set ps) = producers s |` (- set (p # ps))" by (auto simp: restrict_map_def fun_eq_iff)
  ultimately show ?case using P(1) left lefts(1) r by (subst free_producers.simps) (intro exI[of _ "left # lefts"], simp)
qed

lemma idle_producer:
  assumes ok: "sc_ok s th vals" and st: "structure_ok s th" and idle: "\<forall>t. pc (th t) = SC_Idle" and P: "producers s p = Some P"
  shows "live_between P (head_of P) (tail_of P)"
proof -
  note D = prod_okD[OF sc_okD(4)[OF ok P]]
  have "raw_at P i" if i: "i < 65536 * 32" "i < head_of P \<or> tail_of P \<le> i" for i
  proof (cases "i < head_of P")
    case True
    then show ?thesis using sc_okD(7)[OF ok P] idle by simp
  next
    case False
    then consider "i = tail_of P" | "tail_of P < i" using i(2) by linarith
    then show ?thesis using sc_okD(6)[OF ok P] D(7)[of i] idle i(1) by cases simp_all
  qed
  then show ?thesis using D st P unfolding live_between_def structure_ok_def by auto
qed


text \<open>C29: When no thread is in a call, the destructor of a queue ends without undefined behaviour,
  whatever has happened before: every element left is destroyed once, every block of every producer of
  the queue is freed once, with no element in it, the producers of the queue are freed and nothing
  else is, the thread that destroys forgets its producer, and the lists of the other queues are intact.\<close>

theorem SimpleConcurrentQueue_destroyed:
  fixes es :: "('t, 'a) sc_event list"
  assumes "run_steps sc_step sc_new es = Some (as, s, th)" and "\<forall>t. pc (th t) = SC_Idle"
  shows "\<exists>ls s' T' remains. (\<forall>q. listed (next_producers s) (producer_list_head (queues s q)) (ls q)) \<and>
     SimpleConcurrentQueue_destroy q s (th t) = Some (s', T', remains) \<and>
     s' = s\<lparr>producers := producers s |` (- set (ls q))\<rparr> \<and>
     list_all2 (\<lambda>p. all_freed (the (producers s p))) (rev (ls q)) remains \<and>
     (\<forall>q'. q' \<noteq> q \<longrightarrow> listed (next_producers s') (producer_list_head (queues s' q')) (ls q')) \<and>
     (my_producer_owner_id T' = q \<longrightarrow> q = 0 \<and> my_producer T' = None)"
proof -
  obtain f where f: "sc_rel_lists (s, th) f" by (rule scl.run_reaches[OF sc_rel_lists_new assms(1)])
  then obtain vals where ok: "sc_ok s th vals" and st: "structure_ok s th" by (auto simp: sc_rel_lists_def sc_rel_def)
  obtain ls where ls: "lists_ok s th ls" using st unfolding structure_ok_def by blast
  then have lists: "listed (next_producers s) (producer_list_head (queues s q')) (ls q')" for q' unfolding lists_ok_def by blast
  obtain lefts where lefts: "free_producers s (producer_list_head (queues s q)) [] =
      Some (s\<lparr>producers := producers s |` (- set (ls q))\<rparr>, rev lefts @ [])"
    "list_all2 (\<lambda>p left. all_freed (the (producers s p)) left) (ls q) lefts"
    using free_producers_listed[OF lists[of q], of "[]"] idle_producer[OF ok st assms(2)] by blast
  let ?s = "s\<lparr>producers := producers s |` (- set (ls q))\<rparr>"
  have others: "listed (next_producers ?s) (producer_list_head (queues ?s q')) (ls q')" if "q' \<noteq> q" for q'
  proof -
    have "set (ls q') \<inter> set (ls q) = {}" using ls that unfolding lists_ok_def by blast
    then have "listed (next_producers ?s) (producer_list_head (queues s q')) (ls q') =
        listed (next_producers s) (producer_list_head (queues s q')) (ls q')"
      by (intro listed_cong) (auto simp: next_producers_def restrict_map_def)
    then show ?thesis using lists by simp
  qed
  have "list_all2 (\<lambda>p. all_freed (the (producers s p))) (rev (ls q)) (rev lefts)" using lefts(2) by simp
  with others lists lefts(1) show ?thesis unfolding SimpleConcurrentQueue_destroy_def
    by (intro exI[of _ ls] exI[of _ ?s] exI[of _ "if my_producer_owner_id (th t) = q
      then (th t)\<lparr>my_producer := None, my_producer_owner_id := 0\<rparr> else th t"] exI[of _ "rev lefts"]) simp
qed

text \<open>A thread has enqueued 7, which is left in the queue.\<close>

definition one_left :: "(nat, nat) sc_event list" where
  "one_left = SC_Emplace 0 1 7 # replicate 11 (SC_Step 0 5 False False)"

lemma one_left_run:
  "\<exists>as s th. run_steps sc_step sc_new one_left = Some (as, s, th) \<and> (\<forall>t. pc (th t) = SC_Idle) \<and>
     producer_list_head (queues s 1) = Some 5 \<and> map_option next_producer (producers s 5) = Some None"
  by (simp add: one_left_def numeral_eq_Suc sc_new_def sc_thread_new_def SimpleConcurrentQueue_new_def sc_thread_step_def go_def Let_def
      SimpleQueueProducer_new_def BlockIndex_new_def BlockIndex_store_def seg_of_def slot_of_def set_producer_def set_queue_def
      SimpleQueueBlock_new_def Block_construct_def)

theorem SimpleConcurrentQueue_destroyed_witness:
  "\<exists>as s th s' T' left. run_steps sc_step sc_new one_left = Some (as, s, th) \<and>
     SimpleConcurrentQueue_destroy 1 s (th 0) = Some (s', T', [left]) \<and> producers s' 5 = None \<and> all_freed (the (producers s 5)) left"
proof -
  obtain as s th where run: "run_steps sc_step sc_new one_left = Some (as, s, th)" and idle: "\<forall>t. pc (th t) = SC_Idle"
    and head: "producer_list_head (queues s 1) = Some 5" "next_producers s 5 = Some None"
    using one_left_run by (auto simp: next_producers_def)
  from SimpleConcurrentQueue_destroyed[OF run idle, of 1 0] obtain ls s' T' remains where
    ls: "listed (next_producers s) (producer_list_head (queues s 1)) (ls 1)" and
    destroyed: "SimpleConcurrentQueue_destroy 1 s (th 0) = Some (s', T', remains)" "s' = s\<lparr>producers := producers s |` (- set (ls 1))\<rparr>"
    "list_all2 (\<lambda>p. all_freed (the (producers s p))) (rev (ls 1)) remains" by (elim exE conjE) (rule that, erule spec, assumption+)
  have "chained (next_producers s) [5]" using head(2) by simp
  then have "ls 1 = [5]" using ls head(1) chained_unique[of "next_producers s" 5 "[]"] by (cases "ls 1") (auto simp: listed_def)
  then show ?thesis using run destroyed by (auto simp: list_all2_Cons1)
qed

end
