(* ===== verification/Plane_Geometry.thy ===== *)
theory Plane_Geometry
  imports Range_Tree Imt_Map_Set
begin

text \<open>
  Points, circles, segments and polygons (common.h, point_circle.h, edge_polygon.h).  The coordinates
  are of any type with the operations of \<open>double\<close>; no law of arithmetic is assumed, so that the definitions
  make sense for an arithmetic that rounds.  The literals 2.0 and 0.5 are \<open>1 + 1\<close> and \<open>1 / (1 + 1)\<close>, which
  binary floating point computes exactly; \<open>std::sqrt\<close>, the conversion to \<open>int\<close>, \<open>std::sort\<close> and
  \<open>std::shuffle\<close> are parameters, and so are the constants \<open>kPi\<close> and \<open>kEpsilon\<close>, which the program may set.
\<close>

section \<open>Comparisons\<close>

text \<open>Equality of \<open>double\<close> values, \<open>std::min\<close> and \<open>std::max\<close>.\<close>

definition deq :: "'d::ord \<Rightarrow> 'd \<Rightarrow> bool" where
  "deq a b \<longleftrightarrow> a \<le> b \<and> b \<le> a"

definition std_min :: "'d::ord \<Rightarrow> 'd \<Rightarrow> 'd" where
  "std_min a b = (if b < a then b else a)"

definition std_max :: "'d::ord \<Rightarrow> 'd \<Rightarrow> 'd" where
  "std_max a b = (if a < b then b else a)"

definition Geometry_Exception :: "string \<Rightarrow> exn" where
  "Geometry_Exception m = Runtime_Error m"

(* common.h:31-37 CompareDouble *)
definition CompareDouble :: "'d::{minus,abs,zero,ord} \<Rightarrow> 'd \<Rightarrow> 'd \<Rightarrow> int" where
  "CompareDouble eps a b = (let diff = a - b in if \<bar>diff\<bar> < eps then 0 else if diff > 0 then 1 else - 1)"

(* common.h:39-41 IsZero *)
definition IsZero :: "'d::{abs,ord} \<Rightarrow> 'd \<Rightarrow> bool" where
  "IsZero eps a \<longleftrightarrow> \<bar>a\<bar> < eps"

(* common.h:43-47 Position *)
datatype position = kCollinear | kLeft | kRight

section \<open>Points\<close>

(* point_circle.h:8-12 Point *)
record 'd point =
  px :: 'd
  py :: 'd

(* point_circle.h:35-39 operator+ *)
definition Point_add :: "'d::plus point \<Rightarrow> 'd point \<Rightarrow> 'd point" where
  "Point_add p q = \<lparr>px = px p + px q, py = py p + py q\<rparr>"

(* point_circle.h:41-45 operator- *)
definition Point_sub :: "'d::minus point \<Rightarrow> 'd point \<Rightarrow> 'd point" where
  "Point_sub p q = \<lparr>px = px p - px q, py = py p - py q\<rparr>"

(* point_circle.h:47-51 operator* *)
definition Point_scale :: "'d::times point \<Rightarrow> 'd \<Rightarrow> 'd point" where
  "Point_scale p k = \<lparr>px = px p * k, py = py p * k\<rparr>"

(* point_circle.h:53-55 operator< *)
definition Point_less :: "'d::ord point \<Rightarrow> 'd point \<Rightarrow> bool" where
  "Point_less p q \<longleftrightarrow> px p < px q \<or> deq (px p) (px q) \<and> py p < py q"

(* point_circle.h:57-60 operator== *)
definition Point_equal :: "'d::{minus,abs,ord} \<Rightarrow> 'd point \<Rightarrow> 'd point \<Rightarrow> bool" where
  "Point_equal eps p q \<longleftrightarrow> \<bar>px p - px q\<bar> < eps \<and> \<bar>py p - py q\<bar> < eps"

(* point_circle.h:62-62 Dot *)
definition Point_Dot :: "'d::{plus,times} point \<Rightarrow> 'd point \<Rightarrow> 'd" where
  "Point_Dot p q = px p * px q + py p * py q"

(* point_circle.h:63-63 Cross *)
definition Point_Cross :: "'d::{minus,times} point \<Rightarrow> 'd point \<Rightarrow> 'd" where
  "Point_Cross p q = px p * py q - py p * px q"

(* point_circle.h:64-64 LengthSquared *)
definition Point_LengthSquared :: "'d::{plus,times} point \<Rightarrow> 'd" where
  "Point_LengthSquared p = px p * px p + py p * py p"

(* point_circle.h:65-65 Length *)
definition Point_Length :: "('d \<Rightarrow> 'd) \<Rightarrow> 'd::{plus,times} point \<Rightarrow> 'd" where
  "Point_Length sqrt p = sqrt (Point_LengthSquared p)"

(* point_circle.h:67-74 Normalize *)
definition Point_Normalize :: "('d \<Rightarrow> 'd) \<Rightarrow> 'd::{plus,times,inverse,zero,one,ord} \<Rightarrow> 'd point \<Rightarrow> 'd point" where
  "Point_Normalize sqrt eps p =
     (let len_sq = Point_LengthSquared p in
      if len_sq > eps * eps
      then let inv_len = 1 / sqrt len_sq in \<lparr>px = px p * inv_len, py = py p * inv_len\<rparr>
      else \<lparr>px = 0, py = 0\<rparr>)"

(* point_circle.h:76-76 DistanceTo *)
definition Point_DistanceTo :: "('d \<Rightarrow> 'd) \<Rightarrow> 'd::{plus,minus,times} point \<Rightarrow> 'd point \<Rightarrow> 'd" where
  "Point_DistanceTo sqrt p q = Point_Length sqrt (Point_sub p q)"

(* point_circle.h:77-77 DistanceSquaredTo *)
definition Point_DistanceSquaredTo :: "'d::{plus,minus,times} point \<Rightarrow> 'd point \<Rightarrow> 'd" where
  "Point_DistanceSquaredTo p q = Point_LengthSquared (Point_sub p q)"

(* point_circle.h:80-83 Collinear *)
definition Collinear :: "'d::{minus,times,abs,ord} \<Rightarrow> 'd point \<Rightarrow> 'd point \<Rightarrow> 'd point \<Rightarrow> bool" where
  "Collinear eps a b c = IsZero eps (Point_Cross (Point_sub b a) (Point_sub c a))"

section \<open>Circles\<close>

(* point_circle.h:85-87 Circle *)
record 'd circle =
  center :: "'d point"
  radius :: 'd

(* point_circle.h:89-89 Circle *)
definition Circle_new :: "'d::abs point \<Rightarrow> 'd \<Rightarrow> 'd circle" where
  "Circle_new c r = \<lparr>center = c, radius = \<bar>r\<bar>\<rparr>"

(* point_circle.h:91-92 Circle *)
definition Circle_diametral :: "('d \<Rightarrow> 'd) \<Rightarrow> 'd::{plus,minus,times,inverse,one} point \<Rightarrow> 'd point \<Rightarrow> 'd circle" where
  "Circle_diametral sqrt p1 p2 =
     (let c = Point_scale (Point_add p1 p2) (1 / (1 + 1)) in \<lparr>center = c, radius = Point_Length sqrt (Point_sub p1 c)\<rparr>)"

(* point_circle.h:94-96 Contains *)
definition Circle_Contains :: "'d::{plus,minus,times,ord} \<Rightarrow> 'd circle \<Rightarrow> 'd point \<Rightarrow> bool" where
  "Circle_Contains eps c p \<longleftrightarrow> Point_LengthSquared (Point_sub p (center c)) \<le> radius c * radius c + eps"

(* point_circle.h:98-102 OnBoundary *)
definition Circle_OnBoundary :: "'d::{plus,minus,times,abs,one,ord} \<Rightarrow> 'd circle \<Rightarrow> 'd point \<Rightarrow> bool" where
  "Circle_OnBoundary eps c p =
     (let dist_sq = Point_LengthSquared (Point_sub p (center c)); radius_sq = radius c * radius c
      in \<bar>dist_sq - radius_sq\<bar> < eps * std_max 1 radius_sq)"

(* point_circle.h:104-104 Area *)
definition Circle_Area :: "'d::times \<Rightarrow> 'd circle \<Rightarrow> 'd" where
  "Circle_Area kPi c = kPi * radius c * radius c"

(* point_circle.h:105-105 Circumference *)
definition Circle_Circumference :: "'d::{plus,times,one} \<Rightarrow> 'd circle \<Rightarrow> 'd" where
  "Circle_Circumference kPi c = (1 + 1) * kPi * radius c"

(* point_circle.h:108-134 FindMinimumEnclosingCircleThroughThreePoints *)
definition EnclosingCircleThroughThreePoints ::
    "('d \<Rightarrow> 'd) \<Rightarrow> 'd::{plus,minus,times,inverse,abs,one,ord} \<Rightarrow> 'd point \<Rightarrow> 'd point \<Rightarrow> 'd point \<Rightarrow> 'd circle res" where
  "EnclosingCircleThroughThreePoints sqrt eps p1 p2 p3 =
     (if Collinear eps p1 p2 p3 then Inl (Geometry_Exception ''Points are collinear, cannot form a circle'')
      else
        let x1 = px p1; y1 = py p1; x2 = px p2; y2 = py p2; x3 = px p3; y3 = py p3;
            d = (1 + 1) * (x1 * (y2 - y3) + x2 * (y3 - y1) + x3 * (y1 - y2))
        in if IsZero eps d then Inl (Geometry_Exception ''Points are collinear, cannot form a circle'')
           else
             let ux = ((x1 * x1 + y1 * y1) * (y2 - y3) + (x2 * x2 + y2 * y2) * (y3 - y1) + (x3 * x3 + y3 * y3) * (y1 - y2)) / d;
                 uy = ((x1 * x1 + y1 * y1) * (x3 - x2) + (x2 * x2 + y2 * y2) * (x1 - x3) + (x3 * x3 + y3 * y3) * (x2 - x1)) / d;
                 c = \<lparr>px = ux, py = uy\<rparr>
             in Inr (Circle_new c (Point_DistanceTo sqrt c p1)))"

(* point_circle.h:136-146 FindMinimumEnclosingCircleWithTwoBoundaryPoints *)
definition EnclosingCircleWithTwoBoundaryPoints ::
    "('d \<Rightarrow> 'd) \<Rightarrow> 'd::{plus,minus,times,inverse,abs,one,ord} \<Rightarrow> 'd point list \<Rightarrow> 'd point \<Rightarrow> 'd point \<Rightarrow> 'd circle res" where
  "EnclosingCircleWithTwoBoundaryPoints sqrt eps points p1 p2 =
     foldE (\<lambda>c p. if \<not> Circle_Contains eps c p then EnclosingCircleThroughThreePoints sqrt eps p1 p2 p else Inr c)
       (Circle_diametral sqrt p1 p2) points"

(* point_circle.h:148-158 FindMinimumEnclosingCircleWithBoundaryPoint *)
definition EnclosingCircleWithBoundaryPoint ::
    "('d \<Rightarrow> 'd) \<Rightarrow> 'd::{plus,minus,times,inverse,abs,one,ord} \<Rightarrow> 'd point list \<Rightarrow> 'd point \<Rightarrow> 'd circle res" where
  "EnclosingCircleWithBoundaryPoint sqrt eps points q =
     (if points = [] then Inl Undefined_Behaviour
      else foldE (\<lambda>c i. if \<not> Circle_Contains eps c (points ! i)
                        then EnclosingCircleWithTwoBoundaryPoints sqrt eps (take i points) (points ! i) q else Inr c)
             (Circle_diametral sqrt (points ! 0) q) [1..<length points])"

text \<open>\<open>shuffle\<close> is what \<open>std::shuffle\<close> makes of the points; the result has the points in their new order.\<close>

(* point_circle.h:160-177 FindMinimumEnclosingCircle *)
definition FindMinimumEnclosingCircle ::
    "('d \<Rightarrow> 'd) \<Rightarrow> 'd::{plus,minus,times,inverse,abs,one,ord} \<Rightarrow> ('d point list \<Rightarrow> 'd point list) \<Rightarrow> 'd point list \<Rightarrow> 'd circle \<Rightarrow>
      (bool \<times> 'd point list \<times> 'd circle) res" where
  "FindMinimumEnclosingCircle sqrt eps shuffle points circle =
     (let sz = length points in
      if sz < 2 then Inr (False, points, circle)
      else let points = shuffle points in
        bindE (foldE (\<lambda>c i. if \<not> Circle_Contains eps c (points ! i)
                            then EnclosingCircleWithBoundaryPoint sqrt eps (take i points) (points ! i) else Inr c)
                 (Circle_diametral sqrt (points ! 0) (points ! 1)) [2..<sz])
          (\<lambda>c. Inr (True, points, c)))"

(* point_circle.h:179-190 CheckMinimumEnclosingCircle *)
definition CheckMinimumEnclosingCircle :: "'d::{plus,minus,times,ord} \<Rightarrow> 'd point list \<Rightarrow> 'd circle \<Rightarrow> bool" where
  "CheckMinimumEnclosingCircle eps points circle = list_all (Circle_Contains eps circle) points"

section \<open>Segments\<close>

text \<open>On which side of the line from \<open>a\<close> to \<open>b\<close> the point \<open>c\<close> is.\<close>

(* edge_polygon.h:27-37 PointLinePosition *)
definition PointLinePosition :: "'d::{minus,times,abs,zero,ord} \<Rightarrow> 'd point \<Rightarrow> 'd point \<Rightarrow> 'd point \<Rightarrow> position" where
  "PointLinePosition eps a b c =
     (let sign = CompareDouble eps (Point_Cross (Point_sub b a) (Point_sub c a)) 0
      in if sign > 0 then kLeft else if sign < 0 then kRight else kCollinear)"

(* edge_polygon.h:40-43 Segment *)
record 'd segment =
  seg_start :: "'d point"
  seg_end :: "'d point"
  length_cached :: 'd

(* edge_polygon.h:46-46 Segment *)
definition Segment_new :: "'d::{uminus,one} point \<Rightarrow> 'd point \<Rightarrow> 'd segment" where
  "Segment_new s e = \<lparr>seg_start = s, seg_end = e, length_cached = - 1\<rparr>"

(* edge_polygon.h:48-67 Contains *)
definition Segment_Contains :: "'d::{plus,minus,times,inverse,abs,zero,one,ord} \<Rightarrow> 'd segment \<Rightarrow> 'd point \<Rightarrow> bool" where
  "Segment_Contains eps g p =
     (let s = seg_start g; e = seg_end g in
      if \<not> Collinear eps s e p then False
      else
        let dx = px e - px s; dy = py e - py s in
        if IsZero eps dx then IsZero eps (px p - px s) \<and> py p \<ge> std_min (py s) (py e) \<and> py p \<le> std_max (py s) (py e)
        else if IsZero eps dy then IsZero eps (py p - py s) \<and> px p \<ge> std_min (px s) (px e) \<and> px p \<le> std_max (px s) (px e)
        else let t = (px p - px s) / dx in t \<ge> 0 \<and> t \<le> 1 \<and> IsZero eps (py p - (py s + t * dy)))"

text \<open>The length is computed once and kept in the segment.\<close>

(* edge_polygon.h:69-74 Length *)
definition Segment_Length :: "('d \<Rightarrow> 'd) \<Rightarrow> 'd::{plus,minus,times,zero,ord} segment \<Rightarrow> 'd \<times> 'd segment" where
  "Segment_Length sqrt g =
     (let g = (if length_cached g < 0 then g\<lparr>length_cached := Point_Length sqrt (Point_sub (seg_end g) (seg_start g))\<rparr> else g)
      in (length_cached g, g))"

(* edge_polygon.h:76-78 LengthSquared *)
definition Segment_LengthSquared :: "'d::{plus,minus,times} segment \<Rightarrow> 'd" where
  "Segment_LengthSquared g = Point_LengthSquared (Point_sub (seg_end g) (seg_start g))"

(* edge_polygon.h:83-85 MidPoint *)
definition Segment_MidPoint :: "'d::{plus,times,inverse,one} segment \<Rightarrow> 'd point" where
  "Segment_MidPoint g = Point_scale (Point_add (seg_start g) (seg_end g)) (1 / (1 + 1))"

(* edge_polygon.h:87-94 DistanceToLine *)
definition Segment_DistanceToLine ::
    "('d \<Rightarrow> 'd) \<Rightarrow> 'd::{plus,minus,times,inverse,abs,zero,ord} \<Rightarrow> 'd segment \<Rightarrow> 'd point \<Rightarrow> 'd res \<times> 'd segment" where
  "Segment_DistanceToLine sqrt eps g p =
     (let area = \<bar>Point_Cross (Point_sub p (seg_start g)) (Point_sub (seg_end g) (seg_start g))\<bar>;
          (len, g) = Segment_Length sqrt g
      in (if IsZero eps len then Inl (Geometry_Exception ''Segment has zero length'') else Inr (area / len), g))"

(* edge_polygon.h:96-112 DistanceToPoint *)
definition Segment_DistanceToPoint ::
    "('d \<Rightarrow> 'd) \<Rightarrow> 'd::{plus,minus,times,inverse,abs,zero,ord} \<Rightarrow> 'd segment \<Rightarrow> 'd point \<Rightarrow> 'd res \<times> 'd segment" where
  "Segment_DistanceToPoint sqrt eps g p =
     (let vec_se = Point_sub (seg_end g) (seg_start g); vec_sp = Point_sub p (seg_start g); vec_ep = Point_sub p (seg_end g);
          dot_se_sp = Point_Dot vec_se vec_sp; dot_se_ep = Point_Dot vec_se vec_ep
      in if dot_se_sp \<le> 0 then (Inr (Point_Length sqrt vec_sp), g)
         else if dot_se_ep \<ge> 0 then (Inr (Point_Length sqrt vec_ep), g)
         else Segment_DistanceToLine sqrt eps g p)"

text \<open>
  \<open>to_int\<close> is the conversion of a \<open>double\<close> to the \<open>int\<close> bounds of an interval; it is undefined (\<open>None\<close>)
  out of the range of \<open>int\<close>.
\<close>

(* edge_polygon.h:115-120 Intersects *)
definition bounds_of :: "('d \<Rightarrow> int option) \<Rightarrow> 'd::ord \<Rightarrow> 'd \<Rightarrow> interval option" where
  "bounds_of to_int a b =
     Option.bind (to_int (std_min a b)) (\<lambda>lo. Option.bind (to_int (std_max a b)) (\<lambda>hi. Some (Interval_new lo hi)))"

(* edge_polygon.h:126-129 Intersects *)
definition orientation :: "'d::{minus,times,abs,zero,ord} \<Rightarrow> 'd point \<Rightarrow> 'd point \<Rightarrow> 'd point \<Rightarrow> int" where
  "orientation eps a b c = CompareDouble eps ((py b - py a) * (px c - px b) - (px b - px a) * (py c - py b)) 0"

(* edge_polygon.h:114-152 Intersects *)
definition Segment_Intersects ::
    "('d \<Rightarrow> int option) \<Rightarrow> 'd::{plus,minus,times,inverse,abs,zero,one,ord} \<Rightarrow> 'd segment \<Rightarrow> 'd segment \<Rightarrow> bool option" where
  "Segment_Intersects to_int eps this other =
     (let s = seg_start this; e = seg_end this; s' = seg_start other; e' = seg_end other in
      Option.bind (bounds_of to_int (px s) (px e)) (\<lambda>this_x. Option.bind (bounds_of to_int (py s) (py e)) (\<lambda>this_y.
      Option.bind (bounds_of to_int (px s') (px e')) (\<lambda>other_x. Option.bind (bounds_of to_int (py s') (py e')) (\<lambda>other_y.
        if \<not> Interval_Intersects this_x other_x \<or> \<not> Interval_Intersects this_y other_y then Some False
        else
          let o1 = orientation eps s e s'; o2 = orientation eps s e e'; o3 = orientation eps s' e' s; o4 = orientation eps s' e' e
          in Some (if o1 \<noteq> o2 \<and> o3 \<noteq> o4 then True
                   else if o1 = 0 \<and> Segment_Contains eps this s' then True
                   else if o2 = 0 \<and> Segment_Contains eps this e' then True
                   else if o3 = 0 \<and> Segment_Contains eps other s then True
                   else if o4 = 0 \<and> Segment_Contains eps other e then True
                   else False))))))"

section \<open>Convex hull\<close>

text \<open>Points leave the hull from the back as long as it is longer than \<open>limit\<close> and they make no right turn.\<close>

(* edge_polygon.h:177-184 ConvexHull *)
function pop_hull :: "'d::{minus,times,abs,zero,ord} \<Rightarrow> nat \<Rightarrow> 'd point list \<Rightarrow> 'd point \<Rightarrow> 'd point list" where
  "pop_hull eps limit hull p =
     (if length hull > limit \<and>
         PointLinePosition eps (hull ! (length hull - 2)) (hull ! (length hull - 1)) p \<noteq> kRight
      then pop_hull eps limit (butlast hull) p else hull)"
  by pat_completeness auto
termination by (relation "measure (\<lambda>(eps, limit, hull, p). length hull)") auto

declare pop_hull.simps [simp del]

(* edge_polygon.h:155-192 ConvexHull *)
definition ConvexHull ::
    "('d point list \<Rightarrow> 'd point list) \<Rightarrow> 'd::{minus,times,abs,zero,ord} \<Rightarrow> 'd point list \<Rightarrow> 'd point list \<times> 'd point list" where
  "ConvexHull srt eps points =
     (if length points < 3 then (points, points)
      else let points = srt points;
               hull = foldl (\<lambda>hull p. pop_hull eps 1 hull p @ [p]) [] points;
               upper_size = length hull;
               hull = foldl (\<lambda>hull p. pop_hull eps upper_size hull p @ [p]) hull (tl (rev points))
           in (points, butlast hull))"

section \<open>Polygons\<close>

(* edge_polygon.h:194-206 SignedArea *)
definition SignedArea :: "'d::{plus,minus,times,inverse,zero,one} point list \<Rightarrow> 'd" where
  "SignedArea polygon =
     (let n = length polygon in
      if n < 3 then 0
      else foldl (\<lambda>area i. area + Point_Cross (polygon ! i) (polygon ! ((i + 1) mod n))) 0 [0..<n] * (1 / (1 + 1)))"

(* edge_polygon.h:208-210 Area *)
definition Area :: "'d::{plus,minus,times,inverse,abs,zero,one} point list \<Rightarrow> 'd" where
  "Area polygon = \<bar>SignedArea polygon\<bar>"

(* edge_polygon.h:213-216 Polygon *)
record 'd polygon =
  vertices :: "'d point list"
  area_cached :: 'd
  area_valid :: bool

(* edge_polygon.h:219-225 Polygon *)
definition Polygon_new :: "'d::{plus,minus,uminus,times,inverse,zero,one,ord} point list \<Rightarrow> 'd polygon" where
  "Polygon_new points =
     \<lparr>vertices = (if length points \<ge> 3 \<and> SignedArea points < 0 then rev points else points), area_cached = - 1, area_valid = False\<rparr>"

(* edge_polygon.h:227-227 IsValid *)
definition Polygon_IsValid :: "'d polygon \<Rightarrow> bool" where
  "Polygon_IsValid g \<longleftrightarrow> length (vertices g) \<ge> 3"

(* edge_polygon.h:231-237 Area *)
definition Polygon_Area :: "'d::{plus,minus,times,inverse,abs,zero,one} polygon \<Rightarrow> 'd \<times> 'd polygon" where
  "Polygon_Area g =
     (let g = (if \<not> area_valid g then g\<lparr>area_cached := Area (vertices g), area_valid := True\<rparr> else g)
      in (area_cached g, g))"

(* edge_polygon.h:239-249 Perimeter *)
definition Polygon_Perimeter :: "('d \<Rightarrow> 'd) \<Rightarrow> 'd::{plus,minus,times,zero} polygon \<Rightarrow> 'd" where
  "Polygon_Perimeter sqrt g =
     (let vs = vertices g; n = length vs in
      if n < 2 then 0
      else foldl (\<lambda>perimeter i. perimeter + Point_DistanceTo sqrt (vs ! i) (vs ! ((i + 1) mod n))) 0 [0..<n])"

(* edge_polygon.h:251-275 Contains *)
definition Polygon_Contains :: "'d::{plus,minus,uminus,times,inverse,abs,zero,one,ord} \<Rightarrow> 'd polygon \<Rightarrow> 'd point \<Rightarrow> bool" where
  "Polygon_Contains eps g p =
     (let vs = vertices g; n = length vs in
      if n < 3 then False
      else if list_ex (\<lambda>i. Segment_Contains eps (Segment_new (vs ! i) (vs ! ((i + 1) mod n))) p) [0..<n] then True
      else fst (foldl (\<lambda>(inside, j) i.
             let pi = vs ! i; pj = vs ! j;
                 intersects = ((py pi > py p) \<noteq> (py pj > py p) \<and>
                   px p < (px pj - px pi) * (py p - py pi) / (py pj - py pi) + px pi)
             in (if intersects then \<not> inside else inside, i)) (False, n - 1) [0..<n]))"

end
