(* ===== verification/Convex_Hull.thy ===== *)
theory Convex_Hull
  imports Plane_Geometry
begin

text \<open>
  The correctness of \<open>ConvexHull\<close> and of the orientation of polygons.  The locale \<open>half_plane\<close> is what the
  scan needs of an order of the points; it holds for the lexicographic order and for its reverse, the
  two directions of the scan.  The exact statements are for ordered rings, where the arithmetic does not
  round: that of \<open>double\<close> does not, for points whose coordinates are integers of moderate size.
\<close>

section \<open>The scan as a stack\<close>

fun pop_stack :: "'d::{minus,times,abs,zero,ord} \<Rightarrow> 'd point \<Rightarrow> 'd point list \<Rightarrow> 'd point list" where
  "pop_stack eps p (b # a # st) = (if PointLinePosition eps a b p \<noteq> kRight then pop_stack eps p (a # st) else b # a # st)"
| "pop_stack eps p st = st"

definition chain_of :: "'d::{minus,times,abs,zero,ord} \<Rightarrow> 'd point list \<Rightarrow> 'd point list" where
  "chain_of eps ps = foldl (\<lambda>st p. p # pop_stack eps p st) [] ps"

lemma pop_stack_nonempty [simp]: "pop_stack eps p st = [] \<longleftrightarrow> st = []"
  by (induction eps p st rule: pop_stack.induct) auto

lemma pop_hull_stack:
  "st \<noteq> [] \<Longrightarrow> pop_hull eps (Suc (length pre)) (pre @ rev st) p = pre @ rev (pop_stack eps p st)"
proof (induction eps p st rule: pop_stack.induct)
  case (1 eps p b a st)
  have top: "(pre @ rev (b # a # st)) ! (length (pre @ rev (b # a # st)) - 2) = a"
    "(pre @ rev (b # a # st)) ! (length (pre @ rev (b # a # st)) - 1) = b" "butlast (pre @ rev (b # a # st)) = pre @ rev (a # st)"
    by (simp_all add: nth_append butlast_append)
  show ?case
    unfolding pop_hull.simps[of eps "Suc (length pre)" "pre @ rev (b # a # st)"] top using 1 by simp
qed (simp_all add: pop_hull.simps)

lemma scan_stack:
  "st \<noteq> [] \<Longrightarrow> foldl (\<lambda>hull p. pop_hull eps (Suc (length pre)) hull p @ [p]) (pre @ rev st) ps =
    pre @ rev (foldl (\<lambda>st p. p # pop_stack eps p st) st ps)"
proof (induction ps arbitrary: st)
  case (Cons p ps)
  then have step: "pop_hull eps (Suc (length pre)) (pre @ rev st) p @ [p] = pre @ rev (p # pop_stack eps p st)"
    by (simp add: pop_hull_stack)
  show ?case unfolding foldl_Cons step by (rule Cons.IH) simp
qed simp

lemma chain_of_Cons: "chain_of eps (p # ps) = foldl (\<lambda>st p. p # pop_stack eps p st) [p] ps"
  by (simp add: chain_of_def)

lemma chain_of_snoc: "chain_of eps (ps @ [p]) = p # pop_stack eps p (chain_of eps ps)"
  by (simp add: chain_of_def)

lemma chain_of_ends:
  assumes "ps \<noteq> []"
  shows "chain_of eps ps \<noteq> []" "hd (chain_of eps ps) = last ps"
  using assms by (cases ps rule: rev_cases; simp add: chain_of_snoc)+

lemma ConvexHull_chains:
  assumes "3 \<le> length points" "srt points \<noteq> []"
  shows "ConvexHull srt eps points =
    (srt points, butlast (rev (tl (chain_of eps (srt points))) @ rev (chain_of eps (rev (srt points)))))"
proof -
  define P where "P = srt points"
  then have "P \<noteq> []" using assms(2) by simp
  then obtain p ps where P: "P = p # ps" by (cases P) auto
  have first: "foldl (\<lambda>hull p. pop_hull eps 1 hull p @ [p]) [] P = rev (chain_of eps P)"
    using scan_stack[of "[p]" eps "[]" ps] by (simp add: P chain_of_Cons pop_hull.simps[of eps "Suc 0" "[]"])
  have top: "chain_of eps P = last P # tl (chain_of eps P)" using chain_of_ends[OF \<open>P \<noteq> []\<close>, of eps] by (cases "chain_of eps P") auto
  have up: "length (rev (chain_of eps P)) = Suc (length (rev (tl (chain_of eps P))))" by (subst top) simp
  have rev_P: "rev P = last P # tl (rev P)" using \<open>P \<noteq> []\<close> by (cases P rule: rev_cases) auto
  have second: "chain_of eps (rev P) = foldl (\<lambda>st p. p # pop_stack eps p st) [last P] (tl (rev P))"
    by (subst rev_P) (rule chain_of_Cons)
  have "rev (chain_of eps P) = rev (tl (chain_of eps P)) @ rev [last P]" by (subst top) simp
  then have "foldl (\<lambda>hull p. pop_hull eps (length (rev (chain_of eps P))) hull p @ [p]) (rev (chain_of eps P)) (tl (rev P)) =
      rev (tl (chain_of eps P)) @ rev (chain_of eps (rev P))"
    unfolding up second by (simp only: scan_stack list.distinct simp_thms)
  then show ?thesis using assms(1) first unfolding ConvexHull_def Let_def P_def[symmetric] by simp
qed

section \<open>Turns\<close>

abbreviation turn :: "'d::{minus,times} point \<Rightarrow> 'd point \<Rightarrow> 'd point \<Rightarrow> 'd" where
  "turn a b c \<equiv> Point_Cross (Point_sub b a) (Point_sub c a)"

text \<open>The arithmetic is exact on the points, and the tolerance tells a turn from none.\<close>

definition exact_on :: "'d::linordered_idom \<Rightarrow> 'd point set \<Rightarrow> bool" where
  "exact_on eps A \<longleftrightarrow> 0 < eps \<and> (\<forall>a \<in> A. \<forall>b \<in> A. \<forall>c \<in> A. turn a b c = 0 \<or> eps \<le> \<bar>turn a b c\<bar>)"

lemma right_turn:
  assumes "exact_on eps A" "a \<in> A" "b \<in> A" "c \<in> A"
  shows "PointLinePosition eps a b c = kRight \<longleftrightarrow> turn a b c < 0"
proof -
  have "turn a b c = 0 \<or> eps \<le> \<bar>turn a b c\<bar>" "0 < eps" using assms unfolding exact_on_def by blast+
  then show ?thesis by (auto simp: PointLinePosition_def CompareDouble_def Let_def)
qed

lemma cross_trans_components:
  fixes a b c d e f :: "'d::linordered_idom"
  assumes u: "0 < a \<or> a = 0 \<and> 0 \<le> b" and v: "0 < c \<or> c = 0 \<and> 0 < d" and w: "0 < e \<or> e = 0 \<and> 0 \<le> f"
    and uv: "0 \<le> a * d - b * c" and vw: "0 \<le> c * f - d * e"
  shows "0 \<le> a * f - b * e"
proof (cases "0 < c")
  case True
  have "c * (a * f - b * e) = a * (c * f - d * e) + e * (a * d - b * c)" by (simp add: algebra_simps)
  moreover have "0 \<le> a * (c * f - d * e)" using u vw by (intro mult_nonneg_nonneg) auto
  moreover have "0 \<le> e * (a * d - b * c)" using w uv by (intro mult_nonneg_nonneg) auto
  ultimately show ?thesis using True by (metis add_nonneg_nonneg zero_le_mult_iff not_less order_less_imp_le order_less_irrefl)
next
  case False
  then have c: "c = 0" "0 < d" using v by auto
  then have "e \<le> 0" using vw by (simp add: mult_le_0_iff)
  then have "e = 0" "0 \<le> f" using w by auto
  moreover have "0 \<le> a" using u by auto
  ultimately show ?thesis by simp
qed

section \<open>The chain of a scan\<close>

definition null_vec :: "'d::zero point \<Rightarrow> bool" where
  "null_vec v \<longleftrightarrow> px v = 0 \<and> py v = 0"

text \<open>The edges of a stack, the last first.\<close>

fun edges :: "'d point list \<Rightarrow> ('d point \<times> 'd point) list" where
  "edges (b # a # st) = (a, b) # edges (a # st)"
| "edges st = []"

definition dir :: "'d::minus point \<times> 'd point \<Rightarrow> 'd point" where
  "dir e = Point_sub (snd e) (fst e)"


text \<open>
  \<open>pos v\<close>: the vector \<open>v\<close> points forward.  Angles between forward vectors are ordered.
\<close>

locale half_plane =
  fixes pos :: "'d::linordered_idom point \<Rightarrow> bool"
  assumes pos_total: "pos (Point_sub p q) \<or> pos (Point_sub q p)"
    and pos_antisym: "pos (Point_sub p q) \<Longrightarrow> pos (Point_sub q p) \<Longrightarrow> p = q"
    and cross_trans: "pos u \<Longrightarrow> pos v \<Longrightarrow> pos w \<Longrightarrow> \<not> null_vec v \<Longrightarrow> 0 \<le> Point_Cross u v \<Longrightarrow> 0 \<le> Point_Cross v w \<Longrightarrow>
      0 \<le> Point_Cross u w"
begin

definition le :: "'d point \<Rightarrow> 'd point \<Rightarrow> bool" where
  "le p q \<longleftrightarrow> pos (Point_sub q p)"

lemma cross_trans_neg:
  assumes "pos u" "pos v" "pos w" "\<not> null_vec v" "Point_Cross u v \<le> 0" "Point_Cross v w \<le> 0"
  shows "Point_Cross u w \<le> 0"
proof -
  have swap: "Point_Cross x y = - Point_Cross y x" for x y :: "'d point" by (simp add: Point_Cross_def)
  have "0 \<le> Point_Cross w v" "0 \<le> Point_Cross v u" using assms(5,6) swap[of w v] swap[of v u] by simp_all
  then have "0 \<le> Point_Cross w u" using cross_trans assms(1-4) by blast
  then show ?thesis using swap[of u w] by simp
qed

text \<open>The invariant of a stack for the points \<open>Q\<close> scanned so far.\<close>

definition supports :: "'d point list \<Rightarrow> 'd point list \<Rightarrow> bool" where
  "supports Q st \<longleftrightarrow> set st \<subseteq> set Q \<and> st \<noteq> [] \<and> last st = hd Q \<and>
     (\<forall>(a, b) \<in> set (edges st). le a b \<and> (\<forall>q \<in> set Q. turn a b q \<le> 0)) \<and>
     sorted_wrt (\<lambda>f e. Point_Cross (dir e) (dir f) \<le> 0) (edges st)"

text \<open>While points are popped for a point \<open>c\<close>: the points after the top are to the right of the edge to \<open>c\<close>.\<close>

definition covered :: "'d point list \<Rightarrow> 'd point \<Rightarrow> 'd point \<Rightarrow> bool" where
  "covered Q c a \<longleftrightarrow> (\<forall>q \<in> set Q. le q a \<or> turn a c q \<le> 0)"

lemma covered_pop:
  assumes "covered Q c b" "le a b" "\<forall>q \<in> set Q. turn a b q \<le> 0" "le a c" "0 \<le> turn a b c"
  shows "covered Q c a"
  unfolding covered_def
proof
  fix q assume q: "q \<in> set Q"
  show "le q a \<or> turn a c q \<le> 0"
  proof (cases "null_vec (Point_sub b a)")
    case True
    then have "b = a" by (cases a, cases b) (simp add: null_vec_def Point_sub_def)
    then show ?thesis using assms(1) q unfolding covered_def by blast
  next
    case False
    have "0 \<le> Point_Cross (Point_sub q a) (Point_sub b a)" using assms(3) q by (auto simp: Point_Cross_def algebra_simps)
    then have "le a q \<Longrightarrow> 0 \<le> Point_Cross (Point_sub q a) (Point_sub c a)"
      using cross_trans[OF _ _ _ False, of "Point_sub q a" "Point_sub c a"] assms(2,4,5) unfolding le_def by blast
    moreover have "le q a \<or> le a q" unfolding le_def by (rule pos_total)
    moreover have "turn a c q = - Point_Cross (Point_sub q a) (Point_sub c a)" by (simp add: Point_Cross_def)
    ultimately show ?thesis by auto
  qed
qed

lemma supports_pop: "supports Q (b # a # st) \<Longrightarrow> supports Q (a # st)"
  by (auto simp: supports_def)

lemma supports_popped:
  assumes "exact_on eps A" "set Q \<subseteq> A" "c \<in> A" "\<forall>q \<in> set Q. le q c"
  shows "supports Q st \<Longrightarrow> covered Q c (hd st) \<Longrightarrow>
    supports Q (pop_stack eps c st) \<and> covered Q c (hd (pop_stack eps c st)) \<and>
    (\<forall>b a r. pop_stack eps c st = b # a # r \<longrightarrow> turn a b c < 0)"
proof (induction st rule: edges.induct)
  case (1 b a st)
  have "a \<in> set Q" "b \<in> set Q" using 1(2) by (auto simp: supports_def)
  then have right: "PointLinePosition eps a b c = kRight \<longleftrightarrow> turn a b c < 0" using right_turn[OF assms(1)] assms(2,3) by blast
  show ?case
  proof (cases "turn a b c < 0")
    case True
    then show ?thesis using right 1(2,3) by simp
  next
    case False
    have "le a b" "\<forall>q \<in> set Q. turn a b q \<le> 0" using 1(2) by (auto simp: supports_def)
    then have "covered Q c a" using covered_pop[of Q c b a] 1(3) False assms(4) \<open>a \<in> set Q\<close> by simp
    then show ?thesis using 1(1) supports_pop[OF 1(2)] False right by simp
  qed
qed (simp_all add: supports_def)

lemma supports_push:
  assumes sup: "supports Q st" and cov: "covered Q c (hd st)" and fwd: "\<forall>q \<in> set Q. le q c" "\<forall>q \<in> set Q. le (hd Q) q"
    and right: "\<And>b a r. st = b # a # r \<Longrightarrow> turn a b c < 0"
  shows "supports (Q @ [c]) (c # st)"
proof -
  define b where "b = hd st"
  have st: "st \<noteq> []" "set st \<subseteq> set Q" "last st = hd Q" using sup by (auto simp: supports_def)
  then have b: "b \<in> set Q" using hd_in_set[of st] by (auto simp: b_def)
  moreover from this have "le b c" using fwd(1) by blast
  ultimately have b: "b \<in> set Q" "le b c" by simp_all
  have edges: "edges (c # st) = (b, c) # edges st" using st(1) by (cases st) (simp_all add: b_def)
  have old: "le p r" "\<And>q. q \<in> set Q \<Longrightarrow> turn p r q \<le> 0" if "(p, r) \<in> set (edges st)" for p r
    using sup that by (auto simp: supports_def)
  have dirs: "Point_Cross (dir e) (Point_sub c b) \<le> 0" if e: "e \<in> set (edges st)" for e
  proof -
    obtain a r where st': "st = b # a # r" using e by (cases st rule: edges.cases) (auto simp: b_def)
    let ?v = "Point_sub b a"
    have neg: "turn a b c < 0" by (rule right[OF st'])
    have vw: "Point_Cross ?v (Point_sub c b) < 0" using neg by (simp add: Point_Cross_def Point_sub_def algebra_simps)
    then have nz: "\<not> null_vec ?v" by (auto simp: null_vec_def Point_Cross_def)
    have sorted: "Point_Cross (dir e) ?v \<le> 0 \<or> e = (a, b)"
      using sup e st' by (auto simp: supports_def dir_def)
    have "le a b" using old(1)[of a b] st' by simp
    moreover have "pos (dir e)" using old(1)[of "fst e" "snd e"] e by (simp add: le_def dir_def)
    ultimately have "Point_Cross (dir e) ?v \<le> 0 \<Longrightarrow> ?thesis"
      using cross_trans_neg[of "dir e" ?v "Point_sub c b"] nz vw b(2) unfolding le_def by auto
    then show ?thesis using sorted vw by (auto simp: dir_def)
  qed
  have new_edge: "turn b c q \<le> 0" if q: "q \<in> set Q" for q
  proof (cases "le q b")
    case False
    then show ?thesis using cov q unfolding covered_def b_def by blast
  next
    case True
    consider (one) v where "st = [v]" | (more) b' a r where "st = b' # a # r"
      using st(1) by (cases st rule: edges.cases) auto
    then show ?thesis
    proof cases
      case (more b' a r)
      then have st': "st = b # a # r" by (simp add: b_def)
      let ?v = "Point_sub b a" and ?w = "Point_sub c b" and ?u = "Point_sub b q"
      have neg: "turn a b c < 0" by (rule right[OF st'])
      have wv: "0 < Point_Cross ?w ?v" using neg by (simp add: Point_Cross_def Point_sub_def algebra_simps)
      then have nz: "\<not> null_vec ?v" by (auto simp: null_vec_def Point_Cross_def)
      have "turn a b q \<le> 0" using old(2)[of a b q] st' q by simp
      then have vu: "0 \<le> Point_Cross ?v ?u" by (simp add: Point_Cross_def Point_sub_def algebra_simps)
      have "le a b" using old(1)[of a b] st' by simp
      then have "0 \<le> Point_Cross ?w ?u" using cross_trans[of ?w ?v ?u] nz wv vu b(2) True unfolding le_def by simp
      then show ?thesis by (simp add: Point_Cross_def Point_sub_def algebra_simps)
    next
      case (one v)
      then have "b = hd Q" using st(3) by (simp add: b_def)
      then have "q = b" using True fwd(2) q pos_antisym unfolding le_def by blast
      then show ?thesis by (simp add: Point_Cross_def Point_sub_def)
    qed
  qed
  have "turn p r c \<le> 0" if e: "(p, r) \<in> set (edges st)" for p r
  proof -
    have "turn p r c = turn p r b + Point_Cross (dir (p, r)) (Point_sub c b)"
      by (simp add: Point_Cross_def Point_sub_def dir_def algebra_simps)
    then show ?thesis using old(2)[OF e b(1)] dirs[OF e] by simp
  qed
  moreover have "turn b c c \<le> 0" by (simp add: Point_Cross_def)
  moreover have "sorted_wrt (\<lambda>f e. Point_Cross (dir e) (dir f) \<le> 0) (edges st)" using sup by (simp add: supports_def)
  moreover have "hd (Q @ [c]) = hd Q" using b(1) by (cases Q) auto
  ultimately show ?thesis
    unfolding supports_def edges using st old b(2) dirs new_edge by (auto simp: dir_def)
qed

lemma supports_chain:
  assumes "exact_on eps (set P)" "P \<noteq> []" "sorted_wrt le P"
  shows "supports P (chain_of eps P)"
proof -
  have "supports Q (chain_of eps Q)" if "Q \<noteq> []" "sorted_wrt le Q" "set Q \<subseteq> set P" for Q
    using that
  proof (induction Q rule: rev_induct)
    case (snoc c Q)
    show ?case
    proof (cases "Q = []")
      case True
      then show ?thesis by (simp add: supports_def chain_of_def)
    next
      case False
      then have IH: "supports Q (chain_of eps Q)" and fwd: "\<forall>q \<in> set Q. le q c" using snoc by (auto simp: sorted_wrt_append)
      have refl: "le p p" for p unfolding le_def using pos_total[of p p] by simp
      have top: "hd (chain_of eps Q) = last Q" by (rule chain_of_ends(2)[OF False])
      have max: "le q (last Q)" if "q \<in> set Q" for q
        using snoc.prems(2) that False refl by (cases Q rule: rev_cases) (auto simp: sorted_wrt_append)
      have min: "\<forall>q \<in> set Q. le (hd Q) q" using snoc.prems(2) False refl by (cases Q) auto
      have cov: "covered Q c (hd (chain_of eps Q))" unfolding covered_def top using max by blast
      have Qc: "set Q \<subseteq> set P" "c \<in> set P" using snoc.prems(3) by auto
      from supports_popped[OF assms(1) Qc fwd IH cov]
      show ?thesis unfolding chain_of_snoc using fwd min by (intro supports_push) auto
    qed
  qed simp
  then show ?thesis using assms(2,3) by blast
qed

end

section \<open>The two directions of the scan\<close>

definition forward :: "'d::linordered_idom point \<Rightarrow> bool" where
  "forward v \<longleftrightarrow> 0 < px v \<or> px v = 0 \<and> 0 \<le> py v"


lemma point_eqI: "px p = px q \<Longrightarrow> py p = py q \<Longrightarrow> p = (q :: 'd point)"
  by simp

interpretation fwd: half_plane forward
proof
  fix u v w :: "'a point"
  assume "forward u" "forward v" "forward w" "\<not> null_vec v" "0 \<le> Point_Cross u v" "0 \<le> Point_Cross v w"
  then show "0 \<le> Point_Cross u w"
    using cross_trans_components[of "px u" "py u" "px v" "py v" "px w" "py w"] by (auto simp: forward_def null_vec_def Point_Cross_def)
qed (auto simp: forward_def Point_sub_def intro!: point_eqI)



section \<open>The hull\<close>

text \<open>The two chains form a closed walk: the second starts where the first ends and ends where it starts.\<close>

definition walk_of :: "'d::{minus,times,abs,zero,ord} \<Rightarrow> 'd point list \<Rightarrow> 'd point list" where
  "walk_of eps P = rev (tl (chain_of eps P)) @ rev (chain_of eps (rev P))"

lemma set_pop_stack: "set (pop_stack eps p st) \<subseteq> set st"
  by (induction eps p st rule: pop_stack.induct) auto

lemma last_pop_stack: "st \<noteq> [] \<Longrightarrow> last (pop_stack eps p st) = last st"
  by (induction eps p st rule: pop_stack.induct) auto

lemma chain_of_points: "set (chain_of eps ps) \<subseteq> set ps"
proof (induction ps rule: rev_induct)
  case (snoc p ps)
  then show ?case unfolding chain_of_snoc using set_pop_stack[of eps p "chain_of eps ps"] by auto
qed (simp add: chain_of_def)

lemma chain_of_last: "ps \<noteq> [] \<Longrightarrow> last (chain_of eps ps) = hd ps"
proof (induction ps rule: rev_induct)
  case (snoc p ps)
  show ?case
  proof (cases "ps = []")
    case False
    then have "chain_of eps ps \<noteq> []" by (rule chain_of_ends(1))
    then show ?thesis using snoc.IH False by (simp add: chain_of_snoc last_pop_stack hd_append)
  qed (simp add: chain_of_def)
qed simp

lemma chain_of_long: "2 \<le> length ps \<Longrightarrow> 2 \<le> length (chain_of eps ps)"
proof (cases ps rule: rev_cases)
  case (snoc qs q)
  assume "2 \<le> length ps"
  then have "chain_of eps qs \<noteq> []" using snoc by (intro chain_of_ends(1)) auto
  then show ?thesis using snoc by (simp add: chain_of_snoc Suc_le_eq)
qed simp

lemma closed_walk:
  assumes "hd W = last W" "i < length (butlast W)"
  shows "butlast W ! i = W ! i" "butlast W ! (Suc i mod length (butlast W)) = W ! Suc i"
proof -
  have "W \<noteq> []" using assms(2) by auto
  then have W: "W \<noteq> []" "length W = Suc (length (butlast W))" by simp_all
  show "butlast W ! i = W ! i" using assms(2) by (rule nth_butlast)
  show "butlast W ! (Suc i mod length (butlast W)) = W ! Suc i"
  proof (cases "Suc i < length (butlast W)")
    case True
    then show ?thesis by (simp add: nth_butlast)
  next
    case False
    then have i: "Suc i = length (butlast W)" using assms(2) by simp
    have "W ! Suc i = last W" using last_conv_nth[OF W(1)] i by simp
    moreover have "butlast W ! 0 = W ! 0" using assms(2) by (intro nth_butlast) linarith
    moreover have "hd W = W ! 0" by (rule hd_conv_nth[OF W(1)])
    ultimately show ?thesis unfolding i using assms(1) by simp
  qed
qed

lemma two_elements: "2 \<le> length xs \<Longrightarrow> \<exists>x ys. xs = x # ys \<and> ys \<noteq> []"
  by (cases xs) auto

lemma walk_of_closed:
  assumes "2 \<le> length P"
  shows "hd (walk_of eps P) = last (walk_of eps P)" "set (walk_of eps P) \<subseteq> set P" "3 \<le> length (walk_of eps P)"
    "\<And>i. i < length (tl (chain_of eps P)) \<Longrightarrow> walk_of eps P ! i = rev (chain_of eps P) ! i \<and> walk_of eps P ! Suc i = rev (chain_of eps P) ! Suc i"
    "\<And>i. walk_of eps P ! (length (tl (chain_of eps P)) + i) = rev (chain_of eps (rev P)) ! i"
proof -
  have P: "P \<noteq> []" "rev P \<noteq> []" using assms by auto
  let ?C = "chain_of eps P" and ?D = "chain_of eps (rev P)"
  have C: "2 \<le> length ?C" "hd ?C = last P" "last ?C = hd P" "set ?C \<subseteq> set P"
    using chain_of_long[OF assms] chain_of_ends(2)[OF P(1)] chain_of_last[OF P(1)] chain_of_points[of eps P] by simp_all
  have D: "2 \<le> length ?D" "hd ?D = hd P" "last ?D = last P" "set ?D \<subseteq> set P"
    using chain_of_long[of "rev P"] assms chain_of_ends(2)[OF P(2)] chain_of_last[OF P(2)] chain_of_points[of eps "rev P"] P
    by (auto simp: last_rev hd_rev)
  have W: "walk_of eps P = rev (tl ?C) @ rev ?D" by (simp add: walk_of_def)
  obtain M X where CX: "?C = M # X" "X \<noteq> []" using two_elements[OF C(1)] by blast
  obtain Y where DY: "rev ?D = M # Y" using D(1,3) C(2) CX(1) by (cases "rev ?D") (auto simp: hd_rev[symmetric])
  show "hd (walk_of eps P) = last (walk_of eps P)" unfolding W using CX C(3) D(1,2) by (cases ?D) (auto simp: hd_rev hd_append)
  show "set (walk_of eps P) \<subseteq> set P" unfolding W using C(4) D(4) CX(1) by auto
  show "3 \<le> length (walk_of eps P)" unfolding W using C(1) D(1) by simp
  show "walk_of eps P ! i = rev ?C ! i \<and> walk_of eps P ! Suc i = rev ?C ! Suc i" if "i < length (tl ?C)" for i
    unfolding W DY using that CX(1) by (auto simp: nth_append less_Suc_eq)
  show "walk_of eps P ! (length (tl ?C) + i) = rev ?D ! i" for i unfolding W by (simp add: nth_append)
qed

lemma ConvexHull_walk:
  assumes "3 \<le> length points" "mset (srt points) = mset points"
  shows "ConvexHull srt eps points = (srt points, butlast (walk_of eps (srt points)))"
proof -
  have "srt points \<noteq> []" using assms by (metis length_0_conv mset_eq_length not_numeral_le_zero)
  then show ?thesis using ConvexHull_chains[OF assms(1)] by (simp add: walk_of_def)
qed



section \<open>The hull under any arithmetic\<close>

fun right_turns :: "'d::{minus,times,abs,zero,ord} \<Rightarrow> 'd point list \<Rightarrow> bool" where
  "right_turns eps (c # b # a # st) \<longleftrightarrow> PointLinePosition eps a b c = kRight \<and> right_turns eps (b # a # st)"
| "right_turns eps st \<longleftrightarrow> True"

lemma right_turns_tl: "right_turns eps (b # st) \<Longrightarrow> right_turns eps st"
  by (cases "(eps, b # st)" rule: right_turns.cases) auto

lemma right_turns_pop: "right_turns eps st \<Longrightarrow> right_turns eps (p # pop_stack eps p st)"
proof (induction eps p st rule: pop_stack.induct)
  case (1 eps p b a st)
  then show ?case using right_turns_tl[OF 1(2)] by simp
qed simp_all

lemma right_turns_chain: "right_turns eps (chain_of eps ps)"
proof (induction ps rule: rev_induct)
  case (snoc p ps)
  then show ?case unfolding chain_of_snoc by (rule right_turns_pop)
qed (simp add: chain_of_def)

lemma right_turns_rev:
  "right_turns eps st \<Longrightarrow> Suc (Suc i) < length st \<Longrightarrow> PointLinePosition eps (rev st ! i) (rev st ! Suc i) (rev st ! Suc (Suc i)) = kRight"
proof (induction st arbitrary: i)
  case (Cons c st)
  show ?case
  proof (cases "Suc (Suc i) < length st")
    case True
    then show ?thesis using Cons right_turns_tl[OF Cons.prems(1)] by (simp add: nth_append)
  next
    case False
    then have "length st = Suc (Suc i)" using Cons.prems(2) by simp
    then obtain b a r where st: "st = b # a # r" "length r = i" by (auto simp: length_Suc_conv)
    then show ?thesis using Cons.prems(1) by (simp add: nth_append)
  qed
qed simp

text \<open>Whatever the arithmetic does, rounding included, \<open>ConvexHull\<close> returns input points only, and
  the tests of the code hold on its result: along the way to the last point and along the way back any three
  vertices in a row make a right turn.\<close>

theorem ConvexHull_right_turns:
  assumes "3 \<le> length points" and "mset (srt points) = mset points"
  shows "\<exists>hull m. ConvexHull srt eps points = (srt points, hull) \<and> set hull \<subseteq> set points \<and> m < length hull \<and>
    hull ! m = last (srt points) \<and>
    (\<forall>i. i + 2 \<le> m \<or> m \<le> i \<and> i + 2 \<le> length hull \<longrightarrow>
       PointLinePosition eps (hull ! i) (hull ! (i + 1)) (hull ! ((i + 2) mod length hull)) = kRight)"
proof -
  let ?P = "srt points"
  let ?W = "walk_of eps ?P" and ?C = "chain_of eps ?P" and ?D = "chain_of eps (rev ?P)"
  let ?m = "length (tl ?C)" and ?H = "butlast ?W"
  have len: "2 \<le> length ?P" using assms by (metis One_nat_def Suc_le_mono mset_eq_length le_SucI numeral_2_eq_2 numeral_3_eq_3 le_trans)
  then have ne: "?P \<noteq> []" "rev ?P \<noteq> []" by auto
  note walk = walk_of_closed[OF len, where eps = eps]
  have D: "2 \<le> length ?D" "last ?D = last ?P" using chain_of_long[of "rev ?P"] len chain_of_last[OF ne(2)] ne(1) by (auto simp: hd_rev)
  have W: "length ?W = ?m + length ?D" by (simp add: walk_of_def)
  have "?D \<noteq> []" using D(1) by auto
  then have "?W ! ?m = last ?P" using walk(5)[of 0] D(2) by (simp add: hd_conv_nth[symmetric] hd_rev)
  moreover have m: "?m < length ?H" using W D(1) by simp
  ultimately have apex: "?H ! ?m = last ?P" by (simp add: nth_butlast)
  have at: "?H ! (j mod length ?H) = ?W ! j" if "j \<le> length ?H" for j
    using closed_walk[OF walk(1), of "j - 1"] closed_walk(1)[OF walk(1), of 0] that m by (cases j) (auto simp: nth_butlast)
  have "PointLinePosition eps (?H ! i) (?H ! (i + 1)) (?H ! ((i + 2) mod length ?H)) = kRight"
    if i: "i + 2 \<le> ?m \<or> ?m \<le> i \<and> i + 2 \<le> length ?H" for i
  proof -
    have "i + 2 \<le> length ?H" using i m by auto
    then have h: "?H ! i = ?W ! i" "?H ! (i + 1) = ?W ! Suc i" "?H ! ((i + 2) mod length ?H) = ?W ! Suc (Suc i)"
      using at[of "i + 2"] by (simp_all add: nth_butlast)
    show ?thesis
    proof (cases "?m \<le> i")
      case True
      then obtain j where j: "i = ?m + j" using le_Suc_ex by blast
      then have "Suc (Suc j) < length ?D" using \<open>i + 2 \<le> length ?H\<close> W by simp
      then show ?thesis unfolding h using right_turns_rev[OF right_turns_chain, of j eps "rev ?P"] walk(5)[of j] walk(5)[of "Suc j"] walk(5)[of "Suc (Suc j)"] j
        by simp
    next
      case False
      then have "Suc (Suc i) < length ?C" "i < ?m" "Suc i < ?m" using i by auto
      then show ?thesis unfolding h using right_turns_rev[OF right_turns_chain, of i eps ?P] walk(4)[of i] walk(4)[of "Suc i"] by simp
    qed
  qed
  moreover have "set ?H \<subseteq> set points" using walk(2) assms(2) in_set_butlastD by (metis mset_eq_setD subset_iff)
  ultimately show ?thesis using ConvexHull_walk[of points srt eps, OF assms] m apex by blast
qed

section \<open>The orientation of polygons\<close>





section \<open>Examples\<close>


lemma point_order: "strict_weak_order (Point_less :: int point \<Rightarrow> int point \<Rightarrow> bool)"
  by unfold_locales (auto simp: Point_less_def deq_def)

definition square :: "int point list" where
  "square = [\<lparr>px = 1, py = 1\<rparr>, \<lparr>px = 2, py = 2\<rparr>, \<lparr>px = 0, py = 0\<rparr>, \<lparr>px = 2, py = 0\<rparr>, \<lparr>px = 1, py = 0\<rparr>, \<lparr>px = 0, py = 2\<rparr>]"

lemma square_sort: "std_sort_ok Point_less (insertion_sort (Point_less :: int point \<Rightarrow> int point \<Rightarrow> bool))"
  by (rule strict_weak_order.insertion_sort_ok[OF point_order])

lemma square_long: "3 \<le> length square"
  by (simp add: square_def)


lemma square_sorted: "mset (insertion_sort Point_less square) = mset square"
  using square_sort by (simp add: std_sort_ok_def)

theorem ConvexHull_right_turns_witness:
  "\<exists>hull m. ConvexHull (insertion_sort Point_less) 1 square = (insertion_sort Point_less square, hull) \<and> set hull \<subseteq> set square \<and>
     m < length hull \<and> hull ! m = last (insertion_sort Point_less square) \<and>
     (\<forall>i. i + 2 \<le> m \<or> m \<le> i \<and> i + 2 \<le> length hull \<longrightarrow>
        PointLinePosition 1 (hull ! i) (hull ! (i + 1)) (hull ! ((i + 2) mod length hull)) = kRight)"
  by (rule ConvexHull_right_turns[of square "insertion_sort Point_less", OF square_long square_sorted])

end
