(* ===== verification/Endpoint.thy ===== *)
theory Endpoint
  imports Resp_Numbers
begin

text \<open>
  \<open>Endpoint\<close> (endpoint.h, endpoint.cpp) and \<open>Status\<close> (status.h) of conn_util: a host and a port, read
  from a text, printed, and turned into a socket address.  A text is a \<open>std::string\<close>, which may hold
  NUL bytes; what the C library sees of it ends at the first one.
\<close>

section \<open>Status\<close>

(* status.h:8-14 StatusCode *)
datatype status_code = kOk | kInvalidArgument | kIoError | kProtocolError | kClosed

(* status.h:44-46 Status *)
record status =
  code :: status_code
  message :: string

(* status.h:22-22 Status::Ok *)
definition Status_Ok :: status where
  "Status_Ok = \<lparr>code = kOk, message = []\<rparr>"

(* status.h:24-26 Status::InvalidArgument *)
definition Status_InvalidArgument :: "string \<Rightarrow> status" where
  "Status_InvalidArgument m = \<lparr>code = kInvalidArgument, message = m\<rparr>"

(* status.h:28-30 Status::IoError *)
definition Status_IoError :: "string \<Rightarrow> status" where
  "Status_IoError m = \<lparr>code = kIoError, message = m\<rparr>"

(* status.h:32-34 Status::ProtocolError *)
definition Status_ProtocolError :: "string \<Rightarrow> status" where
  "Status_ProtocolError m = \<lparr>code = kProtocolError, message = m\<rparr>"

(* status.h:36-38 Status::Closed *)
definition Status_Closed :: "string \<Rightarrow> status" where
  "Status_Closed m = \<lparr>code = kClosed, message = m\<rparr>"

(* status.h:40-40 Status::ok *)
definition Status_ok :: "status \<Rightarrow> bool" where
  "Status_ok s \<longleftrightarrow> code s = kOk"

section \<open>The C library\<close>

abbreviation NUL :: char where "NUL \<equiv> CHR 0x00"

text \<open>What a C function reads of a text: the bytes before the first NUL.\<close>

definition c_str :: "string \<Rightarrow> string" where
  "c_str = takeWhile (\<lambda>c. c \<noteq> NUL)"





section \<open>Endpoints\<close>

(* endpoint.h:24-26 Endpoint *)
record endpoint =
  host :: string
  port :: "16 word"

(* endpoint.h:13-13 Endpoint *)

text \<open>The pointer \<open>out\<close> is null or gives the endpoint it points to, before and after the call.\<close>


text \<open>The socket address, and the functions and constants of the system headers.\<close>

record sockaddr_in =
  sin_family :: nat
  sin_port :: "16 word"
  sin_addr :: "32 word"

record inet =
  AF_INET :: nat
  htons :: "16 word \<Rightarrow> 16 word"
  htonl :: "32 word \<Rightarrow> 32 word"
  inet_pton :: "string \<Rightarrow> 32 word \<Rightarrow> int \<times> 32 word"

(* endpoint.cpp:33-48 Endpoint::toSockAddr *)
definition Endpoint_toSockAddr :: "inet \<Rightarrow> endpoint \<Rightarrow> sockaddr_in option \<Rightarrow> bool \<times> sockaddr_in option" where
  "Endpoint_toSockAddr lib e out =
     (case out of None \<Rightarrow> (False, None) | Some _ \<Rightarrow>
        let addr = \<lparr>sin_family = AF_INET lib, sin_port = htons lib (port e), sin_addr = 0\<rparr> in
        if host e = ''*'' \<or> host e = ''0'' \<or> host e = ''0.0.0.0''
        then (True, Some (addr\<lparr>sin_addr := htonl lib 0\<rparr>))
        else let (r, a) = inet_pton lib (c_str (host e)) (sin_addr addr)
             in (r = 1, Some (addr\<lparr>sin_addr := a\<rparr>)))"

section \<open>Reading a port\<close>







section \<open>The texts that denote an endpoint\<close>













end
