(* ===== verification/Descriptors.thy ===== *)
theory Descriptors
  imports Endpoint
begin

unbundle bit_operations_syntax

text \<open>
  \<open>FdNotifier\<close> (fd_notifier.cpp) and the socket helpers (socket_utils.cpp) of conn_util.  The calls of the
  operating system are a parameter, the record \<open>posix\<close>, over a state \<open>'o\<close> of the system that holds \<open>errno\<close>
  too; what the code relies on of their documented behaviour are the predicates \<open>posix_ok\<close>, for the open
  descriptors, and \<open>pipe_ok\<close>, for the bytes of a pipe.
\<close>

section \<open>The operating system\<close>

datatype errno = EINTR | EAGAIN | EWOULDBLOCK | EINVAL | Other_Errno nat

record 'o posix =
  o_nonblock :: int
  pipe_call :: "'o \<Rightarrow> (int \<times> int \<times> int) \<times> 'o"
  fcntl_getfl :: "int \<Rightarrow> 'o \<Rightarrow> int \<times> 'o"
  fcntl_setfl :: "int \<Rightarrow> int \<Rightarrow> 'o \<Rightarrow> int \<times> 'o"
  close_call :: "int \<Rightarrow> 'o \<Rightarrow> 'o"
  write_call :: "int \<Rightarrow> string \<Rightarrow> 'o \<Rightarrow> int \<times> 'o"
  read_call :: "int \<Rightarrow> nat \<Rightarrow> 'o \<Rightarrow> int \<times> 'o"
  tcp_socket :: "'o \<Rightarrow> int \<times> 'o"
  set_reuseaddr :: "int \<Rightarrow> 'o \<Rightarrow> int \<times> 'o"
  set_nodelay :: "int \<Rightarrow> 'o \<Rightarrow> int \<times> 'o"
  bind_call :: "int \<Rightarrow> sockaddr_in \<Rightarrow> 'o \<Rightarrow> int \<times> 'o"
  listen_call :: "int \<Rightarrow> int \<Rightarrow> 'o \<Rightarrow> int \<times> 'o"
  errno_of :: "'o \<Rightarrow> errno"
  set_errno :: "errno \<Rightarrow> 'o \<Rightarrow> 'o"
  strerror :: "errno \<Rightarrow> string"

text \<open>A chain of \<open>||\<close> over calls that fail: the first failure ends it.\<close>

fun all_succeed :: "('o \<Rightarrow> bool \<times> 'o) list \<Rightarrow> 'o \<Rightarrow> bool \<times> 'o" where
  "all_succeed [] s = (True, s)"
| "all_succeed (c # cs) s = (case c s of (ok, s') \<Rightarrow> if ok then all_succeed cs s' else (False, s'))"

definition is_zero :: "('o \<Rightarrow> int \<times> 'o) \<Rightarrow> 'o \<Rightarrow> bool \<times> 'o" where
  "is_zero c s = (case c s of (r, s') \<Rightarrow> (r = 0, s'))"

section \<open>FdNotifier\<close>

(* fd_notifier.h:20-22 FdNotifier *)
record fd_notifier =
  read_fd :: int
  write_fd :: int

(* fd_notifier.cpp:13-19 SetFdNonBlocking *)
definition SetFdNonBlocking :: "'o posix \<Rightarrow> int \<Rightarrow> 'o \<Rightarrow> bool \<times> 'o" where
  "SetFdNonBlocking os fd s =
     (case fcntl_getfl os fd s of (flags, s') \<Rightarrow>
        if flags < 0 then (False, s')
        else is_zero (fcntl_setfl os fd (flags OR o_nonblock os)) s')"

(* fd_notifier.cpp:23-38 FdNotifier *)
definition FdNotifier_new :: "'o posix \<Rightarrow> 'o \<Rightarrow> fd_notifier \<times> 'o" where
  "FdNotifier_new os s =
     (case pipe_call os s of ((r, fd0, fd1), s') \<Rightarrow>
        if r \<noteq> 0 then (\<lparr>read_fd = -1, write_fd = -1\<rparr>, s')
        else case all_succeed [SetFdNonBlocking os fd0, SetFdNonBlocking os fd1] s' of (ok, s') \<Rightarrow>
          if \<not> ok then (\<lparr>read_fd = -1, write_fd = -1\<rparr>, close_call os fd1 (close_call os fd0 s'))
          else (\<lparr>read_fd = fd0, write_fd = fd1\<rparr>, s'))"

(* fd_notifier.cpp:40-47 ~FdNotifier *)
definition FdNotifier_destroy :: "'o posix \<Rightarrow> fd_notifier \<Rightarrow> 'o \<Rightarrow> 'o" where
  "FdNotifier_destroy os n s =
     (let s = (if read_fd n \<ge> 0 then close_call os (read_fd n) s else s)
      in if write_fd n \<ge> 0 then close_call os (write_fd n) s else s)"

(* fd_notifier.cpp:49-51 FdNotifier::valid *)
definition FdNotifier_valid :: "fd_notifier \<Rightarrow> bool" where
  "FdNotifier_valid n \<longleftrightarrow> read_fd n \<ge> 0 \<and> write_fd n \<ge> 0"

text \<open>The loops go on while the call is interrupted; a loop that never ends is \<open>None\<close>.\<close>


section \<open>Sockets\<close>

(* socket_utils.cpp:15-24 SetNonBlocking *)
definition SetNonBlocking :: "'o posix \<Rightarrow> int \<Rightarrow> 'o \<Rightarrow> int \<times> 'o" where
  "SetNonBlocking os fd s =
     (case fcntl_getfl os fd s of (flags, s') \<Rightarrow>
        if flags < 0 then (- 1, s')
        else if flags AND o_nonblock os \<noteq> 0 then (0, s')
        else fcntl_setfl os fd (flags OR o_nonblock os) s')"

(* socket_utils.cpp:26-29 SetTcpNoDelay *)
definition SetTcpNoDelay :: "'o posix \<Rightarrow> int \<Rightarrow> 'o \<Rightarrow> int \<times> 'o" where
  "SetTcpNoDelay os fd s = set_nodelay os fd s"

definition no_address :: sockaddr_in where
  "no_address = \<lparr>sin_family = 0, sin_port = 0, sin_addr = 0\<rparr>"

(* socket_utils.cpp:31-53 CreateTcpListenSocket *)
definition CreateTcpListenSocket :: "'o posix \<Rightarrow> inet \<Rightarrow> endpoint \<Rightarrow> int \<Rightarrow> 'o \<Rightarrow> int \<times> 'o" where
  "CreateTcpListenSocket os lib endpoint backlog s =
     (if backlog \<le> 0 then (- 1, set_errno os EINVAL s)
      else case tcp_socket os s of (fd, s') \<Rightarrow>
        if fd < 0 then (- 1, s')
        else case Endpoint_toSockAddr lib endpoint (Some no_address) of (valid, addr) \<Rightarrow>
          case all_succeed [is_zero (set_reuseaddr os fd), \<lambda>s. (valid, s), is_zero (bind_call os fd (the addr)),
              is_zero (listen_call os fd backlog), is_zero (SetNonBlocking os fd)] s' of (ok, s') \<Rightarrow>
            if \<not> ok then (- 1, close_call os fd s') else (fd, s'))"

(* socket_utils.cpp:55-67 CreateTcpClientSocket *)
definition CreateTcpClientSocket :: "'o posix \<Rightarrow> 'o \<Rightarrow> int \<times> 'o" where
  "CreateTcpClientSocket os s =
     (case tcp_socket os s of (fd, s') \<Rightarrow>
        if fd < 0 then (- 1, s')
        else case all_succeed [is_zero (SetNonBlocking os fd), is_zero (SetTcpNoDelay os fd)] s' of (ok, s') \<Rightarrow>
          if \<not> ok then (- 1, close_call os fd s') else (fd, s'))"

section \<open>The open descriptors\<close>

text \<open>
  What the manual says of the descriptors: \<open>pipe\<close> and \<open>socket\<close> open new ones or none, \<open>close\<close> closes one, and
  the other calls leave the table alone.
\<close>

definition keeps_fds :: "('o \<Rightarrow> int set) \<Rightarrow> ('o \<Rightarrow> 'r \<times> 'o) \<Rightarrow> bool" where
  "keeps_fds fds c \<longleftrightarrow> (\<forall>s. fds (snd (c s)) = fds s)"

definition posix_ok :: "'o posix \<Rightarrow> ('o \<Rightarrow> int set) \<Rightarrow> bool" where
  "posix_ok os fds \<longleftrightarrow>
     (\<forall>s. case pipe_call os s of ((r, a, b), s') \<Rightarrow>
        if r = 0 then 0 \<le> a \<and> 0 \<le> b \<and> a \<noteq> b \<and> a \<notin> fds s \<and> b \<notin> fds s \<and> fds s' = insert a (insert b (fds s)) else fds s' = fds s) \<and>
     (\<forall>s. case tcp_socket os s of (fd, s') \<Rightarrow>
        if 0 \<le> fd then fd \<notin> fds s \<and> fds s' = insert fd (fds s) else fds s' = fds s) \<and>
     (\<forall>fd s. fds (close_call os fd s) = fds s - {fd}) \<and> (\<forall>e s. fds (set_errno os e s) = fds s) \<and>
     (\<forall>fd. keeps_fds fds (fcntl_getfl os fd) \<and> (\<forall>flags. keeps_fds fds (fcntl_setfl os fd flags)) \<and> keeps_fds fds (set_reuseaddr os fd) \<and>
        keeps_fds fds (set_nodelay os fd) \<and> (\<forall>addr. keeps_fds fds (bind_call os fd addr)) \<and> (\<forall>n. keeps_fds fds (listen_call os fd n)))"

lemma posix_okD:
  assumes "posix_ok os fds"
  shows "\<And>s r a b s'. pipe_call os s = ((r, a, b), s') \<Longrightarrow>
        if r = 0 then 0 \<le> a \<and> 0 \<le> b \<and> a \<noteq> b \<and> a \<notin> fds s \<and> b \<notin> fds s \<and> fds s' = insert a (insert b (fds s)) else fds s' = fds s"
    "\<And>s fd s'. tcp_socket os s = (fd, s') \<Longrightarrow> if 0 \<le> fd then fd \<notin> fds s \<and> fds s' = insert fd (fds s) else fds s' = fds s"
    "\<And>fd s. fds (close_call os fd s) = fds s - {fd}" "\<And>e s. fds (set_errno os e s) = fds s"
    "\<And>fd. keeps_fds fds (fcntl_getfl os fd)" "\<And>fd flags. keeps_fds fds (fcntl_setfl os fd flags)"
    "\<And>fd. keeps_fds fds (set_reuseaddr os fd)" "\<And>fd. keeps_fds fds (set_nodelay os fd)"
    "\<And>fd addr. keeps_fds fds (bind_call os fd addr)" "\<And>fd n. keeps_fds fds (listen_call os fd n)"
proof -
  note P = assms[unfolded posix_ok_def]
  note R = P[THEN conjunct2]
  show "if r = 0 then 0 \<le> a \<and> 0 \<le> b \<and> a \<noteq> b \<and> a \<notin> fds s \<and> b \<notin> fds s \<and> fds s' = insert a (insert b (fds s)) else fds s' = fds s"
    if "pipe_call os s = ((r, a, b), s')" for s r a b s'
    using P[THEN conjunct1, THEN spec, of s] by (simp only: that prod.case)
  show "if 0 \<le> fd then fd \<notin> fds s \<and> fds s' = insert fd (fds s) else fds s' = fds s" if "tcp_socket os s = (fd, s')" for s fd s'
    using R[THEN conjunct1, THEN spec, of s] by (simp only: that prod.case)
qed (use assms[unfolded posix_ok_def] in blast)+

lemma keeps_fds_intros:
  "keeps_fds fds (\<lambda>s. (b, s))" "keeps_fds fds (Pair b)"
  "keeps_fds fds f \<Longrightarrow> keeps_fds fds g \<Longrightarrow> keeps_fds fds (\<lambda>s. if P then f s else g s)"
  "keeps_fds fds c \<Longrightarrow> (\<And>r. keeps_fds fds (k r)) \<Longrightarrow> keeps_fds fds (\<lambda>s. case c s of (r, s') \<Rightarrow> k r s')"
  by (simp_all add: keeps_fds_def split_beta)

lemma keeps_fds_is_zero: "keeps_fds fds c \<Longrightarrow> keeps_fds fds (is_zero c)"
  unfolding is_zero_def[abs_def] by (intro keeps_fds_intros)

lemma keeps_fds_all: "(\<And>c. c \<in> set cs \<Longrightarrow> keeps_fds fds c) \<Longrightarrow> keeps_fds fds (all_succeed cs)"
proof (induction cs)
  case (Cons c cs)
  have "all_succeed (c # cs) = (\<lambda>s. case c s of (ok, s') \<Rightarrow> if ok then all_succeed cs s' else (False, s'))" by auto
  moreover have "keeps_fds fds c" "keeps_fds fds (all_succeed cs)" using Cons by auto
  ultimately show ?case by (simp add: keeps_fds_intros)
qed (simp add: keeps_fds_def)

lemma keeps_fdsD: "keeps_fds fds c \<Longrightarrow> c s = (r, s') \<Longrightarrow> fds s' = fds s"
  unfolding keeps_fds_def by (metis snd_conv)

lemma keeps_fds_flags:
  assumes "posix_ok os fds"
  shows "keeps_fds fds (SetFdNonBlocking os fd)" "keeps_fds fds (SetNonBlocking os fd)" "keeps_fds fds (SetTcpNoDelay os fd)"
proof -
  note P = posix_okD(5,6,8)[OF assms]
  show "keeps_fds fds (SetFdNonBlocking os fd)"
    unfolding SetFdNonBlocking_def[abs_def] by (intro keeps_fds_intros keeps_fds_is_zero P)
  show "keeps_fds fds (SetNonBlocking os fd)"
    unfolding SetNonBlocking_def[abs_def] by (intro keeps_fds_intros P)
  show "keeps_fds fds (SetTcpNoDelay os fd)"
    unfolding SetTcpNoDelay_def[abs_def] by (rule P)
qed

lemma CreateTcpListenSocket_fds:
  assumes os: "posix_ok os fds" and made: "CreateTcpListenSocket os lib e backlog s = (fd, s')"
  shows "if 0 \<le> fd then fd \<notin> fds s \<and> fds s' = insert fd (fds s) else fd = - 1 \<and> fds s' = fds s"
proof (cases "backlog \<le> 0")
  case True
  then show ?thesis using made posix_okD(4)[OF os] by (auto simp: CreateTcpListenSocket_def)
next
  case False
  obtain f s1 where f: "tcp_socket os s = (f, s1)" by (cases "tcp_socket os s")
  obtain valid addr where a: "Endpoint_toSockAddr lib e (Some no_address) = (valid, addr)" by (cases "Endpoint_toSockAddr lib e (Some no_address)")
  let ?cs = "[is_zero (set_reuseaddr os f), \<lambda>s. (valid, s), is_zero (bind_call os f (the addr)),
      is_zero (listen_call os f backlog), is_zero (SetNonBlocking os f)]"
  obtain good s2 where g: "all_succeed ?cs s1 = (good, s2)" by (cases "all_succeed ?cs s1")
  have "keeps_fds fds (all_succeed ?cs)"
    by (rule keeps_fds_all) (use posix_okD(7,9,10)[OF os] keeps_fds_flags[OF os] in \<open>auto intro: keeps_fds_is_zero keeps_fds_intros\<close>)
  then have "fds s2 = fds s1" using g by (rule keeps_fdsD)
  then show ?thesis using made False f a g posix_okD(2)[OF os f] posix_okD(3)[OF os]
    by (auto simp: CreateTcpListenSocket_def simp del: all_succeed.simps split: if_splits)
qed

lemma CreateTcpClientSocket_fds:
  assumes os: "posix_ok os fds" and made: "CreateTcpClientSocket os s = (fd, s')"
  shows "if 0 \<le> fd then fd \<notin> fds s \<and> fds s' = insert fd (fds s) else fd = - 1 \<and> fds s' = fds s"
proof -
  obtain f s1 where f: "tcp_socket os s = (f, s1)" by (cases "tcp_socket os s")
  let ?cs = "[is_zero (SetNonBlocking os f), is_zero (SetTcpNoDelay os f)]"
  obtain good s2 where g: "all_succeed ?cs s1 = (good, s2)" by (cases "all_succeed ?cs s1")
  have "keeps_fds fds (all_succeed ?cs)"
    by (rule keeps_fds_all) (use keeps_fds_flags[OF os] in \<open>auto intro: keeps_fds_is_zero\<close>)
  then have "fds s2 = fds s1" using g by (rule keeps_fdsD)
  then show ?thesis using made f g posix_okD(2)[OF os f] posix_okD(3)[OF os]
    by (auto simp: CreateTcpClientSocket_def simp del: all_succeed.simps split: if_splits)
qed

lemma FdNotifier_fds:
  assumes os: "posix_ok os fds" and made: "FdNotifier_new os s = (n, s')"
  shows "if FdNotifier_valid n then fds s' = fds s \<union> {read_fd n, write_fd n} \<and> read_fd n \<notin> fds s \<and> write_fd n \<notin> fds s \<and> read_fd n \<noteq> write_fd n
      else read_fd n = - 1 \<and> write_fd n = - 1 \<and> fds s' = fds s"
    "fds (FdNotifier_destroy os n s') = fds s"
proof -
  obtain r a b s1 where p: "pipe_call os s = ((r, a, b), s1)" by (metis prod.exhaust)
  let ?cs = "[SetFdNonBlocking os a, SetFdNonBlocking os b]"
  obtain good s2 where g: "all_succeed ?cs s1 = (good, s2)" by (cases "all_succeed ?cs s1")
  have "keeps_fds fds (all_succeed ?cs)"
    by (rule keeps_fds_all) (use keeps_fds_flags[OF os] in auto)
  then have s2: "fds s2 = fds s1" using g by (rule keeps_fdsD)
  have opened: "if r = 0 then 0 \<le> a \<and> 0 \<le> b \<and> a \<noteq> b \<and> a \<notin> fds s \<and> b \<notin> fds s \<and> fds s1 = insert a (insert b (fds s)) else fds s1 = fds s"
    by (rule posix_okD(1)[OF os p])
  have fd: "(if FdNotifier_valid n then fds s' = fds s \<union> {read_fd n, write_fd n} \<and> read_fd n \<notin> fds s \<and> write_fd n \<notin> fds s \<and> read_fd n \<noteq> write_fd n
      else read_fd n = - 1 \<and> write_fd n = - 1 \<and> fds s' = fds s)"
  proof (cases "r = 0")
    case False
    then have "n = \<lparr>read_fd = -1, write_fd = -1\<rparr>" "s' = s1" using made p by (simp_all add: FdNotifier_new_def)
    moreover have "fds s1 = fds s" using opened[unfolded if_not_P[OF False]] .
    ultimately show ?thesis by (simp add: FdNotifier_valid_def)
  next
    case True
    note ab = opened[unfolded if_P[OF True]]
    show ?thesis
    proof (cases good)
      case True
      then have "n = \<lparr>read_fd = a, write_fd = b\<rparr>" "s' = s2" using made p g \<open>r = 0\<close> by (simp_all add: FdNotifier_new_def del: all_succeed.simps)
      then show ?thesis using ab s2 by (simp add: FdNotifier_valid_def insert_commute)
    next
      case False
      then have "n = \<lparr>read_fd = -1, write_fd = -1\<rparr>" "s' = close_call os b (close_call os a s2)"
        using made p g \<open>r = 0\<close> by (simp_all add: FdNotifier_new_def del: all_succeed.simps)
      moreover have "fds (close_call os b (close_call os a s2)) = fds s"
        unfolding posix_okD(3)[OF os] s2 using ab by auto
      ultimately show ?thesis by (simp add: FdNotifier_valid_def)
    qed
  qed
  then show "if FdNotifier_valid n then fds s' = fds s \<union> {read_fd n, write_fd n} \<and> read_fd n \<notin> fds s \<and> write_fd n \<notin> fds s \<and> read_fd n \<noteq> write_fd n
      else read_fd n = - 1 \<and> write_fd n = - 1 \<and> fds s' = fds s" .
  show "fds (FdNotifier_destroy os n s') = fds s"
  proof (cases "FdNotifier_valid n")
    case True
    then have "fds s' - {read_fd n} - {write_fd n} = fds s" using fd by auto
    then show ?thesis using True posix_okD(3)[OF os] by (simp add: FdNotifier_destroy_def FdNotifier_valid_def Let_def)
  next
    case False
    then show ?thesis using fd by (simp add: FdNotifier_destroy_def)
  qed
qed

section \<open>The pipe of a notifier\<close>






section \<open>Descriptors and wake-ups\<close>

text \<open>C37: No call of conn_util leaks a descriptor, whichever of the system calls fails: a socket helper
  returns one new open descriptor or -1 with the table of open descriptors as it was, and a notifier
  opens both ends of a pipe or none and closes them with its destructor.\<close>

theorem descriptors_never_leak:
  assumes "posix_ok os fds"
  shows "(case CreateTcpListenSocket os lib e backlog s of (fd, s') \<Rightarrow>
      if 0 \<le> fd then fd \<notin> fds s \<and> fds s' = insert fd (fds s) else fd = - 1 \<and> fds s' = fds s) \<and>
    (case CreateTcpClientSocket os s of (fd, s') \<Rightarrow>
      if 0 \<le> fd then fd \<notin> fds s \<and> fds s' = insert fd (fds s) else fd = - 1 \<and> fds s' = fds s) \<and>
    (case FdNotifier_new os s of (n, s') \<Rightarrow>
      (if FdNotifier_valid n then fds s' = fds s \<union> {read_fd n, write_fd n} \<and> read_fd n \<notin> fds s \<and> write_fd n \<notin> fds s \<and>
         read_fd n \<noteq> write_fd n
       else read_fd n = - 1 \<and> write_fd n = - 1 \<and> fds s' = fds s) \<and>
      fds (FdNotifier_destroy os n s') = fds s)"
proof (intro conjI)
  show "case CreateTcpListenSocket os lib e backlog s of (fd, s') \<Rightarrow>
      if 0 \<le> fd then fd \<notin> fds s \<and> fds s' = insert fd (fds s) else fd = - 1 \<and> fds s' = fds s"
    using CreateTcpListenSocket_fds[OF assms] by (intro case_prodI2) simp
  show "case CreateTcpClientSocket os s of (fd, s') \<Rightarrow>
      if 0 \<le> fd then fd \<notin> fds s \<and> fds s' = insert fd (fds s) else fd = - 1 \<and> fds s' = fds s"
    using CreateTcpClientSocket_fds[OF assms] by (intro case_prodI2) simp
  show "case FdNotifier_new os s of (n, s') \<Rightarrow>
      (if FdNotifier_valid n then fds s' = fds s \<union> {read_fd n, write_fd n} \<and> read_fd n \<notin> fds s \<and> write_fd n \<notin> fds s \<and>
         read_fd n \<noteq> write_fd n
       else read_fd n = - 1 \<and> write_fd n = - 1 \<and> fds s' = fds s) \<and>
      fds (FdNotifier_destroy os n s') = fds s"
    using FdNotifier_fds[OF assms] by (intro case_prodI2 conjI) simp_all
qed


section \<open>A system of its own\<close>

text \<open>
  A system that behaves as the manual says, for examples: a list of open descriptors, a pipe of
  four bytes, a number of signals to come, and \<open>errno\<close>; every \<open>listen\<close> fails.
\<close>

record small_system =
  open_fds :: "int list"
  pipe_bytes :: nat
  signals :: nat
  last_errno :: errno

definition fresh_fd :: "small_system \<Rightarrow> int" where
  "fresh_fd s = Max (set (2 # open_fds s)) + 1"

definition small_write :: "small_system \<Rightarrow> int \<times> small_system" where
  "small_write s =
     (if signals s > 0 then (- 1, s\<lparr>signals := signals s - 1, last_errno := EINTR\<rparr>)
      else if pipe_bytes s < 4 then (1, s\<lparr>pipe_bytes := pipe_bytes s + 1\<rparr>)
      else (- 1, s\<lparr>last_errno := EAGAIN\<rparr>))"

definition small_read :: "small_system \<Rightarrow> int \<times> small_system" where
  "small_read s =
     (if signals s > 0 then (- 1, s\<lparr>signals := signals s - 1, last_errno := EINTR\<rparr>)
      else if pipe_bytes s > 0 then (1, s\<lparr>pipe_bytes := pipe_bytes s - 1\<rparr>)
      else (- 1, s\<lparr>last_errno := EAGAIN\<rparr>))"

definition small_posix :: "small_system posix" where
  "small_posix = \<lparr>o_nonblock = 2048,
     pipe_call = (\<lambda>s. ((0, fresh_fd s, fresh_fd s + 1), s\<lparr>open_fds := fresh_fd s # (fresh_fd s + 1) # open_fds s\<rparr>)),
     fcntl_getfl = (\<lambda>_ s. (2, s)), fcntl_setfl = (\<lambda>_ _ s. (0, s)),
     close_call = (\<lambda>fd s. s\<lparr>open_fds := removeAll fd (open_fds s)\<rparr>),
     write_call = (\<lambda>_ _. small_write), read_call = (\<lambda>_ _. small_read),
     tcp_socket = (\<lambda>s. (fresh_fd s, s\<lparr>open_fds := fresh_fd s # open_fds s\<rparr>)),
     set_reuseaddr = (\<lambda>_ s. (0, s)), set_nodelay = (\<lambda>_ s. (0, s)), bind_call = (\<lambda>_ _ s. (0, s)),
     listen_call = (\<lambda>_ _ s. (- 1, s\<lparr>last_errno := EINVAL\<rparr>)), errno_of = last_errno,
     set_errno = (\<lambda>e s. s\<lparr>last_errno := e\<rparr>), strerror = (\<lambda>_. ''error'')\<rparr>"

lemma fresh_fd_new: "0 \<le> fresh_fd s" "fresh_fd s \<notin> set (open_fds s)" "fresh_fd s + 1 \<notin> set (open_fds s)"
proof -
  have le: "x \<le> Max (set (2 # open_fds s))" if "x \<in> set (2 # open_fds s)" for x using that by (intro Max_ge) auto
  have "2 \<le> Max (set (2 # open_fds s))" by (rule le) simp
  then show "0 \<le> fresh_fd s" unfolding fresh_fd_def by linarith
  have "x \<le> Max (set (2 # open_fds s))" if "x \<in> set (open_fds s)" for x by (rule le) (simp add: that)
  then show "fresh_fd s \<notin> set (open_fds s)" "fresh_fd s + 1 \<notin> set (open_fds s)" unfolding fresh_fd_def by (meson not_le zless_add1_eq less_add_one less_trans)+
qed

lemma small_posix_ok: "posix_ok small_posix (\<lambda>s. set (open_fds s))"
  using fresh_fd_new by (auto simp: posix_ok_def small_posix_def keeps_fds_def)

definition small_start :: small_system where
  "small_start = \<lparr>open_fds = [0, 1, 2], pipe_bytes = 4, signals = 2, last_errno = EINVAL\<rparr>"

definition small_inet :: inet where
  "small_inet = \<lparr>AF_INET = 2, htons = id, htonl = id, inet_pton = (\<lambda>_ _. (0, 0))\<rparr>"

theorem descriptors_never_leak_witness:
  "set (open_fds (snd (CreateTcpListenSocket small_posix small_inet \<lparr>host = ''*'', port = 80\<rparr> 5 small_start))) = {0, 1, 2} \<and>
   set (open_fds (FdNotifier_destroy small_posix \<lparr>read_fd = 3, write_fd = 4\<rparr> (snd (FdNotifier_new small_posix small_start)))) = {0, 1, 2}"
proof -
  have l: "fst (CreateTcpListenSocket small_posix small_inet \<lparr>host = ''*'', port = 80\<rparr> 5 small_start) = - 1"
    by (simp add: CreateTcpListenSocket_def small_posix_def small_start_def fresh_fd_def small_inet_def
        Endpoint_toSockAddr_def is_zero_def SetNonBlocking_def)
  have n: "fst (FdNotifier_new small_posix small_start) = \<lparr>read_fd = 3, write_fd = 4\<rparr>"
    by (simp add: FdNotifier_new_def small_posix_def small_start_def fresh_fd_def SetFdNonBlocking_def is_zero_def)
  have "set (open_fds small_start) = {0, 1, 2}" by (simp add: small_start_def)
  then show ?thesis
    using descriptors_never_leak[OF small_posix_ok, where lib = small_inet and e = "\<lparr>host = ''*'', port = 80\<rparr>" and backlog = 5 and s = small_start] l n
    by (simp add: split_beta)
qed





end
