(* ===== verification/Spec2Isabelle.thy ===== *)
theory Spec2Isabelle
  imports Imt_Containers Packed_String Resp_Correct Shared_Ptr Sharded_Vyukov Range_Tree Kd_Tree Two_Lock_Queue
    Lock_Free_Queue Simple_Queue_Solo Simple_Queue_Destroy Convex_Hull Descriptors
begin

text \<open>
  A verification development for the C++17 libraries of this repository: immutable_container (persistent
  trees and the maps and sets over them), redis (the RESP codec), concurrent_queue (bounded and unbounded
  queues), computational_geometry and conn_util.  Each theory opens with a comment that names the
  file it models; a comment above each definition that models code gives the file, the lines and the
  name of the C++ symbol.  Names are those of the code, with the class in front where it is needed:
  \<open>Tree_InsertNode\<close> is \<open>ImmutableTree::InsertNode\<close>.

  \<^bold>\<open>Conventions\<close> (Cpp_Prelude).  A call that may throw returns \<open>exn + 'a\<close>; undefined behaviour is the
  exception \<open>Undefined_Behaviour\<close> there, and \<open>None\<close> in the queues, so that every theorem that a call
  returns also says that it stays within the language.  Fields of fixed width are words.  Loops are
  structural recursion, \<open>foldE\<close> over an index range, \<open>function\<close> with a measure, or \<open>partial_function\<close> when
  they may run forever; a theorem about such a loop says that it returns.

  \<^bold>\<open>Immutable containers.\<close>  Ordered_Map is the specification: the list of entries, increasing for a
  strict weak order (locale \<open>strict_weak_order\<close>), with lookup, insertion, update, erasure and
  traversal.  Ordered_Tree has the record of the tree operations that imt_map.h and imt_set.h call,
  and the locale \<open>ordered_tree\<close>, the contract of a tree against that specification.  Immutable_Tree
  models immutable_tree.h (an AVL tree with 16-bit heights and 32-bit sizes, bulk construction, iteration)
  and interprets the contract (\<open>imm\<close>).  Immutable_Block_Tree models immutable_block_tree.h over any block type
  (record \<open>block_ops\<close>, locale \<open>zip_block\<close> of Zip_Block); Block_Tree_Correct proves that it meets the tree contract
  whenever its blocks meet theirs (\<open>sublocale block_tree < ordered_tree\<close>).  The three block classes of zip_list.h
  are Zip_List (generic), Zip_List_Packed with Zip_List_Packed_Correct (string keys and values in one byte
  payload), and Zip_List_Key_Set (string keys); Packed_Fit has the test whether keys fit, which the two
  specialisations share, and Packed_Text the value of a \<open>PackedString\<close> and its order.  Imt_Map_Set models the public
  containers over any tree, and Imt_Containers puts them on both trees: the maps agree call by call,
  and the map and the set of strings refine the ordered map down to the bytes of their blocks.
  Packed_String models packed_string.h in memory (the tagged union, the heap, borrowed strings) and
  Shared_Ptr the reference counts of shared_ptr.h: programs over shared pointers are programs over
  tree values, free every node once and leak none.

  \<^bold>\<open>RESP codec\<close> (resp.h).  Resp has the packers and the parser with its scratch vector of values, the limits
  and the depth bound; Resp_Numbers the decimal numbers; Resp_Correct the round trip of value trees,
  safety for every input (no undefined behaviour, no exception escapes, consumed bytes and indices in
  bounds), and that an answer other than \<open>kNeedMore\<close> does not change when more bytes arrive.

  \<^bold>\<open>Concurrent queues.\<close>  A queue is a machine: a state, and one step function for each operation,
  whose cases are the atomic actions of the code (each load, store, compare-exchange, lock and access to
  a shared node), under sequential consistency; a schedule is a list of steps of any threads.  A
  compare-exchange may fail spuriously and an allocation takes any unused address, both chosen by
  the schedule.  Vyukov_Queue (the bounded queue of sharded_vyukov_queue.h, with its 64-bit
  tickets), Sharded_Vyukov (capacity computation and shard selection), Two_Lock_Queue, Lock_Free_Queue and
  Simple_Queue model one queue each; Simple_Queue_Correct has the invariant and the refinement of the last,
  Simple_Queue_Destroy a second invariant, of the lists its destructors follow, Simple_Queue_Solo a measure
  that bounds its calls.  Atomic_Queue has the specification of the two-lock and
  the lock-free queue, a FIFO queue whose calls take effect at one moment (that of the simple queue, FIFO queues
  side by side, is in Simple_Queue_Correct), and the locale \<open>lock_step\<close>: a
  relation kept by every step, from which acceptance of all schedules follows.  The lemmas
  of each theory are its invariant, that every step keeps it, and the refinement; then the
  absence of data races on the plain fields (bounded and two-lock queue), the return of a call that runs
  alone (bounded, lock-free and simple queue), and destruction (the unbounded queues).
  The theorems about the bounded queue hold for schedules of less than \<open>2 ^ 62\<close> steps, so that tickets
  do not come round.

  \<^bold>\<open>Geometry.\<close>  Range_Tree (range_tree.h and \<open>Interval\<close>), Kd_Tree (kdtree.h over any ordered ring;
  \<open>std::nth_element\<close> and \<open>std::priority_queue\<close> are parameters with their guarantees), Plane_Geometry (common.h,
  point_circle.h, edge_polygon.h over an arithmetic of which nothing is assumed) and Convex_Hull: the
  scan of \<open>ConvexHull\<close> under any arithmetic, its correctness where the arithmetic is exact, with the locale
  \<open>half_plane\<close> interpreted for the two directions of the scan, and the orientation of polygons.

  \<^bold>\<open>conn_util.\<close>  Endpoint models status.h and endpoint.cpp with \<open>strtol\<close> and \<open>rfind\<close>; Descriptors models
  fd_notifier.cpp and socket_utils.cpp over a record of system calls: no path leaks a descriptor,
  and the notifier wakes and drains.

  \<^bold>\<open>Assumptions.\<close>  Allocation does not fail in the trees and queues, except where a theory says so
  (\<open>UnpackOne\<close> catches \<open>bad_alloc\<close>).  Element types of the containers are values without observable
  copies; the exceptions of element constructors are modelled in the simple queue, which has handlers
  for them.  Memory orders weaker than sequential consistency are not modelled.

  \<^bold>\<open>Not modelled.\<close>  moodycamel.h and vyukov_bounded_queue.h are third-party code; the algorithm of the
  latter is that of Vyukov_Queue.  \<open>ContentionBackoff\<close>, \<open>yield\<close>, cache-line alignment, \<open>PerformanceTimer\<close>,
  stream output, the \<open>Debug\<close> accessors of the blocks, tests and benchmarks have no behaviour
  to verify.  Rounding of \<open>double\<close> is not modelled: definitions that use it are polymorphic, and
  the exact theorems say what they assume.
\<close>

end
